(* ===== verification/Prelude.thy ===== *)
theory Prelude
  imports Main "HOL-Library.Word"
begin

text \<open>
  What every component of the development shares: outcomes of Rust code (a value, a panic,
  undefined behaviour, or no return at all), the run-time environment that stands for the code
  the crate only calls (back-off, futex, scheduler), the unchecked slice access, the comparison
  of \<^verbatim>\<open>std::cmp\<close>, and the packing of a 32-bit lap and a 32-bit index into the 64-bit
  cursors of the bounded queues.
\<close>

type_synonym u32 = "32 word"
type_synonym u64 = "64 word"
type_synonym i32 = "32 word"

named_theorems run_simps \<open>unfolding of runs\<close>
named_theorems cursor_simps \<open>laps and indices of packed cursors\<close>

section \<open>Outcomes\<close>

text \<open>
  A call either returns a value, panics (a failed \<^verbatim>\<open>assert!\<close> or \<^verbatim>\<open>unwrap\<close>), or has undefined
  behaviour (a null or dangling pointer, an uninitialised \<^verbatim>\<open>MaybeUninit\<close>). A run may
  also never return: that is the value \<^term>\<open>None\<close> of the option type.
\<close>

datatype 'a outcome = Ret 'a | Panic | Undef

type_synonym 'a run = "'a outcome option"

abbreviation ret :: "'a \<Rightarrow> 'a run" where
  "ret x \<equiv> Some (Ret x)"

abbreviation diverges :: "'a run \<Rightarrow> bool" where
  "diverges r \<equiv> r = None"

fun obind :: "'a outcome \<Rightarrow> ('a \<Rightarrow> 'b outcome) \<Rightarrow> 'b outcome" where
  "obind (Ret x) f = f x"
| "obind Panic f = Panic"
| "obind Undef f = Undef"

definition after :: "('a \<Rightarrow> 'b run) \<Rightarrow> 'a outcome \<Rightarrow> 'b run" where
  "after f r = (case r of Ret x \<Rightarrow> f x | Panic \<Rightarrow> Some Panic | Undef \<Rightarrow> Some Undef)"

definition rbind :: "'a run \<Rightarrow> ('a \<Rightarrow> 'b run) \<Rightarrow> 'b run" where
  "rbind m f = Option.bind m (after f)"

lemma rbind_simps [simp, run_simps]:
  "rbind (Some (Ret x)) f = f x"
  "rbind (Some Panic) f = Some Panic"
  "rbind (Some Undef) f = Some Undef"
  "rbind None f = None"
  by (simp_all add: rbind_def after_def)

lemma rbind_ret_iff:
  "rbind m f = ret y \<longleftrightarrow> (\<exists>x. m = ret x \<and> f x = ret y)"
  by (cases m) (auto simp: rbind_def after_def split: outcome.splits)

lemma rbind_Some_cases:
  "rbind m f = Some r \<Longrightarrow> (\<exists>x. m = ret x \<and> f x = Some r) \<or> m = Some Panic \<or> m = Some Undef"
  by (cases m) (auto simp: rbind_def after_def split: outcome.splits)

lemma rbind_assoc: "rbind (rbind m f) g = rbind m (\<lambda>x. rbind (f x) g)"
  by (cases m) (auto simp: rbind_def after_def split: outcome.splits)

lemma rbind_id: "rbind m (\<lambda>x. ret x) = m"
  by (cases m) (auto simp: rbind_def after_def split: outcome.splits)

lemma rbind_cong [fundef_cong]:
  "m = m' \<Longrightarrow> (\<And>x. m' = ret x \<Longrightarrow> f x = f' x) \<Longrightarrow> rbind m f = rbind m' f'"
  by (cases m') (auto simp: rbind_def after_def split: outcome.splits)

text \<open>\<^const>\<open>rbind\<close> is monotone, so loops over runs may be defined by \<^theory_text>\<open>partial_function (option)\<close>.\<close>

lemma after_mono:
  assumes "\<And>x. monotone (fun_ord option_ord) option_ord (\<lambda>f. C x f)"
  shows "monotone (fun_ord option_ord) option_ord (\<lambda>f. after (\<lambda>x. C x f) r)"
  using assms by (cases r) (auto simp: after_def monotone_def flat_ord_def)

lemma rbind_mono [partial_function_mono]:
  assumes "mono_option B" and "\<And>x. mono_option (\<lambda>f. C x f)"
  shows "mono_option (\<lambda>f. rbind (B f) (\<lambda>x. C x f))"
  unfolding rbind_def
  by (rule bind_mono [OF assms(1)]) (rule after_mono [OF assms(2)])

text \<open>A \<^verbatim>\<open>Result<A, E>\<close> is a sum whose left side is the error.\<close>

type_synonym ('a, 'e) result = "'e + 'a"

abbreviation Ok :: "'a \<Rightarrow> ('a, 'e) result" where
  "Ok \<equiv> Inr"

abbreviation Err :: "'e \<Rightarrow> ('a, 'e) result" where
  "Err \<equiv> Inl"

section \<open>Unchecked slice access\<close>

text \<open>\<^verbatim>\<open>slice.get_unchecked(i)\<close>: undefined behaviour out of range.\<close>

definition get_unchecked :: "'a list \<Rightarrow> nat \<Rightarrow> 'a outcome" where
  "get_unchecked xs i = (if i < length xs then Ret (xs ! i) else Undef)"

lemma get_unchecked_in [simp]: "i < length xs \<Longrightarrow> get_unchecked xs i = Ret (xs ! i)"
  by (simp add: get_unchecked_def)

section \<open>Comparison\<close>

datatype ordering = Less | Equal | Greater

text \<open>\<^verbatim>\<open>a.cmp(&b)\<close> on \<^verbatim>\<open>u32\<close>.\<close>

definition cmp :: "u32 \<Rightarrow> u32 \<Rightarrow> ordering" where
  "cmp a b = (if a < b then Less else if a = b then Equal else Greater)"

lemma cmp_simps [simp]:
  "cmp a a = Equal" "a < b \<Longrightarrow> cmp a b = Less" "b < a \<Longrightarrow> cmp a b = Greater"
  by (auto simp: cmp_def)

lemma cmp_iff:
  "cmp a b = Equal \<longleftrightarrow> a = b" "cmp a b = Less \<longleftrightarrow> a < b" "cmp a b = Greater \<longleftrightarrow> b < a"
  by (auto simp: cmp_def)

section \<open>The run-time environment\<close>

text \<open>
  The crates \<^verbatim>\<open>omango_util\<close> (back-off) and \<^verbatim>\<open>omango_futex\<close> are not part of the
  repository. Each of their calls is a pause of the calling thread, in which other threads may
  change the shared state; so is each wait for a mutex in a retry loop. A run carries the number
  of pauses made so far, and the environment is an argument of the model: what the other threads
  do in the \<^term>\<open>k\<close>-th pause, what \<^verbatim>\<open>Backoff::snooze_completed\<close> answers there, and whether a
  \<^verbatim>\<open>compare_exchange_weak\<close> made after \<^term>\<open>k\<close> pauses fails spuriously, as the standard library
  allows it to.
\<close>

record 'q runtime =
  env :: "nat \<Rightarrow> 'q \<Rightarrow> 'q"
  completed :: "nat \<Rightarrow> bool"
  spurious :: "nat \<Rightarrow> bool"

type_synonym 'q clocked = "nat \<times> 'q"

definition pause :: "'q runtime \<Rightarrow> 'q clocked \<Rightarrow> 'q clocked" where
  "pause rt s = (Suc (fst s), env rt (fst s) (snd s))"

lemma pause_simp [simp]: "pause rt (k, q) = (Suc k, env rt k q)"
  by (simp add: pause_def)

text \<open>An environment in which no other thread touches the state.\<close>

definition quiet :: "'q runtime \<Rightarrow> bool" where
  "quiet rt \<longleftrightarrow> (\<forall>k q. env rt k q = q)"

lemma quietD [simp]: "quiet rt \<Longrightarrow> env rt k q = q"
  by (simp add: quiet_def)

definition solo :: "'q runtime" where
  "solo = \<lparr>env = (\<lambda>_ q. q), completed = (\<lambda>k. k mod 3 = 2), spurious = (\<lambda>_. False)\<rparr>"

lemma solo_simps [simp]:
  "env solo k q = q" "completed solo k = (k mod 3 = 2)" "spurious solo k = False" "quiet solo"
  by (simp_all add: solo_def quiet_def)

text \<open>
  The standard library says of \<^verbatim>\<open>compare_exchange_weak\<close> that it may fail spuriously, so it
  is called in a loop: no run of spurious failures is endless. From pause \<^term>\<open>k\<close> on no other
  thread disturbs a \<^verbatim>\<open>live\<close> environment.
\<close>

definition live :: "'q runtime \<Rightarrow> nat \<Rightarrow> bool" where
  "live rt k \<longleftrightarrow> (\<forall>j\<ge>k. \<forall>q. env rt j q = q) \<and> (\<forall>j\<ge>k. \<exists>i\<ge>j. \<not> spurious rt i)"

lemma live_env [simp]: "live rt k \<Longrightarrow> env rt k q = q"
  by (simp add: live_def)

lemma live_later: "live rt k \<Longrightarrow> k \<le> k' \<Longrightarrow> live rt k'"
  by (auto simp: live_def)

text \<open>Induction over the spurious failures that are still to come.\<close>

lemma live_induct [consumes 1, case_names now later]:
  assumes "live rt k"
    and now: "\<And>k. live rt k \<Longrightarrow> \<not> spurious rt k \<Longrightarrow> P k"
    and later: "\<And>k. live rt k \<Longrightarrow> spurious rt k \<Longrightarrow> P (Suc k) \<Longrightarrow> P k"
  shows "P k"
proof -
  from assms(1) obtain i where "\<not> spurious rt i" and "k \<le> i" by (auto simp: live_def)
  from this(2) show ?thesis
    using assms(1)
  proof (induction k rule: inc_induct)
    case base
    then show ?case using now \<open>\<not> spurious rt i\<close> by blast
  next
    case (step k)
    then show ?case
      using now later live_later [of rt k "Suc k"] by (cases "spurious rt k") auto
  qed
qed

lemma live_solo [simp]: "live solo k"
  by (auto simp: live_def)

text \<open>
  \<^verbatim>\<open>compare_exchange_weak\<close> after \<^term>\<open>k\<close> pauses: the new value is stored when the cell holds
  the expected one and the exchange does not fail spuriously; otherwise the result is the value
  found.
\<close>

definition cas_weak :: "'q runtime \<Rightarrow> nat \<Rightarrow> 'v \<Rightarrow> 'v \<Rightarrow> ('v, 'v) result" where
  "cas_weak rt k found expect = (if found = expect \<and> \<not> spurious rt k then Ok found else Err found)"

section \<open>Packed cursors\<close>

text \<open>
  A cursor is a \<^verbatim>\<open>u64\<close> whose high half is the lap and whose low half is the index:
  \<^verbatim>\<open>meta as u32\<close>, \<^verbatim>\<open>(meta >> 32) as u32\<close> and \<^verbatim>\<open>(lap as u64) << 32\<close>.
\<close>

definition meta_idx :: "u64 \<Rightarrow> u32" where
  "meta_idx meta = ucast meta"

definition meta_lap :: "u64 \<Rightarrow> u32" where
  "meta_lap meta = ucast (drop_bit 32 meta)"

definition lap_meta :: "u32 \<Rightarrow> u64" where
  "lap_meta lap = push_bit 32 (ucast lap)"

definition pack :: "u32 \<Rightarrow> u32 \<Rightarrow> u64" where
  "pack lap idx = lap_meta lap + ucast idx"

lemma unat_u32_less [simp]: "unat (x :: u32) < 4294967296"
  using unsigned_less [of x, where ?'a = nat] by simp

lemma unat_plus_one: "unat (x :: u32) + 1 < 2 ^ 32 \<Longrightarrow> unat (x + 1) = unat x + 1"
  by (simp add: unat_word_ariths)

lemma unat_widen [simp]: "unat (ucast (x :: u32) :: u64) = unat x"
proof -
  have "unat x < 18446744073709551616"
    using unat_u32_less [of x] by linarith
  then show ?thesis
    by (simp add: unsigned_ucast_eq take_bit_eq_mod)
qed

lemma unat_narrow: "unat (ucast (x :: u64) :: u32) = unat x mod 4294967296"
  by (simp add: unsigned_ucast_eq take_bit_eq_mod)

lemma unat_lap_meta: "unat (lap_meta lap) = unat lap * 4294967296"
proof -
  have "unat lap * 4294967296 < 18446744073709551616"
    using unat_u32_less [of lap] by linarith
  then show ?thesis
    unfolding lap_meta_def unsigned_push_bit_eq
    by (simp add: push_bit_eq_mult take_bit_eq_mod)
qed

lemma unat_pack: "unat (pack lap idx) = unat lap * 4294967296 + unat idx"
proof -
  have "unat lap * 4294967296 + unat idx < 18446744073709551616"
    using unat_u32_less [of lap] unat_u32_less [of idx] by linarith
  then show ?thesis
    by (simp add: pack_def unat_word_ariths unat_lap_meta)
qed

lemma meta_idx_pack [simp, cursor_simps]: "meta_idx (pack lap idx) = idx"
  by (rule unsigned_word_eqI [where ?'a = nat])
    (simp add: meta_idx_def unat_narrow unat_pack)

lemma meta_lap_pack [simp, cursor_simps]: "meta_lap (pack lap idx) = lap"
proof (rule unsigned_word_eqI [where ?'a = nat])
  have "(unat lap * 4294967296 + unat idx) div 4294967296 = unat lap"
    using unat_u32_less [of idx] by simp
  then show "unat (meta_lap (pack lap idx)) = unat lap"
    by (simp add: meta_lap_def unat_narrow drop_bit_eq_div unat_div_distrib unat_pack)
qed

lemma pack_zero: "lap_meta lap = pack lap 0"
  by (simp add: pack_def)

lemma pack_inject [simp]: "pack l i = pack l' i' \<longleftrightarrow> l = l' \<and> i = i'"
  by (metis meta_idx_pack meta_lap_pack)

lemma pack_Suc:
  assumes "unat idx + 1 < 4294967296"
  shows "pack lap idx + 1 = pack lap (idx + 1)"
proof (rule unsigned_word_eqI [where ?'a = nat])
  have i: "unat (idx + 1) = unat idx + 1"
    using assms by (simp add: unat_word_ariths)
  have "unat lap * 4294967296 + unat idx + 1 < 18446744073709551616"
    using assms unat_u32_less [of lap] by linarith
  then have "unat (pack lap idx + 1) = unat lap * 4294967296 + unat idx + 1"
    by (simp add: unat_word_ariths unat_pack)
  then show "unat (pack lap idx + 1) = unat (pack lap (idx + 1))"
    by (simp add: unat_pack i)
qed

end
