(* ===== verification/Errors.thy ===== *)
theory Errors
  imports Prelude
begin

text \<open>
  \<^verbatim>\<open>src/src/error.rs\<close> and \<^verbatim>\<open>src/src/queue/state.rs\<close>: the error types of the public operations,
  their texts, and the internal state a bucket selection answers with.
\<close>

datatype 'a send_error = SendError 'a

datatype 'a try_send_error = Full 'a | Disconnected 'a

datatype recv_error = RecvError

datatype try_recv_error = TryRecvError

datatype wrap_error = WrapError string

text \<open>\<^verbatim>\<open>str as Debug\<close>: the text between quotation marks (the texts below need no escapes).\<close>

definition debug_str :: "string \<Rightarrow> string" where
  "debug_str s = CHR 0x22 # s @ [CHR 0x22]"

text \<open>
  Inside \<^verbatim>\<open>impl Debug\<close> the call \<^verbatim>\<open>"...".fmt(f)\<close> is \<^verbatim>\<open>Debug\<close> of the text, inside
  \<^verbatim>\<open>impl Display\<close> it is the text itself.
\<close>

definition send_error_debug :: "'a send_error \<Rightarrow> string" where
  "send_error_debug e = debug_str ''SendError(..)''"

definition send_error_display :: "'a send_error \<Rightarrow> string" where
  "send_error_display e = ''sending on a disconnected channel''"

fun try_send_error_debug :: "'a try_send_error \<Rightarrow> string" where
  "try_send_error_debug (Full _) = debug_str ''Full(..)''"
| "try_send_error_debug (Disconnected _) = debug_str ''Disconnected(..)''"

fun try_send_error_display :: "'a try_send_error \<Rightarrow> string" where
  "try_send_error_display (Full _) = ''sending on a full channel''"
| "try_send_error_display (Disconnected _) = ''sending on a disconnected channel''"

fun into_inner :: "'a try_send_error \<Rightarrow> 'a" where
  "into_inner (Full v) = v"
| "into_inner (Disconnected v) = v"

definition recv_error_display :: "recv_error \<Rightarrow> string" where
  "recv_error_display e = ''receiving on an empty and disconnected channel''"

definition try_recv_error_display :: "try_recv_error \<Rightarrow> string" where
  "try_recv_error_display e = ''try receiving on an empty channel''"

text \<open>\<^verbatim>\<open>write!(f, "error: {}", self.0)\<close>; \<^verbatim>\<open>to_string\<close> is this text.\<close>

fun wrap_error_display :: "wrap_error \<Rightarrow> string" where
  "wrap_error_display (WrapError s) = ''error: '' @ s"

lemma wrap_error_display_inject:
  "wrap_error_display a = wrap_error_display b \<longleftrightarrow> a = b"
  by (cases a; cases b) simp

text \<open>\<^verbatim>\<open>State\<close> of \<^verbatim>\<open>state.rs\<close>.\<close>

datatype state = Success | Failed | Closed

end
