(* ===== verification/Elem.thy ===== *)
theory Elem
  imports Errors
begin

text \<open>
  \<^verbatim>\<open>src/src/queue/elem.rs\<close>: one bucket of a bounded queue. The message cell is a
  \<^verbatim>\<open>MaybeUninit\<close>: \<^term>\<open>None\<close> while it was never written. Reading copies the bits out and
  leaves them in place, as \<^verbatim>\<open>ptr::read\<close> does.
\<close>

record 'a elem =
  lap :: u32
  msg :: "'a option"

definition elem_default :: "'a elem" where
  "elem_default = \<lparr>lap = 0, msg = None\<rparr>"

definition load_lap :: "'a elem \<Rightarrow> u32" where
  "load_lap e = lap e"

definition elem_write :: "u32 \<Rightarrow> 'a \<Rightarrow> 'a elem \<Rightarrow> 'a elem" where
  "elem_write l m e = (let e = e\<lparr>msg := Some m\<rparr> in e\<lparr>lap := l\<rparr>)"

definition elem_read :: "u32 \<Rightarrow> 'a elem \<Rightarrow> ('a \<times> 'a elem) outcome" where
  "elem_read l e = (case msg e of None \<Rightarrow> Undef | Some m \<Rightarrow> Ret (m, e\<lparr>lap := l\<rparr>))"

text \<open>
  \<^verbatim>\<open>Drop::drop\<close> takes the message out once more and runs its destructor; the result is the
  value that is destroyed. Reading a cell that was never written is undefined behaviour.
\<close>

definition elem_drop :: "'a elem \<Rightarrow> 'a outcome" where
  "elem_drop e = (case msg e of None \<Rightarrow> Undef | Some m \<Rightarrow> Ret m)"

text \<open>Dropping the boxed slice of buckets drops every bucket in order.\<close>

fun elems_drop :: "'a elem list \<Rightarrow> 'a list outcome" where
  "elems_drop [] = Ret []"
| "elems_drop (e # es) = obind (elem_drop e) (\<lambda>m. obind (elems_drop es) (\<lambda>ms. Ret (m # ms)))"

lemma lap_elem_default [simp]: "lap elem_default = 0" "msg elem_default = None"
  by (simp_all add: elem_default_def)

lemma elem_write_sel [simp]:
  "lap (elem_write l m e) = l" "msg (elem_write l m e) = Some m"
  by (simp_all add: elem_write_def)

lemma elem_read_Some:
  "msg e = Some m \<Longrightarrow> elem_read l e = Ret (m, e\<lparr>lap := l\<rparr>)"
  by (simp add: elem_read_def)

text \<open>What was written is read back, whatever laps are stored along.\<close>

lemma elem_read_write: "\<exists>e'. elem_read l' (elem_write l m e) = Ret (m, e') \<and> lap e' = l'"
  by (simp add: elem_read_Some)

lemma elems_drop_Ret_iff:
  "elems_drop es = Ret ms \<longleftrightarrow> map msg es = map Some ms"
proof (induction es arbitrary: ms)
  case Nil
  then show ?case by auto
next
  case (Cons e es)
  show ?case
  proof (cases "msg e")
    case None
    then show ?thesis by (cases ms) (simp_all add: elem_drop_def)
  next
    case (Some m)
    then show ?thesis
      using Cons.IH by (cases ms; cases "elems_drop es") (auto simp: elem_drop_def)
  qed
qed

lemma elems_drop_Undef_iff:
  "elems_drop es = Undef \<longleftrightarrow> (\<exists>e\<in>set es. msg e = None)"
proof (induction es)
  case Nil
  then show ?case by simp
next
  case (Cons e es)
  then show ?case
    by (cases "msg e"; cases "elems_drop es") (auto simp: elem_drop_def)
qed

end
