(* ===== verification/Waker.thy ===== *)
theory Waker
  imports Elem
begin

text \<open>
  \<^verbatim>\<open>src/src/queue/waker.rs\<close>: waiters, the list of registered waiters and the operations of
  a waker. A \<^verbatim>\<open>*const Waiter\<close> is the address of a \<^verbatim>\<open>Waiter\<close> on the stack of the
  blocked thread; following the pointer of a waiter that is gone is undefined behaviour. The calls
  of \<^verbatim>\<open>omango_futex::wake_one\<close> are recorded in order of the calls.
\<close>

definition PARKED :: u32 where "PARKED = 1"
definition UN_PARKED :: u32 where "UN_PARKED = 2"

lemma parked_neq [simp]: "PARKED \<noteq> UN_PARKED" "UN_PARKED \<noteq> PARKED"
  by (simp_all add: PARKED_def UN_PARKED_def)

record waiter =
  atom :: nat
  expected :: u32
  parked :: u32

record threads =
  stack :: "nat \<rightharpoonup> waiter"
  woken :: "nat list"

definition waiter_new :: "nat \<Rightarrow> u32 \<Rightarrow> waiter" where
  "waiter_new e_lap l = \<lparr>atom = e_lap, expected = l, parked = UN_PARKED\<rparr>"

lemma waiter_new_sel [simp]:
  "atom (waiter_new i l) = i" "expected (waiter_new i l) = l" "parked (waiter_new i l) = UN_PARKED"
  by (simp_all add: waiter_new_def)

section \<open>Waiting\<close>

text \<open>
  \<^verbatim>\<open>Waiter::retry\<close>: the inner loop ends with the closed or the changed state, or with
  \<^term>\<open>None\<close> once \<^verbatim>\<open>snooze_completed\<close> says so; the outer loop repeats it. \<^term>\<open>ck\<close> is
  \<^verbatim>\<open>checker.is_close()\<close> and \<^term>\<open>ld q i\<close> the load of the lap at address \<^term>\<open>i\<close>.
\<close>

partial_function (option) retry_loop ::
  "('q \<Rightarrow> bool) \<Rightarrow> ('q \<Rightarrow> nat \<Rightarrow> u32) \<Rightarrow> 'q runtime \<Rightarrow> waiter \<Rightarrow> 'q clocked \<Rightarrow>
    ('q clocked \<times> state option) run" where
  "retry_loop ck ld rt w s =
     (if ck (snd s) then ret (s, Some Closed)
      else if ld (snd s) (atom w) \<noteq> expected w then ret (s, Some Success)
      else if completed rt (fst s) then ret (pause rt s, None)
      else retry_loop ck ld rt w (pause rt s))"

fun retry ::
  "('q \<Rightarrow> bool) \<Rightarrow> ('q \<Rightarrow> nat \<Rightarrow> u32) \<Rightarrow> 'q runtime \<Rightarrow> waiter \<Rightarrow> nat \<Rightarrow> 'q clocked \<Rightarrow>
    ('q clocked \<times> state) run" where
  "retry ck ld rt w 0 s = ret (s, Failed)"
| "retry ck ld rt w (Suc n) s =
     rbind (retry_loop ck ld rt w s) (\<lambda>(s', r).
       case r of Some st \<Rightarrow> ret (s', st) | None \<Rightarrow> retry ck ld rt w n s')"

definition set_parked :: "nat \<Rightarrow> u32 \<Rightarrow> 'z threads_scheme \<Rightarrow> 'z threads_scheme" where
  "set_parked p v q = q\<lparr>stack := (stack q)(p := map_option (\<lambda>w. w\<lparr>parked := v\<rparr>) (stack q p))\<rparr>"

text \<open>\<^verbatim>\<open>Waiter::sleep\<close>: each \<^verbatim>\<open>futex wait\<close> is one pause.\<close>

partial_function (option) sleep ::
  "('z threads_scheme \<Rightarrow> bool) \<Rightarrow> ('z threads_scheme \<Rightarrow> nat \<Rightarrow> u32) \<Rightarrow> 'z threads_scheme runtime \<Rightarrow>
    nat \<Rightarrow> waiter \<Rightarrow> 'z threads_scheme clocked \<Rightarrow> ('z threads_scheme clocked \<times> state) run" where
  "sleep ck ld rt p w s =
     (if ck (snd s) then ret ((fst s, set_parked p UN_PARKED (snd s)), Closed)
      else if ld (snd s) (atom w) \<noteq> expected w
      then ret ((fst s, set_parked p UN_PARKED (snd s)), Success)
      else sleep ck ld rt p w (pause rt (fst s, set_parked p PARKED (snd s))))"

section \<open>The list of waiters\<close>

record metadata =
  waiters :: "nat list"
  start :: nat
  md_closed :: bool

definition metadata_new :: metadata where
  "metadata_new = \<lparr>waiters = [], start = 0, md_closed = False\<rparr>"

definition md_register :: "nat \<Rightarrow> metadata \<Rightarrow> metadata" where
  "md_register p md = md\<lparr>waiters := waiters md @ [p]\<rparr>"

text \<open>\<^verbatim>\<open>iter().enumerate().find(..)\<close> and \<^verbatim>\<open>VecDeque::remove\<close>.\<close>

fun find_index :: "nat \<Rightarrow> nat list \<Rightarrow> nat option" where
  "find_index p [] = None"
| "find_index p (x # xs) = (if x = p then Some 0 else map_option Suc (find_index p xs))"

definition remove_at :: "nat \<Rightarrow> 'a list \<Rightarrow> 'a list" where
  "remove_at i xs = take i xs @ drop (Suc i) xs"

definition md_unregister :: "nat \<Rightarrow> metadata \<Rightarrow> metadata" where
  "md_unregister p md =
     (case find_index p (waiters md) of
        None \<Rightarrow> md
      | Some i \<Rightarrow>
          let md = md\<lparr>waiters := remove_at i (waiters md)\<rparr>
          in if start md > 0 then md\<lparr>start := start md - 1\<rparr> else md)"

text \<open>\<^verbatim>\<open>waiters.get(idx).unwrap()\<close> panics out of range; a dangling waiter is undefined behaviour.\<close>

fun wake_each :: "(nat \<rightharpoonup> waiter) \<Rightarrow> nat list \<Rightarrow> nat list \<Rightarrow> nat list outcome" where
  "wake_each stk ws [] = Ret []"
| "wake_each stk ws (idx # idxs) =
     (if idx < length ws then
        case stk (ws ! idx) of
          None \<Rightarrow> Undef
        | Some w \<Rightarrow>
            obind (wake_each stk ws idxs) (\<lambda>r.
              Ret (if parked w = PARKED then ws ! idx # r else r))
      else Panic)"

definition md_notify :: "(nat \<rightharpoonup> waiter) \<Rightarrow> metadata \<Rightarrow> (metadata \<times> nat list) outcome" where
  "md_notify stk md =
     (let md = (if start md < length (waiters md) then md\<lparr>start := start md + 1\<rparr> else md)
      in obind (wake_each stk (waiters md) [0..<start md]) (\<lambda>r. Ret (md, r)))"

fun wake_every :: "(nat \<rightharpoonup> waiter) \<Rightarrow> nat list \<Rightarrow> nat list outcome" where
  "wake_every stk [] = Ret []"
| "wake_every stk (p # ps) =
     (case stk p of None \<Rightarrow> Undef | Some w \<Rightarrow> obind (wake_every stk ps) (\<lambda>r. Ret (p # r)))"

definition md_close :: "(nat \<rightharpoonup> waiter) \<Rightarrow> metadata \<Rightarrow> (metadata \<times> nat list) outcome" where
  "md_close stk md =
     (let md = md\<lparr>md_closed := True\<rparr>
      in if waiters md \<noteq> [] then obind (wake_every stk (waiters md)) (\<lambda>r. Ret (md, r))
         else Ret (md, []))"

definition md_is_empty :: "metadata \<Rightarrow> bool" where
  "md_is_empty md \<longleftrightarrow> waiters md = []"

section \<open>The waker\<close>

record waker =
  guard :: metadata
  empty_flag :: bool

definition waker_default :: waker where
  "waker_default = \<lparr>guard = metadata_new, empty_flag = True\<rparr>"

text \<open>\<^term>\<open>cur\<close> is the value the waiter's atom holds when it is loaded under the lock.\<close>

definition waker_register :: "u32 \<Rightarrow> nat \<Rightarrow> waiter \<Rightarrow> waker \<Rightarrow> waker \<times> bool" where
  "waker_register cur p w wk =
     (if md_closed (guard wk) then (wk, False)
      else if cur \<noteq> expected w then (wk, False)
      else (wk\<lparr>guard := md_register p (guard wk), empty_flag := False\<rparr>, True))"

definition waker_unregister :: "nat \<Rightarrow> waker \<Rightarrow> waker" where
  "waker_unregister p wk =
     (let g = md_unregister p (guard wk) in wk\<lparr>guard := g, empty_flag := md_is_empty g\<rparr>)"

definition waker_wake_one :: "(nat \<rightharpoonup> waiter) \<Rightarrow> waker \<Rightarrow> (waker \<times> nat list) outcome" where
  "waker_wake_one stk wk =
     (if \<not> empty_flag wk
      then obind (md_notify stk (guard wk)) (\<lambda>(g, r). Ret (wk\<lparr>guard := g\<rparr>, r))
      else Ret (wk, []))"

text \<open>
  \<^verbatim>\<open>Waker::close\<close> locks again and again until no waiter is left; the other threads run
  between two rounds. \<^term>\<open>get\<close> and \<^term>\<open>upd\<close> select the waker in the queue.
\<close>

partial_function (option) waker_close ::
  "('z threads_scheme \<Rightarrow> waker) \<Rightarrow> ((waker \<Rightarrow> waker) \<Rightarrow> 'z threads_scheme \<Rightarrow> 'z threads_scheme) \<Rightarrow>
    'z threads_scheme runtime \<Rightarrow> 'z threads_scheme clocked \<Rightarrow> 'z threads_scheme clocked run" where
  "waker_close get upd rt s =
     (if \<not> md_is_empty (guard (get (snd s))) then
        rbind (Some (md_close (stack (snd s)) (guard (get (snd s))))) (\<lambda>(g, r).
          waker_close get upd rt
            (pause rt (fst s,
              (upd (\<lambda>wk. wk\<lparr>guard := g\<rparr>) (snd s))\<lparr>woken := woken (snd s) @ r\<rparr>)))
      else ret (fst s, upd (\<lambda>wk. wk\<lparr>empty_flag := True\<rparr>) (snd s)))"

section \<open>Lemmas\<close>

text \<open>Lists of waiters.\<close>

lemma find_index_None_iff: "find_index p xs = None \<longleftrightarrow> p \<notin> set xs"
  by (induction xs) auto

lemma find_index_Some:
  "find_index p xs = Some i \<Longrightarrow> i < length xs \<and> xs ! i = p \<and> remove_at i xs = remove1 p xs"
proof (induction xs arbitrary: i)
  case Nil
  then show ?case by simp
next
  case (Cons x xs)
  then show ?case by (cases i) (auto simp: remove_at_def split: if_splits)
qed

lemma waiters_md_unregister [simp]: "waiters (md_unregister p md) = remove1 p (waiters md)"
  by (auto simp: md_unregister_def Let_def find_index_None_iff remove1_idem
      dest: find_index_Some split: option.splits)

lemma md_closed_simps [simp]:
  "md_closed (md_unregister p md) = md_closed md" "md_closed (md_register p md) = md_closed md"
  by (simp_all add: md_unregister_def md_register_def Let_def split: option.split)

lemma start_md_unregister:
  "start (md_unregister p md) = (if p \<in> set (waiters md) then start md - 1 else start md)"
  using find_index_None_iff [of p "waiters md"]
  by (auto simp: md_unregister_def Let_def split: option.splits)

lemma wake_each_Ret:
  assumes "set idxs \<subseteq> {..<length ws}" and "set ws \<subseteq> dom stk"
  shows "wake_each stk ws idxs =
     Ret (filter (\<lambda>p. map_option parked (stk p) = Some PARKED) (map ((!) ws) idxs))"
  using assms(1)
proof (induction idxs)
  case Nil
  then show ?case by simp
next
  case (Cons i idxs)
  then have "ws ! i \<in> set ws" by simp
  with assms(2) obtain w where "stk (ws ! i) = Some w" by blast
  with Cons show ?case by simp
qed

lemma wake_every_Ret: "set ps \<subseteq> dom stk \<Longrightarrow> wake_every stk ps = Ret ps"
  by (induction ps) auto

text \<open>
  The invariant of a waker: registered waiters are alive and registered once, \<^const>\<open>start\<close> is
  a position of the list, and the \<^const>\<open>empty_flag\<close> that lets \<^verbatim>\<open>wake_one\<close> skip the lock
  tells the truth.
\<close>

definition md_ok :: "(nat \<rightharpoonup> waiter) \<Rightarrow> metadata \<Rightarrow> bool" where
  "md_ok stk md \<longleftrightarrow>
     distinct (waiters md) \<and> start md \<le> length (waiters md) \<and> set (waiters md) \<subseteq> dom stk"

definition waker_ok :: "(nat \<rightharpoonup> waiter) \<Rightarrow> waker \<Rightarrow> bool" where
  "waker_ok stk wk \<longleftrightarrow> md_ok stk (guard wk) \<and> (empty_flag wk \<longleftrightarrow> waiters (guard wk) = [])"

abbreviation idle :: "waker \<Rightarrow> bool" where
  "idle wk \<equiv> waiters (guard wk) = []"

lemma waker_default_ok [simp]: "waker_ok stk waker_default" "idle waker_default"
  "md_closed (guard waker_default) = False" "empty_flag waker_default"
  by (simp_all add: waker_default_def metadata_new_def waker_ok_def md_ok_def)

lemma md_notify_Ret:
  assumes "md_ok stk md"
  shows "md_notify stk md =
     Ret (md\<lparr>start := min (start md + 1) (length (waiters md))\<rparr>,
          filter (\<lambda>p. map_option parked (stk p) = Some PARKED)
            (take (start md + 1) (waiters md)))"
proof (cases "start md < length (waiters md)")
  case True
  then have eq: "map ((!) (waiters md)) [0..<Suc (start md)] = take (Suc (start md)) (waiters md)"
    by (intro nth_equalityI) (auto simp: nth_append less_Suc_eq)
  have "set [0..<Suc (start md)] \<subseteq> {..<length (waiters md)}"
    using True by auto
  with True assms eq show ?thesis
    by (simp add: md_notify_def wake_each_Ret md_ok_def Let_def min_def del: upt_Suc)
next
  case False
  with assms have "start md = length (waiters md)" by (simp add: md_ok_def)
  moreover have "set [0..<length (waiters md)] \<subseteq> {..<length (waiters md)}"
    by auto
  ultimately show ?thesis
    using assms by (simp add: md_notify_def wake_each_Ret md_ok_def map_nth)
qed

lemma md_ok_notify: "md_ok stk md \<Longrightarrow> md_notify stk md = Ret (md', r) \<Longrightarrow> md_ok stk md'"
  by (auto simp: md_notify_Ret) (simp add: md_ok_def)

lemma waker_ok_register:
  assumes "waker_ok stk wk" and "p \<notin> set (waiters (guard wk))" and "p \<in> dom stk"
    and "waker_register cur p w wk = (wk', b)"
  shows "waker_ok stk wk'"
  using assms by (auto simp: waker_register_def waker_ok_def md_ok_def md_register_def
      split: if_splits)

lemma waker_ok_unregister:
  assumes "waker_ok stk wk"
  shows "waker_ok (stk(p := None)) (waker_unregister p wk)" (is "waker_ok ?stk ?wk")
proof -
  let ?ws = "waiters (guard wk)"
  have d: "distinct ?ws" and s: "start (guard wk) \<le> length ?ws" and l: "set ?ws \<subseteq> dom stk"
    using assms by (auto simp: waker_ok_def md_ok_def)
  have "set (remove1 p ?ws) \<subseteq> dom ?stk"
    using d l by (auto simp: set_remove1_eq)
  moreover have "start (md_unregister p (guard wk)) \<le> length (remove1 p ?ws)"
    using s by (auto simp: start_md_unregister length_remove1)
  ultimately show ?thesis
    using d by (simp add: waker_ok_def md_ok_def waker_unregister_def Let_def md_is_empty_def)
qed

lemma waker_ok_wake_one:
  assumes "waker_ok stk wk"
  obtains wk' r where "waker_wake_one stk wk = Ret (wk', r)" and "waker_ok stk wk'"
    and "waiters (guard wk') = waiters (guard wk)" and "md_closed (guard wk') = md_closed (guard wk)"
proof (cases "empty_flag wk")
  case True
  then show ?thesis using that assms by (simp add: waker_wake_one_def)
next
  case False
  with assms have "md_ok stk (guard wk)" by (simp add: waker_ok_def)
  with False assms show ?thesis
    using that by (auto simp: waker_wake_one_def md_notify_Ret waker_ok_def md_ok_def)
qed

lemma waker_wake_one_idle:
  "waker_ok stk wk \<Longrightarrow> idle wk \<Longrightarrow> waker_wake_one stk wk = Ret (wk, [])"
  by (simp add: waker_wake_one_def waker_ok_def)

lemma waker_close_idle:
  "idle (get q) \<Longrightarrow>
     waker_close get upd rt (k, q) = ret (k, upd (\<lambda>wk. wk\<lparr>empty_flag := True\<rparr>) q)"
  by (subst waker_close.simps) (simp add: md_is_empty_def)

text \<open>A waiter that is registered keeps the list the same after it is unregistered.\<close>

lemma waker_register_unregister:
  assumes "waker_ok stk wk" and "p \<notin> set (waiters (guard wk))"
    and "waker_register cur p w wk = (wk', True)"
  shows "waiters (guard (waker_unregister p wk')) = waiters (guard wk)"
  using assms by (auto simp: waker_register_def waker_unregister_def md_register_def Let_def
      remove1_append split: if_splits)

section \<open>Blocking calls under an environment\<close>

text \<open>
  The environment leaves the state alone up to pause \<^term>\<open>n\<close> and then does something that the
  waiting thread notices: \<^verbatim>\<open>retry\<close> gives up before or reports it, \<^verbatim>\<open>sleep\<close> reports it.
\<close>

definition quiet_until :: "'q runtime \<Rightarrow> nat \<Rightarrow> nat \<Rightarrow> bool" where
  "quiet_until rt k n \<longleftrightarrow> k \<le> n \<and> (\<forall>j. k \<le> j \<longrightarrow> j < n \<longrightarrow> (\<forall>q. env rt j q = q))"

lemma quiet_until_later: "quiet_until rt k n \<Longrightarrow> k \<le> k' \<Longrightarrow> k' \<le> n \<Longrightarrow> quiet_until rt k' n"
  by (simp add: quiet_until_def)

definition notices :: "('q \<Rightarrow> bool) \<Rightarrow> ('q \<Rightarrow> nat \<Rightarrow> u32) \<Rightarrow> waiter \<Rightarrow> 'q \<Rightarrow> state option" where
  "notices ck ld w q =
     (if ck q then Some Closed else if ld q (atom w) \<noteq> expected w then Some Success else None)"

lemma notices_cases: "notices ck ld w q \<in> {None, Some Closed, Some Success}"
  by (simp add: notices_def)

lemma retry_loop_notices:
  "notices ck ld w (snd s) = Some st \<Longrightarrow> retry_loop ck ld rt w s = ret (s, Some st)"
  by (subst retry_loop.simps) (auto simp: notices_def split: if_splits)

lemma retry_loop_step:
  "notices ck ld w (snd s) = None \<Longrightarrow> retry_loop ck ld rt w s =
     (if completed rt (fst s) then ret (pause rt s, None) else retry_loop ck ld rt w (pause rt s))"
  by (subst retry_loop.simps) (auto simp: notices_def split: if_splits)

lemma retry_loop_until:
  assumes "quiet_until rt k n" and "notices ck ld w q = None"
    and "notices ck ld w (env rt n q) = Some st"
  shows "\<exists>k'. k \<le> k' \<and> k' \<le> n \<and> retry_loop ck ld rt w (k, q) = ret ((k', q), None) \<or>
    retry_loop ck ld rt w (k, q) = ret ((Suc n, env rt n q), None) \<or>
    retry_loop ck ld rt w (k, q) = ret ((Suc n, env rt n q), Some st)"
  using assms(1)
proof (induction "n - k" arbitrary: k)
  case 0
  then have "k = n" by (simp add: quiet_until_def)
  with assms show ?case by (simp add: retry_loop_step retry_loop_notices)
next
  case (Suc d)
  then have k: "k < n" "d = n - Suc k" by auto
  with Suc.prems have e: "env rt k q = q" and q: "quiet_until rt (Suc k) n"
    by (auto simp: quiet_until_def)
  show ?case
  proof (cases "completed rt k")
    case True
    with k e assms(2) have "retry_loop ck ld rt w (k, q) = ret ((Suc k, q), None)"
      by (simp add: retry_loop_step)
    with k show ?thesis by (intro exI [of _ "Suc k"]) simp
  next
    case False
    with e assms(2) have "retry_loop ck ld rt w (k, q) = retry_loop ck ld rt w (Suc k, q)"
      by (simp add: retry_loop_step)
    with Suc.hyps(1) [OF k(2) q] show ?thesis by (metis Suc_leD)
  qed
qed

lemma retry_notices:
  "0 < m \<Longrightarrow> notices ck ld w (snd s) = Some st \<Longrightarrow> retry ck ld rt w m s = ret (s, st)"
  by (cases m) (simp_all add: retry_loop_notices)

lemma retry_until:
  assumes "quiet_until rt k n" and "notices ck ld w q = None"
    and "notices ck ld w (env rt n q) = Some st"
  shows "(\<exists>k'. k \<le> k' \<and> k' \<le> n \<and> retry ck ld rt w m (k, q) = ret ((k', q), Failed)) \<or>
    retry ck ld rt w m (k, q) = ret ((Suc n, env rt n q), Failed) \<or>
    retry ck ld rt w m (k, q) = ret ((Suc n, env rt n q), st)"
  using assms(1)
proof (induction m arbitrary: k)
  case 0
  then show ?case by (auto simp: quiet_until_def)
next
  case (Suc m)
  from retry_loop_until [OF Suc.prems assms(2,3)] consider
      k' where "k \<le> k'" "k' \<le> n" "retry_loop ck ld rt w (k, q) = ret ((k', q), None)"
    | "retry_loop ck ld rt w (k, q) = ret ((Suc n, env rt n q), None)"
    | "retry_loop ck ld rt w (k, q) = ret ((Suc n, env rt n q), Some st)"
    by blast
  then show ?case
  proof cases
    case 1
    from Suc.IH [OF quiet_until_later [OF Suc.prems 1(1,2)]] 1 show ?thesis
      by (auto intro: le_trans)
  next
    case 2
    then show ?thesis
      using assms(3) by (cases m) (simp_all add: retry_loop_notices)
  next
    case 3
    then show ?thesis by simp
  qed
qed

lemma set_parked_twice [simp]: "set_parked p v (set_parked p v' q) = set_parked p v q"
  by (simp add: set_parked_def option.map_comp o_def cong: option.map_cong)

lemma sleep_notices:
  "notices ck ld w (snd s) = Some st \<Longrightarrow>
     sleep ck ld rt p w s = ret ((fst s, set_parked p UN_PARKED (snd s)), st)"
  by (subst sleep.simps) (auto simp: notices_def split: if_splits)

lemma sleep_step:
  "notices ck ld w (snd s) = None \<Longrightarrow>
     sleep ck ld rt p w s = sleep ck ld rt p w (pause rt (fst s, set_parked p PARKED (snd s)))"
  by (subst sleep.simps) (auto simp: notices_def split: if_splits)

lemma sleep_until:
  assumes "quiet_until rt k n" and "notices ck ld w q = None"
    and frame: "\<And>v. notices ck ld w (set_parked p v q) = notices ck ld w q"
    and "notices ck ld w (env rt n (set_parked p PARKED q)) = Some st"
  shows "sleep ck ld rt p w (k, q) =
     ret ((Suc n, set_parked p UN_PARKED (env rt n (set_parked p PARKED q))), st)"
  using assms
proof (induction "n - k" arbitrary: k q)
  case 0
  then have "k = n" by (simp add: quiet_until_def)
  with 0 show ?case by (simp add: sleep_step sleep_notices)
next
  case (Suc d)
  let ?q = "set_parked p PARKED q"
  from Suc.hyps(2) Suc.prems(1) have k: "k < n" "d = n - Suc k"
    and e: "env rt k ?q = ?q" and q: "quiet_until rt (Suc k) n"
    by (auto simp: quiet_until_def)
  have "sleep ck ld rt p w (Suc k, ?q) =
     ret ((Suc n, set_parked p UN_PARKED (env rt n (set_parked p PARKED ?q))), st)"
    using Suc.prems by (intro Suc.hyps(1) [OF k(2) q]) simp_all
  moreover have "sleep ck ld rt p w (k, q) = sleep ck ld rt p w (Suc k, ?q)"
    using Suc.prems(2) e by (simp add: sleep_step)
  ultimately show ?case by simp
qed

text \<open>If no other thread ever acts, \<^verbatim>\<open>retry\<close> can only give up and \<^verbatim>\<open>sleep\<close> never returns.\<close>

lemma retry_loop_quiet:
  assumes "retry_loop ck ld rt w s = Some r" and "quiet rt" and "notices ck ld w (snd s) = None"
  shows "\<exists>k'. r = Ret ((k', snd s), None)"
proof -
  have "quiet rt \<longrightarrow> notices ck ld w (snd s) = None \<longrightarrow> (\<exists>k'. r = Ret ((k', snd s), None))"
  proof (rule retry_loop.raw_induct [OF _ assms(1), where P =
        "\<lambda>ck ld rt w s r. quiet rt \<longrightarrow> notices ck ld w (snd s) = None \<longrightarrow>
           (\<exists>k'. r = Ret ((k', snd s), None))"])
    fix f ck ld rt w s r
    assume "\<And>ck ld rt w s r. f ck ld rt w s = Some r \<Longrightarrow> quiet rt \<longrightarrow>
        notices ck ld w (snd s) = None \<longrightarrow> (\<exists>k'. r = Ret ((k', snd s), None))"
      and "(if ck (snd s) then ret (s, Some Closed)
            else if ld (snd s) (atom w) \<noteq> expected w then ret (s, Some Success)
            else if completed rt (fst s) then ret (pause rt s, None)
            else f ck ld rt w (pause rt s)) = Some r"
    then show "quiet rt \<longrightarrow> notices ck ld w (snd s) = None \<longrightarrow> (\<exists>k'. r = Ret ((k', snd s), None))"
      by (cases s) (auto simp: notices_def split: if_splits)
  qed
  with assms(2,3) show ?thesis by blast
qed

lemma retry_quiet:
  assumes "quiet rt" and "notices ck ld w (snd s) = None"
  shows "retry ck ld rt w m s = Some r \<Longrightarrow> \<exists>k'. r = Ret ((k', snd s), Failed)"
  using assms(2)
proof (induction m arbitrary: s)
  case 0
  then show ?case by (cases s) auto
next
  case (Suc m)
  show ?case
  proof (cases "retry_loop ck ld rt w s")
    case None
    with Suc.prems show ?thesis by simp
  next
    case (Some r')
    with retry_loop_quiet [OF Some assms(1) Suc.prems(2)]
    obtain k' where "retry_loop ck ld rt w s = ret ((k', snd s), None)" by blast
    with Suc show ?thesis by fastforce
  qed
qed

lemma sleep_quiet:
  assumes "quiet rt" and "notices ck ld w (snd s) = None"
    and frame: "\<And>v. notices ck ld w (set_parked p v (snd s)) = notices ck ld w (snd s)"
  shows "diverges (sleep ck ld rt p w s)"
proof (rule ccontr)
  let ?Q = "\<lambda>ck ld rt p w s. quiet rt \<and> notices ck ld w (snd s) = None \<and>
    (\<forall>v. notices ck ld w (set_parked p v (snd s)) = notices ck ld w (snd s))"
  assume "sleep ck ld rt p w s \<noteq> None"
  then obtain r where "sleep ck ld rt p w s = Some r" by blast
  then have "\<not> ?Q ck ld rt p w s"
  proof (rule sleep.raw_induct [where P = "\<lambda>ck ld rt p w s r. \<not> ?Q ck ld rt p w s", rotated])
    fix f and ck :: "'a threads_scheme \<Rightarrow> bool" and ld rt p w s r
    assume IH: "\<And>ck ld rt p w s r. f ck ld rt p w s = Some r \<Longrightarrow> \<not> ?Q ck ld rt p w s"
      and eq: "(if ck (snd s) then ret ((fst s, set_parked p UN_PARKED (snd s)), Closed)
         else if ld (snd s) (atom w) \<noteq> expected w
         then ret ((fst s, set_parked p UN_PARKED (snd s)), Success)
         else f ck ld rt p w (pause rt (fst s, set_parked p PARKED (snd s)))) = Some r"
    show "\<not> ?Q ck ld rt p w s"
    proof
      assume Q: "?Q ck ld rt p w s"
      with eq have "f ck ld rt p w (pause rt (fst s, set_parked p PARKED (snd s))) = Some r"
        by (auto simp: notices_def split: if_splits)
      from IH [OF this] Q show False by auto
    qed
  qed
  with assms show False by blast
qed

end
