(* ===== verification/Tickets.thy ===== *)
theory Tickets
  imports Elem
begin

text \<open>
  The ticket view of a ring of buckets, shared by the two bounded queues. Message number
  \<^term>\<open>k\<close> of the life of a queue of capacity \<^term>\<open>c\<close> goes through bucket
  \<^term>\<open>k mod c\<close> on writer lap \<^term>\<open>2 * (k div c)\<close>; a bucket on lap
  \<^term>\<open>2 * (k div c) + 1\<close> holds message \<^term>\<open>k\<close>. Laps are 32-bit words and wrap.
\<close>

definition tkt_lap :: "nat \<Rightarrow> nat \<Rightarrow> u32" where
  "tkt_lap c k = word_of_nat (2 * (k div c))"

definition write_cursor :: "nat \<Rightarrow> nat \<Rightarrow> u64" where
  "write_cursor c k = pack (tkt_lap c k) (word_of_nat (k mod c))"

definition read_cursor :: "nat \<Rightarrow> nat \<Rightarrow> u64" where
  "read_cursor c k = pack (tkt_lap c k + 1) (word_of_nat (k mod c))"

definition cap_ok :: "nat \<Rightarrow> bool" where
  "cap_ok c \<longleftrightarrow> 0 < c \<and> c \<le> 2 ^ 30"

lemma cap_okD: "cap_ok c \<Longrightarrow> 0 < c" "cap_ok c \<Longrightarrow> c \<le> 1073741824"
  by (simp_all add: cap_ok_def)

lemma unat_slot [simp]: "cap_ok c \<Longrightarrow> unat (word_of_nat (k mod c) :: u32) = k mod c"
proof -
  assume "cap_ok c"
  then have "k mod c < 4294967296"
    using mod_less_divisor [of c k] by (auto simp: cap_ok_def simp del: mod_less_divisor)
  then show ?thesis
    by (simp add: unat_of_nat)
qed

lemma tkt_lap_0: "k < c \<Longrightarrow> tkt_lap c k = 0"
  by (simp add: tkt_lap_def)

lemma unat_tkt_lap: "unat (tkt_lap c k) = 2 * (k div c) mod 4294967296"
  unfolding tkt_lap_def unat_of_nat by simp

lemma tkt_lap_add: "0 < c \<Longrightarrow> tkt_lap c (k + c) = tkt_lap c k + 2"
proof -
  assume "0 < c"
  then have "(k + c) div c = Suc (k div c)" by (simp add: div_add_self2)
  then show ?thesis by (simp add: tkt_lap_def algebra_simps)
qed

lemma even_tkt_lap: "even (unat (tkt_lap c k))"
proof -
  have "(2::nat) dvd 2 * (k div c) mod 4294967296"
    by (rule dvd_mod) simp_all
  then show ?thesis
    by (simp only: unat_tkt_lap)
qed

lemma unat_tkt_lap_Suc: "unat (tkt_lap c k + 1) = unat (tkt_lap c k) + 1"
proof -
  have "unat (tkt_lap c k) \<noteq> 4294967295"
    using even_tkt_lap [of c k] by (metis even_Suc odd_numeral)
  then have "unat (tkt_lap c k) + 1 < 4294967296"
    using unat_u32_less [of "tkt_lap c k"] by linarith
  then show ?thesis
    by (simp add: unat_word_ariths)
qed

lemma tkt_lap_less_Suc [simp]: "tkt_lap c k < tkt_lap c k + 1"
  by (simp add: word_less_nat_alt unat_tkt_lap_Suc)

lemma tkt_lap_Suc_neq [simp]: "tkt_lap c k + 1 \<noteq> tkt_lap c k'"
  using even_tkt_lap [of c k] even_tkt_lap [of c k'] unat_tkt_lap_Suc [of c k]
  by (metis even_Suc Suc_eq_plus1)

lemma tkt_lap_eq_0_iff: "tkt_lap c k = 0 \<longleftrightarrow> 2 ^ 31 dvd k div c"
proof -
  have "tkt_lap c k = 0 \<longleftrightarrow> 2 * (k div c) mod 4294967296 = 0"
    by (metis unat_tkt_lap unsigned_0 unat_eq_zero)
  also have "\<dots> \<longleftrightarrow> k div c mod 2147483648 = 0"
    using mod_mult_mult1 [of 2 "k div c" 2147483648] by simp
  finally show ?thesis
    by (simp add: mod_eq_0_iff_dvd)
qed

lemma word_sub_one_less: "(x :: u32) \<noteq> 0 \<Longrightarrow> x - 1 < x"
proof -
  assume "x \<noteq> 0"
  then have "0 < unat x" by (simp add: unat_gt_0)
  moreover from this have "unat (x - 1) = unat x - 1"
    by (simp add: unat_sub_if')
  ultimately show ?thesis
    by (simp add: word_less_nat_alt)
qed

text \<open>
  The writer laps of the first \<^term>\<open>2 ^ 30 * c\<close> tickets stay below \<^term>\<open>2 ^ 31\<close>, the bit
  by which an MPMC queue marks that it is closed.
\<close>

definition in_budget :: "nat \<Rightarrow> nat \<Rightarrow> bool" where
  "in_budget c t \<longleftrightarrow> t div c < 2 ^ 30"

lemma in_budget_mono: "in_budget c t' \<Longrightarrow> t \<le> t' \<Longrightarrow> in_budget c t"
  using div_le_mono [of t t' c] unfolding in_budget_def by linarith

lemma in_budget_iff: "0 < c \<Longrightarrow> in_budget c t \<longleftrightarrow> t < 2 ^ 30 * c"
  by (simp add: in_budget_def div_less_iff_less_mult)

lemma unat_tkt_lap_in_budget: "in_budget c t \<Longrightarrow> unat (tkt_lap c t) = 2 * (t div c)"
  by (simp add: in_budget_def unat_tkt_lap)

lemma tkt_lap_in_budget_nonzero: "in_budget c t \<Longrightarrow> 0 < c \<Longrightarrow> c \<le> t \<Longrightarrow> tkt_lap c t \<noteq> 0"
  using unat_tkt_lap_in_budget [of c t] div_greater_zero_iff [of t c] by auto

section \<open>Advancing a cursor\<close>

text \<open>
  The code adds one to the packed cursor while the index stays below the capacity and starts
  the next lap otherwise. \<^term>\<open>l\<close> is \<^term>\<open>0\<close> for the writer and \<^term>\<open>1\<close> for the reader.
\<close>

definition cursor :: "u32 \<Rightarrow> nat \<Rightarrow> nat \<Rightarrow> u64" where
  "cursor l c k = pack (tkt_lap c k + l) (word_of_nat (k mod c))"

lemma write_cursor_cursor: "write_cursor c k = cursor 0 c k"
  by (simp add: write_cursor_def cursor_def)

lemma read_cursor_cursor: "read_cursor c k = cursor 1 c k"
  by (simp add: read_cursor_def cursor_def)

lemma meta_cursor [simp]:
  "meta_lap (write_cursor c k) = tkt_lap c k"
  "meta_lap (read_cursor c k) = tkt_lap c k + 1"
  "cap_ok c \<Longrightarrow> unat (meta_idx (write_cursor c k)) = k mod c"
  "cap_ok c \<Longrightarrow> unat (meta_idx (read_cursor c k)) = k mod c"
  by (simp_all add: write_cursor_def read_cursor_def)

lemma idx_lt_cap_iff:
  assumes "cap_ok c"
  shows "word_of_nat (k mod c) + 1 < (word_of_nat c :: u32) \<longleftrightarrow> Suc (k mod c) < c"
proof -
  have "k mod c < c" using assms by (simp add: cap_ok_def)
  then have "Suc (k mod c) < 4294967296"
    using cap_okD(2) [OF assms] by linarith
  then have "unat (word_of_nat (k mod c) + 1 :: u32) = k mod c + 1"
    using unat_slot [OF assms, of k] by (simp add: unat_word_ariths)
  moreover have "unat (word_of_nat c :: u32) = c"
    using cap_okD [OF assms] by (simp add: unat_of_nat)
  ultimately show ?thesis
    by (simp add: word_less_nat_alt)
qed

lemma Suc_div_mod_wrap:
  assumes "0 < c" and "\<not> Suc (k mod c) < c"
  shows "Suc k div c = Suc (k div c)" and "Suc k mod c = 0"
proof -
  have "k mod c < c" using assms(1) by simp
  with assms(2) have "Suc (k mod c) = c" by linarith
  then show "Suc k div c = Suc (k div c)" and "Suc k mod c = 0"
    using assms(1) by (simp_all add: div_Suc mod_Suc)
qed

lemma Suc_div_mod_stay:
  assumes "0 < c" and "Suc (k mod c) < c"
  shows "Suc k div c = k div c" and "Suc k mod c = Suc (k mod c)"
  using assms by (simp_all add: div_Suc mod_Suc)

lemma cursor_Suc:
  assumes "cap_ok c"
  shows "(if word_of_nat (k mod c) + 1 < (word_of_nat c :: u32) then cursor l c k + 1
          else lap_meta (tkt_lap c k + l + 2)) = cursor l c (Suc k)"
proof (cases "Suc (k mod c) < c")
  case True
  have "unat (word_of_nat (k mod c) :: u32) + 1 < 4294967296"
    using assms True cap_okD [OF assms] by simp
  then have "cursor l c k + 1 = pack (tkt_lap c k + l) (word_of_nat (k mod c) + 1)"
    by (simp add: cursor_def pack_Suc)
  then show ?thesis
    using True Suc_div_mod_stay [OF cap_okD(1) [OF assms] True]
    by (simp only: idx_lt_cap_iff [OF assms] if_True) (simp add: cursor_def tkt_lap_def add.commute)
next
  case False
  then show ?thesis
    using assms Suc_div_mod_wrap [OF cap_okD(1) [OF assms] False]
    by (simp only: idx_lt_cap_iff [OF assms] if_False)
      (simp add: cursor_def tkt_lap_def pack_zero algebra_simps)
qed

lemma write_cursor_Suc:
  "cap_ok c \<Longrightarrow> (if word_of_nat (k mod c) + 1 < (word_of_nat c :: u32) then write_cursor c k + 1
     else lap_meta (tkt_lap c k + 2)) = write_cursor c (Suc k)"
  using cursor_Suc [of c k 0] by (simp add: write_cursor_cursor split: if_splits)

lemma read_cursor_Suc:
  "cap_ok c \<Longrightarrow> (if word_of_nat (k mod c) + 1 < (word_of_nat c :: u32) then read_cursor c k + 1
     else lap_meta (tkt_lap c k + 3)) = read_cursor c (Suc k)"
  using cursor_Suc [of c k 1] by (simp add: read_cursor_cursor add.assoc split: if_splits)

section \<open>The buckets\<close>

text \<open>
  \<^term>\<open>slots c h t ms buf\<close>: tickets \<^term>\<open>h\<close> to \<^term>\<open>t\<close> (exclusive) are in the buffer
  and carry the messages \<^term>\<open>ms\<close>, oldest first; the other buckets wait for the next tickets, and
  their cells are still uninitialised in the first lap only.
\<close>

definition slots :: "nat \<Rightarrow> nat \<Rightarrow> nat \<Rightarrow> 'a list \<Rightarrow> 'a elem list \<Rightarrow> bool" where
  "slots c h t ms buf \<longleftrightarrow>
     cap_ok c \<and> length buf = c \<and> h \<le> t \<and> t \<le> h + c \<and> length ms = t - h \<and>
     (\<forall>k. h \<le> k \<longrightarrow> k < t \<longrightarrow>
        lap (buf ! (k mod c)) = tkt_lap c k + 1 \<and> msg (buf ! (k mod c)) = Some (ms ! (k - h))) \<and>
     (\<forall>k. t \<le> k \<longrightarrow> k < h + c \<longrightarrow> lap (buf ! (k mod c)) = tkt_lap c k \<and>
        (msg (buf ! (k mod c)) = None \<longleftrightarrow> k < c))"

lemma mod_window_inj:
  assumes "(k :: nat) mod c = k' mod c" and "h \<le> k" "k < h + c" "h \<le> k'" "k' < h + c"
  shows "k = k'"
proof -
  have *: "a = b" if "a mod c = b mod c" "h \<le> a" "a \<le> b" "b < h + c" for a b
  proof -
    have "c dvd b - a" using that by (metis mod_eq_dvd_iff_nat)
    moreover have "b - a < c" using that by linarith
    ultimately have "b - a = 0" by (metis dvd_imp_le gr0I not_le)
    with that show ?thesis by simp
  qed
  show ?thesis
    using assms * [of k k'] * [of k' k] by (cases "k \<le> k'") auto
qed

lemma slotsD:
  assumes "slots c h t ms buf"
  shows slots_cap: "cap_ok c" and slots_length: "length buf = c"
    and slots_le: "h \<le> t" "t \<le> h + c" and slots_ms: "length ms = t - h"
  using assms by (simp_all add: slots_def)

lemma slots_in: "slots c h t ms buf \<Longrightarrow> k mod c < length buf"
  by (simp add: slots_def cap_ok_def)

lemma slots_pending:
  assumes "slots c h t ms buf" and "h \<le> k" and "k < t"
  shows "lap (buf ! (k mod c)) = tkt_lap c k + 1" and "msg (buf ! (k mod c)) = Some (ms ! (k - h))"
  using assms by (simp_all add: slots_def)

lemma slots_free:
  assumes "slots c h t ms buf" and "t \<le> k" and "k < h + c"
  shows "lap (buf ! (k mod c)) = tkt_lap c k" and "msg (buf ! (k mod c)) = None \<longleftrightarrow> k < c"
  using assms by (simp_all add: slots_def)

lemma slots_full:
  assumes "slots c h t ms buf" and "t = h + c"
  shows "lap (buf ! (t mod c)) = tkt_lap c t - 1"
proof -
  have c: "0 < c" using assms(1) by (simp add: slots_def cap_ok_def)
  then have "lap (buf ! (h mod c)) = tkt_lap c h + 1"
    using slots_pending(1) [OF assms(1), of h] assms(2) by simp
  then show ?thesis
    using assms(2) tkt_lap_add [OF c, of h] by (simp add: algebra_simps)
qed

lemma slots_init:
  assumes "cap_ok c"
  shows "slots c 0 0 [] (replicate c elem_default)"
  using assms by (simp add: slots_def cap_ok_def tkt_lap_0)

lemma slots_push:
  assumes S: "slots c h t ms buf" and t: "t < h + c"
  shows "slots c h (Suc t) (ms @ [m])
     (buf[t mod c := elem_write (tkt_lap c t + 1) m (buf ! (t mod c))])"
    (is "slots c h (Suc t) ?ms ?buf")
proof -
  have other: "?buf ! (k mod c) = buf ! (k mod c)" if "h \<le> k" "k < h + c" "k \<noteq> t" for k
  proof -
    from that mod_window_inj [of k c t h] slots_le [OF S] t have "k mod c \<noteq> t mod c" by blast
    then show ?thesis by simp
  qed
  have own: "?buf ! (t mod c) = elem_write (tkt_lap c t + 1) m (buf ! (t mod c))"
    using slots_in [OF S] by simp
  have msg: "?ms ! (t - h) = m" "k < t \<Longrightarrow> h \<le> k \<Longrightarrow> ?ms ! (k - h) = ms ! (k - h)" for k
    using slots_ms [OF S] by (auto simp: nth_append)
  have "lap (?buf ! (k mod c)) = tkt_lap c k + 1 \<and> msg (?buf ! (k mod c)) = Some (?ms ! (k - h))"
    if "h \<le> k" "k < Suc t" for k
    using that own other [of k] slots_pending [OF S, of k] msg t by (cases "k = t") auto
  moreover have "lap (?buf ! (k mod c)) = tkt_lap c k \<and> (msg (?buf ! (k mod c)) = None \<longleftrightarrow> k < c)"
    if "Suc t \<le> k" "k < h + c" for k
    using that other [of k] slots_free [OF S, of k] slots_le [OF S] by simp
  ultimately show ?thesis
    using S t by (simp add: slots_def Suc_diff_le)
qed

lemma slots_pop:
  assumes S: "slots c h t ms buf" and h: "h < t"
  shows "slots c (Suc h) t (tl ms) (buf[h mod c := (buf ! (h mod c))\<lparr>lap := tkt_lap c h + 2\<rparr>])"
    (is "slots c _ t ?ms ?buf")
proof -
  have other: "?buf ! (k mod c) = buf ! (k mod c)" if "h \<le> k" "k < h + c" "k \<noteq> h" for k
  proof -
    have "h < h + c" using slots_cap [OF S] by (simp add: cap_ok_def)
    with that mod_window_inj [of k c h h] have "k mod c \<noteq> h mod c" by blast
    then show ?thesis by simp
  qed
  have own: "lap (?buf ! ((h + c) mod c)) = tkt_lap c (h + c)" "msg (?buf ! ((h + c) mod c)) \<noteq> None"
    using slots_in [OF S] tkt_lap_add [of c h] slots_cap [OF S] slots_pending(2) [OF S, of h] h
    by (simp_all add: cap_ok_def)
  have msg: "?ms ! (k - Suc h) = ms ! (k - h)" if "Suc h \<le> k" "k < t" for k
    using that slots_ms [OF S] by (simp add: nth_tl Suc_diff_Suc)
  have "lap (?buf ! (k mod c)) = tkt_lap c k + 1 \<and> msg (?buf ! (k mod c)) = Some (?ms ! (k - Suc h))"
    if "Suc h \<le> k" "k < t" for k
    using that other [of k] slots_pending [OF S, of k] msg slots_le [OF S] by simp
  moreover have "lap (?buf ! (k mod c)) = tkt_lap c k \<and> (msg (?buf ! (k mod c)) = None \<longleftrightarrow> k < c)"
    if "t \<le> k" "k < Suc h + c" for k
    using that own other [of k] slots_free [OF S, of k] h by (cases "k = h + c") simp_all
  ultimately show ?thesis
    using S h by (simp add: slots_def)
qed

lemma slots_hd: "slots c h t ms buf \<Longrightarrow> h < t \<Longrightarrow> msg (buf ! (h mod c)) = Some (hd ms)"
  using slots_pending(2) [of c h t ms buf h] slots_ms [of c h t ms buf]
  by (cases ms) (simp_all)

text \<open>
  Dropping the buckets: undefined behaviour while a bucket was never written, and after that every
  bucket is dropped, whether its message was received or not.
\<close>

lemma slots_msg_None_iff:
  assumes "slots c h t ms buf"
  shows "(\<exists>e\<in>set buf. msg e = None) \<longleftrightarrow> t < c"
proof
  assume "\<exists>e\<in>set buf. msg e = None"
  then obtain i where i: "i < c" "msg (buf ! i) = None"
    using slotsD(2) [OF assms] by (auto simp: in_set_conv_nth)
  let ?k = "h + (i + c - h mod c) mod c"
  have c: "0 < c" using i by simp
  have le: "h mod c \<le> i + c" using c by (metis le_add2 le_trans mod_le_divisor)
  have "?k mod c = (h + (i + c - h mod c)) mod c" by (rule mod_add_right_eq)
  also have "\<dots> = (h mod c + (i + c - h mod c)) mod c" by (rule mod_add_left_eq [symmetric])
  also have "h mod c + (i + c - h mod c) = i + c" using le by simp
  also have "(i + c) mod c = i" using i by simp
  finally have k: "?k mod c = i" .
  have b: "h \<le> ?k" "?k < h + c" using c by simp_all
  show "t < c"
  proof (cases "?k < t")
    case True
    then show ?thesis using slots_pending(2) [OF assms b(1)] i(2) unfolding k by simp
  next
    case False
    then have "t \<le> ?k" by (rule leI)
    from slots_free(2) [OF assms this b(2)] i(2) have "?k < c" unfolding k by (rule iffD1)
    with False show ?thesis by linarith
  qed
next
  assume "t < c"
  then have "msg (buf ! t) = None"
    using slots_free(2) [OF assms, of t] slotsD(3,4) [OF assms] slots_cap [OF assms]
    by (cases "t < h + c") (auto simp: cap_ok_def)
  then show "\<exists>e\<in>set buf. msg e = None"
    using \<open>t < c\<close> slotsD(2) [OF assms] nth_mem [of t buf] by blast
qed

end
