(* ===== verification/Bounded.thy ===== *)
theory Bounded
  imports Waker Tickets
begin

text \<open>
  The trait \<^verbatim>\<open>Bounded\<close> of \<^verbatim>\<open>src/src/queue/bounded.rs\<close>. Both implementors
  have a buffer, a capacity and two wakers, the fields of \<^verbatim>\<open>ring\<close>; what they implement
  differently is a \<^verbatim>\<open>vtable\<close>. The default methods of the trait are written once over it, and
  the locale \<^verbatim>\<open>bounded_contract\<close> says what an implementor owes and proves the default methods
  correct.
\<close>

record 'a ring = threads +
  buffer :: "'a elem list"
  capacity :: u32
  read_waker :: waker
  write_waker :: waker

record 'q vtable =
  v_select_send :: "'q runtime \<Rightarrow> 'q clocked \<Rightarrow> ('q clocked \<times> nat \<times> u32 \<times> state) run"
  v_select_recv :: "'q runtime \<Rightarrow> 'q clocked \<Rightarrow> ('q clocked \<times> nat \<times> u32 \<times> bool) run"
  v_close :: "'q runtime \<Rightarrow> 'q clocked \<Rightarrow> 'q clocked run"
  v_is_close :: "'q \<Rightarrow> bool"
  v_length :: "'q \<Rightarrow> u32"

definition RETRIES :: nat where "RETRIES = 2"

text \<open>A bucket reference is its index; \<^verbatim>\<open>elem.atom_lap()\<close> is the address of its lap.\<close>

definition upd_elem :: "nat \<Rightarrow> ('a elem \<Rightarrow> 'a elem) \<Rightarrow> ('a, 'z) ring_scheme \<Rightarrow> ('a, 'z) ring_scheme" where
  "upd_elem i f q = q\<lparr>buffer := (buffer q)[i := f (buffer q ! i)]\<rparr>"

definition atom_load :: "('a, 'z) ring_scheme \<Rightarrow> nat \<Rightarrow> u32" where
  "atom_load q i = load_lap (buffer q ! i)"

text \<open>A \<^verbatim>\<open>Waiter\<close> lives on the stack of the calling thread, at address \<^term>\<open>p\<close>.\<close>

definition push_waiter :: "nat \<Rightarrow> waiter \<Rightarrow> ('a, 'z) ring_scheme \<Rightarrow> ('a, 'z) ring_scheme" where
  "push_waiter p w q = q\<lparr>stack := (stack q)(p \<mapsto> w)\<rparr>"

definition pop_waiter :: "nat \<Rightarrow> ('a, 'z) ring_scheme \<Rightarrow> ('a, 'z) ring_scheme" where
  "pop_waiter p q = q\<lparr>stack := (stack q)(p := None)\<rparr>"

definition register_writer_waiter ::
  "nat \<Rightarrow> waiter \<Rightarrow> ('a, 'z) ring_scheme \<Rightarrow> ('a, 'z) ring_scheme \<times> bool" where
  "register_writer_waiter p w q =
     (let (wk, b) = waker_register (atom_load q (atom w)) p w (write_waker q)
      in (q\<lparr>write_waker := wk\<rparr>, b))"

definition register_reader_waiter ::
  "nat \<Rightarrow> waiter \<Rightarrow> ('a, 'z) ring_scheme \<Rightarrow> ('a, 'z) ring_scheme \<times> bool" where
  "register_reader_waiter p w q =
     (let (wk, b) = waker_register (atom_load q (atom w)) p w (read_waker q)
      in (q\<lparr>read_waker := wk\<rparr>, b))"

definition unregister_writer_waiter :: "nat \<Rightarrow> ('a, 'z) ring_scheme \<Rightarrow> ('a, 'z) ring_scheme" where
  "unregister_writer_waiter p q = q\<lparr>write_waker := waker_unregister p (write_waker q)\<rparr>"

definition unregister_reader_waiter :: "nat \<Rightarrow> ('a, 'z) ring_scheme \<Rightarrow> ('a, 'z) ring_scheme" where
  "unregister_reader_waiter p q = q\<lparr>read_waker := waker_unregister p (read_waker q)\<rparr>"

definition wake_one_reader_if_any :: "('a, 'z) ring_scheme \<Rightarrow> ('a, 'z) ring_scheme outcome" where
  "wake_one_reader_if_any q =
     obind (waker_wake_one (stack q) (read_waker q)) (\<lambda>(wk, r).
       Ret (q\<lparr>read_waker := wk, woken := woken q @ r\<rparr>))"

definition wake_one_writer_if_any :: "('a, 'z) ring_scheme \<Rightarrow> ('a, 'z) ring_scheme outcome" where
  "wake_one_writer_if_any q =
     obind (waker_wake_one (stack q) (write_waker q)) (\<lambda>(wk, r).
       Ret (q\<lparr>write_waker := wk, woken := woken q @ r\<rparr>))"

section \<open>The default methods\<close>

definition try_send ::
  "('a, 'z) ring_scheme vtable \<Rightarrow> ('a, 'z) ring_scheme runtime \<Rightarrow> 'a \<Rightarrow> ('a, 'z) ring_scheme clocked \<Rightarrow>
    (('a, 'z) ring_scheme clocked \<times> (unit, 'a try_send_error) result) run" where
  "try_send vt rt m s =
     rbind (v_select_send vt rt s) (\<lambda>((k, q), i, l, st).
       if st = Success then
         rbind (Some (wake_one_reader_if_any (upd_elem i (elem_write (l + 1) m) q))) (\<lambda>q.
           ret ((k, q), Ok ()))
       else if st = Closed then ret ((k, q), Err (Disconnected m))
       else ret ((k, q), Err (Full m)))"

definition try_recv ::
  "('a, 'z) ring_scheme vtable \<Rightarrow> ('a, 'z) ring_scheme runtime \<Rightarrow> ('a, 'z) ring_scheme clocked \<Rightarrow>
    (('a, 'z) ring_scheme clocked \<times> ('a, try_recv_error) result) run" where
  "try_recv vt rt s =
     rbind (v_select_recv vt rt s) (\<lambda>((k, q), i, l, success).
       if \<not> success then ret ((k, q), Err TryRecvError)
       else rbind (Some (elem_read (l + 1) (buffer q ! i))) (\<lambda>(m, e).
         rbind (Some (wake_one_writer_if_any (upd_elem i (\<lambda>_. e) q))) (\<lambda>q.
           ret ((k, q), Ok m))))"

partial_function (option) send ::
  "('a, 'z) ring_scheme vtable \<Rightarrow> (('a, 'z) ring_scheme \<Rightarrow> bool) \<Rightarrow> ('a, 'z) ring_scheme runtime \<Rightarrow>
    nat \<Rightarrow> 'a \<Rightarrow> ('a, 'z) ring_scheme clocked \<Rightarrow>
    (('a, 'z) ring_scheme clocked \<times> (unit, 'a send_error) result) run" where
  "send vt ck rt p m s =
     rbind (v_select_send vt rt s) (\<lambda>((k, q), i, l, st).
       if st = Success then
         rbind (Some (wake_one_reader_if_any (upd_elem i (elem_write (l + 1) m) q))) (\<lambda>q.
           ret ((k, q), Ok ()))
       else if st = Closed then ret ((k, q), Err (SendError m))
       else
         rbind (retry ck atom_load rt (waiter_new i l) RETRIES
                  (k, push_waiter p (waiter_new i l) q)) (\<lambda>((k, q), st).
           if st = Success then send vt ck rt p m (k, pop_waiter p q)
           else if st = Closed then ret ((k, pop_waiter p q), Err (SendError m))
           else if snd (register_writer_waiter p (waiter_new i l) q) then
             rbind (sleep ck atom_load rt p (waiter_new i l)
                      (k, fst (register_writer_waiter p (waiter_new i l) q))) (\<lambda>((k, q), st).
               if st = Closed
               then ret ((k, pop_waiter p (unregister_writer_waiter p q)), Err (SendError m))
               else send vt ck rt p m (k, pop_waiter p (unregister_writer_waiter p q)))
           else send vt ck rt p m
                  (k, pop_waiter p (fst (register_writer_waiter p (waiter_new i l) q)))))"

text \<open>\<^term>\<open>state\<close> is the local variable that survives from one round of the loop to the next.\<close>

partial_function (option) recv_loop ::
  "('a, 'z) ring_scheme vtable \<Rightarrow> (('a, 'z) ring_scheme \<Rightarrow> bool) \<Rightarrow> ('a, 'z) ring_scheme runtime \<Rightarrow>
    nat \<Rightarrow> state \<Rightarrow> ('a, 'z) ring_scheme clocked \<Rightarrow>
    (('a, 'z) ring_scheme clocked \<times> ('a, recv_error) result) run" where
  "recv_loop vt ck rt p state s =
     rbind (v_select_recv vt rt s) (\<lambda>((k, q), i, l, success).
       if success then
         rbind (Some (elem_read (l + 1) (buffer q ! i))) (\<lambda>(m, e).
           rbind (Some (wake_one_writer_if_any (upd_elem i (\<lambda>_. e) q))) (\<lambda>q.
             ret ((k, q), Ok m)))
       else if state = Closed then ret ((k, q), Err RecvError)
       else
         rbind (retry ck atom_load rt (waiter_new i l) RETRIES
                  (k, push_waiter p (waiter_new i l) q)) (\<lambda>((k, q), st).
           if st = Success then recv_loop vt ck rt p st (k, pop_waiter p q)
           else if st = Closed then recv_loop vt ck rt p st (k, pop_waiter p q)
           else if snd (register_reader_waiter p (waiter_new i l) q) then
             rbind (sleep ck atom_load rt p (waiter_new i l)
                      (k, fst (register_reader_waiter p (waiter_new i l) q))) (\<lambda>((k, q), st).
               recv_loop vt ck rt p st (k, pop_waiter p (unregister_reader_waiter p q)))
           else recv_loop vt ck rt p st
                  (k, pop_waiter p (fst (register_reader_waiter p (waiter_new i l) q)))))"

definition recv ::
  "('a, 'z) ring_scheme vtable \<Rightarrow> (('a, 'z) ring_scheme \<Rightarrow> bool) \<Rightarrow> ('a, 'z) ring_scheme runtime \<Rightarrow>
    nat \<Rightarrow> ('a, 'z) ring_scheme clocked \<Rightarrow>
    (('a, 'z) ring_scheme clocked \<times> ('a, recv_error) result) run" where
  "recv vt ck rt p s = recv_loop vt ck rt p Success s"

end
