(* ===== verification/Contract.thy ===== *)
theory Contract
  imports Bounded
begin

text \<open>
  What an implementor of the trait \<^verbatim>\<open>Bounded\<close> owes to its default methods, as the locale
  \<^verbatim>\<open>bounded_contract\<close>, and the behaviour of the default methods proved from it: the queue is a
  FIFO list of at most \<^term>\<open>c\<close> messages.
\<close>

section \<open>The state both implementors share\<close>

definition ring_rel :: "nat \<Rightarrow> nat \<Rightarrow> nat \<Rightarrow> 'a list \<Rightarrow> ('a, 'z) ring_scheme \<Rightarrow> bool" where
  "ring_rel c h t ms q \<longleftrightarrow>
     slots c h t ms (buffer q) \<and> capacity q = word_of_nat c \<and>
     waker_ok (stack q) (read_waker q) \<and> waker_ok (stack q) (write_waker q)"

lemma ring_relD:
  assumes "ring_rel c h t ms q"
  shows "slots c h t ms (buffer q)" and "capacity q = word_of_nat c"
    and "waker_ok (stack q) (read_waker q)" and "waker_ok (stack q) (write_waker q)"
    and "cap_ok c" and "h \<le> t" and "t \<le> h + c" and "length ms = t - h"
  using assms slotsD by (auto simp: ring_rel_def)

text \<open>Two states with the same fields of \<^verbatim>\<open>ring\<close>.\<close>

definition same_ring :: "('a, 'z) ring_scheme \<Rightarrow> ('a, 'z) ring_scheme \<Rightarrow> bool" where
  "same_ring q q' \<longleftrightarrow> ring.truncate q = ring.truncate q'"

lemma same_ring_iff:
  "same_ring q q' \<longleftrightarrow> buffer q = buffer q' \<and> capacity q = capacity q' \<and> stack q = stack q' \<and>
     woken q = woken q' \<and> read_waker q = read_waker q' \<and> write_waker q = write_waker q'"
  by (auto simp: same_ring_def ring.truncate_def)

lemma same_ring_refl [simp]: "same_ring q q"
  by (simp add: same_ring_def)

lemma ring_rel_same: "ring_rel c h t ms q \<Longrightarrow> same_ring q q' \<Longrightarrow> ring_rel c h t ms q'"
  by (simp add: ring_rel_def same_ring_iff)

text \<open>
  An address that a call may use for its waiter: not in use. \<^const>\<open>waker_ok\<close> then says that no
  waker lists it.
\<close>

definition fresh :: "nat \<Rightarrow> ('a, 'z) ring_scheme \<Rightarrow> bool" where
  "fresh p q \<longleftrightarrow> stack q p = None"

lemma fresh_not_listed:
  assumes "fresh p q" and "waker_ok (stack q) wk"
  shows "p \<notin> set (waiters (guard wk))"
  using assms by (auto simp: fresh_def waker_ok_def md_ok_def)

lemma waker_ok_upd: "p \<notin> set (waiters (guard wk)) \<Longrightarrow> waker_ok (stk(p := x)) wk = waker_ok stk wk"
  by (auto simp: waker_ok_def md_ok_def)

lemma waker_ok_alive: "waker_ok stk wk \<Longrightarrow> waker_ok (stk(p \<mapsto> w)) wk"
  by (auto simp: waker_ok_def md_ok_def)

lemma set_parked_stack:
  "stack (set_parked p v q) = (stack q)(p := map_option (parked_update (\<lambda>_. v)) (stack q p))"
  by (simp add: set_parked_def)

lemma waker_ok_set_parked: "waker_ok (stack q) wk \<Longrightarrow> waker_ok (stack (set_parked p v q)) wk"
  by (auto simp: waker_ok_def md_ok_def set_parked_def)

lemma ring_sel_set_parked [simp]:
  "buffer (set_parked p v q) = buffer q" "capacity (set_parked p v q) = capacity q"
  "read_waker (set_parked p v q) = read_waker q" "write_waker (set_parked p v q) = write_waker q"
  "woken (set_parked p v q) = woken q"
  by (simp_all add: set_parked_def)

text \<open>Neither waker was closed.\<close>

definition open_wakers :: "('a, 'z) ring_scheme \<Rightarrow> bool" where
  "open_wakers q \<longleftrightarrow> \<not> md_closed (guard (read_waker q)) \<and> \<not> md_closed (guard (write_waker q))"

section \<open>Steps of the default methods on the shared state\<close>

lemma ring_rel_write:
  assumes R: "ring_rel c h t ms q" and "t < h + c"
  obtains q' where
    "wake_one_reader_if_any (upd_elem (t mod c) (elem_write (tkt_lap c t + 1) m) q) = Ret q'"
    and "ring_rel c h (Suc t) (ms @ [m]) q'"
    and "\<exists>wk wo. q' = q\<lparr>buffer := buffer q', read_waker := wk, woken := wo\<rparr>"
    and "waiters (guard (read_waker q')) = waiters (guard (read_waker q))"
    and "waiters (guard (write_waker q')) = waiters (guard (write_waker q))"
    and "stack q' = stack q" and "open_wakers q' = open_wakers q"
proof -
  let ?q = "upd_elem (t mod c) (elem_write (tkt_lap c t + 1) m) q"
  obtain wk r where wk: "waker_wake_one (stack q) (read_waker q) = Ret (wk, r)"
    and ok: "waker_ok (stack q) wk" and ws: "waiters (guard wk) = waiters (guard (read_waker q))"
      "md_closed (guard wk) = md_closed (guard (read_waker q))"
    by (rule waker_ok_wake_one [OF ring_relD(3) [OF R]])
  let ?q' = "?q\<lparr>read_waker := wk, woken := woken q @ r\<rparr>"
  show ?thesis
  proof (rule that)
    show "wake_one_reader_if_any ?q = Ret ?q'"
      using wk by (simp add: wake_one_reader_if_any_def upd_elem_def)
    show "ring_rel c h (Suc t) (ms @ [m]) ?q'"
      using R ok slots_push [OF ring_relD(1) [OF R] assms(2), of m]
      by (simp add: ring_rel_def upd_elem_def)
  qed (use ws in \<open>auto simp: upd_elem_def open_wakers_def\<close>)
qed

lemma ring_rel_read:
  assumes R: "ring_rel c h t ms q" and "h < t"
  obtains e q' where
    "elem_read (tkt_lap c h + 2) (buffer q ! (h mod c)) = Ret (hd ms, e)"
    and "wake_one_writer_if_any (upd_elem (h mod c) (\<lambda>_. e) q) = Ret q'"
    and "ring_rel c (Suc h) t (tl ms) q'"
    and "\<exists>wk wo. q' = q\<lparr>buffer := buffer q', write_waker := wk, woken := wo\<rparr>"
    and "waiters (guard (read_waker q')) = waiters (guard (read_waker q))"
    and "waiters (guard (write_waker q')) = waiters (guard (write_waker q))"
    and "stack q' = stack q" and "open_wakers q' = open_wakers q"
proof -
  let ?e = "(buffer q ! (h mod c))\<lparr>lap := tkt_lap c h + 2\<rparr>"
  let ?q = "upd_elem (h mod c) (\<lambda>_. ?e) q"
  obtain wk r where wk: "waker_wake_one (stack q) (write_waker q) = Ret (wk, r)"
    and ok: "waker_ok (stack q) wk" and ws: "waiters (guard wk) = waiters (guard (write_waker q))"
      "md_closed (guard wk) = md_closed (guard (write_waker q))"
    by (rule waker_ok_wake_one [OF ring_relD(4) [OF R]])
  let ?q' = "?q\<lparr>write_waker := wk, woken := woken q @ r\<rparr>"
  show ?thesis
  proof (rule that)
    show "elem_read (tkt_lap c h + 2) (buffer q ! (h mod c)) = Ret (hd ms, ?e)"
      using slots_hd [OF ring_relD(1) [OF R] assms(2)] by (simp add: elem_read_Some)
    show "wake_one_writer_if_any ?q = Ret ?q'"
      using wk by (simp add: wake_one_writer_if_any_def upd_elem_def)
    show "ring_rel c (Suc h) t (tl ms) ?q'"
      using R ok slots_pop [OF ring_relD(1) [OF R] assms(2)]
      by (simp add: ring_rel_def upd_elem_def)
  qed (use ws in \<open>auto simp: upd_elem_def open_wakers_def\<close>)
qed

text \<open>Who is registered, in both wakers.\<close>

definition reg_lists :: "('a, 'z) ring_scheme \<Rightarrow> nat list \<times> nat list" where
  "reg_lists q = (waiters (guard (read_waker q)), waiters (guard (write_waker q)))"

definition listed :: "('a, 'z) ring_scheme \<Rightarrow> nat set" where
  "listed q = set (fst (reg_lists q)) \<union> set (snd (reg_lists q))"

lemma ring_rel_push_waiter: "ring_rel c h t ms q \<Longrightarrow> ring_rel c h t ms (push_waiter p w q)"
  by (simp add: ring_rel_def push_waiter_def waker_ok_alive)

lemma ring_rel_pop_waiter:
  "ring_rel c h t ms q \<Longrightarrow> p \<notin> listed q \<Longrightarrow> ring_rel c h t ms (pop_waiter p q)"
  by (simp add: ring_rel_def pop_waiter_def listed_def reg_lists_def waker_ok_upd)

lemma reg_lists_simps [simp]:
  "reg_lists (push_waiter p w q) = reg_lists q" "reg_lists (pop_waiter p q) = reg_lists q"
  "reg_lists (set_parked p v q) = reg_lists q"
  by (simp_all add: reg_lists_def push_waiter_def pop_waiter_def)

lemma listed_simps [simp]:
  "listed (push_waiter p w q) = listed q" "listed (pop_waiter p q) = listed q"
  "listed (set_parked p v q) = listed q"
  by (simp_all add: listed_def)

lemma fresh_not_in_listed: "ring_rel c h t ms q \<Longrightarrow> fresh p q \<Longrightarrow> p \<notin> listed q"
  by (simp add: listed_def reg_lists_def fresh_not_listed ring_relD)

lemma ring_rel_register:
  assumes "ring_rel c h t ms q" and "p \<in> dom (stack q)" and "p \<notin> listed q"
  shows "ring_rel c h t ms (fst (register_reader_waiter p w q))"
    and "ring_rel c h t ms (fst (register_writer_waiter p w q))"
proof -
  have "waker_ok (stack q) (fst (waker_register cur p w wk))"
    if "waker_ok (stack q) wk" "p \<notin> set (waiters (guard wk))" for wk cur
    using waker_ok_register [OF that assms(2)] by (metis prod.collapse)
  then show "ring_rel c h t ms (fst (register_reader_waiter p w q))"
    and "ring_rel c h t ms (fst (register_writer_waiter p w q))"
    using assms by (simp_all add: ring_rel_def register_reader_waiter_def
        register_writer_waiter_def listed_def reg_lists_def split_beta)
qed

lemma ring_rel_unregister_pop:
  assumes "ring_rel c h t ms q"
  shows "p \<notin> set (waiters (guard (write_waker q))) \<Longrightarrow>
      ring_rel c h t ms (pop_waiter p (unregister_reader_waiter p q))"
    and "p \<notin> set (waiters (guard (read_waker q))) \<Longrightarrow>
      ring_rel c h t ms (pop_waiter p (unregister_writer_waiter p q))"
  using assms by (simp_all add: ring_rel_def pop_waiter_def unregister_reader_waiter_def
      unregister_writer_waiter_def waker_ok_upd waker_ok_unregister)

lemma waiters_register:
  "snd (waker_register cur p w wk) \<Longrightarrow>
     waiters (guard (fst (waker_register cur p w wk))) = waiters (guard wk) @ [p]"
  by (auto simp: waker_register_def md_register_def split: if_splits)

lemma waiters_no_register:
  "\<not> snd (waker_register cur p w wk) \<Longrightarrow> fst (waker_register cur p w wk) = wk"
  by (auto simp: waker_register_def split: if_splits)

lemma ring_rel_set_parked: "ring_rel c h t ms q \<Longrightarrow> ring_rel c h t ms (set_parked p v q)"
  by (simp add: ring_rel_def waker_ok_set_parked)

lemma atom_load_frame [simp]:
  "atom_load (push_waiter p w q) = atom_load q" "atom_load (pop_waiter p q) = atom_load q"
  "atom_load (set_parked p v q) = atom_load q"
  "atom_load (fst (register_reader_waiter p w q)) = atom_load q"
  "atom_load (fst (register_writer_waiter p w q)) = atom_load q"
  by (simp_all add: fun_eq_iff atom_load_def push_waiter_def pop_waiter_def
      register_reader_waiter_def register_writer_waiter_def split_beta)

section \<open>The contract\<close>

text \<open>
  \<^term>\<open>cur c h t b q\<close> says that the cursors of \<^term>\<open>q\<close> stand for the tickets \<^term>\<open>h\<close>
  and \<^term>\<open>t\<close> and that it is closed iff \<^term>\<open>b\<close>. The laws speak of runs that no other
  thread disturbs; what other threads do while a blocking call pauses is a matter of the
  environment, below.
\<close>

locale bounded_contract =
  fixes vt :: "('a, 'z) ring_scheme vtable"
    and cur :: "nat \<Rightarrow> nat \<Rightarrow> nat \<Rightarrow> bool \<Rightarrow> ('a, 'z) ring_scheme \<Rightarrow> bool"
  assumes cur_frame:
      "cur c h t b (q\<lparr>stack := stk\<rparr>) = cur c h t b q"
      "cur c h t b (q\<lparr>woken := wo\<rparr>) = cur c h t b q"
      "cur c h t b (q\<lparr>buffer := buf\<rparr>) = cur c h t b q"
      "cur c h t b (q\<lparr>read_waker := rw\<rparr>) = cur c h t b q"
      "cur c h t b (q\<lparr>write_waker := ww\<rparr>) = cur c h t b q"
    and select_send_open:
      "\<lbrakk>ring_rel c h t ms q; cur c h t False q; t < h + c; in_budget c t; live rt k\<rbrakk> \<Longrightarrow>
        \<exists>k' q'. v_select_send vt rt (k, q) = ret ((k', q'), t mod c, tkt_lap c t, Success) \<and>
          same_ring q q' \<and> cur c h (Suc t) False q'"
    and select_send_full:
      "\<lbrakk>ring_rel c h t ms q; cur c h t False q; t = h + c; in_budget c t\<rbrakk> \<Longrightarrow>
        v_select_send vt rt (k, q) = ret ((k, q), t mod c, tkt_lap c t - 1, Failed)"
    and select_send_closed:
      "\<lbrakk>ring_rel c h t ms q; cur c h t True q; in_budget c t\<rbrakk> \<Longrightarrow>
        v_select_send vt rt (k, q) = ret ((k, q), t mod c, 0, Closed)"
    and select_recv_some:
      "\<lbrakk>ring_rel c h t ms q; cur c h t b q; h < t; live rt k\<rbrakk> \<Longrightarrow>
        \<exists>k' q'. v_select_recv vt rt (k, q) = ret ((k', q'), h mod c, tkt_lap c h + 1, True) \<and>
          same_ring q q' \<and> cur c (Suc h) t b q'"
    and select_recv_none:
      "\<lbrakk>ring_rel c h t ms q; cur c h t b q; h = t\<rbrakk> \<Longrightarrow>
        v_select_recv vt rt (k, q) = ret ((k, q), h mod c, tkt_lap c h, False)"
    and is_close_cur:
      "\<lbrakk>cap_ok c; cur c h t b q; in_budget c t\<rbrakk> \<Longrightarrow> v_is_close vt q = b"
    and close_cur:
      "\<lbrakk>ring_rel c h t ms q; cur c h t b q; idle (read_waker q); idle (write_waker q); live rt k\<rbrakk> \<Longrightarrow>
        \<exists>k' q'. v_close vt rt (k, q) = ret (k', q') \<and> ring_rel c h t ms q' \<and> cur c h t True q' \<and>
          stack q' = stack q \<and> reg_lists q' = reg_lists q"
begin

lemmas frame = cur_frame

lemma cur_upd_elem: "cur c h t b (upd_elem i f q) = cur c h t b q"
  by (simp add: upd_elem_def cur_frame)

lemma cur_waiters:
  "cur c h t b (push_waiter p w q) = cur c h t b q"
  "cur c h t b (pop_waiter p q) = cur c h t b q"
  "cur c h t b (set_parked p v q) = cur c h t b q"
  "cur c h t b (fst (register_reader_waiter p w q)) = cur c h t b q"
  "cur c h t b (fst (register_writer_waiter p w q)) = cur c h t b q"
  "cur c h t b (unregister_reader_waiter p q) = cur c h t b q"
  "cur c h t b (unregister_writer_waiter p q) = cur c h t b q"
  by (simp_all add: push_waiter_def pop_waiter_def set_parked_def register_reader_waiter_def
      register_writer_waiter_def unregister_reader_waiter_def unregister_writer_waiter_def
      cur_frame split_beta)

lemma cur_wrote:
  assumes "q' = q\<lparr>buffer := buf, read_waker := wk, woken := wo\<rparr>"
  shows "cur c h t b q' = cur c h t b q"
  unfolding assms using cur_frame by (metis (no_types))

lemma cur_readed:
  assumes "q' = q\<lparr>buffer := buf, write_waker := wk, woken := wo\<rparr>"
  shows "cur c h t b q' = cur c h t b q"
  unfolding assms using cur_frame by (metis (no_types))

text \<open>The claimed bucket is written, and one reader is woken.\<close>

lemma send_commit:
  assumes "ring_rel c h t ms q" and "cur c h t False q" and "t < h + c" and "in_budget c t"
    and "live rt k"
  obtains k1 q1 q2 where
    "v_select_send vt rt (k, q) = ret ((k1, q1), t mod c, tkt_lap c t, Success)"
    and "wake_one_reader_if_any (upd_elem (t mod c) (elem_write (tkt_lap c t + 1) m) q1) = Ret q2"
    and "ring_rel c h (Suc t) (ms @ [m]) q2" and "cur c h (Suc t) False q2"
    and "stack q2 = stack q" and "reg_lists q2 = reg_lists q" and "open_wakers q2 = open_wakers q"
proof -
  from select_send_open [OF assms] obtain k1 q1 where
    q1: "v_select_send vt rt (k, q) = ret ((k1, q1), t mod c, tkt_lap c t, Success)"
      "same_ring q q1" "cur c h (Suc t) False q1" by blast
  from ring_rel_write [OF ring_rel_same [OF assms(1) q1(2)] assms(3), of m] obtain q2 wk wo where
    q2: "wake_one_reader_if_any (upd_elem (t mod c) (elem_write (tkt_lap c t + 1) m) q1) = Ret q2"
      "ring_rel c h (Suc t) (ms @ [m]) q2"
      "q2 = q1\<lparr>buffer := buffer q2, read_waker := wk, woken := wo\<rparr>"
      "waiters (guard (read_waker q2)) = waiters (guard (read_waker q1))"
      "waiters (guard (write_waker q2)) = waiters (guard (write_waker q1))"
      "stack q2 = stack q1" "open_wakers q2 = open_wakers q1" by metis
  show ?thesis
    by (rule that [OF q1(1) q2(1,2)])
      (use q1(2,3) q2(4-7) cur_wrote [OF q2(3)] in
        \<open>simp_all add: same_ring_iff reg_lists_def open_wakers_def\<close>)
qed

lemma recv_commit:
  assumes "ring_rel c h t ms q" and "cur c h t b q" and "h < t" and "live rt k"
  obtains k1 q1 e q2 where
    "v_select_recv vt rt (k, q) = ret ((k1, q1), h mod c, tkt_lap c h + 1, True)"
    and "elem_read (tkt_lap c h + 2) (buffer q1 ! (h mod c)) = Ret (hd ms, e)"
    and "wake_one_writer_if_any (upd_elem (h mod c) (\<lambda>_. e) q1) = Ret q2"
    and "ring_rel c (Suc h) t (tl ms) q2" and "cur c (Suc h) t b q2"
    and "stack q2 = stack q" and "reg_lists q2 = reg_lists q" and "open_wakers q2 = open_wakers q"
proof -
  from select_recv_some [OF assms] obtain k1 q1 where
    q1: "v_select_recv vt rt (k, q) = ret ((k1, q1), h mod c, tkt_lap c h + 1, True)"
      "same_ring q q1" "cur c (Suc h) t b q1" by blast
  from ring_rel_read [OF ring_rel_same [OF assms(1) q1(2)] assms(3)] obtain e q2 wk wo where
    q2: "elem_read (tkt_lap c h + 2) (buffer q1 ! (h mod c)) = Ret (hd ms, e)"
      "wake_one_writer_if_any (upd_elem (h mod c) (\<lambda>_. e) q1) = Ret q2"
      "ring_rel c (Suc h) t (tl ms) q2"
      "q2 = q1\<lparr>buffer := buffer q2, write_waker := wk, woken := wo\<rparr>"
      "waiters (guard (read_waker q2)) = waiters (guard (read_waker q1))"
      "waiters (guard (write_waker q2)) = waiters (guard (write_waker q1))"
      "stack q2 = stack q1" "open_wakers q2 = open_wakers q1" by metis
  show ?thesis
    by (rule that [OF q1(1) q2(1-3)])
      (use q1(2,3) q2(5-8) cur_readed [OF q2(4)] in
        \<open>simp_all add: same_ring_iff reg_lists_def open_wakers_def\<close>)
qed

lemma try_send_open:
  assumes "ring_rel c h t ms q" and "cur c h t False q" and "t < h + c" and "in_budget c t"
    and "live rt k"
  shows "\<exists>k' q'. try_send vt rt m (k, q) = ret ((k', q'), Ok ()) \<and>
    ring_rel c h (Suc t) (ms @ [m]) q' \<and> cur c h (Suc t) False q' \<and>
    stack q' = stack q \<and> reg_lists q' = reg_lists q \<and> open_wakers q' = open_wakers q"
  by (rule send_commit [OF assms, of m]) (simp add: try_send_def)

lemma try_send_full:
  assumes "ring_rel c h t ms q" and "cur c h t False q" and "t = h + c" and "in_budget c t"
  shows "try_send vt rt m (k, q) = ret ((k, q), Err (Full m))"
  using select_send_full [OF assms] by (simp add: try_send_def)

lemma try_send_closed:
  assumes "ring_rel c h t ms q" and "cur c h t True q" and "in_budget c t"
  shows "try_send vt rt m (k, q) = ret ((k, q), Err (Disconnected m))"
  using select_send_closed [OF assms] by (simp add: try_send_def)

lemma try_recv_some:
  assumes "ring_rel c h t ms q" and "cur c h t b q" and "h < t" and "live rt k"
  shows "\<exists>k' q'. try_recv vt rt (k, q) = ret ((k', q'), Ok (hd ms)) \<and>
    ring_rel c (Suc h) t (tl ms) q' \<and> cur c (Suc h) t b q' \<and>
    stack q' = stack q \<and> reg_lists q' = reg_lists q \<and> open_wakers q' = open_wakers q"
  by (rule recv_commit [OF assms]) (simp add: try_recv_def add.assoc)

lemma try_recv_none:
  assumes "ring_rel c h t ms q" and "cur c h t b q" and "h = t"
  shows "try_recv vt rt (k, q) = ret ((k, q), Err TryRecvError)"
  using select_recv_none [OF assms] by (simp add: try_recv_def)

lemma send_open:
  assumes "ring_rel c h t ms q" and "cur c h t False q" and "t < h + c" and "in_budget c t"
    and "live rt k"
  shows "\<exists>k' q'. send vt ck rt p m (k, q) = ret ((k', q'), Ok ()) \<and>
    ring_rel c h (Suc t) (ms @ [m]) q' \<and> cur c h (Suc t) False q' \<and>
    stack q' = stack q \<and> reg_lists q' = reg_lists q \<and> open_wakers q' = open_wakers q"
  by (rule send_commit [OF assms, of m]) (subst send.simps, simp)

lemma send_closed:
  assumes "ring_rel c h t ms q" and "cur c h t True q" and "in_budget c t"
  shows "send vt ck rt p m (k, q) = ret ((k, q), Err (SendError m))"
  using select_send_closed [OF assms] by (subst send.simps) simp

lemma recv_loop_some:
  assumes "ring_rel c h t ms q" and "cur c h t b q" and "h < t" and "live rt k"
  shows "\<exists>k' q'. recv_loop vt ck rt p st (k, q) = ret ((k', q'), Ok (hd ms)) \<and>
    ring_rel c (Suc h) t (tl ms) q' \<and> cur c (Suc h) t b q' \<and>
    stack q' = stack q \<and> reg_lists q' = reg_lists q \<and> open_wakers q' = open_wakers q"
  by (rule recv_commit [OF assms]) (subst recv_loop.simps, simp add: add.assoc)

lemma recv_loop_none_closed:
  assumes "ring_rel c h t ms q" and "cur c h t b q" and "h = t"
  shows "recv_loop vt ck rt p Closed (k, q) = ret ((k, q), Err RecvError)"
  using select_recv_none [OF assms] by (subst recv_loop.simps) simp

end

end
