(* ===== verification/Blocking.thy ===== *)
theory Blocking
  imports Contract
begin

text \<open>
  The blocking methods \<^verbatim>\<open>send\<close> and \<^verbatim>\<open>recv\<close> of the trait \<^verbatim>\<open>Bounded\<close> when they have to
  wait: with nobody else running they never return, and they return as soon as another thread has
  completed the operation they wait for, in whatever pause of \<^verbatim>\<open>retry\<close> or \<^verbatim>\<open>sleep\<close>
  that happens.
\<close>

text \<open>Registration on either side.\<close>

definition reg :: "bool \<Rightarrow> nat \<Rightarrow> waiter \<Rightarrow> ('a, 'z) ring_scheme \<Rightarrow> ('a, 'z) ring_scheme \<times> bool" where
  "reg rd p w q = (if rd then register_reader_waiter p w q else register_writer_waiter p w q)"

definition unreg :: "bool \<Rightarrow> nat \<Rightarrow> ('a, 'z) ring_scheme \<Rightarrow> ('a, 'z) ring_scheme" where
  "unreg rd p q = (if rd then unregister_reader_waiter p q else unregister_writer_waiter p q)"

lemma reg_simps:
  "reg True p w q = register_reader_waiter p w q" "reg False p w q = register_writer_waiter p w q"
  "unreg True p q = unregister_reader_waiter p q" "unreg False p q = unregister_writer_waiter p q"
  by (simp_all add: reg_def unreg_def)

lemma open_wakers_push [simp]: "open_wakers (push_waiter p w q) = open_wakers q"
  by (simp add: open_wakers_def push_waiter_def)

lemma reg_accepts:
  "open_wakers q \<Longrightarrow> atom_load q (atom w) = expected w \<Longrightarrow> snd (reg rd p w q)"
  by (simp add: reg_def open_wakers_def register_reader_waiter_def register_writer_waiter_def
      waker_register_def)

lemma reg_refuses: "\<not> snd (reg rd p w q) \<Longrightarrow> fst (reg rd p w q) = q"
  by (auto simp: reg_def register_reader_waiter_def register_writer_waiter_def split_beta
      dest: waiters_no_register split: if_splits)

lemma reg_stack [simp]: "stack (fst (reg rd p w q)) = stack q"
  by (simp add: reg_def register_reader_waiter_def register_writer_waiter_def split_beta)

lemma reg_lists_reg:
  "snd (reg rd p w q) \<Longrightarrow> reg_lists (fst (reg rd p w q)) =
     (if rd then (fst (reg_lists q) @ [p], snd (reg_lists q))
      else (fst (reg_lists q), snd (reg_lists q) @ [p]))"
  by (auto simp: reg_def reg_lists_def register_reader_waiter_def register_writer_waiter_def
      split_beta waiters_register split: if_splits)

lemma reg_lists_unreg:
  "reg_lists (unreg rd p q) =
     (if rd then (remove1 p (fst (reg_lists q)), snd (reg_lists q))
      else (fst (reg_lists q), remove1 p (snd (reg_lists q))))"
  by (simp add: unreg_def reg_lists_def unregister_reader_waiter_def
      unregister_writer_waiter_def waker_unregister_def Let_def)

lemma fresh_pop [simp]: "fresh p (pop_waiter p q)"
  by (simp add: fresh_def pop_waiter_def)

lemma ring_rel_reg:
  "ring_rel c h t ms q \<Longrightarrow> p \<in> dom (stack q) \<Longrightarrow> p \<notin> listed q \<Longrightarrow>
     ring_rel c h t ms (fst (reg rd p w q))"
  by (simp add: reg_def ring_rel_register)

lemma ring_rel_unreg_pop:
  "ring_rel c h t ms q \<Longrightarrow> p \<notin> set ((if rd then snd else fst) (reg_lists q)) \<Longrightarrow>
     ring_rel c h t ms (pop_waiter p (unreg rd p q))"
  using ring_rel_unregister_pop [of c h t ms q p] by (simp add: reg_lists_def unreg_def split: if_splits)

lemma dom_push_waiter [simp]: "p \<in> dom (stack (push_waiter p w q))"
  by (simp add: push_waiter_def)

context bounded_contract
begin

abbreviation rel :: "nat \<Rightarrow> nat \<Rightarrow> nat \<Rightarrow> 'a list \<Rightarrow> bool \<Rightarrow> ('a, 'z) ring_scheme \<Rightarrow> bool" where
  "rel c h t ms b q \<equiv> ring_rel c h t ms q \<and> cur c h t b q"

lemma cur_reg: "cur c h t b (fst (reg rd p w q)) = cur c h t b q"
  "cur c h t b (unreg rd p q) = cur c h t b q"
  by (simp_all add: reg_def unreg_def cur_waiters)

lemma rel_push: "rel c h t ms b q \<Longrightarrow> rel c h t ms b (push_waiter p w q)"
  by (simp add: ring_rel_push_waiter cur_waiters)

lemma rel_pop: "rel c h t ms b q \<Longrightarrow> p \<notin> listed q \<Longrightarrow> rel c h t ms b (pop_waiter p q)"
  by (simp add: ring_rel_pop_waiter cur_waiters)

lemma rel_parked: "rel c h t ms b q \<Longrightarrow> rel c h t ms b (set_parked p v q)"
  by (simp add: ring_rel_set_parked cur_waiters)

lemma rel_reg:
  "rel c h t ms b q \<Longrightarrow> p \<in> dom (stack q) \<Longrightarrow> p \<notin> listed q \<Longrightarrow> rel c h t ms b (fst (reg rd p w q))"
  by (simp add: ring_rel_reg cur_reg)

lemma rel_unreg_pop:
  "rel c h t ms b q \<Longrightarrow> p \<notin> set ((if rd then snd else fst) (reg_lists q)) \<Longrightarrow>
     rel c h t ms b (pop_waiter p (unreg rd p q))"
  using ring_rel_unreg_pop [of c h t ms q p rd] by (simp add: cur_waiters cur_reg)

text \<open>What a waiter of a reader or a writer notices.\<close>

lemma notices_closed:
  "rel c h t ms True q \<Longrightarrow> in_budget c t \<Longrightarrow> notices (v_is_close vt) ld w q = Some Closed"
  using is_close_cur [of c h t True q] ring_relD(5) [of c h t ms q] by (simp add: notices_def)

lemma notices_open:
  "rel c h t ms False q \<Longrightarrow> in_budget c t \<Longrightarrow> notices (v_is_close vt) atom_load (waiter_new i l) q =
     (if lap (buffer q ! i) \<noteq> l then Some Success else None)"
  using is_close_cur [of c h t False q] ring_relD(5) [of c h t ms q]
  by (simp add: notices_def atom_load_def load_lap_def)

lemma reader_waits:
  assumes "rel c t t [] False q" and "in_budget c t"
  shows "notices (v_is_close vt) atom_load (waiter_new (t mod c) (tkt_lap c t)) q = None"
  using notices_open [OF assms] slots_free [of c t t "[]" "buffer q" t] assms(1)
    ring_relD(1,5) [of c t t "[]" q] by (simp add: cap_ok_def)

lemma reader_arrival:
  assumes "rel c t (Suc t) [m] False q" and "in_budget c (Suc t)"
  shows "notices (v_is_close vt) atom_load (waiter_new (t mod c) (tkt_lap c t)) q = Some Success"
  using notices_open [OF assms] slots_pending(1) [of c t "Suc t" "[m]" "buffer q" t] assms(1)
    ring_relD(1) [of c t "Suc t" "[m]" q] by simp

lemma writer_waits:
  assumes "rel c h (h + c) ms False q" and "in_budget c (h + c)"
  shows "notices (v_is_close vt) atom_load
    (waiter_new (h mod c) (tkt_lap c (h + c) - 1)) q = None"
  using notices_open [OF assms] slots_full [of c h "h + c" ms "buffer q"] assms(1)
    ring_relD(1) [of c h "h + c" ms q] by simp

lemma writer_room:
  assumes "rel c (Suc h) (h + c) ms False q" and "in_budget c (h + c)"
  shows "notices (v_is_close vt) atom_load
    (waiter_new (h mod c) (tkt_lap c (h + c) - 1)) q = Some Success"
  using notices_open [OF assms] slots_free [of c "Suc h" "h + c" ms "buffer q" "h + c"] assms(1)
    ring_relD(1) [of c "Suc h" "h + c" ms q] by simp

section \<open>The waiting phase of a blocking call\<close>

text \<open>
  The text both methods have in common after a failed selection, with \<^term>\<open>F\<close> for what
  follows: it hands on the state that the \<^term>\<open>n\<close>-th pause produced, with the waiter
  unregistered and gone.
\<close>

lemma wait_phase:
  fixes F :: "state \<Rightarrow> ('a, 'z) ring_scheme clocked \<Rightarrow> 'r run"
  defines "ck \<equiv> v_is_close vt"
  assumes R: "rel c h t ms False q" and fr: "fresh p q" and ow: "open_wakers q"
    and N: "\<And>q'. rel c h t ms False q' \<Longrightarrow> notices ck atom_load w q' = None"
    and E: "\<And>q'. rel c h t ms False q' \<Longrightarrow> rel c h' t' ms' b' (env rt n q') \<and>
        stack (env rt n q') = stack q' \<and> reg_lists (env rt n q') = reg_lists q'"
    and N': "\<And>q'. rel c h' t' ms' b' q' \<Longrightarrow> notices ck atom_load w q' = Some st0"
    and st0: "st0 \<noteq> Failed"
    and Q: "quiet_until rt k n"
  shows "\<exists>st q''.
    rbind (retry ck atom_load rt w r (k, push_waiter p w q)) (\<lambda>((k, q), st).
      if st = Success then F st (k, pop_waiter p q)
      else if st = Closed then F st (k, pop_waiter p q)
      else if snd (reg rd p w q) then
        rbind (sleep ck atom_load rt p w (k, fst (reg rd p w q))) (\<lambda>((k, q), st).
          F st (k, pop_waiter p (unreg rd p q)))
      else F st (k, pop_waiter p (fst (reg rd p w q)))) = F st (Suc n, q'') \<and>
    rel c h' t' ms' b' q'' \<and> fresh p q'' \<and> reg_lists q'' = reg_lists q \<and> (st = st0 \<or> st = Failed)"
proof -
  let ?q0 = "push_waiter p w q" and ?g = "env rt n"
  have R0: "rel c h t ms False ?q0" by (rule rel_push [OF R])
  have nl: "p \<notin> listed q" using fresh_not_in_listed R fr by blast
  have N0: "notices ck atom_load w ?q0 = None" by (rule N [OF R0])
  note E0 = E [OF R0]
  have nl2: "p \<notin> listed (?g ?q0)" using E0 nl by (simp add: listed_def)
  have st_cases: "st0 = Success \<or> st0 = Closed" using st0 by (cases st0) auto
  \<comment> \<open>registered in state \<open>q1\<close>, woken in \<open>q2\<close>: unregistering and leaving restores the lists\<close>
  have leave: "rel c h' t' ms' b' (pop_waiter p (unreg rd p q2)) \<and>
      reg_lists (pop_waiter p (unreg rd p q2)) = reg_lists q"
    if "rel c h' t' ms' b' q2" "reg_lists q2 = reg_lists (fst (reg rd p w q1))"
      "reg_lists q1 = reg_lists q" "snd (reg rd p w q1)" for q1 q2
    using that nl rel_unreg_pop [OF that(1), of p rd]
    by (cases "reg_lists q"; cases rd)
      (simp_all add: reg_lists_reg reg_lists_unreg listed_def remove1_append)
  from retry_until [OF Q N0 N' [OF conjunct1 [OF E0]], where m = r] consider
      k' where "k \<le> k'" "k' \<le> n" "retry ck atom_load rt w r (k, ?q0) = ret ((k', ?q0), Failed)"
    | "retry ck atom_load rt w r (k, ?q0) = ret ((Suc n, ?g ?q0), Failed)"
    | "retry ck atom_load rt w r (k, ?q0) = ret ((Suc n, ?g ?q0), st0)"
    by blast
  then show ?thesis
  proof cases
    case 1
    let ?q1 = "fst (reg rd p w ?q0)"
    let ?q2 = "?g (set_parked p PARKED ?q1)"
    have ok: "snd (reg rd p w ?q0)"
      using N0 ow by (intro reg_accepts) (simp_all add: notices_def split: if_splits)
    have R1: "rel c h t ms False ?q1"
      using nl by (intro rel_reg [OF R0]) simp_all
    note E1 = E [OF rel_parked [OF R1, of p PARKED]]
    have "sleep ck atom_load rt p w (k', ?q1) = ret ((Suc n, set_parked p UN_PARKED ?q2), st0)"
      using N [OF R1] N [OF rel_parked [OF R1]] N' E1
      by (intro sleep_until [OF quiet_until_later [OF Q 1(1,2)]]) auto
    moreover have "rel c h' t' ms' b' (set_parked p UN_PARKED ?q2)"
      using E1 by (intro rel_parked) blast
    then have "rel c h' t' ms' b' (pop_waiter p (unreg rd p (set_parked p UN_PARKED ?q2))) \<and>
        reg_lists (pop_waiter p (unreg rd p (set_parked p UN_PARKED ?q2))) = reg_lists q"
      using E1 ok by (intro leave [where ?q1.0 = ?q0]) simp_all
    ultimately show ?thesis
      using 1(3) ok
      by (intro exI [of _ st0] exI [of _ "pop_waiter p (unreg rd p (set_parked p UN_PARKED ?q2))"])
        simp
  next
    case 2
    show ?thesis
    proof (cases "snd (reg rd p w (?g ?q0))")
      case True
      let ?q3 = "set_parked p UN_PARKED (fst (reg rd p w (?g ?q0)))"
      have R3: "rel c h' t' ms' b' (fst (reg rd p w (?g ?q0)))"
        using E0 nl2 by (intro rel_reg) simp_all
      have "sleep ck atom_load rt p w (Suc n, fst (reg rd p w (?g ?q0))) = ret ((Suc n, ?q3), st0)"
        using N' [OF R3] by (simp add: sleep_notices)
      moreover have "rel c h' t' ms' b' (pop_waiter p (unreg rd p ?q3)) \<and>
          reg_lists (pop_waiter p (unreg rd p ?q3)) = reg_lists q"
        using rel_parked [OF R3] E0 True by (intro leave [where ?q1.0 = "?g ?q0"]) simp_all
      ultimately show ?thesis
        using 2 True by (intro exI [of _ st0] exI [of _ "pop_waiter p (unreg rd p ?q3)"]) simp
    next
      case False
      then show ?thesis
        using 2 reg_refuses [OF False] rel_pop [OF conjunct1 [OF E0] nl2] E0
        by (intro exI [of _ Failed] exI [of _ "pop_waiter p (?g ?q0)"]) simp
    qed
  next
    case 3
    then show ?thesis
      using st_cases rel_pop [OF conjunct1 [OF E0] nl2] E0
      by (intro exI [of _ st0] exI [of _ "pop_waiter p (?g ?q0)"]) auto
  qed
qed

section \<open>Receiving\<close>

lemma recv_loop_blocks:
  assumes "rel c t t [] False q" and "st \<noteq> Closed"
  shows "recv_loop vt ck rt p st (k, q) =
    rbind (retry ck atom_load rt (waiter_new (t mod c) (tkt_lap c t)) RETRIES
            (k, push_waiter p (waiter_new (t mod c) (tkt_lap c t)) q)) (\<lambda>((k, q), st).
      if st = Success then recv_loop vt ck rt p st (k, pop_waiter p q)
      else if st = Closed then recv_loop vt ck rt p st (k, pop_waiter p q)
      else if snd (reg True p (waiter_new (t mod c) (tkt_lap c t)) q) then
        rbind (sleep ck atom_load rt p (waiter_new (t mod c) (tkt_lap c t))
                 (k, fst (reg True p (waiter_new (t mod c) (tkt_lap c t)) q))) (\<lambda>((k, q), st).
          recv_loop vt ck rt p st (k, pop_waiter p (unreg True p q)))
      else recv_loop vt ck rt p st
             (k, pop_waiter p (fst (reg True p (waiter_new (t mod c) (tkt_lap c t)) q))))"
  using select_recv_none [of c t t "[]" q False rt k] assms
  unfolding reg_simps by (subst recv_loop.simps) simp

lemma recv_wait_phase:
  assumes R: "rel c t t [] False q" and st: "st \<noteq> Closed" and fr: "fresh p q"
    and ow: "open_wakers q" and B: "in_budget c t" and Q: "quiet_until rt k n"
    and E: "\<And>q'. rel c t t [] False q' \<Longrightarrow> rel c t t' ms' b' (env rt n q') \<and>
        stack (env rt n q') = stack q' \<and> reg_lists (env rt n q') = reg_lists q'"
    and N': "\<And>q'. rel c t t' ms' b' q' \<Longrightarrow> notices (v_is_close vt) atom_load
        (waiter_new (t mod c) (tkt_lap c t)) q' = Some st0" and st0: "st0 \<noteq> Failed"
  shows "\<exists>st' q''. recv_loop vt (v_is_close vt) rt p st (k, q) =
      recv_loop vt (v_is_close vt) rt p st' (Suc n, q'') \<and>
    rel c t t' ms' b' q'' \<and> fresh p q'' \<and> reg_lists q'' = reg_lists q \<and>
    (st' = st0 \<or> st' = Failed)"
  unfolding recv_loop_blocks [OF R st]
  by (rule wait_phase [where F = "recv_loop vt (v_is_close vt) rt p" and rd = True,
        OF R fr ow reader_waits [OF _ B] E N' st0 Q])

lemma recv_woken_by_arrival:
  assumes R: "rel c t t [] False q" and st: "st \<noteq> Closed" and fr: "fresh p q"
    and ow: "open_wakers q" and B: "in_budget c (Suc t)"
    and Q: "quiet_until rt k n" and L: "live rt (Suc n)"
    and E: "\<And>q'. rel c t t [] False q' \<Longrightarrow> rel c t (Suc t) [m] False (env rt n q') \<and>
        stack (env rt n q') = stack q' \<and> reg_lists (env rt n q') = reg_lists q'"
  shows "\<exists>k' q'. recv_loop vt (v_is_close vt) rt p st (k, q) = ret ((k', q'), Ok m) \<and>
    rel c (Suc t) (Suc t) [] False q' \<and> reg_lists q' = reg_lists q"
proof -
  have B': "in_budget c t"
    using B div_le_mono [of t "Suc t" c] unfolding in_budget_def by linarith
  have N: "notices (v_is_close vt) atom_load (waiter_new (t mod c) (tkt_lap c t)) q' = Some Success"
    if "rel c t (Suc t) [m] False q'" for q' by (rule reader_arrival [OF that B])
  from recv_wait_phase [OF R st fr ow B' Q E N]
  obtain st' q2 where eq: "recv_loop vt (v_is_close vt) rt p st (k, q) =
        recv_loop vt (v_is_close vt) rt p st' (Suc n, q2)"
      and R2: "rel c t (Suc t) [m] False q2" and l2: "reg_lists q2 = reg_lists q"
    by auto
  from recv_loop_some [OF conjunct1 [OF R2] conjunct2 [OF R2] _ L] obtain k' q' where
    "recv_loop vt (v_is_close vt) rt p st' (Suc n, q2) = ret ((k', q'), Ok m)"
    "rel c (Suc t) (Suc t) [] False q'" "reg_lists q' = reg_lists q2" by fastforce
  with eq l2 show ?thesis by auto
qed

lemma recv_loop_closed:
  assumes R: "rel c t t [] True q" and fr: "fresh p q" and B: "in_budget c t"
  shows "\<exists>q'. recv_loop vt (v_is_close vt) rt p st (k, q) = ret ((k, q'), Err RecvError) \<and>
    rel c t t [] True q' \<and> reg_lists q' = reg_lists q \<and> stack q' = stack q"
proof (cases "st = Closed")
  case True
  then show ?thesis using recv_loop_none_closed R by auto
next
  case False
  let ?w = "waiter_new (t mod c) (tkt_lap c t)"
  let ?q0 = "push_waiter p ?w q"
  have R0: "rel c t t [] True ?q0" by (rule rel_push [OF R])
  have R1: "rel c t t [] True (pop_waiter p ?q0)"
    using fresh_not_in_listed [OF conjunct1 [OF R] fr] by (intro rel_pop [OF R0]) simp
  have "recv_loop vt (v_is_close vt) rt p st (k, q) =
      recv_loop vt (v_is_close vt) rt p Closed (k, pop_waiter p ?q0)"
    using select_recv_none [of c t t "[]" q True rt k] R False
      retry_notices [of RETRIES "v_is_close vt" atom_load ?w "(k, ?q0)" Closed rt]
      notices_closed [OF R0 B]
    by (subst recv_loop.simps) (simp add: RETRIES_def)
  moreover have "stack (pop_waiter p ?q0) = stack q"
    using fr by (auto simp: fresh_def push_waiter_def pop_waiter_def)
  ultimately show ?thesis using recv_loop_none_closed [of c t t "[]"] R1 by auto
qed

lemma recv_woken_by_close:
  assumes R: "rel c t t [] False q" and st: "st \<noteq> Closed" and fr: "fresh p q"
    and ow: "open_wakers q" and B: "in_budget c t"
    and Q: "quiet_until rt k n"
    and E: "\<And>q'. rel c t t [] False q' \<Longrightarrow> rel c t t [] True (env rt n q') \<and>
        stack (env rt n q') = stack q' \<and> reg_lists (env rt n q') = reg_lists q'"
  shows "\<exists>k' q'. recv_loop vt (v_is_close vt) rt p st (k, q) = ret ((k', q'), Err RecvError) \<and>
    rel c t t [] True q' \<and> reg_lists q' = reg_lists q"
proof -
  have N: "notices (v_is_close vt) atom_load (waiter_new (t mod c) (tkt_lap c t)) q' = Some Closed"
    if "rel c t t [] True q'" for q' by (rule notices_closed [OF that B])
  from recv_wait_phase [OF R st fr ow B Q E N]
  obtain st' q2 where eq: "recv_loop vt (v_is_close vt) rt p st (k, q) =
        recv_loop vt (v_is_close vt) rt p st' (Suc n, q2)"
      and R2: "rel c t t [] True q2" "fresh p q2" and l2: "reg_lists q2 = reg_lists q"
    by auto
  from recv_loop_closed [OF R2 B, of rt st' "Suc n"] eq l2 show ?thesis by auto
qed

lemma recv_loop_diverges:
  assumes "quiet rt" and B: "in_budget c t"
    and "rel c t t [] False q" and "fresh p q" and "st \<noteq> Closed"
  shows "diverges (recv_loop vt (v_is_close vt) rt p st (k, q))"
proof (rule ccontr)
  let ?Q = "\<lambda>vt' ck rt' p' st s. vt' = vt \<and> ck = v_is_close vt \<and> rt' = rt \<and> p' = p \<and>
    st \<noteq> Closed \<and> rel c t t [] False (snd s) \<and> fresh p (snd s)"
  let ?w = "waiter_new (t mod c) (tkt_lap c t)"
  assume "recv_loop vt (v_is_close vt) rt p st (k, q) \<noteq> None"
  then obtain r where "recv_loop vt (v_is_close vt) rt p st (k, q) = Some r" by blast
  then have "\<not> ?Q vt (v_is_close vt) rt p st (k, q)"
  proof (rule recv_loop.raw_induct [where
        P = "\<lambda>vt' ck rt' p' st s r. \<not> ?Q vt' ck rt' p' st s", rotated], goal_cases)
    case (1 f vt' ck rt' p' st s r)
    show ?case
    proof
      assume Q: "?Q vt' ck rt' p' st s"
      obtain k q where s: "s = (k, q)" by (cases s)
      let ?q0 = "push_waiter p ?w q"
      have R: "rel c t t [] False q" and fr: "fresh p q" using Q s by auto
      have R0: "rel c t t [] False ?q0" by (rule rel_push [OF R])
      note N0 = reader_waits [OF R0 B]
      let ?G = "\<lambda>((k, q), st).
           if st = Success then f vt' ck rt' p' st (k, pop_waiter p q)
           else if st = Closed then f vt' ck rt' p' st (k, pop_waiter p q)
           else if snd (reg True p ?w q) then
             rbind (sleep ck atom_load rt p ?w (k, fst (reg True p ?w q))) (\<lambda>((k, q), st).
               f vt' ck rt' p' st (k, pop_waiter p (unregister_reader_waiter p q)))
           else f vt' ck rt' p' st (k, pop_waiter p (fst (reg True p ?w q)))"
      from 1(2) Q s have eq: "rbind (retry (v_is_close vt) atom_load rt ?w RETRIES (k, ?q0)) ?G = Some r"
        using select_recv_none [of c t t "[]" q False rt k] unfolding reg_simps
        by (simp cong del: if_weak_cong)
      then obtain r' where "retry (v_is_close vt) atom_load rt ?w RETRIES (k, ?q0) = Some r'"
        by (cases "retry (v_is_close vt) atom_load rt ?w RETRIES (k, ?q0)") simp_all
      with retry_quiet [OF assms(1), of "v_is_close vt" atom_load ?w "(k, ?q0)" RETRIES r'] N0
      obtain k' where "retry (v_is_close vt) atom_load rt ?w RETRIES (k, ?q0) = ret ((k', ?q0), Failed)"
        by auto
      with eq have eq2: "?G ((k', ?q0), Failed) = Some r" by simp
      have nl: "p \<notin> listed ?q0" using fresh_not_in_listed [OF conjunct1 [OF R] fr] by simp
      show False
      proof (cases "snd (reg True p ?w ?q0)")
        case True
        have R1: "rel c t t [] False (fst (reg True p ?w ?q0))" using nl by (intro rel_reg [OF R0]) simp_all
        have "diverges (sleep (v_is_close vt) atom_load rt p ?w (k', fst (reg True p ?w ?q0)))"
          using reader_waits [OF R1 B] reader_waits [OF rel_parked [OF R1] B]
          by (intro sleep_quiet [OF assms(1)]) simp_all
        with eq2 True Q show False by simp
      next
        case False
        have "rel c t t [] False (pop_waiter p ?q0)" by (rule rel_pop [OF R0 nl])
        with 1(1) [of vt' ck rt' p' Failed "(k', pop_waiter p ?q0)" r] eq2 False reg_refuses [OF False] Q
        show False by simp
      qed
    qed
  qed
  with assms show False by simp
qed

section \<open>Sending\<close>

abbreviation full_waiter :: "nat \<Rightarrow> nat \<Rightarrow> waiter" where
  "full_waiter c h \<equiv> waiter_new (h mod c) (tkt_lap c (h + c) - 1)"

lemma send_blocks:
  assumes "rel c h (h + c) ms False q" and "in_budget c (h + c)"
  shows "send vt ck rt p m (k, q) =
    rbind (retry ck atom_load rt (full_waiter c h) RETRIES
            (k, push_waiter p (full_waiter c h) q)) (\<lambda>((k, q), st).
      if st = Success then send vt ck rt p m (k, pop_waiter p q)
      else if st = Closed then ret ((k, pop_waiter p q), Err (SendError m))
      else if snd (reg False p (full_waiter c h) q) then
        rbind (sleep ck atom_load rt p (full_waiter c h)
                 (k, fst (reg False p (full_waiter c h) q))) (\<lambda>((k, q), st).
          if st = Closed then ret ((k, pop_waiter p (unreg False p q)), Err (SendError m))
          else send vt ck rt p m (k, pop_waiter p (unreg False p q)))
      else send vt ck rt p m (k, pop_waiter p (fst (reg False p (full_waiter c h) q))))"
  using select_send_full [of c h "h + c" ms q rt k] assms
  unfolding reg_simps by (subst send.simps) simp

lemma send_wait_phase:
  assumes R: "rel c h (h + c) ms False q" and fr: "fresh p q" and ow: "open_wakers q"
    and B: "in_budget c (h + c)" and Q: "quiet_until rt k n"
    and E: "\<And>q'. rel c h (h + c) ms False q' \<Longrightarrow> rel c h' (h + c) ms' b' (env rt n q') \<and>
        stack (env rt n q') = stack q' \<and> reg_lists (env rt n q') = reg_lists q'"
    and N': "\<And>q'. rel c h' (h + c) ms' b' q' \<Longrightarrow>
        notices (v_is_close vt) atom_load (full_waiter c h) q' = Some st0" and st0: "st0 \<noteq> Failed"
  shows "\<exists>st q''. send vt (v_is_close vt) rt p m (k, q) =
      (if st = Closed then ret ((Suc n, q''), Err (SendError m))
       else send vt (v_is_close vt) rt p m (Suc n, q'')) \<and>
    rel c h' (h + c) ms' b' q'' \<and> fresh p q'' \<and> reg_lists q'' = reg_lists q \<and>
    (st = st0 \<or> st = Failed)"
proof -
  let ?F = "\<lambda>st s. if st = Closed then ret (s, Err (SendError m))
     else send vt (v_is_close vt) rt p m s"
  have eq: "send vt (v_is_close vt) rt p m (k, q) =
    rbind (retry (v_is_close vt) atom_load rt (full_waiter c h) RETRIES
            (k, push_waiter p (full_waiter c h) q)) (\<lambda>((k, q), st).
      if st = Success then ?F st (k, pop_waiter p q)
      else if st = Closed then ?F st (k, pop_waiter p q)
      else if snd (reg False p (full_waiter c h) q) then
        rbind (sleep (v_is_close vt) atom_load rt p (full_waiter c h)
                 (k, fst (reg False p (full_waiter c h) q))) (\<lambda>((k, q), st).
          ?F st (k, pop_waiter p (unreg False p q)))
      else ?F st (k, pop_waiter p (fst (reg False p (full_waiter c h) q))))"
    unfolding send_blocks [OF R B] by (intro rbind_cong) auto
  show ?thesis
    unfolding eq
    by (rule wait_phase [where F = ?F and rd = False, OF R fr ow writer_waits [OF _ B] E N' st0 Q])
qed

lemma send_woken_by_room:
  assumes R: "rel c h (h + c) ms False q" and fr: "fresh p q" and ow: "open_wakers q"
    and B: "in_budget c (h + c)" and Q: "quiet_until rt k n" and L: "live rt (Suc n)"
    and E: "\<And>q'. rel c h (h + c) ms False q' \<Longrightarrow> rel c (Suc h) (h + c) (tl ms) False (env rt n q') \<and>
        stack (env rt n q') = stack q' \<and> reg_lists (env rt n q') = reg_lists q'"
  shows "\<exists>k' q'. send vt (v_is_close vt) rt p m (k, q) = ret ((k', q'), Ok ()) \<and>
    rel c (Suc h) (Suc (h + c)) (tl ms @ [m]) False q' \<and> reg_lists q' = reg_lists q"
proof -
  have N: "notices (v_is_close vt) atom_load (full_waiter c h) q' = Some Success"
    if "rel c (Suc h) (h + c) (tl ms) False q'" for q' by (rule writer_room [OF that B])
  from send_wait_phase [OF R fr ow B Q E N, of m]
  obtain q2 where eq: "send vt (v_is_close vt) rt p m (k, q) =
        send vt (v_is_close vt) rt p m (Suc n, q2)"
      and R2: "rel c (Suc h) (h + c) (tl ms) False q2" and l2: "reg_lists q2 = reg_lists q"
    by (auto split: if_splits)
  have "h + c < Suc h + c" by simp
  from send_open [OF conjunct1 [OF R2] conjunct2 [OF R2] this B L, of "v_is_close vt" p m] eq l2
  show ?thesis by auto
qed

lemma send_woken_by_close:
  assumes R: "rel c h (h + c) ms False q" and fr: "fresh p q" and ow: "open_wakers q"
    and B: "in_budget c (h + c)" and Q: "quiet_until rt k n"
    and E: "\<And>q'. rel c h (h + c) ms False q' \<Longrightarrow> rel c h (h + c) ms True (env rt n q') \<and>
        stack (env rt n q') = stack q' \<and> reg_lists (env rt n q') = reg_lists q'"
  shows "\<exists>k' q'. send vt (v_is_close vt) rt p m (k, q) = ret ((k', q'), Err (SendError m)) \<and>
    rel c h (h + c) ms True q' \<and> reg_lists q' = reg_lists q"
proof -
  have N: "notices (v_is_close vt) atom_load (full_waiter c h) q' = Some Closed"
    if "rel c h (h + c) ms True q'" for q' by (rule notices_closed [OF that B])
  from send_wait_phase [OF R fr ow B Q E N, of m]
  obtain st q2 where eq: "send vt (v_is_close vt) rt p m (k, q) =
        (if st = Closed then ret ((Suc n, q2), Err (SendError m))
         else send vt (v_is_close vt) rt p m (Suc n, q2))"
      and R2: "rel c h (h + c) ms True q2" and l2: "reg_lists q2 = reg_lists q"
    by auto
  from send_closed [OF conjunct1 [OF R2] conjunct2 [OF R2] B] eq R2 l2 show ?thesis
    by (auto split: if_splits)
qed

lemma send_diverges:
  assumes "quiet rt" and B: "in_budget c (h + c)"
    and "rel c h (h + c) ms False q" and "fresh p q"
  shows "diverges (send vt (v_is_close vt) rt p m (k, q))"
proof (rule ccontr)
  let ?Q = "\<lambda>vt' ck rt' p' m' s. vt' = vt \<and> ck = v_is_close vt \<and> rt' = rt \<and> p' = p \<and>
    rel c h (h + c) ms False (snd s) \<and> fresh p (snd s)"
  let ?w = "full_waiter c h"
  assume "send vt (v_is_close vt) rt p m (k, q) \<noteq> None"
  then obtain r where "send vt (v_is_close vt) rt p m (k, q) = Some r" by blast
  then have "\<not> ?Q vt (v_is_close vt) rt p m (k, q)"
  proof (rule send.raw_induct [where
        P = "\<lambda>vt' ck rt' p' m' s r. \<not> ?Q vt' ck rt' p' m' s", rotated], goal_cases)
    case (1 f vt' ck rt' p' m' s r)
    show ?case
    proof
      assume Q: "?Q vt' ck rt' p' m' s"
      obtain k q where s: "s = (k, q)" by (cases s)
      let ?q0 = "push_waiter p ?w q"
      have R: "rel c h (h + c) ms False q" and fr: "fresh p q" using Q s by auto
      have R0: "rel c h (h + c) ms False ?q0" by (rule rel_push [OF R])
      note N0 = writer_waits [OF R0 B]
      let ?G = "\<lambda>((k, q), st).
           if st = Success then f vt' ck rt' p' m' (k, pop_waiter p q)
           else if st = Closed then ret ((k, pop_waiter p q), Err (SendError m'))
           else if snd (reg False p ?w q) then
             rbind (sleep ck atom_load rt p ?w (k, fst (reg False p ?w q))) (\<lambda>((k, q), st).
               if st = Closed
               then ret ((k, pop_waiter p (unregister_writer_waiter p q)), Err (SendError m'))
               else f vt' ck rt' p' m' (k, pop_waiter p (unregister_writer_waiter p q)))
           else f vt' ck rt' p' m' (k, pop_waiter p (fst (reg False p ?w q)))"
      from 1(2) Q s have eq: "rbind (retry (v_is_close vt) atom_load rt ?w RETRIES (k, ?q0)) ?G = Some r"
        using select_send_full [of c h "h + c" ms q rt k] B unfolding reg_simps
        by (simp cong del: if_weak_cong)
      then obtain r' where "retry (v_is_close vt) atom_load rt ?w RETRIES (k, ?q0) = Some r'"
        by (cases "retry (v_is_close vt) atom_load rt ?w RETRIES (k, ?q0)") simp_all
      with retry_quiet [OF assms(1), of "v_is_close vt" atom_load ?w "(k, ?q0)" RETRIES r'] N0
      obtain k' where "retry (v_is_close vt) atom_load rt ?w RETRIES (k, ?q0) = ret ((k', ?q0), Failed)"
        by auto
      with eq have eq2: "?G ((k', ?q0), Failed) = Some r" by simp
      have nl: "p \<notin> listed ?q0" using fresh_not_in_listed [OF conjunct1 [OF R] fr] by simp
      show False
      proof (cases "snd (reg False p ?w ?q0)")
        case True
        have R1: "rel c h (h + c) ms False (fst (reg False p ?w ?q0))"
          using nl by (intro rel_reg [OF R0]) simp_all
        have "diverges (sleep (v_is_close vt) atom_load rt p ?w (k', fst (reg False p ?w ?q0)))"
          using writer_waits [OF R1 B] writer_waits [OF rel_parked [OF R1] B]
          by (intro sleep_quiet [OF assms(1)]) simp_all
        with eq2 True Q show False by simp
      next
        case False
        have "rel c h (h + c) ms False (pop_waiter p ?q0)" by (rule rel_pop [OF R0 nl])
        with 1(1) [of vt' ck rt' p' m' "(k', pop_waiter p ?q0)" r] eq2 False reg_refuses [OF False] Q
        show False by simp
      qed
    qed
  qed
  with assms show False by simp
qed

end

end
