(* ===== verification/Fifo.thy ===== *)
theory Fifo
  imports Blocking
begin

text \<open>
  The abstract specification of a bounded queue, a list of at most \<^term>\<open>c\<close> messages with a
  closed mark, and the proof that an implementor of \<^verbatim>\<open>Bounded\<close> that meets the contract
  answers every sequence of non-blocking calls as the list does.
\<close>

datatype 'a op = Try_Send 'a | Try_Recv | Close_Queue

datatype 'a answer =
    Sent "(unit, 'a try_send_error) result"
  | Received "('a, try_recv_error) result"
  | Closed_Queue

fun fifo_step :: "nat \<Rightarrow> 'a list \<times> bool \<Rightarrow> 'a op \<Rightarrow> ('a list \<times> bool) \<times> 'a answer" where
  "fifo_step c (ms, b) (Try_Send m) =
     (if b then ((ms, b), Sent (Err (Disconnected m)))
      else if length ms < c then ((ms @ [m], b), Sent (Ok ()))
      else ((ms, b), Sent (Err (Full m))))"
| "fifo_step c (ms, b) Try_Recv =
     (case ms of [] \<Rightarrow> ((ms, b), Received (Err TryRecvError))
      | m # ms' \<Rightarrow> ((ms', b), Received (Ok m)))"
| "fifo_step c (ms, b) Close_Queue = ((ms, True), Closed_Queue)"

fun fifo_run :: "nat \<Rightarrow> 'a list \<times> bool \<Rightarrow> 'a op list \<Rightarrow> ('a list \<times> bool) \<times> 'a answer list" where
  "fifo_run c s [] = (s, [])"
| "fifo_run c s (x # xs) =
     (let (s', a) = fifo_step c s x; (s'', as) = fifo_run c s' xs in (s'', a # as))"

text \<open>The calls of the trait.\<close>

fun queue_step ::
  "('a, 'z) ring_scheme vtable \<Rightarrow> ('a, 'z) ring_scheme runtime \<Rightarrow> ('a, 'z) ring_scheme clocked \<Rightarrow>
    'a op \<Rightarrow> (('a, 'z) ring_scheme clocked \<times> 'a answer) run" where
  "queue_step vt rt s (Try_Send m) = rbind (try_send vt rt m s) (\<lambda>(s, r). ret (s, Sent r))"
| "queue_step vt rt s Try_Recv = rbind (try_recv vt rt s) (\<lambda>(s, r). ret (s, Received r))"
| "queue_step vt rt s Close_Queue = rbind (v_close vt rt s) (\<lambda>s. ret (s, Closed_Queue))"

fun queue_run ::
  "('a, 'z) ring_scheme vtable \<Rightarrow> ('a, 'z) ring_scheme runtime \<Rightarrow> ('a, 'z) ring_scheme clocked \<Rightarrow>
    'a op list \<Rightarrow> (('a, 'z) ring_scheme clocked \<times> 'a answer list) run" where
  "queue_run vt rt s [] = ret (s, [])"
| "queue_run vt rt s (x # xs) =
     rbind (queue_step vt rt s x) (\<lambda>(s, a).
       rbind (queue_run vt rt s xs) (\<lambda>(s, as). ret (s, a # as)))"

context bounded_contract
begin

lemma queue_step_refines:
  assumes R: "rel c h t ms b q" and B: "in_budget c t" and L: "live rt 0"
    and idle: "reg_lists q = ([], [])"
  shows "\<exists>k' q' h' t'. queue_step vt rt (k, q) x = ret ((k', q'), snd (fifo_step c (ms, b) x)) \<and>
    rel c h' t' (fst (fst (fifo_step c (ms, b) x))) (snd (fst (fifo_step c (ms, b) x))) q' \<and>
    t' \<le> Suc t \<and> reg_lists q' = ([], [])"
proof -
  note D = ring_relD [OF conjunct1 [OF R]]
  have Lk: "live rt k" using live_later [OF L] by simp
  show ?thesis
  proof (cases x)
    case (Try_Send m)
    consider "b" | "\<not> b" "t < h + c" | "\<not> b" "t = h + c" using D(7) by linarith
    then show ?thesis
    proof cases
      case 1
      then show ?thesis
        using try_send_closed [of c h t ms q rt m k] R B idle Try_Send by (intro exI [of _ k] exI [of _ q] exI [of _ h] exI [of _ t]) auto
    next
      case 2
      then have "length ms < c" using D(6,8) by linarith
      then show ?thesis
        using try_send_open [of c h t ms q rt k m] 2 R B Lk idle Try_Send by fastforce
    next
      case 3
      then have "\<not> length ms < c" using D(8) by simp
      then show ?thesis
        using try_send_full [of c h t ms q rt m k] 3 R B idle Try_Send by (intro exI [of _ k] exI [of _ q] exI [of _ h] exI [of _ t]) auto
    qed
  next
    case Try_Recv
    show ?thesis
    proof (cases "h = t")
      case True
      then have "ms = []" using D(8) by simp
      then show ?thesis
        using try_recv_none [of c h t ms q b rt k] R True idle Try_Recv by (intro exI [of _ k] exI [of _ q] exI [of _ h] exI [of _ t]) auto
    next
      case False
      then obtain m ms' where "ms = m # ms'" using D(6,8) by (cases ms) auto
      then show ?thesis
        using try_recv_some [of c h t ms q b rt k] R False D(6) Lk idle Try_Recv by fastforce
    qed
  next
    case Close_Queue
    have "idle (read_waker q)" "idle (write_waker q)" using idle by (simp_all add: reg_lists_def)
    then show ?thesis
      using close_cur [of c h t ms q b rt k] R Lk idle Close_Queue by fastforce
  qed
qed

lemma queue_run_refines:
  assumes "rel c h t ms b q" and "in_budget c (t + length xs)" and "live rt 0"
    and "reg_lists q = ([], [])"
  shows "\<exists>k' q' h' t'. queue_run vt rt (k, q) xs = ret ((k', q'), snd (fifo_run c (ms, b) xs)) \<and>
    rel c h' t' (fst (fst (fifo_run c (ms, b) xs))) (snd (fst (fifo_run c (ms, b) xs))) q'"
  using assms
proof (induction xs arbitrary: k q h t ms b)
  case Nil
  then show ?case by fastforce
next
  case (Cons x xs)
  obtain ms1 b1 a where f: "fifo_step c (ms, b) x = ((ms1, b1), a)" by (metis prod.exhaust)
  from queue_step_refines [OF Cons.prems(1) in_budget_mono [OF Cons.prems(2)] Cons.prems(3,4), of k x]
  obtain k1 q1 h1 t1 where s: "queue_step vt rt (k, q) x = ret ((k1, q1), a)"
      "rel c h1 t1 ms1 b1 q1" "t1 \<le> Suc t" "reg_lists q1 = ([], [])"
    using f by auto
  have "in_budget c (t1 + length xs)"
    using in_budget_mono [OF Cons.prems(2)] s(3) by simp
  from Cons.IH [OF s(2) this Cons.prems(3) s(4), of k1] s(1) f show ?case
    by (fastforce split: prod.splits)
qed

end

text \<open>Facts about the abstract queue: it never holds more than it may, and it keeps the order.\<close>

lemma fifo_step_bounded:
  "length (fst s) \<le> c \<Longrightarrow> length (fst (fst (fifo_step c s x))) \<le> c"
  by (cases s; cases x) (auto split: list.splits)

lemma fifo_run_bounded:
  "length (fst s) \<le> c \<Longrightarrow> length (fst (fst (fifo_run c s xs))) \<le> c"
proof (induction xs arbitrary: s)
  case Nil
  then show ?case by simp
next
  case (Cons x xs)
  from Cons.IH [OF fifo_step_bounded [OF Cons.prems]] show ?case by (simp add: split_beta)
qed

fun accepted :: "'a op list \<Rightarrow> 'a answer list \<Rightarrow> 'a list" where
  "accepted (Try_Send m # xs) (Sent (Inr _) # as) = m # accepted xs as"
| "accepted (_ # xs) (_ # as) = accepted xs as"
| "accepted _ _ = []"

fun delivered :: "'a answer list \<Rightarrow> 'a list" where
  "delivered (Received (Inr m) # as) = m # delivered as"
| "delivered (_ # as) = delivered as"
| "delivered [] = []"

text \<open>
  What was accepted, in order, is what was delivered, in order, followed by what is still queued.
\<close>

lemma fifo_run_order:
  "fifo_run c (ms, b) xs = ((ms', b'), as) \<Longrightarrow> ms @ accepted xs as = delivered as @ ms'"
proof (induction xs arbitrary: ms b as)
  case Nil
  then show ?case by simp
next
  case (Cons x xs)
  then show ?case
    by (cases x) (fastforce split: prod.splits if_splits list.splits)+
qed

end
