(* ===== verification/Nodes.thy ===== *)
theory Nodes
  imports Fifo
begin

text \<open>
  What \<^verbatim>\<open>SpscUnbounded\<close> and \<^verbatim>\<open>MpmcUnbounded\<close> of \<^verbatim>\<open>src/src/queue/unbounded.rs\<close> share: a
  heap of nodes, each a bounded queue with a pointer to the next node, and the closing macros. A
  pointer is an address or null (\<^term>\<open>None\<close>); following a null pointer or the address of a
  node that was freed is undefined behaviour. Addresses are not reused.
\<close>

definition SUB_QUEUE_SIZE :: u32 where "SUB_QUEUE_SIZE = 1024"

record ('a, 'z) node =
  queue :: "('a, 'z) ring_scheme"
  "next" :: "nat option"

text \<open>
  \<^verbatim>\<open>destroyed\<close> records the messages whose destructor the freeing of a node has run.
\<close>

record ('a, 'z) unbounded =
  heap :: "nat \<rightharpoonup> ('a, 'z) node"
  brk :: nat
  u_head :: "nat option"
  u_tail :: "nat option"
  u_closed :: bool
  destroyed :: "'a list"

section \<open>Memory\<close>

definition alloc :: "('a, 'z) node \<Rightarrow> ('a, 'z) unbounded \<Rightarrow> nat \<times> ('a, 'z) unbounded" where
  "alloc n u = (brk u, u\<lparr>brk := Suc (brk u), heap := (heap u)(brk u \<mapsto> n)\<rparr>)"

definition deref :: "nat option \<Rightarrow> ('a, 'z) unbounded \<Rightarrow> ('a, 'z) node outcome" where
  "deref p u = (case p of None \<Rightarrow> Undef | Some a \<Rightarrow>
     (case heap u a of None \<Rightarrow> Undef | Some n \<Rightarrow> Ret n))"

definition set_next :: "nat \<Rightarrow> nat option \<Rightarrow> ('a, 'z) unbounded \<Rightarrow> ('a, 'z) unbounded" where
  "set_next p nx u = u\<lparr>heap := (heap u)(p := map_option (\<lambda>n. n\<lparr>next := nx\<rparr>) (heap u p))\<rparr>"

text \<open>
  \<^verbatim>\<open>Box::from_raw(p)\<close> dropped at once. \<^term>\<open>triv\<close> says that the message type has no
  destructor; otherwise every bucket of the node is dropped as \<^verbatim>\<open>ElemArr::drop\<close> does it.
\<close>

definition free :: "bool \<Rightarrow> nat option \<Rightarrow> ('a, 'z) unbounded \<Rightarrow> ('a, 'z) unbounded outcome" where
  "free triv p u =
     obind (deref p u) (\<lambda>n.
       obind (if triv then Ret [] else elems_drop (buffer (queue n))) (\<lambda>ms.
         Ret (u\<lparr>heap := (heap u)(the p := None), destroyed := destroyed u @ ms\<rparr>)))"

lemma free_ret:
  "heap u a = Some n \<Longrightarrow> elems_drop (buffer (queue n)) = Ret ds \<Longrightarrow>
     free triv (Some a) u =
       Ret (u\<lparr>heap := (heap u)(a := None), destroyed := destroyed u @ (if triv then [] else ds)\<rparr>)"
  by (simp add: free_def deref_def)

lemma cap_ok_1024 [simp]: "cap_ok 1024" "cap_ok 1"
  by (simp_all add: cap_ok_def)

section \<open>Calls on the queue of a node\<close>

text \<open>
  While a call runs on the queue of a node, the queue carries the rest of the state along: the
  other nodes and the pointers, and the node's own \<^verbatim>\<open>next\<close>, or \<^term>\<open>None\<close> when another
  thread has freed the node in the meantime. \<^term>\<open>ext\<close>, \<^term>\<open>cut\<close> and \<^term>\<open>rest\<close> are
  the \<^verbatim>\<open>extend\<close>, \<^verbatim>\<open>truncate\<close> and \<^verbatim>\<open>more\<close> of the queue's record.
\<close>

type_synonym ('a, 'z) around = "('a, 'z) unbounded \<times> nat option option"

record ('a, 'z, 'y) frame =
  ext :: "('a, 'z) ring_scheme \<Rightarrow> ('a, 'z) around \<Rightarrow> ('a, 'y) ring_scheme"
  cut :: "('a, 'y) ring_scheme \<Rightarrow> ('a, 'z) ring_scheme"
  rest :: "('a, 'y) ring_scheme \<Rightarrow> ('a, 'z) around"

definition enter :: "('a, 'z, 'y) frame \<Rightarrow> nat \<Rightarrow> ('a, 'z) node \<Rightarrow> ('a, 'z) unbounded \<Rightarrow>
    ('a, 'y) ring_scheme" where
  "enter N p n u = ext N (queue n) (u\<lparr>heap := (heap u)(p := None)\<rparr>, Some (next n))"

definition leave :: "('a, 'z, 'y) frame \<Rightarrow> nat \<Rightarrow> ('a, 'y) ring_scheme \<Rightarrow> ('a, 'z) unbounded" where
  "leave N p f = (let u = fst (rest N f) in
     case snd (rest N f) of None \<Rightarrow> u
     | Some nx \<Rightarrow> u\<lparr>heap := (heap u)(p \<mapsto> \<lparr>queue = cut N f, next = nx\<rparr>)\<rparr>)"

text \<open>What the other threads do to the whole state, seen by the call.\<close>

definition inner_rt :: "('a, 'z, 'y) frame \<Rightarrow> nat \<Rightarrow> ('a, 'z) unbounded runtime \<Rightarrow>
    ('a, 'y) ring_scheme runtime" where
  "inner_rt N p rt =
     \<lparr>env = (\<lambda>k f. let u = leave N p f; u' = env rt k u
             in if u' = u then f
                else case heap u' p of
                       Some n \<Rightarrow> enter N p n u'
                     | None \<Rightarrow> ext N (cut N f) (u', None)),
      completed = completed rt, spurious = spurious rt\<rparr>"

definition on_node :: "('a, 'z, 'y) frame \<Rightarrow> ('a, 'z) unbounded runtime \<Rightarrow> nat option \<Rightarrow>
    (('a, 'y) ring_scheme runtime \<Rightarrow> ('a, 'y) ring_scheme clocked \<Rightarrow>
      (('a, 'y) ring_scheme clocked \<times> 'r) run) \<Rightarrow>
    ('a, 'z) unbounded clocked \<Rightarrow> (('a, 'z) unbounded clocked \<times> 'r) run" where
  "on_node N rt p call s =
     rbind (Some (deref p (snd s))) (\<lambda>n.
       rbind (call (inner_rt N (the p) rt) (fst s, enter N (the p) n (snd s))) (\<lambda>((k, f), r).
         if snd (rest N f) = None then Some Undef
         else ret ((k, leave N (the p) f), r)))"

definition node_close :: "('a, 'z, 'y) frame \<Rightarrow> ('a, 'y) ring_scheme vtable \<Rightarrow>
    ('a, 'z) unbounded runtime \<Rightarrow> nat option \<Rightarrow> ('a, 'z) unbounded clocked \<Rightarrow>
    ('a, 'z) unbounded clocked run" where
  "node_close N vt rt p s =
     rbind (on_node N rt p (\<lambda>irt f. rbind (v_close vt irt f) (\<lambda>f. ret (f, ()))) s) (\<lambda>(s, _). ret s)"

section \<open>Closing\<close>

text \<open>The macro \<^verbatim>\<open>set_close!\<close>.\<close>

partial_function (option) set_close ::
  "('a, 'z) unbounded runtime \<Rightarrow> nat option \<Rightarrow> ('a, 'z) unbounded clocked \<Rightarrow>
    ('a, 'z) unbounded clocked run" where
  "set_close rt nxt s =
     (let tail = u_tail (snd s)
      in rbind (Some (deref tail (snd s))) (\<lambda>n.
        case cas_weak rt (fst s) (next n) None of
          Inr _ \<Rightarrow> ret (fst s, (set_next (the tail) nxt (snd s))\<lparr>u_closed := True\<rparr>)
        | Inl _ \<Rightarrow> set_close rt nxt (pause rt s)))"

text \<open>The macro \<^verbatim>\<open>close_current_node!\<close>; its \<^verbatim>\<open>return\<close> leaves the calling function.\<close>

partial_function (option) close_current_node ::
  "('a, 'z, 'y) frame \<Rightarrow> ('a, 'y) ring_scheme vtable \<Rightarrow> ('a, 'z) unbounded runtime \<Rightarrow> nat option \<Rightarrow>
    ('a, 'z) unbounded clocked \<Rightarrow> ('a, 'z) unbounded clocked run" where
  "close_current_node N vt rt head s =
     rbind (node_close N vt rt head s) (\<lambda>s.
       rbind (Some (deref head (snd s))) (\<lambda>n.
         if next n \<noteq> None then node_close N vt rt (next n) s
         else close_current_node N vt rt (next n) s))"

section \<open>The contract of a node's queue\<close>

text \<open>
  A node's queue meets \<^const>\<open>bounded_contract\<close> whatever it carries along; \<^term>\<open>qcur\<close> says
  of the bare queue what \<^term>\<open>fcur\<close> says of the queue in use.
\<close>

locale node_contract =
  fixes N :: "('a, 'z, 'y) frame"
    and vt :: "('a, 'y) ring_scheme vtable"
    and qcur :: "nat \<Rightarrow> nat \<Rightarrow> nat \<Rightarrow> bool \<Rightarrow> ('a, 'z) ring_scheme \<Rightarrow> bool"
    and fcur :: "('a, 'z) around \<Rightarrow> nat \<Rightarrow> nat \<Rightarrow> nat \<Rightarrow> bool \<Rightarrow> ('a, 'y) ring_scheme \<Rightarrow> bool"
  assumes contract: "bounded_contract vt (fcur W)"
    and ext_ring: "ring.truncate (ext N q W) = ring.truncate q"
    and cut_ext: "cut N (ext N q W) = q"
    and rest_ext: "rest N (ext N q W) = W"
    and ext_cut: "ext N (cut N f) (rest N f) = f"
    and fcur_ext: "fcur W c h t b (ext N q W') \<longleftrightarrow> W' = W \<and> qcur c h t b q"

sublocale node_contract \<subseteq> inner: bounded_contract vt "fcur W" for W
  by (rule contract)

text \<open>The node at address \<^term>\<open>p\<close>, with nobody waiting at it.\<close>

definition calm :: "('a, 'z) ring_scheme \<Rightarrow> bool" where
  "calm q \<longleftrightarrow> stack q = Map.empty \<and> reg_lists q = ([], [])"

lemma calm_fresh: "calm q \<Longrightarrow> fresh p q"
  by (simp add: calm_def fresh_def)

lemma calm_idle: "calm q \<Longrightarrow> idle (read_waker q)" "calm q \<Longrightarrow> idle (write_waker q)"
  by (simp_all add: calm_def reg_lists_def)

definition node_at :: "(nat \<Rightarrow> nat \<Rightarrow> nat \<Rightarrow> bool \<Rightarrow> ('a, 'z) ring_scheme \<Rightarrow> bool) \<Rightarrow>
    (nat \<rightharpoonup> ('a, 'z) node) \<Rightarrow> nat \<Rightarrow> nat option \<Rightarrow> nat \<Rightarrow> nat \<Rightarrow> nat \<Rightarrow> 'a list \<Rightarrow> bool \<Rightarrow> bool" where
  "node_at qcur hp p nx c h t ms b \<longleftrightarrow>
     (\<exists>n. hp p = Some n \<and> next n = nx \<and> ring_rel c h t ms (queue n) \<and> qcur c h t b (queue n) \<and>
       calm (queue n))"

lemma node_at_other [simp]:
  "p \<noteq> p' \<Longrightarrow> node_at qcur (hp(p' := x)) p nx c h t ms b = node_at qcur hp p nx c h t ms b"
  by (simp add: node_at_def)

lemma node_at_set_next:
  "node_at qcur hp p nx c h t ms b \<Longrightarrow>
     node_at qcur (hp(p := map_option (\<lambda>n. n\<lparr>next := nx'\<rparr>) (hp p))) p nx' c h t ms b"
  by (auto simp: node_at_def)

lemma node_at_length: "node_at qcur hp p nx c h t ms b \<Longrightarrow> length ms = t - h"
  by (auto simp: node_at_def ring_relD)

lemma node_at_le: "node_at qcur hp p nx c h t ms b \<Longrightarrow> h \<le> t \<and> t \<le> h + c"
  by (auto simp: node_at_def ring_relD)

lemma inner_rt_simps [simp]:
  "spurious (inner_rt N p rt) = spurious rt" "completed (inner_rt N p rt) = completed rt"
  by (simp_all add: inner_rt_def)

lemma inner_env_id:
  assumes "\<And>u. env rt k u = u"
  shows "env (inner_rt N p rt) k f = f"
  by (simp add: inner_rt_def assms)

lemma live_inner: "live rt k \<Longrightarrow> live (inner_rt N p rt) k"
  unfolding live_def inner_rt_simps by (blast intro: inner_env_id)

lemma quiet_inner: "quiet rt \<Longrightarrow> quiet (inner_rt N p rt)"
  unfolding quiet_def by (blast intro: inner_env_id)

lemma ring_trunc:
  assumes "ring.truncate q = ring.truncate q'"
  shows "ring_rel c h t ms q = ring_rel c h t ms q'" and "calm q = calm q'"
  using assms by (auto simp: ring.truncate_def ring_rel_def calm_def reg_lists_def)

context node_contract
begin

lemma on_node_ret_when:
  assumes A: "node_at qcur (heap u) p nx c h t ms b"
    and C: "\<And>W f. \<lbrakk>ring_rel c h t ms f; fcur W c h t b f; calm f\<rbrakk> \<Longrightarrow>
      \<exists>k' f'. P k' \<and> call (inner_rt N p rt) (k, f) = ret ((k', f'), r) \<and>
        ring_rel c h' t' ms' f' \<and> fcur W c h' t' b' f' \<and> calm f'"
  shows "\<exists>k' n'. P k' \<and> on_node N rt (Some p) call (k, u) =
      ret ((k', u\<lparr>heap := (heap u)(p \<mapsto> n')\<rparr>), r) \<and>
    node_at qcur ((heap u)(p \<mapsto> n')) p nx c h' t' ms' b'"
proof -
  from A obtain n where n: "heap u p = Some n" "next n = nx" "ring_rel c h t ms (queue n)"
      "qcur c h t b (queue n)" "calm (queue n)" by (auto simp: node_at_def)
  let ?W = "(u\<lparr>heap := (heap u)(p := None)\<rparr>, Some nx)"
  have "ring_rel c h t ms (enter N p n u)" "calm (enter N p n u)" "fcur ?W c h t b (enter N p n u)"
    using n ring_trunc [OF ext_ring] by (simp_all add: enter_def fcur_ext)
  from C [OF this(1) this(3) this(2)] obtain k' f' where
    f': "P k'" "call (inner_rt N p rt) (k, enter N p n u) = ret ((k', f'), r)"
      "ring_rel c h' t' ms' f'" "fcur ?W c h' t' b' f'" "calm f'" by blast
  let ?n' = "\<lparr>queue = cut N f', next = nx\<rparr>"
  have e: "ext N (cut N f') (rest N f') = f'" by (rule ext_cut)
  have W: "rest N f' = ?W" and qc: "qcur c h' t' b' (cut N f')"
    using f'(4) fcur_ext [of ?W c h' t' b' "cut N f'" "rest N f'"] by (simp_all add: e)
  have "ring.truncate (cut N f') = ring.truncate f'"
    using ext_ring [of "cut N f'" "rest N f'"] by (simp add: e)
  from ring_trunc [OF this] f' qc
  have "node_at qcur ((heap u)(p \<mapsto> ?n')) p nx c h' t' ms' b'"
    by (simp add: node_at_def)
  moreover have "leave N p f' = u\<lparr>heap := (heap u)(p \<mapsto> ?n')\<rparr>"
    by (simp add: leave_def W)
  ultimately show ?thesis
    using n f'(1,2) by (intro exI [of _ k'] exI [of _ ?n']) (simp add: on_node_def deref_def W)
qed

lemmas on_node_ret = on_node_ret_when [where P = "\<lambda>_. True", simplified]

lemma on_node_diverges:
  assumes A: "node_at qcur (heap u) p nx c h t ms b"
    and C: "\<And>W f. \<lbrakk>ring_rel c h t ms f; fcur W c h t b f; calm f\<rbrakk> \<Longrightarrow>
      diverges (call (inner_rt N p rt) (k, f))"
  shows "diverges (on_node N rt (Some p) call (k, u))"
proof -
  from A obtain n where n: "heap u p = Some n" "next n = nx" "ring_rel c h t ms (queue n)"
      "qcur c h t b (queue n)" "calm (queue n)" by (auto simp: node_at_def)
  let ?W = "(u\<lparr>heap := (heap u)(p := None)\<rparr>, Some nx)"
  have "ring_rel c h t ms (enter N p n u)" "calm (enter N p n u)" "fcur ?W c h t b (enter N p n u)"
    using n ring_trunc [OF ext_ring] by (simp_all add: enter_def fcur_ext)
  from C [OF this(1) this(3) this(2)] show ?thesis
    using n by (simp add: on_node_def deref_def)
qed

text \<open>The calls that the unbounded queues make on a node.\<close>

lemma node_send_open:
  assumes "node_at qcur (heap u) p nx c h t ms False" and "t < h + c" and "in_budget c t"
    and "live rt k"
  shows "\<exists>k' n'. on_node N rt (Some p) (\<lambda>irt. try_send vt irt m) (k, u) =
      ret ((k', u\<lparr>heap := (heap u)(p \<mapsto> n')\<rparr>), Ok ()) \<and>
    node_at qcur ((heap u)(p \<mapsto> n')) p nx c h (Suc t) (ms @ [m]) False"
  by (rule on_node_ret [OF assms(1)])
    (use inner.try_send_open [OF _ _ assms(2,3) live_inner [OF assms(4)]] in \<open>fastforce simp: calm_def\<close>)

lemma node_send_full:
  assumes "node_at qcur (heap u) p nx c h t ms False" and "t = h + c" and "in_budget c t"
  shows "\<exists>n'. on_node N rt (Some p) (\<lambda>irt. try_send vt irt m) (k, u) =
      ret ((k, u\<lparr>heap := (heap u)(p \<mapsto> n')\<rparr>), Err (Full m)) \<and>
    node_at qcur ((heap u)(p \<mapsto> n')) p nx c h t ms False"
  using on_node_ret_when [OF assms(1), where P = "\<lambda>k'. k' = k" and rt = rt and k = k and
      call = "\<lambda>irt. try_send vt irt m" and r = "Err (Full m)" and h' = h and t' = t and ms' = ms
      and b' = False] inner.try_send_full [OF _ _ assms(2,3)] by fastforce

lemma node_send_closed:
  assumes "node_at qcur (heap u) p nx c h t ms True" and "in_budget c t"
  shows "\<exists>k' n'. on_node N rt (Some p) (\<lambda>irt. try_send vt irt m) (k, u) =
      ret ((k', u\<lparr>heap := (heap u)(p \<mapsto> n')\<rparr>), Err (Disconnected m)) \<and>
    node_at qcur ((heap u)(p \<mapsto> n')) p nx c h t ms True"
  by (rule on_node_ret [OF assms(1)]) (use inner.try_send_closed [OF _ _ assms(2)] in fastforce)

abbreviation node_recv :: "('a, 'z) unbounded runtime \<Rightarrow> nat \<Rightarrow> nat \<Rightarrow> ('a, 'z) unbounded clocked \<Rightarrow>
    (('a, 'z) unbounded clocked \<times> ('a, recv_error) result) run" where
  "node_recv rt w p \<equiv> on_node N rt (Some p) (\<lambda>irt. recv vt (v_is_close vt) irt w)"

lemma node_recv_some:
  assumes "node_at qcur (heap u) p nx c h t ms b" and "ms \<noteq> []" and "live rt k"
  shows "\<exists>k' n'. node_recv rt w p (k, u) =
      ret ((k', u\<lparr>heap := (heap u)(p \<mapsto> n')\<rparr>), Ok (hd ms)) \<and>
    node_at qcur ((heap u)(p \<mapsto> n')) p nx c (Suc h) t (tl ms) b"
proof -
  have "h < t" using assms(2) node_at_length [OF assms(1)] by (cases ms) auto
  then show ?thesis
    by (intro on_node_ret [OF assms(1)])
      (use inner.recv_loop_some [OF _ _ _ live_inner [OF assms(3)]] in
        \<open>fastforce simp: calm_def recv_def\<close>)
qed

lemma node_recv_closed:
  assumes "node_at qcur (heap u) p nx c h t [] True" and "in_budget c t"
  shows "\<exists>n'. node_recv rt w p (k, u) =
      ret ((k, u\<lparr>heap := (heap u)(p \<mapsto> n')\<rparr>), Err RecvError) \<and>
    node_at qcur ((heap u)(p \<mapsto> n')) p nx c h t [] True"
proof -
  have "h = t" using node_at_length [OF assms(1)] node_at_le [OF assms(1)] by simp
  then show ?thesis
    using on_node_ret_when [OF assms(1), where P = "\<lambda>k'. k' = k" and rt = rt and k = k and
        call = "\<lambda>irt. recv vt (v_is_close vt) irt w" and r = "Err RecvError" and h' = h and t' = t
        and ms' = "[]" and b' = True] inner.recv_loop_closed [OF _ calm_fresh assms(2)]
    by (fastforce simp: calm_def recv_def)
qed

lemma node_recv_diverges:
  assumes "node_at qcur (heap u) p nx c h t [] False" and "in_budget c t" and "quiet rt"
  shows "diverges (node_recv rt w p (k, u))"
proof -
  have "h = t" using node_at_length [OF assms(1)] node_at_le [OF assms(1)] by simp
  then show ?thesis
    by (intro on_node_diverges [OF assms(1)])
      (use inner.recv_loop_diverges [OF quiet_inner [OF assms(3)] assms(2) _ calm_fresh] in
        \<open>auto simp: recv_def\<close>)
qed

lemma node_close_ret:
  assumes "node_at qcur (heap u) p nx c h t ms b" and "live rt k"
  shows "\<exists>k' n'. node_close N vt rt (Some p) (k, u) =
      ret (k', u\<lparr>heap := (heap u)(p \<mapsto> n')\<rparr>) \<and>
    node_at qcur ((heap u)(p \<mapsto> n')) p nx c h t ms True"
proof -
  have "\<exists>k' n'. on_node N rt (Some p) (\<lambda>irt f. rbind (v_close vt irt f) (\<lambda>f. ret (f, ()))) (k, u) =
      ret ((k', u\<lparr>heap := (heap u)(p \<mapsto> n')\<rparr>), ()) \<and>
    node_at qcur ((heap u)(p \<mapsto> n')) p nx c h t ms True"
  proof (rule on_node_ret [OF assms(1)])
    fix W f
    assume "ring_rel c h t ms f" "fcur W c h t b f" "calm f"
    from inner.close_cur [OF this(1,2) calm_idle [OF this(3)] live_inner [OF assms(2), of N p]] this(3)
    show "\<exists>k' f'. rbind (v_close vt (inner_rt N p rt) (k, f)) (\<lambda>f. ret (f, ())) = ret ((k', f'), ()) \<and>
        ring_rel c h t ms f' \<and> fcur W c h t True f' \<and> calm f'"
      by (fastforce simp: calm_def)
  qed
  then show ?thesis by (auto simp: node_close_def)
qed

end

end
