(* ===== verification/Chain.thy ===== *)
theory Chain
  imports Nodes
begin

text \<open>
  The chain of nodes of an unbounded queue and its abstraction, a list of messages without a
  bound; the interface \<^verbatim>\<open>unbounded_contract\<close> of the two unbounded queues, and the proof that
  whoever meets it answers every sequence of sends and receives as the list does.
\<close>

section \<open>Chains\<close>

text \<open>
  A node is described by its address, its tickets and its messages. The nodes before the last one
  are closed and were filled once; each points to its successor.
\<close>

type_synonym 'a seg = "nat \<times> nat \<times> nat \<times> 'a list"

abbreviation seg_addr :: "'a seg \<Rightarrow> nat" where
  "seg_addr x \<equiv> fst x"

abbreviation seg_msgs :: "'a seg \<Rightarrow> 'a list" where
  "seg_msgs x \<equiv> snd (snd (snd x))"

fun first_addr :: "'a seg list \<Rightarrow> nat \<Rightarrow> nat" where
  "first_addr [] p = p"
| "first_addr (x # xs) p = seg_addr x"

fun segs :: "(nat \<Rightarrow> nat \<Rightarrow> nat \<Rightarrow> bool \<Rightarrow> ('a, 'z) ring_scheme \<Rightarrow> bool) \<Rightarrow>
    (nat \<rightharpoonup> ('a, 'z) node) \<Rightarrow> 'a seg list \<Rightarrow> nat \<Rightarrow> bool" where
  "segs qc hp [] p \<longleftrightarrow> True"
| "segs qc hp ((a, h, t, ms) # xs) p \<longleftrightarrow>
     node_at qc hp a (Some (first_addr xs p)) 1024 h t ms True \<and> 1024 \<le> t \<and> in_budget 1024 t \<and>
     segs qc hp xs p"

lemma segs_other [simp]:
  "a \<notin> set (map seg_addr xs) \<Longrightarrow> segs qc (hp(a := x)) xs p = segs qc hp xs p"
  by (induction xs) auto

lemma segs_append:
  "segs qc hp (xs @ [(p, h, t, ms)]) p' \<longleftrightarrow> segs qc hp xs p \<and>
     node_at qc hp p (Some p') 1024 h t ms True \<and> 1024 \<le> t \<and> in_budget 1024 t"
proof (induction xs)
  case Nil
  then show ?case by simp
next
  case (Cons x xs)
  obtain a h' t' ms' where "x = (a, h', t', ms')" by (metis prod.exhaust)
  with Cons show ?case by (cases xs) auto
qed

text \<open>
  \<^term>\<open>chain qc n u xs (p, h, t, ls)\<close>: the closed nodes \<^term>\<open>xs\<close> and the open last node,
  to which at most \<^term>\<open>n\<close> messages were sent; every node but the first has a message.
\<close>

definition chain :: "(nat \<Rightarrow> nat \<Rightarrow> nat \<Rightarrow> bool \<Rightarrow> ('a, 'z) ring_scheme \<Rightarrow> bool) \<Rightarrow> nat \<Rightarrow>
    ('a, 'z) unbounded \<Rightarrow> 'a seg list \<Rightarrow> 'a seg \<Rightarrow> bool" where
  "chain qc n u xs y \<longleftrightarrow>
     (case y of (p, h, t, ls) \<Rightarrow>
       segs qc (heap u) xs p \<and> node_at qc (heap u) p None 1024 h t ls False \<and> t \<le> n \<and>
       distinct (map seg_addr xs @ [p]) \<and> dom (heap u) \<subseteq> {..<brk u} \<and>
       u_head u = Some (first_addr xs p) \<and> u_tail u = Some p \<and> \<not> u_closed u \<and>
       (\<forall>x\<in>set (tl (xs @ [y])). seg_msgs x \<noteq> []))"

definition contents :: "'a seg list \<Rightarrow> 'a seg \<Rightarrow> 'a list" where
  "contents xs y = concat (map seg_msgs (xs @ [y]))"

definition unb_rel :: "(nat \<Rightarrow> nat \<Rightarrow> nat \<Rightarrow> bool \<Rightarrow> ('a, 'z) ring_scheme \<Rightarrow> bool) \<Rightarrow> nat \<Rightarrow>
    'a list \<Rightarrow> ('a, 'z) unbounded \<Rightarrow> bool" where
  "unb_rel qc n ms u \<longleftrightarrow>
     (\<exists>xs y. chain qc n u xs y \<and> ms = contents xs y)"

lemma unb_relI: "chain qc n u xs y \<Longrightarrow> ms = contents xs y \<Longrightarrow> unb_rel qc n ms u"
  unfolding unb_rel_def by blast

lemma unb_rel_later: "unb_rel qc n ms u \<Longrightarrow> unb_rel qc (Suc n) ms u"
  by (fastforce simp: unb_rel_def chain_def)

lemma chainD:
  assumes "chain qc n u xs (p, h, t, ls)"
  shows "segs qc (heap u) xs p" and "node_at qc (heap u) p None 1024 h t ls False" and "t \<le> n"
    and "distinct (map seg_addr xs @ [p])" and "dom (heap u) \<subseteq> {..<brk u}"
    and "u_head u = Some (first_addr xs p)" and "u_tail u = Some p" and "\<not> u_closed u"
    and "\<And>x. x \<in> set (tl (xs @ [(p, h, t, ls)])) \<Longrightarrow> seg_msgs x \<noteq> []"
  using assms by (simp_all add: chain_def)

lemma chain_used: "chain qc n u xs (p, h, t, ls) \<Longrightarrow> p < brk u"
  using chainD(2,5) [of qc n u xs p h t ls] by (auto simp: node_at_def)

lemma segs_used: "segs qc hp xs p \<Longrightarrow> set (map seg_addr xs) \<subseteq> dom hp"
proof (induction xs)
  case Nil
  then show ?case by simp
next
  case (Cons x xs)
  then show ?case by (cases x) (auto simp: node_at_def)
qed

text \<open>The last node after one more message, and a new last node.\<close>

lemma chain_push:
  assumes "chain qc n u xs (p, h, t, ls)"
    and "node_at qc ((heap u)(p \<mapsto> n')) p None 1024 h (Suc t) (ls @ [m]) False"
  shows "chain qc (Suc n) (u\<lparr>heap := (heap u)(p \<mapsto> n')\<rparr>) xs (p, h, Suc t, ls @ [m])"
proof -
  note D = chainD [OF assms(1)]
  have "seg_msgs x \<noteq> []" if "x \<in> set (tl (xs @ [(p, h, Suc t, ls @ [m])]))" for x
    using that D(9) [of x] by (cases xs) auto
  then show ?thesis
    using D assms(2) chain_used [OF assms(1)] by (simp add: chain_def)
qed

lemma chain_append:
  assumes C: "chain qc n u xs (p, h, t, ls)" and "ls \<noteq> []" and "1024 \<le> t" and "in_budget 1024 n"
    and a: "brk u \<le> a" "a < brk u'"
    and H: "heap u' = (heap u)(p \<mapsto> n1, a \<mapsto> n2)"
    and N: "node_at qc (heap u') p (Some a) 1024 h t ls True" "node_at qc (heap u') a None 1024 0 1 [m] False"
    and U: "u_head u' = u_head u" "u_tail u' = Some a" "u_closed u' = u_closed u"
  shows "chain qc (Suc n) u' (xs @ [(p, h, t, ls)]) (a, 0, 1, [m])"
proof -
  note D = chainD [OF C]
  have used: "set (map seg_addr xs @ [p]) \<subseteq> {..<brk u}"
    using segs_used [OF D(1)] D(5) chain_used [OF C] by (simp add: subset_iff)
  then have na: "a \<notin> set (map seg_addr xs @ [p])" using a by fastforce
  have S: "segs qc (heap u') xs p"
    unfolding H using D(1,4) na by simp
  have "in_budget 1024 t" by (rule in_budget_mono [OF assms(4) D(3)])
  moreover have "seg_msgs x \<noteq> []" if "x \<in> set (tl ((xs @ [(p, h, t, ls)]) @ [(a, 0, 1, [m])]))" for x
    using that D(9) [of x] assms(2) by (cases xs) auto
  moreover have "dom (heap u') \<subseteq> {..<brk u'}"
    using H a D(5) chain_used [OF C] by fastforce
  moreover have "first_addr (xs @ [(p, h, t, ls)]) a = first_addr xs p"
    by (cases xs) simp_all
  ultimately show ?thesis
    using S N U D(4,6,8) na assms(3) by (simp add: chain_def segs_append)
qed

text \<open>Receiving from the first node: from a drained one the next node is reached.\<close>

context node_contract
begin

lemma chain_recv:
  assumes C: "chain qcur n u xs (p, h, t, ls)" and ne: "seg_msgs (hd (xs @ [(p, h, t, ls)])) \<noteq> []"
    and L: "live rt k"
  shows "\<exists>k' u' xs' y'. node_recv rt w (first_addr xs p) (k, u) =
      ret ((k', u'), Ok (hd (contents xs (p, h, t, ls)))) \<and>
    chain qcur n u' xs' y' \<and> destroyed u' = destroyed u \<and>
    contents xs' y' = tl (contents xs (p, h, t, ls)) \<and> tl (xs' @ [y']) = tl (xs @ [(p, h, t, ls)]) \<and>
    seg_msgs (hd (xs' @ [y'])) = tl (seg_msgs (hd (xs @ [(p, h, t, ls)])))"
proof -
  note D = chainD [OF C]
  show ?thesis
  proof (cases xs)
    case Nil
    with ne have "ls \<noteq> []" by simp
    from node_recv_some [OF D(2) this L, of w] obtain k' n' where
      1: "node_recv rt w p (k, u) = ret ((k', u\<lparr>heap := (heap u)(p \<mapsto> n')\<rparr>), Ok (hd ls))"
        "node_at qcur ((heap u)(p \<mapsto> n')) p None 1024 (Suc h) t (tl ls) False" by blast
    have "chain qcur n (u\<lparr>heap := (heap u)(p \<mapsto> n')\<rparr>) [] (p, Suc h, t, tl ls)"
      using D 1(2) Nil chain_used [OF C] by (simp add: chain_def)
    with 1(1) Nil show ?thesis by (fastforce simp: contents_def)
  next
    case (Cons x xs')
    obtain a h' t' ms where x: "x = (a, h', t', ms)" by (metis prod.exhaust)
    with Cons D(1) ne have A: "node_at qcur (heap u) a (Some (first_addr xs' p)) 1024 h' t' ms True"
      "1024 \<le> t'" "in_budget 1024 t'" "segs qcur (heap u) xs' p" "ms \<noteq> []" by auto
    from node_recv_some [OF A(1,5) L, of w] obtain k' n' where
      1: "node_recv rt w a (k, u) = ret ((k', u\<lparr>heap := (heap u)(a \<mapsto> n')\<rparr>), Ok (hd ms))"
        "node_at qcur ((heap u)(a \<mapsto> n')) a (Some (first_addr xs' p)) 1024 (Suc h') t' (tl ms) True"
      by blast
    have "a < brk u" using A(1) D(5) by (auto simp: node_at_def)
    then have "chain qcur n (u\<lparr>heap := (heap u)(a \<mapsto> n')\<rparr>) ((a, Suc h', t', tl ms) # xs') (p, h, t, ls)"
      using D 1(2) A Cons x by (auto simp: chain_def)
    moreover have "hd (contents xs (p, h, t, ls)) = hd ms"
      "contents ((a, Suc h', t', tl ms) # xs') (p, h, t, ls) =
        tl (contents xs (p, h, t, ls))"
      using Cons x A(5) by (cases ms; simp add: contents_def)+
    ultimately show ?thesis using 1(1) Cons x by fastforce
  qed
qed

lemma node_drop_written:
  assumes "node_at qcur hp p nx c h t ms b" and "hp p = Some nd" and "c \<le> t"
  shows "\<exists>ds. elems_drop (buffer (queue nd)) = Ret ds \<and> length ds = c"
proof -
  have S: "slots c h t ms (buffer (queue nd))"
    using assms(1,2) by (auto simp: node_at_def ring_rel_def)
  with slots_msg_None_iff [OF S] assms(3) have "\<forall>e\<in>set (buffer (queue nd)). msg e \<noteq> None" by auto
  then have "map msg (buffer (queue nd)) = map Some (map (the \<circ> msg) (buffer (queue nd)))"
    by simp
  then show ?thesis
    using slotsD(2) [OF S] by (metis elems_drop_Ret_iff length_map)
qed

lemma chain_skip:
  assumes C: "chain qcur n u ((a, h', t', []) # xs) (p, h, t, ls)"
  shows "\<exists>n' ds. node_recv rt w a (k, u) =
      ret ((k, u\<lparr>heap := (heap u)(a \<mapsto> n')\<rparr>), Err RecvError) \<and>
    next n' = Some (first_addr xs p) \<and> elems_drop (buffer (queue n')) = Ret ds \<and> length ds = 1024 \<and>
    chain qcur n (u\<lparr>heap := (heap u)(a \<mapsto> n')\<rparr>) ((a, h', t', []) # xs) (p, h, t, ls) \<and>
    (\<forall>ds. chain qcur n (u\<lparr>u_head := Some (first_addr xs p), heap := (heap u)(a := None),
        destroyed := ds\<rparr>) xs (p, h, t, ls))"
proof -
  note D = chainD [OF C]
  have A: "node_at qcur (heap u) a (Some (first_addr xs p)) 1024 h' t' [] True"
    "1024 \<le> t'" "in_budget 1024 t'" "segs qcur (heap u) xs p" using D(1) by auto
  from node_recv_closed [OF A(1,3), of rt w k] obtain n' where
    1: "node_recv rt w a (k, u) = ret ((k, u\<lparr>heap := (heap u)(a \<mapsto> n')\<rparr>), Err RecvError)"
      "node_at qcur ((heap u)(a \<mapsto> n')) a (Some (first_addr xs p)) 1024 h' t' [] True" by blast
  obtain ds where "elems_drop (buffer (queue n')) = Ret ds" "length ds = 1024"
    using node_drop_written [OF 1(2) _ A(2)] by auto
  moreover have "seg_msgs x \<noteq> []" if "x \<in> set (tl (xs @ [(p, h, t, ls)]))" for x
    using that D(9) [of x] by (cases xs) auto
  moreover have "dom ((heap u)(a := None)) \<subseteq> {..<brk u}" using D(5) by auto
  moreover have "a < brk u" using A(1) D(5) by (auto simp: node_at_def)
  then have "chain qcur n (u\<lparr>heap := (heap u)(a \<mapsto> n')\<rparr>) ((a, h', t', []) # xs) (p, h, t, ls)"
    using D A 1(2) by (auto simp: chain_def)
  ultimately show ?thesis
    using D(2-4,7,8) A(4) 1 by (auto simp: chain_def node_at_def)
qed

lemma chain_empty:
  assumes "chain qcur n u xs (p, h, t, ls)" and "contents xs (p, h, t, ls) = []"
  shows "ls = []" and "xs = []"
proof -
  show ls: "ls = []" using assms(2) by (simp add: contents_def)
  with chainD(9) [OF assms(1), of "(p, h, t, ls)"] show "xs = []" by (cases xs) auto
qed

end

section \<open>Closing a chain\<close>

text \<open>
  \<^term>\<open>ending qc u xs (p, h, t, ls) d b\<close>: the chain after \<^verbatim>\<open>set_close!\<close>. The closed
  mark is set, the last node points to the closed node \<^term>\<open>d\<close>, and is closed itself iff
  \<^term>\<open>b\<close>.
\<close>

definition ending :: "(nat \<Rightarrow> nat \<Rightarrow> nat \<Rightarrow> bool \<Rightarrow> ('a, 'z) ring_scheme \<Rightarrow> bool) \<Rightarrow>
    ('a, 'z) unbounded \<Rightarrow> 'a seg list \<Rightarrow> 'a seg \<Rightarrow> nat \<Rightarrow> bool \<Rightarrow> bool" where
  "ending qc u xs y d b \<longleftrightarrow>
     (case y of (p, h, t, ls) \<Rightarrow>
       segs qc (heap u) xs p \<and> node_at qc (heap u) p (Some d) 1024 h t ls b \<and> in_budget 1024 t \<and>
       node_at qc (heap u) d None 1 0 0 [] True \<and> distinct (map seg_addr xs @ [p, d]) \<and>
       u_head u = Some (first_addr xs p) \<and> u_tail u = Some p \<and> u_closed u \<and>
       p < brk u \<and> d < brk u)"

lemma endingD:
  assumes "ending qc u xs (p, h, t, ls) d b"
  shows "segs qc (heap u) xs p" and "node_at qc (heap u) p (Some d) 1024 h t ls b"
    and "in_budget 1024 t" and "node_at qc (heap u) d None 1 0 0 [] True"
    and "distinct (map seg_addr xs @ [p, d])" and "u_head u = Some (first_addr xs p)"
    and "u_tail u = Some p" and "u_closed u" and "p < brk u" and "d < brk u"
  using assms by (simp_all add: ending_def)

lemma set_close_live:
  assumes "live rt k" and "u_tail u = Some p" and "heap u p = Some n" and "next n = None"
  shows "\<exists>k'. set_close rt nxt (k, u) = ret (k', (set_next p nxt u)\<lparr>u_closed := True\<rparr>)"
  using assms(1)
proof (induction rule: live_induct)
  case (now k)
  then show ?case
    using assms(2-4) by (subst set_close.simps) (simp add: deref_def cas_weak_def)
next
  case (later k)
  then have "set_close rt nxt (k, u) = set_close rt nxt (Suc k, u)"
    using assms(2-4) by (subst set_close.simps) (simp add: deref_def cas_weak_def)
  with later show ?case by simp
qed

text \<open>Once the last node has a successor, \<^verbatim>\<open>set_close!\<close> goes round for ever.\<close>

lemma set_close_diverges:
  assumes "quiet rt" and "u_tail u = Some p" and "heap u p = Some n" and "next n \<noteq> None"
  shows "diverges (set_close rt nxt (k, u))"
proof (rule ccontr)
  assume "set_close rt nxt (k, u) \<noteq> None"
  then obtain r where "set_close rt nxt (k, u) = Some r" by blast
  then have "\<not> (quiet rt \<and> snd (k, u) = u)"
  proof (rule set_close.raw_induct [where P = "\<lambda>rt nxt s r. \<not> (quiet rt \<and> snd s = u)", rotated])
    fix f rt nxt s r
    assume IH: "\<And>rt nxt s r. f rt nxt s = Some r \<Longrightarrow> \<not> (quiet rt \<and> snd s = u)"
      and eq: "(let tail = u_tail (snd s) in rbind (Some (deref tail (snd s))) (\<lambda>n.
        case cas_weak rt (fst s) (next n) None of
          Inl x \<Rightarrow> f rt nxt (pause rt s)
        | Inr x \<Rightarrow> ret (fst s, (set_next (the tail) nxt (snd s))\<lparr>u_closed := True\<rparr>))) = Some r"
    show "\<not> (quiet rt \<and> snd s = u)"
    proof
      assume "quiet rt \<and> snd s = u"
      with eq assms(2-4) IH [of rt nxt "pause rt s" r] show False
        by (cases s) (auto simp: deref_def cas_weak_def)
    qed
  qed
  with assms(1) show False by simp
qed

lemma ending_upd_first:
  assumes E: "ending qc u ((a, h', t', ms) # xs) (p, h, t, ls) d b"
    and "node_at qc ((heap u)(a \<mapsto> n)) a (Some (first_addr xs p)) 1024 h'' t' ms' True"
  shows "ending qc (u\<lparr>heap := (heap u)(a \<mapsto> n)\<rparr>) ((a, h'', t', ms') # xs) (p, h, t, ls) d b"
  using endingD [OF E] assms(2) by (auto simp: ending_def)

lemma ending_upd_last:
  assumes E: "ending qc u xs (p, h, t, ls) d b"
    and "node_at qc ((heap u)(p \<mapsto> n)) p (Some d) 1024 h' t ls' b'"
  shows "ending qc (u\<lparr>heap := (heap u)(p \<mapsto> n)\<rparr>) xs (p, h', t, ls') d b'"
  using endingD [OF E] assms(2) by (auto simp: ending_def)

lemma ending_upd_end:
  assumes E: "ending qc u xs (p, h, t, ls) d b"
    and "node_at qc ((heap u)(d \<mapsto> n)) d None 1 0 0 [] True"
  shows "ending qc (u\<lparr>heap := (heap u)(d \<mapsto> n)\<rparr>) xs (p, h, t, ls) d b"
  using endingD [OF E] assms(2) by (auto simp: ending_def)

context node_contract
begin

lemma close_current_ending:
  assumes E: "ending qcur u xs (p, h, t, ls) d False" and L: "live rt 0"
  shows "\<exists>k' u'. close_current_node N vt rt (u_head u) (k, u) = ret (k', u') \<and>
    ending qcur u' xs (p, h, t, ls) d (length xs < 2)"
proof -
  note D = endingD [OF E]
  have Lk: "live rt k" for k using live_later [OF L] by simp
  show ?thesis
  proof (cases xs)
    case Nil
    from node_close_ret [OF D(2) Lk, of k] obtain k1 n1 where
      1: "node_close N vt rt (Some p) (k, u) = ret (k1, u\<lparr>heap := (heap u)(p \<mapsto> n1)\<rparr>)"
        "node_at qcur ((heap u)(p \<mapsto> n1)) p (Some d) 1024 h t ls True" by blast
    let ?u1 = "u\<lparr>heap := (heap u)(p \<mapsto> n1)\<rparr>"
    have E1: "ending qcur ?u1 xs (p, h, t, ls) d True" by (rule ending_upd_last [OF E 1(2)])
    from node_close_ret [OF endingD(4) [OF E1] Lk, of k1] obtain k2 n2 where
      2: "node_close N vt rt (Some d) (k1, ?u1) = ret (k2, ?u1\<lparr>heap := (heap ?u1)(d \<mapsto> n2)\<rparr>)"
        "node_at qcur ((heap ?u1)(d \<mapsto> n2)) d None 1 0 0 [] True" by blast
    have "next n1 = Some d" using 1(2) by (auto simp: node_at_def)
    then have "close_current_node N vt rt (u_head u) (k, u) =
        ret (k2, ?u1\<lparr>heap := (heap ?u1)(d \<mapsto> n2)\<rparr>)"
      using 1(1) 2(1) D(6) Nil by (subst close_current_node.simps) (simp add: deref_def)
    with ending_upd_end [OF E1 2(2)] Nil show ?thesis by auto
  next
    case (Cons x xs')
    obtain a h' t' ms where x: "x = (a, h', t', ms)" by (metis prod.exhaust)
    with Cons D(1) have A: "node_at qcur (heap u) a (Some (first_addr xs' p)) 1024 h' t' ms True" by auto
    from node_close_ret [OF A Lk, of k] obtain k1 n1 where
      1: "node_close N vt rt (Some a) (k, u) = ret (k1, u\<lparr>heap := (heap u)(a \<mapsto> n1)\<rparr>)"
        "node_at qcur ((heap u)(a \<mapsto> n1)) a (Some (first_addr xs' p)) 1024 h' t' ms True" by blast
    let ?u1 = "u\<lparr>heap := (heap u)(a \<mapsto> n1)\<rparr>"
    have E1: "ending qcur ?u1 xs (p, h, t, ls) d False"
      using ending_upd_first [OF E [unfolded Cons x] 1(2)] Cons x by simp
    have nx: "next n1 = Some (first_addr xs' p)" using 1(2) by (auto simp: node_at_def)
    have eq: "close_current_node N vt rt (u_head u) (k, u) =
        node_close N vt rt (Some (first_addr xs' p)) (k1, ?u1)"
      using 1(1) D(6) Cons x nx by (subst close_current_node.simps) (simp add: deref_def)
    show ?thesis
    proof (cases xs')
      case Nil
      from node_close_ret [OF endingD(2) [OF E1] Lk, of k1] obtain k2 n2 where
        2: "node_close N vt rt (Some p) (k1, ?u1) = ret (k2, ?u1\<lparr>heap := (heap ?u1)(p \<mapsto> n2)\<rparr>)"
          "node_at qcur ((heap ?u1)(p \<mapsto> n2)) p (Some d) 1024 h t ls True" by blast
      from ending_upd_last [OF E1 2(2)] 2(1) eq Nil Cons show ?thesis by auto
    next
      case (Cons x2 xs2)
      obtain a2 h2 t2 ms2 where x2: "x2 = (a2, h2, t2, ms2)" by (metis prod.exhaust)
      have S: "node_at qcur (heap ?u1) a2 (Some (first_addr xs2 p)) 1024 h2 t2 ms2 True"
        "segs qcur (heap ?u1) xs2 p" "1024 \<le> t2" "in_budget 1024 t2"
        using endingD(1) [OF E1] \<open>xs = x # xs'\<close> Cons x2 x by auto
      from node_close_ret [OF S(1) Lk, of k1] obtain k2 n2 where
        2: "node_close N vt rt (Some a2) (k1, ?u1) = ret (k2, ?u1\<lparr>heap := (heap ?u1)(a2 \<mapsto> n2)\<rparr>)"
          "node_at qcur ((heap ?u1)(a2 \<mapsto> n2)) a2 (Some (first_addr xs2 p)) 1024 h2 t2 ms2 True"
        by blast
      have "ending qcur (?u1\<lparr>heap := (heap ?u1)(a2 \<mapsto> n2)\<rparr>) xs (p, h, t, ls) d False"
        using endingD [OF E1] S 2(2) \<open>xs = x # xs'\<close> Cons x2 x by (auto simp: ending_def)
      with 2(1) eq \<open>xs = x # xs'\<close> Cons x2 show ?thesis by auto
    qed
  qed
qed

text \<open>
  The common body of \<^verbatim>\<open>close\<close>: the end node was made at address \<^term>\<open>brk u\<close> and closed.
\<close>

lemma close_chain:
  assumes C: "chain qcur n u xs (p, h, t, ls)" and B: "in_budget 1024 n" and L: "live rt 0"
    and d: "node_at qcur ((heap u)(brk u \<mapsto> nd)) (brk u) None 1 0 0 [] False"
  shows "\<exists>k' u'. rbind (node_close N vt rt (Some (brk u)) (k, snd (alloc nd u))) (\<lambda>s.
      rbind (set_close rt (Some (brk u)) s) (\<lambda>s.
        close_current_node N vt rt (u_head (snd s)) s)) = ret (k', u') \<and>
    ending qcur u' xs (p, h, t, ls) (brk u) (length xs < 2)"
proof -
  note D = chainD [OF C]
  have Lk: "live rt k" for k using live_later [OF L] by simp
  let ?d = "brk u"
  let ?u0 = "u\<lparr>brk := Suc ?d, heap := (heap u)(?d \<mapsto> nd)\<rparr>"
  have pd: "p \<noteq> ?d" using chain_used [OF C] by simp
  from d Lk node_close_ret [of ?u0 ?d None 1 0 0 "[]" False rt k] obtain k1 n1 where
    1: "node_close N vt rt (Some ?d) (k, ?u0) = ret (k1, ?u0\<lparr>heap := (heap u)(?d \<mapsto> n1)\<rparr>)"
      "node_at qcur ((heap u)(?d \<mapsto> n1)) ?d None 1 0 0 [] True" by auto
  let ?u1 = "?u0\<lparr>heap := (heap u)(?d \<mapsto> n1)\<rparr>"
  from D(2) obtain np where np: "heap u p = Some np" "next np = None" by (auto simp: node_at_def)
  then obtain k2 where
    2: "set_close rt (Some ?d) (k1, ?u1) = ret (k2, (set_next p (Some ?d) ?u1)\<lparr>u_closed := True\<rparr>)"
    using set_close_live [OF Lk, of ?u1 p np "Some ?d" k1] D(7) pd by auto
  let ?u2 = "(set_next p (Some ?d) ?u1)\<lparr>u_closed := True\<rparr>"
  have h2: "heap ?u2 = (heap u)(?d \<mapsto> n1, p \<mapsto> np\<lparr>next := Some ?d\<rparr>)"
    using np pd by (simp add: set_next_def)
  have nd: "?d \<notin> set (map seg_addr xs)"
    using segs_used [OF D(1)] D(5) by fastforce
  have "ending qcur ?u2 xs (p, h, t, ls) ?d False"
    unfolding ending_def h2 using D(1,2,4,6,7) nd 1(2) pd in_budget_mono [OF B D(3)] np
      chain_used [OF C]
    by (auto simp: set_next_def node_at_def)
  from close_current_ending [OF this L, of k2] show ?thesis
    using 1(1) 2 by (auto simp: alloc_def)
qed

text \<open>A second \<^verbatim>\<open>close\<close> finds the last node with a successor.\<close>

lemma close_ending:
  assumes E: "ending qcur u xs (p, h, t, ls) d b" and L: "live rt 0"
    and nd: "node_at qcur ((heap u)(brk u \<mapsto> nd)) (brk u) None 1 0 0 [] False"
  shows "diverges (rbind (node_close N vt rt (Some (brk u)) (k, snd (alloc nd u))) (\<lambda>s.
      rbind (set_close rt (Some (brk u)) s) (\<lambda>s.
        close_current_node N vt rt (u_head (snd s)) s)))"
proof -
  note D = endingD [OF E]
  have Lk: "live rt k" using live_later [OF L] by simp
  let ?d = "brk u"
  let ?u0 = "u\<lparr>brk := Suc ?d, heap := (heap u)(?d \<mapsto> nd)\<rparr>"
  from nd Lk node_close_ret [of ?u0 ?d None 1 0 0 "[]" False rt k] obtain k1 n1 where
    1: "node_close N vt rt (Some ?d) (k, ?u0) = ret (k1, ?u0\<lparr>heap := (heap u)(?d \<mapsto> n1)\<rparr>)" by auto
  obtain np where np: "heap u p = Some np" "next np = Some d"
    using D(2) by (auto simp: node_at_def)
  have "quiet rt" using L unfolding live_def quiet_def by blast
  from set_close_diverges [OF this, of "?u0\<lparr>heap := (heap u)(?d \<mapsto> n1)\<rparr>" p np "Some ?d" k1]
  have "diverges (set_close rt (Some ?d) (k1, ?u0\<lparr>heap := (heap u)(?d \<mapsto> n1)\<rparr>))"
    using D(7,9) np by simp
  then show ?thesis using 1 by (simp add: alloc_def)
qed

text \<open>After closing: receives drain the first node, and only the first node.\<close>

lemma ending_recv_some:
  assumes E: "ending qcur u xs (p, h, t, ls) d b" and ne: "seg_msgs (hd (xs @ [(p, h, t, ls)])) \<noteq> []"
    and L: "live rt k"
  shows "\<exists>k' u' xs' y'. node_recv rt w (first_addr xs p) (k, u) =
      ret ((k', u'), Ok (hd (seg_msgs (hd (xs @ [(p, h, t, ls)]))))) \<and>
    ending qcur u' xs' y' d b \<and> tl (xs' @ [y']) = tl (xs @ [(p, h, t, ls)]) \<and>
    seg_msgs (hd (xs' @ [y'])) = tl (seg_msgs (hd (xs @ [(p, h, t, ls)])))"
proof (cases xs)
  case Nil
  with ne have "ls \<noteq> []" by simp
  from node_recv_some [OF endingD(2) [OF E] this L, of w] obtain k' n' where
    1: "node_recv rt w p (k, u) = ret ((k', u\<lparr>heap := (heap u)(p \<mapsto> n')\<rparr>), Ok (hd ls))"
      "node_at qcur ((heap u)(p \<mapsto> n')) p (Some d) 1024 (Suc h) t (tl ls) b" by blast
  show ?thesis
    using 1(1) ending_upd_last [OF E 1(2)] Nil
    by (intro exI [of _ k'] exI [of _ "u\<lparr>heap := (heap u)(p \<mapsto> n')\<rparr>"] exI [of _ "[]"]
        exI [of _ "(p, Suc h, t, tl ls)"]) simp
next
  case (Cons x xs')
  obtain a h' t' ms where x: "x = (a, h', t', ms)" by (metis prod.exhaust)
  with Cons ne endingD(1) [OF E]
  have A: "node_at qcur (heap u) a (Some (first_addr xs' p)) 1024 h' t' ms True" "ms \<noteq> []" by auto
  from node_recv_some [OF A L, of w] obtain k' n' where
    1: "node_recv rt w a (k, u) = ret ((k', u\<lparr>heap := (heap u)(a \<mapsto> n')\<rparr>), Ok (hd ms))"
      "node_at qcur ((heap u)(a \<mapsto> n')) a (Some (first_addr xs' p)) 1024 (Suc h') t' (tl ms) True"
    by blast
  show ?thesis
    using 1(1) ending_upd_first [OF E [unfolded Cons x] 1(2)] Cons x
    by (intro exI [of _ k'] exI [of _ "u\<lparr>heap := (heap u)(a \<mapsto> n')\<rparr>"]
        exI [of _ "(a, Suc h', t', tl ms) # xs'"] exI [of _ "(p, h, t, ls)"]) simp
qed

lemma ending_recv_none:
  assumes E: "ending qcur u xs (p, h, t, ls) d (length xs < 2)"
    and emp: "seg_msgs (hd (xs @ [(p, h, t, ls)])) = []"
  shows "\<exists>u'. node_recv rt w (first_addr xs p) (k, u) = ret ((k, u'), Err RecvError) \<and>
    ending qcur u' xs (p, h, t, ls) d (length xs < 2)"
proof (cases xs)
  case Nil
  with emp have ls: "ls = []" by simp
  have "node_at qcur (heap u) p (Some d) 1024 h t [] True"
    using endingD(2) [OF E] Nil ls by simp
  from node_recv_closed [OF this endingD(3) [OF E], of rt w k] ls Nil
  show ?thesis using ending_upd_last [OF E, of _ h "[]" True] by fastforce
next
  case (Cons x xs')
  obtain a h' t' ms where x: "x = (a, h', t', ms)" by (metis prod.exhaust)
  with Cons emp endingD(1) [OF E]
  have A: "node_at qcur (heap u) a (Some (first_addr xs' p)) 1024 h' t' [] True" "in_budget 1024 t'"
    "ms = []" by auto
  from node_recv_closed [OF A(1,2), of rt w k] show ?thesis
    using ending_upd_first [OF E [unfolded Cons x], of _ h' "[]"] Cons x A(3) by fastforce
qed

end

section \<open>The list without a bound\<close>

datatype 'a unb_op = Send 'a | Recv

datatype 'a unb_answer =
    Sent_To "(unit, 'a send_error) result"
  | Received_From "('a, recv_error) result"

text \<open>Receiving from the empty list waits: \<^term>\<open>None\<close>.\<close>

fun list_run :: "'a list \<Rightarrow> 'a unb_op list \<Rightarrow> ('a list \<times> 'a unb_answer list) option" where
  "list_run ms [] = Some (ms, [])"
| "list_run ms (Send m # xs) =
     map_option (\<lambda>(ms', as). (ms', Sent_To (Ok ()) # as)) (list_run (ms @ [m]) xs)"
| "list_run [] (Recv # xs) = None"
| "list_run (m # ms) (Recv # xs) =
     map_option (\<lambda>(ms', as). (ms', Received_From (Ok m) # as)) (list_run ms xs)"

type_synonym ('a, 'z) send_op = "('a, 'z) unbounded runtime \<Rightarrow> 'a \<Rightarrow> ('a, 'z) unbounded clocked \<Rightarrow>
    (('a, 'z) unbounded clocked \<times> (unit, 'a send_error) result) run"

type_synonym ('a, 'z) recv_op = "('a, 'z) unbounded runtime \<Rightarrow> nat \<Rightarrow> ('a, 'z) unbounded clocked \<Rightarrow>
    (('a, 'z) unbounded clocked \<times> ('a, recv_error) result) run"

text \<open>\<^term>\<open>w\<close> is the address that the receiving calls use for their waiter.\<close>

fun unb_run :: "('a, 'z) send_op \<Rightarrow> ('a, 'z) recv_op \<Rightarrow> ('a, 'z) unbounded runtime \<Rightarrow> nat \<Rightarrow>
    ('a, 'z) unbounded clocked \<Rightarrow> 'a unb_op list \<Rightarrow>
    (('a, 'z) unbounded clocked \<times> 'a unb_answer list) run" where
  "unb_run snd_op rcv_op rt w s [] = ret (s, [])"
| "unb_run snd_op rcv_op rt w s (Send m # xs) =
     rbind (snd_op rt m s) (\<lambda>(s, r).
       rbind (unb_run snd_op rcv_op rt w s xs) (\<lambda>(s, as). ret (s, Sent_To r # as)))"
| "unb_run snd_op rcv_op rt w s (Recv # xs) =
     rbind (rcv_op rt w s) (\<lambda>(s, r).
       rbind (unb_run snd_op rcv_op rt w s xs) (\<lambda>(s, as). ret (s, Received_From r # as)))"

section \<open>The contract of an unbounded queue\<close>

text \<open>
  \<^term>\<open>ok\<close> is what is asked of the environment besides that it leaves the queue alone, and
  \<^term>\<open>rel n ms u\<close> says that \<^term>\<open>u\<close> holds \<^term>\<open>ms\<close> after at most \<^term>\<open>n\<close> sends.
\<close>

locale unbounded_contract =
  fixes snd_op :: "('a, 'z) send_op" and rcv_op :: "('a, 'z) recv_op"
    and ok :: "('a, 'z) unbounded runtime \<Rightarrow> bool"
    and rel :: "nat \<Rightarrow> 'a list \<Rightarrow> ('a, 'z) unbounded \<Rightarrow> bool"
  assumes send_some: "\<lbrakk>rel n ms u; in_budget 1024 n; ok rt; live rt 0\<rbrakk> \<Longrightarrow>
      \<exists>k' u'. snd_op rt m (k, u) = ret ((k', u'), Ok ()) \<and> rel (Suc n) (ms @ [m]) u'"
    and recv_some: "\<lbrakk>rel n (m # ms) u; in_budget 1024 n; ok rt; live rt 0\<rbrakk> \<Longrightarrow>
      \<exists>k' u'. rcv_op rt w (k, u) = ret ((k', u'), Ok m) \<and> rel n ms u'"
    and recv_none: "\<lbrakk>rel n [] u; in_budget 1024 n; ok rt; live rt 0\<rbrakk> \<Longrightarrow> diverges (rcv_op rt w (k, u))"
    and rel_later: "rel n ms u \<Longrightarrow> rel (Suc n) ms u"
begin

lemma unb_run_refines:
  assumes "rel n ms u" and "in_budget 1024 (n + length xs)" and "ok rt" and "live rt 0"
  shows "case list_run ms xs of
      None \<Rightarrow> diverges (unb_run snd_op rcv_op rt w (k, u) xs)
    | Some (ms', as) \<Rightarrow> \<exists>k' u'. unb_run snd_op rcv_op rt w (k, u) xs = ret ((k', u'), as) \<and>
        rel (n + length xs) ms' u'"
  using assms(1,2)
proof (induction ms xs arbitrary: n k u rule: list_run.induct)
  case (1 ms)
  then show ?case by simp
next
  case (2 ms m xs)
  then have "in_budget 1024 n" by (auto intro: in_budget_mono)
  from send_some [OF 2(2) this assms(3,4), of m k] obtain k1 u1 where
    1: "snd_op rt m (k, u) = ret ((k1, u1), Ok ())" "rel (Suc n) (ms @ [m]) u1" by blast
  from 2(1) [OF 1(2), of k1] 2(3) 1(1) show ?case
    by (fastforce split: option.splits)
next
  case (3 xs)
  then have "in_budget 1024 n" by (auto intro: in_budget_mono)
  from recv_none [OF 3(1) this assms(3,4)] show ?case by simp
next
  case (4 m ms xs)
  then have "in_budget 1024 n" by (auto intro: in_budget_mono)
  from recv_some [OF 4(2) this assms(3,4), of w k] obtain k1 u1 where
    1: "rcv_op rt w (k, u) = ret ((k1, u1), Ok m)" "rel n ms u1" by blast
  have "rel (Suc n) ms u1" by (rule rel_later [OF 1(2)])
  from 4(1) [OF this, of k1] 4(3) 1(1) show ?case
    by (fastforce split: option.splits)
qed

end

end
