(* ===== verification/Closing.thy ===== *)
theory Closing
  imports Chain
begin

text \<open>
  What a queue that is a chain of nodes does over its life: sends fill the nodes one after the
  other, \<^verbatim>\<open>close\<close> ends the chain, receives drain its first node. \<^verbatim>\<open>chain_contract\<close> is
  what the two unbounded queues promise of the single operations.
\<close>

section \<open>The chain that a series of sends leaves\<close>

definition sent_chain :: "'a list \<Rightarrow> 'a seg list \<Rightarrow> 'a seg \<Rightarrow> bool" where
  "sent_chain ms xs y \<longleftrightarrow>
     contents xs y = ms \<and> (\<forall>x\<in>set xs. length (seg_msgs x) = 1024) \<and> fst (snd y) = 0 \<and>
     (xs \<noteq> [] \<longrightarrow> seg_msgs y \<noteq> []) \<and> length (seg_msgs y) \<le> 1024"

lemma sent_chain_length:
  assumes "sent_chain ms xs y"
  shows "length ms = 1024 * length xs + length (seg_msgs y)"
proof -
  have "length (concat (map seg_msgs xs)) = 1024 * length xs" if "\<forall>x\<in>set xs. length (seg_msgs x) = 1024"
    for xs :: "'a seg list"
    using that by (induction xs) auto
  with assms show ?thesis by (auto simp: sent_chain_def contents_def)
qed

lemma sent_chain_nodes:
  assumes "sent_chain ms xs y"
  shows "length xs = (length ms - 1) div 1024"
proof (cases "seg_msgs y = []")
  case True
  with assms have "xs = []" by (auto simp: sent_chain_def)
  with True sent_chain_length [OF assms] show ?thesis by simp
next
  case False
  then obtain l where l: "length (seg_msgs y) = Suc l" by (cases "seg_msgs y") auto
  moreover from l have "l < 1024" using assms by (simp add: sent_chain_def)
  ultimately show ?thesis using sent_chain_length [OF assms] by simp
qed

lemma sent_chain_first:
  assumes "sent_chain ms xs y"
  shows "seg_msgs (hd (xs @ [y])) = take 1024 ms"
proof (cases xs)
  case Nil
  with assms show ?thesis by (auto simp: sent_chain_def contents_def)
next
  case (Cons x xs')
  with assms have "ms = seg_msgs x @ contents xs' y" "length (seg_msgs x) = 1024"
    by (auto simp: sent_chain_def contents_def)
  with Cons show ?thesis by simp
qed

lemma sent_chain_push:
  "sent_chain ms xs (p, 0, t, ls) \<Longrightarrow> length ls < 1024 \<Longrightarrow>
     sent_chain (ms @ [m]) xs (p, 0, t', ls @ [m])"
  by (auto simp: sent_chain_def contents_def)

lemma sent_chain_append:
  "sent_chain ms xs (p, 0, t, ls) \<Longrightarrow> length ls = 1024 \<Longrightarrow>
     sent_chain (ms @ [m]) (xs @ [(p, 0, t, ls)]) (a, 0, t', [m])"
  by (auto simp: sent_chain_def contents_def)

section \<open>The contract of a chain of nodes\<close>

type_synonym ('a, 'z) close_op = "('a, 'z) unbounded runtime \<Rightarrow> ('a, 'z) unbounded clocked \<Rightarrow>
    ('a, 'z) unbounded clocked run"

locale chain_contract =
  fixes qc :: "nat \<Rightarrow> nat \<Rightarrow> nat \<Rightarrow> bool \<Rightarrow> ('a, 'z) ring_scheme \<Rightarrow> bool"
    and snd_op :: "('a, 'z) send_op" and rcv_op :: "('a, 'z) recv_op"
    and close_op :: "('a, 'z) close_op" and ok :: "('a, 'z) unbounded runtime \<Rightarrow> bool"
  assumes send_open: "\<lbrakk>chain qc n u xs (p, h, t, ls); t < h + 1024; in_budget 1024 n; live rt k\<rbrakk> \<Longrightarrow>
      \<exists>k' u'. snd_op rt m (k, u) = ret ((k', u'), Ok ()) \<and> chain qc (Suc n) u' xs (p, h, Suc t, ls @ [m])"
    and send_full: "\<lbrakk>chain qc n u xs (p, h, t, ls); t = h + 1024; in_budget 1024 n; live rt 0; ok rt\<rbrakk> \<Longrightarrow>
      \<exists>k' u' a. snd_op rt m (k, u) = ret ((k', u'), Ok ()) \<and>
        chain qc (Suc n) u' (xs @ [(p, h, t, ls)]) (a, 0, 1, [m])"
    and close_ret: "\<lbrakk>chain qc n u xs (p, h, t, ls); in_budget 1024 n; live rt 0\<rbrakk> \<Longrightarrow>
      \<exists>k' u' d. close_op rt (k, u) = ret (k', u') \<and> ending qc u' xs (p, h, t, ls) d (length xs < 2)"
    and close_again: "\<lbrakk>ending qc u xs (p, h, t, ls) d b; live rt 0\<rbrakk> \<Longrightarrow> diverges (close_op rt (k, u))"
    and send_ending: "ending qc u xs (p, h, t, ls) d True \<Longrightarrow>
      \<exists>k' u'. snd_op rt m (k, u) = ret ((k', u'), Err (SendError m)) \<and> ending qc u' xs (p, h, t, ls) d True"
    and send_still_open: "\<lbrakk>ending qc u xs (p, h, t, ls) d False; t < h + 1024; live rt k\<rbrakk> \<Longrightarrow>
      \<exists>k' u'. snd_op rt m (k, u) = ret ((k', u'), Ok ()) \<and> u_closed u'"
    and recv_ending_none: "\<lbrakk>ending qc u xs y d (length xs < 2); live rt 0; seg_msgs (hd (xs @ [y])) = []\<rbrakk> \<Longrightarrow>
      \<exists>k' u'. rcv_op rt w (k, u) = ret ((k', u'), Err RecvError) \<and> ending qc u' xs y d (length xs < 2)"
    and recv_ending_some: "\<lbrakk>ending qc u xs y d (length xs < 2); live rt 0; seg_msgs (hd (xs @ [y])) \<noteq> []\<rbrakk> \<Longrightarrow>
      \<exists>k' u' xs' y'. rcv_op rt w (k, u) = ret ((k', u'), Ok (hd (seg_msgs (hd (xs @ [y]))))) \<and>
        ending qc u' xs' y' d (length xs' < 2) \<and> tl (xs' @ [y']) = tl (xs @ [y]) \<and>
        seg_msgs (hd (xs' @ [y'])) = tl (seg_msgs (hd (xs @ [y])))"
begin

lemma send_one:
  assumes "chain qc n u xs y" and S: "sent_chain ms xs y" and B: "in_budget 1024 n"
    and "ok rt" and L: "live rt 0"
  shows "\<exists>k' u' xs' y'. snd_op rt m (k, u) = ret ((k', u'), Ok ()) \<and> chain qc (Suc n) u' xs' y' \<and>
    sent_chain (ms @ [m]) xs' y'"
proof -
  obtain p t ls where y: "y = (p, 0, t, ls)" using S by (cases y) (auto simp: sent_chain_def)
  note C = assms(1) [unfolded y]
  have t: "t = length ls" using node_at_length [OF chainD(2) [OF C]] by simp
  have Lk: "live rt k" using live_later [OF L] by simp
  show ?thesis
  proof (cases "length ls < 1024")
    case True
    from send_open [OF C _ B Lk, of m] t True sent_chain_push [OF S [unfolded y] True, of m]
    show ?thesis by fastforce
  next
    case False
    with S y have F: "length ls = 1024" by (simp add: sent_chain_def)
    from send_full [OF C _ B L assms(4), of m k] t F sent_chain_append [OF S [unfolded y] F, of m]
    show ?thesis by fastforce
  qed
qed

lemma send_all:
  assumes "chain qc n u xs y" and "sent_chain ms xs y" and "in_budget 1024 (n + length ms')"
    and ok: "ok rt" and L: "live rt 0"
  shows "\<exists>k' u' xs' y'. unb_run snd_op rcv_op rt w (k, u) (map Send ms') =
      ret ((k', u'), replicate (length ms') (Sent_To (Ok ()))) \<and>
    chain qc (n + length ms') u' xs' y' \<and> sent_chain (ms @ ms') xs' y'"
  using assms(1-3)
proof (induction ms' arbitrary: n k u xs y ms)
  case Nil
  then show ?case by (intro exI conjI) (auto simp del: split_paired_Ex)
next
  case (Cons m ms')
  then have "in_budget 1024 n" by (auto intro: in_budget_mono)
  from send_one [OF Cons.prems(1,2) this ok L, of m k] obtain k1 u1 xs1 y1 where
    1: "snd_op rt m (k, u) = ret ((k1, u1), Ok ())" "chain qc (Suc n) u1 xs1 y1"
      "sent_chain (ms @ [m]) xs1 y1" by blast
  from Cons.IH [OF 1(2,3), of k1] Cons.prems(3) 1(1) show ?case by fastforce
qed

text \<open>Receiving again and again after the queue was closed.\<close>

abbreviation drained :: "nat \<Rightarrow> 'a list \<Rightarrow> 'a unb_answer list" where
  "drained j ms \<equiv>
     map (Received_From \<circ> Ok) (take j ms) @ replicate (j - length ms) (Received_From (Err RecvError))"

lemma recv_all:
  assumes "ending qc u xs y d (length xs < 2)" and L: "live rt 0"
  shows "\<exists>k' u' xs' y'. unb_run snd_op rcv_op rt w (k, u) (replicate j Recv) =
      ret ((k', u'), drained j (seg_msgs (hd (xs @ [y])))) \<and>
    ending qc u' xs' y' d (length xs' < 2)"
  using assms(1)
proof (induction j arbitrary: k u xs y)
  case 0
  then show ?case by (intro exI conjI) (auto simp del: split_paired_Ex)
next
  case (Suc j)
  show ?case
  proof (cases "seg_msgs (hd (xs @ [y])) = []")
    case True
    from recv_ending_none [OF Suc.prems L True, of w k] obtain k1 u1 where
      1: "rcv_op rt w (k, u) = ret ((k1, u1), Err RecvError)" "ending qc u1 xs y d (length xs < 2)" by blast
    from Suc.IH [OF 1(2), of k1] 1(1) True show ?thesis by fastforce
  next
    case False
    from recv_ending_some [OF Suc.prems L False, of w k] obtain k1 u1 xs1 y1 where
      1: "rcv_op rt w (k, u) = ret ((k1, u1), Ok (hd (seg_msgs (hd (xs @ [y])))))"
        "ending qc u1 xs1 y1 d (length xs1 < 2)"
        "seg_msgs (hd (xs1 @ [y1])) = tl (seg_msgs (hd (xs @ [y])))" by blast
    from False have "drained (Suc j) (seg_msgs (hd (xs @ [y]))) =
        Received_From (Ok (hd (seg_msgs (hd (xs @ [y]))))) # drained j (tl (seg_msgs (hd (xs @ [y]))))"
      by (cases "seg_msgs (hd (xs @ [y]))") simp_all
    with Suc.IH [OF 1(2), of k1] 1(1,3) show ?thesis by fastforce
  qed
qed

text \<open>The life of a queue: messages are sent, the queue is closed, and \<^term>\<open>j\<close> receives follow.\<close>

lemma send_close:
  assumes "chain qc 0 u [] (p, 0, 0, [])" and "in_budget 1024 (length ms)" and "ok rt" and "live rt 0"
  shows "\<exists>k1 u1 k2 u2 xs y d. unb_run snd_op rcv_op rt w (k, u) (map Send ms) =
      ret ((k1, u1), replicate (length ms) (Sent_To (Ok ()))) \<and>
    close_op rt (k1, u1) = ret (k2, u2) \<and> ending qc u2 xs y d (length xs < 2) \<and> sent_chain ms xs y"
proof -
  have "sent_chain [] [] (p, 0, 0, [])" by (simp add: sent_chain_def contents_def)
  from send_all [OF assms(1) this _ assms(3,4), of ms w k] assms(2) obtain k1 u1 xs y where
    1: "unb_run snd_op rcv_op rt w (k, u) (map Send ms) = ret ((k1, u1), replicate (length ms) (Sent_To (Ok ())))"
      "chain qc (length ms) u1 xs y" "sent_chain ms xs y" by auto
  obtain p' h t ls where y: "y = (p', h, t, ls)" by (metis prod.exhaust)
  from close_ret [OF 1(2) [unfolded y] assms(2,4), of k1] 1 y show ?thesis by blast
qed

lemma close_drains_first:
  assumes "chain qc 0 u [] (p, 0, 0, [])" and "in_budget 1024 (length ms)" and "ok rt" and "live rt 0"
  shows "\<exists>k1 u1 k2 u2 k3 u3. unb_run snd_op rcv_op rt w (k, u) (map Send ms) =
      ret ((k1, u1), replicate (length ms) (Sent_To (Ok ()))) \<and>
    close_op rt (k1, u1) = ret (k2, u2) \<and>
    unb_run snd_op rcv_op rt w (k2, u2) (replicate j Recv) = ret ((k3, u3), drained j (take 1024 ms))"
proof -
  from send_close [OF assms, of w k] obtain k1 u1 k2 u2 xs y d where
    1: "unb_run snd_op rcv_op rt w (k, u) (map Send ms) = ret ((k1, u1), replicate (length ms) (Sent_To (Ok ())))"
      "close_op rt (k1, u1) = ret (k2, u2)" "ending qc u2 xs y d (length xs < 2)" "sent_chain ms xs y"
    by blast
  from recv_all [OF 1(3) assms(4), of w k2 j] 1(1,2) sent_chain_first [OF 1(4)]
  show ?thesis by metis
qed

lemma send_after_close:
  assumes "chain qc 0 u [] (p, 0, 0, [])" and "in_budget 1024 (length ms)" and "ok rt" and "live rt 0"
  shows "\<exists>k1 u1 k2 u2 k3 u3. unb_run snd_op rcv_op rt w (k, u) (map Send ms) =
      ret ((k1, u1), replicate (length ms) (Sent_To (Ok ()))) \<and>
    close_op rt (k1, u1) = ret (k2, u2) \<and> u_closed u2 \<and>
    (length ms \<le> 2048 \<longrightarrow> snd_op rt m (k2, u2) = ret ((k3, u3), Err (SendError m))) \<and>
    (2048 < length ms \<and> \<not> 1024 dvd length ms \<longrightarrow> snd_op rt m (k2, u2) = ret ((k3, u3), Ok ()))"
proof -
  from send_close [OF assms, of w k] obtain k1 u1 k2 u2 xs y d where
    1: "unb_run snd_op rcv_op rt w (k, u) (map Send ms) = ret ((k1, u1), replicate (length ms) (Sent_To (Ok ())))"
      "close_op rt (k1, u1) = ret (k2, u2)" "ending qc u2 xs y d (length xs < 2)" "sent_chain ms xs y"
    by blast
  obtain p' t ls where y: "y = (p', 0, t, ls)" using 1(4) by (cases y) (auto simp: sent_chain_def)
  note E = 1(3) [unfolded y]
  have Lk: "live rt k2" using live_later [OF assms(4)] by simp
  have len: "length ms = 1024 * length xs + length ls" "length ls \<le> 1024" "xs \<noteq> [] \<Longrightarrow> ls \<noteq> []"
    using sent_chain_length [OF 1(4)] 1(4) y by (auto simp: sent_chain_def)
  have t: "t = length ls" using node_at_length [OF endingD(2) [OF E]] by simp
  show ?thesis
  proof (cases "length xs < 2")
    case True
    then have "length ms \<le> 2048" using len by linarith
    with send_ending [of u2 xs p' 0 t ls d rt m k2] E True 1(1,2) endingD(8) [OF E]
    show ?thesis by fastforce
  next
    case False
    then have "2048 < length ms"
      using len by (cases xs) (auto simp flip: length_greater_0_conv)
    moreover have "\<exists>k3 u3. \<not> 1024 dvd length ms \<longrightarrow> snd_op rt m (k2, u2) = ret ((k3, u3), Ok ())"
    proof (cases "length ls = 1024")
      case True
      with len(1) have "length ms = 1024 * Suc (length xs)" by simp
      then show ?thesis by (metis dvd_triv_left)
    next
      case False
      with len(2) t have "t < 0 + 1024" by simp
      moreover have "ending qc u2 xs (p', 0, t, ls) d False" using E \<open>\<not> length xs < 2\<close> by simp
      ultimately show ?thesis using send_still_open [of u2 xs p' 0 t ls d rt k2 m] Lk by blast
    qed
    ultimately show ?thesis using 1(1,2) endingD(8) [OF E] by auto
  qed
qed

lemma close_twice:
  assumes "chain qc 0 u [] (p, 0, 0, [])" and "in_budget 1024 (length ms)" and "ok rt" and "live rt 0"
  shows "\<exists>k1 u1 k2 u2. unb_run snd_op rcv_op rt w (k, u) (map Send ms) =
      ret ((k1, u1), replicate (length ms) (Sent_To (Ok ()))) \<and>
    close_op rt (k1, u1) = ret (k2, u2) \<and> diverges (close_op rt (k2, u2))"
proof -
  from send_close [OF assms, of w k] obtain k1 u1 k2 u2 xs y d where
    1: "unb_run snd_op rcv_op rt w (k, u) (map Send ms) = ret ((k1, u1), replicate (length ms) (Sent_To (Ok ())))"
      "close_op rt (k1, u1) = ret (k2, u2)" "ending qc u2 xs y d (length xs < 2)" by blast
  obtain p' h t ls where y: "y = (p', h, t, ls)" by (metis prod.exhaust)
  from close_again [OF 1(3) [unfolded y] assms(4), of k2] 1(1,2) show ?thesis by blast
qed

end

end
