(* ===== verification/Spsc_Bounded.thy ===== *)
theory Spsc_Bounded
  imports Fifo
begin

text \<open>
  \<^verbatim>\<open>SpscBounded\<close> of \<^verbatim>\<open>src/src/queue/bounded.rs\<close>: the ring with plain cursors, written by
  one sender and one receiver, and a separate flag for closing.
\<close>

record 'a spsc_bounded = "'a ring" +
  read_meta :: u64
  write_meta :: u64
  closed_flag :: bool

type_synonym ('a, 'z) spsc_clocked = "('a, 'z) spsc_bounded_scheme clocked"

definition spsc_bounded_new :: "u32 \<Rightarrow> 'a spsc_bounded outcome" where
  "spsc_bounded_new cap =
     (if cap \<le> push_bit 30 1 then
        let raw_cap = (if cap > 0 then cap else 1)
        in Ret \<lparr>stack = Map.empty, woken = [],
                buffer = replicate (unat raw_cap) elem_default, capacity = raw_cap,
                read_waker = waker_default, write_waker = waker_default,
                read_meta = push_bit 32 1, write_meta = 0, closed_flag = False\<rparr>
      else Panic)"

definition spsc_close :: "('a, 'z) spsc_bounded_scheme runtime \<Rightarrow> ('a, 'z) spsc_clocked \<Rightarrow> ('a, 'z) spsc_clocked run" where
  "spsc_close rt s =
     rbind (waker_close write_waker write_waker_update rt (fst s, (snd s)\<lparr>closed_flag := True\<rparr>))
       (waker_close read_waker read_waker_update rt)"

definition spsc_length :: "('a, 'z) spsc_bounded_scheme \<Rightarrow> u32" where
  "spsc_length q =
     (let head = meta_idx (read_meta q); tail = meta_idx (write_meta q)
      in if tail > head then tail - head + 1 else capacity q - head + tail)"

definition spsc_is_close :: "('a, 'z) spsc_bounded_scheme \<Rightarrow> bool" where
  "spsc_is_close q = closed_flag q"

text \<open>
  The loop of \<^verbatim>\<open>select_bucket_4_send\<close>: the cursor is read once, before the loop. Two loads of
  the bucket's lap with nothing in between see the same state here.
\<close>

partial_function (option) spsc_send_loop ::
  "('a, 'z) spsc_bounded_scheme runtime \<Rightarrow> u64 \<Rightarrow> ('a, 'z) spsc_clocked \<Rightarrow>
    (('a, 'z) spsc_clocked \<times> nat \<times> u32 \<times> state) run" where
  "spsc_send_loop rt meta s =
     (let k = fst s; q = snd s; idx = meta_idx meta; l = meta_lap meta
      in rbind (Some (get_unchecked (buffer q) (unat idx))) (\<lambda>elem.
        if closed_flag q then ret ((k, q), unat idx, 0, Closed)
        else let elem_lap = load_lap elem in
          case cmp l elem_lap of
            Equal \<Rightarrow>
              ret ((k, if idx + 1 < capacity q
                       then q\<lparr>write_meta := write_meta q + 1\<rparr>
                       else q\<lparr>write_meta := lap_meta (l + 2)\<rparr>),
                   unat idx, elem_lap, Success)
          | Greater \<Rightarrow>
              if l > load_lap elem then ret ((k, q), unat idx, elem_lap, Failed)
              else spsc_send_loop rt meta (pause rt (k, q))
          | Less \<Rightarrow> spsc_send_loop rt meta (pause rt (k, q))))"

definition spsc_select_send ::
  "('a, 'z) spsc_bounded_scheme runtime \<Rightarrow> ('a, 'z) spsc_clocked \<Rightarrow> (('a, 'z) spsc_clocked \<times> nat \<times> u32 \<times> state) run" where
  "spsc_select_send rt s = spsc_send_loop rt (write_meta (snd s)) s"

partial_function (option) spsc_recv_loop ::
  "('a, 'z) spsc_bounded_scheme runtime \<Rightarrow> u64 \<Rightarrow> ('a, 'z) spsc_clocked \<Rightarrow>
    (('a, 'z) spsc_clocked \<times> nat \<times> u32 \<times> bool) run" where
  "spsc_recv_loop rt meta s =
     (let k = fst s; q = snd s; idx = meta_idx meta; l = meta_lap meta
      in rbind (Some (get_unchecked (buffer q) (unat idx))) (\<lambda>elem.
        let elem_lap = load_lap elem in
          case cmp l elem_lap of
            Equal \<Rightarrow>
              ret ((k, if idx + 1 < capacity q
                       then q\<lparr>read_meta := read_meta q + 1\<rparr>
                       else q\<lparr>read_meta := lap_meta (l + 2)\<rparr>),
                   unat idx, elem_lap, True)
          | Greater \<Rightarrow>
              if l > load_lap elem then ret ((k, q), unat idx, elem_lap, False)
              else spsc_recv_loop rt meta (pause rt (k, q))
          | Less \<Rightarrow> spsc_recv_loop rt meta (pause rt (k, q))))"

definition spsc_select_recv ::
  "('a, 'z) spsc_bounded_scheme runtime \<Rightarrow> ('a, 'z) spsc_clocked \<Rightarrow> (('a, 'z) spsc_clocked \<times> nat \<times> u32 \<times> bool) run" where
  "spsc_select_recv rt s = spsc_recv_loop rt (read_meta (snd s)) s"

definition spsc_vtable :: "('a, 'z) spsc_bounded_scheme vtable" where
  "spsc_vtable =
     \<lparr>v_select_send = spsc_select_send, v_select_recv = spsc_select_recv,
      v_close = spsc_close, v_is_close = spsc_is_close, v_length = spsc_length\<rparr>"

lemma spsc_vtable_simps [simp]:
  "v_select_send spsc_vtable = spsc_select_send" "v_select_recv spsc_vtable = spsc_select_recv"
  "v_close spsc_vtable = spsc_close" "v_is_close spsc_vtable = spsc_is_close"
  "v_length spsc_vtable = spsc_length"
  by (simp_all add: spsc_vtable_def)

section \<open>Refinement of the FIFO list\<close>

definition spsc_cur :: "'z \<Rightarrow> nat \<Rightarrow> nat \<Rightarrow> nat \<Rightarrow> bool \<Rightarrow> ('a, 'z) spsc_bounded_scheme \<Rightarrow> bool" where
  "spsc_cur W c h t b q \<longleftrightarrow>
     read_meta q = read_cursor c h \<and> write_meta q = write_cursor c t \<and> closed_flag q = b \<and>
     spsc_bounded.more q = W"

text \<open>
  \<^term>\<open>spsc_rel W c h t ms b q\<close>: a queue of capacity \<^term>\<open>c\<close> that has sent \<^term>\<open>t\<close> and
  received \<^term>\<open>h\<close> messages, holds \<^term>\<open>ms\<close>, and is closed iff \<^term>\<open>b\<close>. The record may be
  extended by what surrounds the queue (the other nodes of an unbounded queue), \<^term>\<open>W\<close>.
\<close>

definition spsc_rel :: "'z \<Rightarrow> nat \<Rightarrow> nat \<Rightarrow> nat \<Rightarrow> 'a list \<Rightarrow> bool \<Rightarrow> ('a, 'z) spsc_bounded_scheme \<Rightarrow> bool" where
  "spsc_rel W c h t ms b q \<longleftrightarrow> ring_rel c h t ms q \<and> spsc_cur W c h t b q"

lemma spsc_select_send_cases:
  assumes R: "ring_rel c h t ms q" and C: "spsc_cur W c h t False q"
  shows "t < h + c \<Longrightarrow> spsc_select_send rt (k, q) =
      ret ((k, q\<lparr>write_meta := write_cursor c (Suc t)\<rparr>), t mod c, tkt_lap c t, Success)"
    and "t = h + c \<Longrightarrow> tkt_lap c t \<noteq> 0 \<Longrightarrow> spsc_select_send rt (k, q) =
      ret ((k, q), t mod c, tkt_lap c t - 1, Failed)"
    and "t = h + c \<Longrightarrow> tkt_lap c t = 0 \<Longrightarrow> spsc_select_send rt (k, q) =
      spsc_send_loop rt (write_cursor c t) (pause rt (k, q))"
proof -
  note D = ring_relD [OF R]
  have wm: "write_meta q = write_cursor c t" and cl: "\<not> closed_flag q"
    using C by (simp_all add: spsc_cur_def)
  note unf = spsc_select_send_def spsc_send_loop.simps [of rt "write_cursor c t"] wm cl D(2) D(5)
    load_lap_def Let_def slots_in [OF D(1)]
  show "spsc_select_send rt (k, q) =
      ret ((k, q\<lparr>write_meta := write_cursor c (Suc t)\<rparr>), t mod c, tkt_lap c t, Success)" if "t < h + c"
  proof -
    have "lap (buffer q ! (t mod c)) = tkt_lap c t"
      using slots_free [OF D(1), of t] that by simp
    moreover have "meta_idx (write_cursor c t) = word_of_nat (t mod c)"
      by (simp add: write_cursor_def)
    ultimately show ?thesis
      using write_cursor_Suc [OF D(5), of t] by (simp add: unf split: if_splits)
  qed
  have full: "lap (buffer q ! (t mod c)) = tkt_lap c t - 1" if "t = h + c"
    using slots_full [OF D(1) that] .
  show "spsc_select_send rt (k, q) = ret ((k, q), t mod c, tkt_lap c t - 1, Failed)"
    if "t = h + c" "tkt_lap c t \<noteq> 0"
    using full [OF that(1)] word_sub_one_less [OF that(2)] by (simp add: unf)
  show "spsc_select_send rt (k, q) = spsc_send_loop rt (write_cursor c t) (pause rt (k, q))"
    if "t = h + c" "tkt_lap c t = 0"
  proof -
    have "cmp (tkt_lap c t) (tkt_lap c t - 1) = Less"
      using that(2) by (simp add: cmp_def word_gt_0)
    then show ?thesis
      using full [OF that(1)] by (simp add: unf del: cmp_simps)
  qed
qed

lemma spsc_select_send_closed:
  assumes "ring_rel c h t ms q" and "spsc_cur W c h t True q"
  shows "spsc_select_send rt (k, q) = ret ((k, q), t mod c, 0, Closed)"
  using assms ring_relD(5) [OF assms(1)] slots_in [OF ring_relD(1) [OF assms(1)], of t]
  by (subst spsc_select_send_def, subst spsc_send_loop.simps) (simp add: spsc_cur_def Let_def)

lemma spsc_select_recv_cases:
  assumes R: "ring_rel c h t ms q" and C: "spsc_cur W c h t b q"
  shows "h < t \<Longrightarrow> spsc_select_recv rt (k, q) =
      ret ((k, q\<lparr>read_meta := read_cursor c (Suc h)\<rparr>), h mod c, tkt_lap c h + 1, True)"
    and "h = t \<Longrightarrow> spsc_select_recv rt (k, q) = ret ((k, q), h mod c, tkt_lap c h, False)"
proof -
  note D = ring_relD [OF R]
  have rm: "read_meta q = read_cursor c h"
    using C by (simp add: spsc_cur_def)
  note unf = spsc_select_recv_def spsc_recv_loop.simps [of rt "read_cursor c h"] rm D(2) D(5)
    load_lap_def Let_def slots_in [OF D(1)]
  show "spsc_select_recv rt (k, q) =
      ret ((k, q\<lparr>read_meta := read_cursor c (Suc h)\<rparr>), h mod c, tkt_lap c h + 1, True)" if "h < t"
  proof -
    have "lap (buffer q ! (h mod c)) = tkt_lap c h + 1"
      using slots_pending(1) [OF D(1), of h] that by simp
    moreover have "meta_idx (read_cursor c h) = word_of_nat (h mod c)"
      by (simp add: read_cursor_def)
    ultimately show ?thesis
      using read_cursor_Suc [OF D(5), of h] by (simp add: unf add.assoc split: if_splits)
  qed
  show "spsc_select_recv rt (k, q) = ret ((k, q), h mod c, tkt_lap c h, False)" if "h = t"
  proof -
    have "lap (buffer q ! (h mod c)) = tkt_lap c h"
      using slots_free [OF D(1), of h] that D(5) by (simp add: cap_ok_def)
    then show ?thesis
      by (simp add: unf)
  qed
qed

lemma spsc_close_idle:
  assumes "idle (read_waker q)" and "idle (write_waker q)"
  shows "spsc_close rt (k, q) = ret (k, q\<lparr>closed_flag := True,
     write_waker := (write_waker q)\<lparr>empty_flag := True\<rparr>,
     read_waker := (read_waker q)\<lparr>empty_flag := True\<rparr>\<rparr>)"
  using assms by (simp add: spsc_close_def waker_close_idle)

interpretation spsc: bounded_contract spsc_vtable "spsc_cur W" for W :: 'z
proof unfold_locales
  fix c h t k and ms :: "'a list" and q :: "('a, 'z) spsc_bounded_scheme" and b rt
  assume *: "ring_rel c h t ms q" "spsc_cur W c h t b q" "idle (read_waker q)" "idle (write_waker q)"
  have "waker_ok stk (wk\<lparr>empty_flag := True\<rparr>) = waker_ok stk wk" if "idle wk" "waker_ok stk wk"
    for stk wk using that by (simp add: waker_ok_def)
  with * show "\<exists>k' q'. v_close spsc_vtable rt (k, q) = ret (k', q') \<and> ring_rel c h t ms q' \<and>
      spsc_cur W c h t True q' \<and> stack q' = stack q \<and> reg_lists q' = reg_lists q"
    by (simp add: spsc_close_idle spsc_cur_def ring_rel_def reg_lists_def)
next
  fix c h t k and ms :: "'a list" and q :: "('a, 'z) spsc_bounded_scheme" and rt
  assume *: "ring_rel c h t ms q" "spsc_cur W c h t False q" "t = h + c" "in_budget c t"
  then have "tkt_lap c t \<noteq> 0"
    using tkt_lap_in_budget_nonzero [of c t] ring_relD(5) [of c h t ms q] by (simp add: cap_ok_def)
  with * show "v_select_send spsc_vtable rt (k, q) = ret ((k, q), t mod c, tkt_lap c t - 1, Failed)"
    by (simp add: spsc_select_send_cases(2) [OF *(1,2)])
qed (auto simp: spsc_cur_def spsc_is_close_def same_ring_iff spsc_select_send_closed
    spsc_select_send_cases spsc_select_recv_cases)

end
