(* ===== verification/Spsc_Unbounded.thy ===== *)
theory Spsc_Unbounded
  imports Closing Spsc_Bounded
begin

text \<open>
  \<^verbatim>\<open>SpscUnbounded\<close> of \<^verbatim>\<open>src/src/queue/unbounded.rs\<close>: one sender appends nodes, one
  receiver frees them.
\<close>

type_synonym 'a spsc_unbounded = "('a, unit spsc_bounded_ext) unbounded"
type_synonym 'a spsc_node = "('a, unit spsc_bounded_ext) node"

definition spsc_frame ::
  "('a, unit spsc_bounded_ext, ('a, unit spsc_bounded_ext) around spsc_bounded_ext) frame" where
  "spsc_frame =
     \<lparr>ext = spsc_bounded.extend, cut = spsc_bounded.truncate, rest = spsc_bounded.more\<rparr>"

definition spsc_node_new :: "u32 \<Rightarrow> 'a spsc_node outcome" where
  "spsc_node_new cap = obind (spsc_bounded_new cap) (\<lambda>q. Ret \<lparr>queue = q, next = None\<rparr>)"

definition spsc_unbounded_default :: "'a spsc_unbounded outcome" where
  "spsc_unbounded_default =
     obind (spsc_node_new SUB_QUEUE_SIZE) (\<lambda>n.
       let u = \<lparr>heap = Map.empty, brk = 0, u_head = None, u_tail = None, u_closed = False,
                destroyed = []\<rparr>;
           (p, u) = alloc n u
       in Ret (u\<lparr>u_head := Some p, u_tail := Some p\<rparr>))"

definition spsc_unb_send :: "bool \<Rightarrow> 'a spsc_unbounded runtime \<Rightarrow> 'a \<Rightarrow> 'a spsc_unbounded clocked \<Rightarrow>
    ('a spsc_unbounded clocked \<times> (unit, 'a send_error) result) run" where
  "spsc_unb_send triv rt m s =
     (let tail = u_tail (snd s)
      in rbind (on_node spsc_frame rt tail (\<lambda>irt. try_send spsc_vtable irt m) s) (\<lambda>(s, r).
        case r of
          Inr _ \<Rightarrow> ret (s, Ok ())
        | Inl (Disconnected m) \<Rightarrow> ret (s, Err (SendError m))
        | Inl (Full m) \<Rightarrow>
            rbind (node_close spsc_frame spsc_vtable rt tail s) (\<lambda>(k, u).
              rbind (Some (spsc_node_new SUB_QUEUE_SIZE)) (\<lambda>n.
                let (nxt, u) = alloc n u
                in rbind (Some (deref tail u)) (\<lambda>tl.
                  case cas_weak rt k (next tl) None of
                    Inr _ \<Rightarrow>
                      rbind (on_node spsc_frame rt (Some nxt) (\<lambda>irt. try_send spsc_vtable irt m)
                               (k, set_next (the tail) (Some nxt) u)) (\<lambda>((k, u), _).
                        ret ((k, u\<lparr>u_tail := Some nxt\<rparr>), Ok ()))
                  | Inl v \<Rightarrow>
                      rbind (Some (free triv (Some nxt) u)) (\<lambda>u.
                        ret ((k, u\<lparr>u_tail := v\<rparr>), Err (SendError m))))))))"

text \<open>The loop that waits for the successor of the drained node.\<close>

partial_function (option) spsc_wait_next ::
  "'a spsc_unbounded runtime \<Rightarrow> nat option \<Rightarrow> 'a spsc_unbounded clocked \<Rightarrow>
    ('a spsc_unbounded clocked \<times> nat option) run" where
  "spsc_wait_next rt head s =
     rbind (Some (deref head (snd s))) (\<lambda>n.
       if next n = None then spsc_wait_next rt head (pause rt s) else ret (s, next n))"

definition spsc_unb_recv :: "bool \<Rightarrow> 'a spsc_unbounded runtime \<Rightarrow> nat \<Rightarrow> 'a spsc_unbounded clocked \<Rightarrow>
    ('a spsc_unbounded clocked \<times> ('a, recv_error) result) run" where
  "spsc_unb_recv triv rt w s =
     (let head = u_head (snd s)
      in rbind (on_node spsc_frame rt head (\<lambda>irt. recv spsc_vtable spsc_is_close irt w) s) (\<lambda>(s, r).
        case r of
          Inr m \<Rightarrow> ret (s, Ok m)
        | Inl _ \<Rightarrow>
            if u_closed (snd s) then ret (s, Err RecvError)
            else rbind (spsc_wait_next rt head s) (\<lambda>((k, u), nxt).
              rbind (Some (free triv head (u\<lparr>u_head := nxt\<rparr>))) (\<lambda>u.
                on_node spsc_frame rt nxt (\<lambda>irt. recv spsc_vtable spsc_is_close irt w) (k, u)))))"

definition spsc_unb_close :: "'a spsc_unbounded runtime \<Rightarrow> 'a spsc_unbounded clocked \<Rightarrow>
    'a spsc_unbounded clocked run" where
  "spsc_unb_close rt s =
     rbind (Some (spsc_node_new 1)) (\<lambda>n.
       let (nxt, u) = alloc n (snd s)
       in rbind (node_close spsc_frame spsc_vtable rt (Some nxt) (fst s, u)) (\<lambda>s.
            rbind (set_close rt (Some nxt) s) (\<lambda>s.
              close_current_node spsc_frame spsc_vtable rt (u_head (snd s)) s)))"

section \<open>The nodes meet the contract\<close>

interpretation spsc_node: node_contract spsc_frame spsc_vtable "spsc_cur ()" spsc_cur
proof unfold_locales
qed (auto simp: spsc_frame_def spsc_cur_def ring.truncate_def spsc_bounded.defs)

section \<open>Refinement of the list\<close>

lemma spsc_bounded_new_ok:
  assumes "cap_ok c"
  shows "\<exists>q. spsc_bounded_new (word_of_nat c) = Ret q \<and> ring_rel c 0 0 [] q \<and>
    spsc_cur () c 0 0 False q \<and> calm q \<and> open_wakers q"
proof -
  have u: "unat (word_of_nat c :: u32) = c"
    using assms by (simp add: cap_ok_def unsigned_of_nat take_bit_nat_eq_self)
  then have "word_of_nat c \<le> (push_bit 30 1 :: u32)" "(word_of_nat c :: u32) > 0"
    using assms by (simp_all add: cap_ok_def word_le_nat_alt word_less_nat_alt)
  then show ?thesis
    using slots_init [OF assms] assms u
    by (simp add: spsc_bounded_new_def ring_rel_def spsc_cur_def calm_def reg_lists_def
        open_wakers_def Let_def read_cursor_def write_cursor_def cap_ok_def pack_def lap_meta_def tkt_lap_0)
qed

lemma spsc_node_new_ok:
  fixes hp :: "nat \<rightharpoonup> 'a spsc_node"
  assumes "cap_ok c"
  shows "\<exists>n. spsc_node_new (word_of_nat c) = Ret n \<and> node_at (spsc_cur ()) (hp(a \<mapsto> n)) a None c 0 0 [] False"
proof -
  obtain q :: "'a spsc_bounded" where "spsc_bounded_new (word_of_nat c) = Ret q" "ring_rel c 0 0 [] q"
      "spsc_cur () c 0 0 False q" "calm q"
    using spsc_bounded_new_ok [OF assms] by blast
  then show ?thesis
    by (intro exI [of _ "\<lparr>queue = q, next = None\<rparr>"]) (simp add: spsc_node_new_def node_at_def)
qed

lemma spsc_unb_send_open:
  assumes C: "chain (spsc_cur ()) n u xs (p, h, t, ls)" and "t < h + 1024" and "in_budget 1024 n"
    and "live rt k"
  shows "\<exists>k' u'. spsc_unb_send triv rt m (k, u) = ret ((k', u'), Ok ()) \<and>
    chain (spsc_cur ()) (Suc n) u' xs (p, h, Suc t, ls @ [m])"
proof -
  note D = chainD [OF C]
  from spsc_node.node_send_open [OF D(2) assms(2) in_budget_mono [OF assms(3) D(3)] assms(4), of m]
  show ?thesis
    using chain_push [OF C] D(7) by (fastforce simp: spsc_unb_send_def)
qed

lemma spsc_unb_send_full:
  assumes C: "chain (spsc_cur ()) n u xs (p, h, t, ls)" and full: "t = h + 1024"
    and B: "in_budget 1024 n" and L: "live rt 0" and S: "\<forall>k. \<not> spurious rt k"
  shows "\<exists>k' u'. spsc_unb_send triv rt m (k, u) = ret ((k', u'), Ok ()) \<and>
    chain (spsc_cur ()) (Suc n) u' (xs @ [(p, h, t, ls)]) (brk u, 0, 1, [m])"
proof -
  note D = chainD [OF C]
  have Lk: "live rt k" for k using live_later [OF L] by simp
  let ?a = "brk u"
  have pa: "p \<noteq> ?a" using chain_used [OF C] by simp
  have ls: "ls \<noteq> []" using node_at_length [OF D(2)] full by auto
  from spsc_node.node_send_full [OF D(2) full in_budget_mono [OF B D(3)], of rt m k]
  obtain n1 where
    1: "on_node spsc_frame rt (Some p) (\<lambda>irt. try_send spsc_vtable irt m) (k, u) =
        ret ((k, u\<lparr>heap := (heap u)(p \<mapsto> n1)\<rparr>), Err (Full m))"
      "node_at (spsc_cur ()) ((heap u)(p \<mapsto> n1)) p None 1024 h t ls False" by blast
  let ?u1 = "u\<lparr>heap := (heap u)(p \<mapsto> n1)\<rparr>"
  from spsc_node.node_close_ret [of ?u1 p None 1024 h t ls False rt k] 1(2) Lk
  obtain k2 n2 where
    2: "node_close spsc_frame spsc_vtable rt (Some p) (k, ?u1) =
        ret (k2, u\<lparr>heap := (heap u)(p \<mapsto> n2)\<rparr>)"
      "node_at (spsc_cur ()) ((heap u)(p \<mapsto> n2)) p None 1024 h t ls True" by auto
  let ?n3 = "n2\<lparr>next := Some ?a\<rparr>"
  obtain nd where
    n: "spsc_node_new SUB_QUEUE_SIZE = Ret nd"
      "node_at (spsc_cur ()) ((heap u)(p \<mapsto> ?n3, ?a \<mapsto> nd)) ?a None 1024 0 0 [] False"
    using spsc_node_new_ok [of 1024 "(heap u)(p \<mapsto> ?n3)" ?a] by (auto simp: SUB_QUEUE_SIZE_def)
  let ?u3 = "u\<lparr>brk := Suc ?a, heap := (heap u)(p \<mapsto> ?n3, ?a \<mapsto> nd)\<rparr>"
  from spsc_node.node_send_open [of ?u3 ?a None 1024 0 0 "[]" rt k2 m] n(2) Lk
  obtain k4 n4 where
    4: "on_node spsc_frame rt (Some ?a) (\<lambda>irt. try_send spsc_vtable irt m) (k2, ?u3) =
        ret ((k4, ?u3\<lparr>heap := (heap u)(p \<mapsto> ?n3, ?a \<mapsto> n4)\<rparr>), Ok ())"
      "node_at (spsc_cur ()) ((heap u)(p \<mapsto> ?n3, ?a \<mapsto> n4)) ?a None 1024 0 1 [m] False"
    by (auto simp: in_budget_def)
  let ?u4 = "?u3\<lparr>heap := (heap u)(p \<mapsto> ?n3, ?a \<mapsto> n4), u_tail := Some ?a\<rparr>"
  have "node_at (spsc_cur ()) (heap ?u4) p (Some ?a) 1024 h t ls True"
    using 2(2) pa by (auto simp: node_at_def)
  then have "chain (spsc_cur ()) (Suc n) ?u4 (xs @ [(p, h, t, ls)]) (?a, 0, 1, [m])"
    using 4(2) full by (intro chain_append [OF C ls _ B]) simp_all
  moreover have "next n2 = None" using 2(2) by (auto simp: node_at_def)
  then have "spsc_unb_send triv rt m (k, u) = ret ((k4, ?u4), Ok ())"
    using 1(1) 2(1) n(1) 4(1) D(7) S pa
    by (simp add: spsc_unb_send_def alloc_def deref_def cas_weak_def set_next_def fun_upd_twist)
  ultimately show ?thesis by blast
qed

text \<open>An exchange that fails spuriously on a full last node.\<close>

lemma spsc_node_close_now:
  assumes "node_at (spsc_cur ()) (heap u) p nx c h t ms b"
  shows "\<exists>n'. node_close spsc_frame spsc_vtable rt (Some p) (k, u) =
      ret (k, u\<lparr>heap := (heap u)(p \<mapsto> n')\<rparr>) \<and>
    node_at (spsc_cur ()) ((heap u)(p \<mapsto> n')) p nx c h t ms True"
proof -
  let ?call = "\<lambda>irt f. rbind (v_close spsc_vtable irt f) (\<lambda>f. ret (f, ()))"
  have C: "\<exists>k' f'. k' = k \<and> ?call (inner_rt spsc_frame p rt) (k, f) =
      ret ((k', f'), ()) \<and> ring_rel c h t ms f' \<and> spsc_cur W c h t True f' \<and> calm f'"
    if "ring_rel c h t ms f" "spsc_cur W c h t b f" "calm f" for W f
  proof -
    have "waker_ok stk (wk\<lparr>empty_flag := True\<rparr>) = waker_ok stk wk"
      if "idle wk" "waker_ok stk wk" for stk wk
      using that by (simp add: waker_ok_def)
    with that calm_idle [OF that(3)] show ?thesis
      by (simp add: spsc_close_idle spsc_cur_def ring_rel_def calm_def reg_lists_def)
  qed
  have "\<exists>k' n'. k' = k \<and> on_node spsc_frame rt (Some p) ?call (k, u) =
      ret ((k', u\<lparr>heap := (heap u)(p \<mapsto> n')\<rparr>), ()) \<and>
    node_at (spsc_cur ()) ((heap u)(p \<mapsto> n')) p nx c h t ms True"
    by (rule spsc_node.on_node_ret_when [OF assms]) (rule C)
  then show ?thesis
    by (fastforce simp: node_close_def)
qed

lemma spsc_unb_send_spurious:
  assumes C: "chain (spsc_cur ()) n u xs (p, h, t, ls)" and full: "t = h + 1024"
    and B: "in_budget 1024 n" and S: "spurious rt k"
  shows "if triv
    then \<exists>u'. spsc_unb_send triv rt m (k, u) = ret ((k, u'), Err (SendError m)) \<and> u_tail u' = None
    else spsc_unb_send triv rt m (k, u) = Some Undef"
proof -
  note D = chainD [OF C]
  let ?a = "brk u"
  have pa: "p \<noteq> ?a" using chain_used [OF C] by simp
  from spsc_node.node_send_full [OF D(2) full in_budget_mono [OF B D(3)], of rt m k]
  obtain n1 where
    1: "on_node spsc_frame rt (Some p) (\<lambda>irt. try_send spsc_vtable irt m) (k, u) =
        ret ((k, u\<lparr>heap := (heap u)(p \<mapsto> n1)\<rparr>), Err (Full m))"
      "node_at (spsc_cur ()) ((heap u)(p \<mapsto> n1)) p None 1024 h t ls False" by blast
  let ?u1 = "u\<lparr>heap := (heap u)(p \<mapsto> n1)\<rparr>"
  from spsc_node_close_now [of ?u1 p None 1024 h t ls False rt k] 1(2) obtain n2 where
    2: "node_close spsc_frame spsc_vtable rt (Some p) (k, ?u1) =
        ret (k, u\<lparr>heap := (heap u)(p \<mapsto> n2)\<rparr>)"
      "node_at (spsc_cur ()) ((heap u)(p \<mapsto> n2)) p None 1024 h t ls True" by auto
  then have nx: "next n2 = None" by (auto simp: node_at_def)
  obtain nd :: "'a spsc_node" where
    nd: "spsc_node_new SUB_QUEUE_SIZE = Ret nd" "elems_drop (buffer (queue nd)) = Undef"
    by (simp add: spsc_node_new_def spsc_bounded_new_def SUB_QUEUE_SIZE_def elems_drop_Undef_iff
        word_le_nat_alt)
  show ?thesis
    using 1(1) 2(1) nd D(7) S pa nx
    by (simp add: spsc_unb_send_def alloc_def deref_def cas_weak_def free_def)
qed

lemma spsc_unb_send_null:
  "u_tail u = None \<Longrightarrow> spsc_unb_send triv rt m (k, u) = Some Undef"
  by (simp add: spsc_unb_send_def on_node_def deref_def)

lemma spsc_wait_next_now:
  "heap u a = Some n \<Longrightarrow> next n = Some p \<Longrightarrow> spsc_wait_next rt (Some a) (k, u) = ret ((k, u), Some p)"
  by (subst spsc_wait_next.simps) (simp add: deref_def)

lemma spsc_vtable_is_close: "v_is_close spsc_vtable = spsc_is_close"
  by simp

lemma spsc_unb_recv_now:
  assumes C: "chain (spsc_cur ()) n u xs (p, h, t, ls)" and ne: "seg_msgs (hd (xs @ [(p, h, t, ls)])) \<noteq> []"
    and L: "live rt k"
  shows "\<exists>k' u' xs' y'. spsc_unb_recv triv rt w (k, u) =
      ret ((k', u'), Ok (hd (contents xs (p, h, t, ls)))) \<and>
    chain (spsc_cur ()) n u' xs' y' \<and> destroyed u' = destroyed u \<and>
    contents xs' y' = tl (contents xs (p, h, t, ls)) \<and> tl (xs' @ [y']) = tl (xs @ [(p, h, t, ls)]) \<and>
    seg_msgs (hd (xs' @ [y'])) = tl (seg_msgs (hd (xs @ [(p, h, t, ls)])))"
  using spsc_node.chain_recv [OF assms, of w] chainD(6) [OF C]
  unfolding spsc_vtable_is_close by (fastforce simp: spsc_unb_recv_def)

lemma spsc_unb_recv_next:
  assumes C: "chain (spsc_cur ()) n u ((a, h', t', []) # xs) (p, h, t, ls)" and L: "live rt 0"
  shows "\<exists>k' u' xs' y'. spsc_unb_recv triv rt w (k, u) =
      ret ((k', u'), Ok (hd (contents xs (p, h, t, ls)))) \<and>
    chain (spsc_cur ()) n u' xs' y' \<and>
    contents xs' y' = tl (contents xs (p, h, t, ls)) \<and>
    (\<not> triv \<longrightarrow> length (destroyed u') = length (destroyed u) + 1024)"
proof -
  note D = chainD [OF C]
  from spsc_node.chain_skip [OF C, of rt w k] obtain n1 ds where
    1: "on_node spsc_frame rt (Some a) (\<lambda>irt. recv spsc_vtable spsc_is_close irt w) (k, u) =
        ret ((k, u\<lparr>heap := (heap u)(a \<mapsto> n1)\<rparr>), Err RecvError)"
      "next n1 = Some (first_addr xs p)" "elems_drop (buffer (queue n1)) = Ret ds" "length ds = 1024"
    and C': "\<And>ds. chain (spsc_cur ()) n (u\<lparr>u_head := Some (first_addr xs p),
        heap := (heap u)(a := None), destroyed := ds\<rparr>) xs (p, h, t, ls)"
    unfolding spsc_vtable_is_close by blast
  let ?u = "u\<lparr>u_head := Some (first_addr xs p), heap := (heap u)(a := None),
    destroyed := destroyed u @ (if triv then [] else ds)\<rparr>"
  have Lk: "live rt k" using live_later [OF L] by simp
  have ne: "seg_msgs (hd (xs @ [(p, h, t, ls)])) \<noteq> []"
    using D(9) [of "hd (xs @ [(p, h, t, ls)])"] by (cases xs) auto
  from spsc_node.chain_recv [OF C' ne Lk, of w "destroyed u @ (if triv then [] else ds)"]
  obtain k2 u2 xs' y' where
    2: "on_node spsc_frame rt (Some (first_addr xs p)) (\<lambda>irt. recv spsc_vtable spsc_is_close irt w)
        (k, ?u) = ret ((k2, u2), Ok (hd (contents xs (p, h, t, ls))))"
      "chain (spsc_cur ()) n u2 xs' y'" "destroyed u2 = destroyed ?u"
      "contents xs' y' = tl (contents xs (p, h, t, ls))"
    unfolding spsc_vtable_is_close by blast
  have "spsc_unb_recv triv rt w (k, u) = ret ((k2, u2), Ok (hd (contents xs (p, h, t, ls))))"
    using 1 2(1) D(6,8)
    by (cases triv) (simp_all add: spsc_unb_recv_def spsc_wait_next_now free_ret)
  with 2 1(4) show ?thesis by fastforce
qed

interpretation spsc_unbounded: unbounded_contract "spsc_unb_send triv" "spsc_unb_recv triv"
  "\<lambda>rt. quiet rt \<and> (\<forall>k. \<not> spurious rt k)" "unb_rel (spsc_cur ())" for triv
proof unfold_locales
  fix n ms m k and u :: "'a spsc_unbounded" and rt :: "'a spsc_unbounded runtime"
  assume R: "unb_rel (spsc_cur ()) n ms u" and B: "in_budget 1024 n" and L: "live rt 0"
    and ok: "quiet rt \<and> (\<forall>k. \<not> spurious rt k)"
  from R obtain xs p h t ls where C: "chain (spsc_cur ()) n u xs (p, h, t, ls)"
    and ms: "ms = contents xs (p, h, t, ls)" unfolding unb_rel_def by (metis prod.exhaust)
  have "t \<le> h + 1024" using node_at_le [OF chainD(2) [OF C]] by simp
  then consider "t < h + 1024" | "t = h + 1024" by linarith
  then show "\<exists>k' u'. spsc_unb_send triv rt m (k, u) = ret ((k', u'), Ok ()) \<and>
      unb_rel (spsc_cur ()) (Suc n) (ms @ [m]) u'"
  proof cases
    case 1
    from spsc_unb_send_open [OF C 1 B live_later [OF L], of k triv m] show ?thesis
      by (fastforce intro!: unb_relI simp: ms contents_def)
  next
    case 2
    from spsc_unb_send_full [OF C 2 B L conjunct2 [OF ok], of triv m k] show ?thesis
      by (fastforce intro!: unb_relI simp: ms contents_def)
  qed
next
  fix n ms m k w and u :: "'a spsc_unbounded" and rt :: "'a spsc_unbounded runtime"
  assume R: "unb_rel (spsc_cur ()) n (m # ms) u" and L: "live rt 0"
  from R obtain xs p h t ls where C: "chain (spsc_cur ()) n u xs (p, h, t, ls)"
    and ms: "m # ms = contents xs (p, h, t, ls)" unfolding unb_rel_def by (metis prod.exhaust)
  show "\<exists>k' u'. spsc_unb_recv triv rt w (k, u) = ret ((k', u'), Ok m) \<and>
      unb_rel (spsc_cur ()) n ms u'"
  proof (cases "seg_msgs (hd (xs @ [(p, h, t, ls)])) = []")
    case False
    from spsc_unb_recv_now [OF C False live_later [OF L], of k triv w] show ?thesis
      unfolding unb_rel_def by (metis ms list.sel(1,3) le0)
  next
    case True
    with ms obtain a h' t' xs' where x: "xs = (a, h', t', []) # xs'"
      by (cases xs) (auto simp: contents_def)
    have "contents xs' (p, h, t, ls) = m # ms" using ms x by (simp add: contents_def)
    with spsc_unb_recv_next [OF C [unfolded x] L, of triv w k] show ?thesis
      unfolding unb_rel_def by (metis list.sel(1,3))
  qed
next
  fix n k w and u :: "'a spsc_unbounded" and rt :: "'a spsc_unbounded runtime"
  assume R: "unb_rel (spsc_cur ()) n [] u" and B: "in_budget 1024 n"
    and ok: "quiet rt \<and> (\<forall>k. \<not> spurious rt k)"
  from R obtain xs p h t ls where C: "chain (spsc_cur ()) n u xs (p, h, t, ls)"
    and ms: "contents xs (p, h, t, ls) = []" unfolding unb_rel_def by (metis prod.exhaust)
  from spsc_node.chain_empty [OF C ms] have "ls = []" "xs = []" by auto
  with spsc_node.node_recv_diverges [of u p None 1024 h t rt w k] chainD(2,3,6) [OF C] ok
    in_budget_mono [OF B]
  show "diverges (spsc_unb_recv triv rt w (k, u))"
    by (auto simp: spsc_unb_recv_def)
qed (rule unb_rel_later)

section \<open>A new queue, and closing\<close>

lemma spsc_unbounded_default_ok:
  "\<exists>u. spsc_unbounded_default = Ret u \<and> unb_rel (spsc_cur ()) 0 [] u \<and> destroyed u = [] \<and>
     chain (spsc_cur ()) 0 u [] (0, 0, 0, [])"
proof -
  obtain n :: "'a spsc_node" where
    n: "spsc_node_new SUB_QUEUE_SIZE = Ret n" "node_at (spsc_cur ()) [0 \<mapsto> n] 0 None 1024 0 0 [] False"
    using spsc_node_new_ok [of 1024 Map.empty 0] by (auto simp: SUB_QUEUE_SIZE_def)
  let ?u = "\<lparr>heap = [0 \<mapsto> n], brk = 1, u_head = Some 0, u_tail = Some 0, u_closed = False,
    destroyed = []\<rparr>"
  have C: "chain (spsc_cur ()) 0 ?u [] (0, 0, 0, [])"
    using n(2) by (simp add: chain_def)
  then have "unb_rel (spsc_cur ()) 0 [] ?u" by (rule unb_relI) (simp add: contents_def)
  with C show ?thesis using n(1) by (simp add: spsc_unbounded_default_def alloc_def)
qed

lemma spsc_unb_close_chain:
  assumes C: "chain (spsc_cur ()) n u xs (p, h, t, ls)" and B: "in_budget 1024 n" and L: "live rt 0"
  shows "\<exists>k' u' d. spsc_unb_close rt (k, u) = ret (k', u') \<and>
    ending (spsc_cur ()) u' xs (p, h, t, ls) d (length xs < 2)"
proof -
  obtain nd where nd: "spsc_node_new 1 = Ret nd"
    "node_at (spsc_cur ()) ((heap u)(brk u \<mapsto> nd)) (brk u) None 1 0 0 [] False"
    using spsc_node_new_ok [OF cap_ok_1024(2), of "heap u" "brk u"] by (auto simp del: One_nat_def)
  from spsc_node.close_chain [OF C B L nd(2), of k] nd(1) show ?thesis
    by (auto simp: spsc_unb_close_def alloc_def)
qed

lemma spsc_unb_send_ending:
  assumes E: "ending (spsc_cur ()) u xs (p, h, t, ls) d True"
  shows "\<exists>k' u'. spsc_unb_send triv rt m (k, u) = ret ((k', u'), Err (SendError m)) \<and>
    ending (spsc_cur ()) u' xs (p, h, t, ls) d True"
proof -
  note D = endingD [OF E]
  from spsc_node.node_send_closed [OF D(2,3), of rt m k] D(7) show ?thesis
    using ending_upd_last [OF E] by (fastforce simp: spsc_unb_send_def)
qed

lemma spsc_unb_send_still_open:
  assumes E: "ending (spsc_cur ()) u xs (p, h, t, ls) d False" and "t < h + 1024" and "live rt k"
  shows "\<exists>k' u'. spsc_unb_send triv rt m (k, u) = ret ((k', u'), Ok ()) \<and> u_closed u'"
  using spsc_node.node_send_open [OF endingD(2) [OF E] assms(2) endingD(3) [OF E] assms(3), of m]
    endingD(7,8) [OF E]
  by (fastforce simp: spsc_unb_send_def)

lemma spsc_unb_recv_ending:
  assumes E: "ending (spsc_cur ()) u xs y d (length xs < 2)"
    and L: "live rt 0"
  shows "seg_msgs (hd (xs @ [y])) = [] \<Longrightarrow>
      \<exists>k' u'. spsc_unb_recv triv rt w (k, u) = ret ((k', u'), Err RecvError) \<and>
        ending (spsc_cur ()) u' xs y d (length xs < 2)"
    and "seg_msgs (hd (xs @ [y])) \<noteq> [] \<Longrightarrow>
      \<exists>k' u' xs' y'. spsc_unb_recv triv rt w (k, u) =
          ret ((k', u'), Ok (hd (seg_msgs (hd (xs @ [y]))))) \<and>
        ending (spsc_cur ()) u' xs' y' d (length xs' < 2) \<and> tl (xs' @ [y']) = tl (xs @ [y]) \<and>
        seg_msgs (hd (xs' @ [y'])) = tl (seg_msgs (hd (xs @ [y])))"
proof -
  obtain p h t ls where y: "y = (p, h, t, ls)" by (metis prod.exhaust)
  note D = endingD [OF E [unfolded y]]
  show "\<exists>k' u'. spsc_unb_recv triv rt w (k, u) = ret ((k', u'), Err RecvError) \<and>
      ending (spsc_cur ()) u' xs y d (length xs < 2)" if "seg_msgs (hd (xs @ [y])) = []"
    using spsc_node.ending_recv_none [OF E [unfolded y] that [unfolded y], of rt w k] D(6)
      endingD(8) y
    unfolding spsc_vtable_is_close by (fastforce simp: spsc_unb_recv_def)
  show "\<exists>k' u' xs' y'. spsc_unb_recv triv rt w (k, u) =
          ret ((k', u'), Ok (hd (seg_msgs (hd (xs @ [y]))))) \<and>
        ending (spsc_cur ()) u' xs' y' d (length xs' < 2) \<and> tl (xs' @ [y']) = tl (xs @ [y]) \<and>
        seg_msgs (hd (xs' @ [y'])) = tl (seg_msgs (hd (xs @ [y])))" if "seg_msgs (hd (xs @ [y])) \<noteq> []"
  proof -
    have Lk: "live rt k" using live_later [OF L] by simp
    from spsc_node.ending_recv_some [OF E [unfolded y] that [unfolded y] Lk, of w]
    obtain k' u' xs' y' where
      1: "on_node spsc_frame rt (Some (first_addr xs p)) (\<lambda>irt. recv spsc_vtable spsc_is_close irt w) (k, u) =
          ret ((k', u'), Ok (hd (seg_msgs (hd (xs @ [y])))))"
        "ending (spsc_cur ()) u' xs' y' d (length xs < 2)" "tl (xs' @ [y']) = tl (xs @ [y])"
        "seg_msgs (hd (xs' @ [y'])) = tl (seg_msgs (hd (xs @ [y])))"
      unfolding spsc_vtable_is_close y by blast
    have "length xs' = length xs" using arg_cong [OF 1(3), of length] by simp
    then have "ending (spsc_cur ()) u' xs' y' d (length xs' < 2)" using 1(2) by simp
    moreover have "spsc_unb_recv triv rt w (k, u) = ret ((k', u'), Ok (hd (seg_msgs (hd (xs @ [y])))))"
      using 1(1) D(6) by (simp add: spsc_unb_recv_def)
    ultimately show ?thesis using 1(3,4) by blast
  qed
qed

lemma spsc_unb_close_again:
  assumes E: "ending (spsc_cur ()) u xs (p, h, t, ls) d b" and L: "live rt 0"
  shows "diverges (spsc_unb_close rt (k, u))"
proof -
  obtain nd where nd: "spsc_node_new 1 = Ret nd"
    "node_at (spsc_cur ()) ((heap u)(brk u \<mapsto> nd)) (brk u) None 1 0 0 [] False"
    using spsc_node_new_ok [OF cap_ok_1024(2), of "heap u" "brk u"] by (auto simp del: One_nat_def)
  from spsc_node.close_ending [OF E L nd(2), of k] nd(1) show ?thesis
    by (simp add: spsc_unb_close_def alloc_def)
qed

interpretation spsc_chain: chain_contract "spsc_cur ()" "spsc_unb_send triv" "spsc_unb_recv triv" spsc_unb_close
  "\<lambda>rt. quiet rt \<and> (\<forall>k. \<not> spurious rt k)" for triv
proof (unfold_locales, goal_cases)
  case (1 n u xs p h t ls rt k m)
  then show ?case by (rule spsc_unb_send_open)
next
  case (2 n u xs p h t ls rt m k)
  then show ?case using spsc_unb_send_full [OF 2(1-4), of triv m k] by blast
next
  case (3 n u xs p h t ls rt k)
  then show ?case by (rule spsc_unb_close_chain)
next
  case (4 u xs p h t ls d b rt k)
  then show ?case by (rule spsc_unb_close_again)
next
  case (5 u xs p h t ls d rt m k)
  then show ?case by (rule spsc_unb_send_ending)
next
  case (6 u xs p h t ls d rt k m)
  then show ?case by (rule spsc_unb_send_still_open)
next
  case (7 u xs y d rt w k)
  then show ?case by (rule spsc_unb_recv_ending(1))
next
  case (8 u xs y d rt w k)
  then show ?case by (rule spsc_unb_recv_ending(2))
qed

end
