(* ===== verification/Mpmc_Bounded.thy ===== *)
theory Mpmc_Bounded
  imports Fifo
begin

unbundle bit_operations_syntax

text \<open>
  \<^verbatim>\<open>MpmcBounded\<close> of \<^verbatim>\<open>src/src/queue/bounded.rs\<close>: the ring with atomic cursors, claimed by
  \<^verbatim>\<open>compare_exchange_weak\<close>; the top bit of the write cursor marks a closed queue.
\<close>

definition MPMC_MASK_32 :: u32 where "MPMC_MASK_32 = push_bit 31 1"
definition MPMC_MASK_64 :: u64 where "MPMC_MASK_64 = push_bit 63 1"

record 'a mpmc_bounded = "'a ring" +
  mp_read_meta :: u64
  mp_write_meta :: u64

type_synonym ('a, 'z) mpmc_clocked = "('a, 'z) mpmc_bounded_scheme clocked"

definition mpmc_bounded_new :: "u32 \<Rightarrow> 'a mpmc_bounded outcome" where
  "mpmc_bounded_new cap =
     (if cap \<le> push_bit 30 1 then
        let raw_cap = (if cap > 0 then cap else 1)
        in Ret \<lparr>stack = Map.empty, woken = [],
                buffer = replicate (unat raw_cap) elem_default, capacity = raw_cap,
                read_waker = waker_default, write_waker = waker_default,
                mp_read_meta = push_bit 32 1, mp_write_meta = 0\<rparr>
      else Panic)"

definition mpmc_get_cap :: "('a, 'z) mpmc_bounded_scheme \<Rightarrow> u32" where
  "mpmc_get_cap q = capacity q"

partial_function (option) mpmc_close_loop ::
  "('a, 'z) mpmc_bounded_scheme runtime \<Rightarrow> u64 \<Rightarrow> ('a, 'z) mpmc_clocked \<Rightarrow> ('a, 'z) mpmc_clocked run" where
  "mpmc_close_loop rt meta s =
     (let new_meta = meta OR MPMC_MASK_64
      in case cas_weak rt (fst s) (mp_write_meta (snd s)) meta of
           Inr _ \<Rightarrow> ret (fst s, (snd s)\<lparr>mp_write_meta := new_meta\<rparr>)
         | Inl v \<Rightarrow> mpmc_close_loop rt v (pause rt s))"

definition mpmc_close :: "('a, 'z) mpmc_bounded_scheme runtime \<Rightarrow> ('a, 'z) mpmc_clocked \<Rightarrow> ('a, 'z) mpmc_clocked run" where
  "mpmc_close rt s =
     (let meta = mp_write_meta (snd s)
      in if meta AND MPMC_MASK_64 \<noteq> 0 then ret s
         else rbind (mpmc_close_loop rt meta s) (\<lambda>s.
                rbind (waker_close write_waker write_waker_update rt s)
                  (waker_close read_waker read_waker_update rt)))"

definition mpmc_length :: "('a, 'z) mpmc_bounded_scheme \<Rightarrow> u32" where
  "mpmc_length q =
     (let head = meta_idx (mp_read_meta q); tail = meta_idx (mp_write_meta q)
      in if tail > head then tail - head + 1 else capacity q - head + tail)"

definition mpmc_is_close :: "('a, 'z) mpmc_bounded_scheme \<Rightarrow> bool" where
  "mpmc_is_close q \<longleftrightarrow> mp_write_meta q AND MPMC_MASK_64 \<noteq> 0"

partial_function (option) mpmc_send_loop ::
  "('a, 'z) mpmc_bounded_scheme runtime \<Rightarrow> u64 \<Rightarrow> ('a, 'z) mpmc_clocked \<Rightarrow>
    (('a, 'z) mpmc_clocked \<times> nat \<times> u32 \<times> state) run" where
  "mpmc_send_loop rt meta s =
     (let k = fst s; q = snd s; idx = meta_idx meta; l = meta_lap meta
      in rbind (Some (get_unchecked (buffer q) (unat idx))) (\<lambda>elem.
        if l \<ge> MPMC_MASK_32 then ret ((k, q), unat idx, 0, Closed)
        else let elem_lap = load_lap elem in
          case cmp l elem_lap of
            Equal \<Rightarrow>
              let new_tail = (if idx + 1 < capacity q then meta + 1 else lap_meta (l + 2))
              in (case cas_weak rt k (mp_write_meta q) meta of
                    Inr _ \<Rightarrow> ret ((k, q\<lparr>mp_write_meta := new_tail\<rparr>), unat idx, elem_lap, Success)
                  | Inl v \<Rightarrow> mpmc_send_loop rt v (pause rt (k, q)))
          | Greater \<Rightarrow>
              if l > load_lap elem then ret ((k, q), unat idx, elem_lap, Failed)
              else mpmc_send_loop rt (mp_write_meta (snd (pause rt (k, q)))) (pause rt (k, q))
          | Less \<Rightarrow> mpmc_send_loop rt (mp_write_meta (snd (pause rt (k, q)))) (pause rt (k, q))))"

definition mpmc_select_send ::
  "('a, 'z) mpmc_bounded_scheme runtime \<Rightarrow> ('a, 'z) mpmc_clocked \<Rightarrow> (('a, 'z) mpmc_clocked \<times> nat \<times> u32 \<times> state) run" where
  "mpmc_select_send rt s = mpmc_send_loop rt (mp_write_meta (snd s)) s"

partial_function (option) mpmc_recv_loop ::
  "('a, 'z) mpmc_bounded_scheme runtime \<Rightarrow> u64 \<Rightarrow> ('a, 'z) mpmc_clocked \<Rightarrow>
    (('a, 'z) mpmc_clocked \<times> nat \<times> u32 \<times> bool) run" where
  "mpmc_recv_loop rt meta s =
     (let k = fst s; q = snd s; idx = meta_idx meta; l = meta_lap meta
      in rbind (Some (get_unchecked (buffer q) (unat idx))) (\<lambda>elem.
        let elem_lap = load_lap elem in
          case cmp l elem_lap of
            Equal \<Rightarrow>
              let new_data = (if idx + 1 < capacity q then meta + 1 else lap_meta (l + 2))
              in (case cas_weak rt k (mp_read_meta q) meta of
                    Inr _ \<Rightarrow> ret ((k, q\<lparr>mp_read_meta := new_data\<rparr>), unat idx, elem_lap, True)
                  | Inl v \<Rightarrow> mpmc_recv_loop rt v (pause rt (k, q)))
          | Greater \<Rightarrow>
              if l > load_lap elem then ret ((k, q), unat idx, elem_lap, False)
              else mpmc_recv_loop rt (mp_read_meta (snd (pause rt (k, q)))) (pause rt (k, q))
          | Less \<Rightarrow> mpmc_recv_loop rt (mp_read_meta (snd (pause rt (k, q)))) (pause rt (k, q))))"

definition mpmc_select_recv ::
  "('a, 'z) mpmc_bounded_scheme runtime \<Rightarrow> ('a, 'z) mpmc_clocked \<Rightarrow> (('a, 'z) mpmc_clocked \<times> nat \<times> u32 \<times> bool) run" where
  "mpmc_select_recv rt s = mpmc_recv_loop rt (mp_read_meta (snd s)) s"

definition mpmc_vtable :: "('a, 'z) mpmc_bounded_scheme vtable" where
  "mpmc_vtable =
     \<lparr>v_select_send = mpmc_select_send, v_select_recv = mpmc_select_recv,
      v_close = mpmc_close, v_is_close = mpmc_is_close, v_length = mpmc_length\<rparr>"

lemma mpmc_vtable_simps [simp]:
  "v_select_send mpmc_vtable = mpmc_select_send" "v_select_recv mpmc_vtable = mpmc_select_recv"
  "v_close mpmc_vtable = mpmc_close" "v_is_close mpmc_vtable = mpmc_is_close"
  "v_length mpmc_vtable = mpmc_length"
  by (simp_all add: mpmc_vtable_def)

section \<open>The closed bit\<close>

lemma and_mask_64_iff: "meta AND MPMC_MASK_64 \<noteq> 0 \<longleftrightarrow> bit meta 63"
  using and_exp_eq_0_iff_not_bit [of meta 63] by (simp add: MPMC_MASK_64_def)

lemma bit_top_u32: "bit (x :: u32) 31 \<longleftrightarrow> MPMC_MASK_32 \<le> x"
proof -
  have "bit x 31 \<longleftrightarrow> bit (unat x) 31"
    by (simp add: bit_unsigned_iff)
  also have "\<dots> \<longleftrightarrow> odd (unat x div 2147483648)"
    by (simp add: bit_iff_odd)
  also have "\<dots> \<longleftrightarrow> 2147483648 \<le> unat x"
  proof
    assume "odd (unat x div 2147483648)"
    then have "unat x div 2147483648 \<noteq> 0" by (metis even_zero)
    then show "2147483648 \<le> unat x" by (simp add: div_eq_0_iff)
  next
    assume "2147483648 \<le> unat x"
    then have "1 \<le> unat x div 2147483648" by (simp add: less_eq_div_iff_mult_less_eq)
    moreover have "unat x div 2147483648 < 2"
      using unat_u32_less [of x] by (simp add: div_less_iff_less_mult)
    ultimately have "unat x div 2147483648 = 1" by linarith
    then show "odd (unat x div 2147483648)" by simp
  qed
  finally show ?thesis
    by (simp add: word_le_nat_alt MPMC_MASK_32_def)
qed

lemma bit_meta_lap: "n < 32 \<Longrightarrow> bit (meta_lap meta) n \<longleftrightarrow> bit meta (32 + n)"
  by (simp add: meta_lap_def bit_simps)

lemma bit_mask_64: "bit MPMC_MASK_64 n \<longleftrightarrow> n = 63"
  unfolding MPMC_MASK_64_def bit_push_bit_iff bit_1_iff by auto

lemma closed_bit: "MPMC_MASK_32 \<le> meta_lap meta \<longleftrightarrow> bit meta 63"
  using bit_meta_lap [of 31 meta] by (simp flip: bit_top_u32)

lemma meta_idx_or_mask [simp]: "meta_idx (meta OR MPMC_MASK_64) = meta_idx meta"
  by (rule bit_word_eqI) (auto simp: meta_idx_def bit_mask_64 bit_simps)

lemma bit_or_mask [simp]: "bit (meta OR MPMC_MASK_64) 63"
  by (simp add: bit_mask_64 bit_or_iff)

lemma or_mask_absorb: "bit meta 63 \<Longrightarrow> meta OR MPMC_MASK_64 = meta"
  by (rule bit_word_eqI) (auto simp: bit_mask_64 bit_or_iff)

lemma write_cursor_bit: "bit (write_cursor c t) 63 \<longleftrightarrow> 2147483648 \<le> unat (tkt_lap c t)"
  using closed_bit [of "write_cursor c t"] by (simp add: word_le_nat_alt MPMC_MASK_32_def)

lemma write_cursor_in_budget: "in_budget c t \<Longrightarrow> \<not> bit (write_cursor c t) 63"
  by (simp add: write_cursor_bit unat_tkt_lap_in_budget in_budget_def)

section \<open>Refinement of the FIFO list\<close>

definition mpmc_cur :: "'z \<Rightarrow> nat \<Rightarrow> nat \<Rightarrow> nat \<Rightarrow> bool \<Rightarrow> ('a, 'z) mpmc_bounded_scheme \<Rightarrow> bool" where
  "mpmc_cur W c h t b q \<longleftrightarrow>
     mp_read_meta q = read_cursor c h \<and>
     mp_write_meta q = (if b then write_cursor c t OR MPMC_MASK_64 else write_cursor c t) \<and>
     mpmc_bounded.more q = W"

definition mpmc_rel :: "'z \<Rightarrow> nat \<Rightarrow> nat \<Rightarrow> nat \<Rightarrow> 'a list \<Rightarrow> bool \<Rightarrow> ('a, 'z) mpmc_bounded_scheme \<Rightarrow> bool" where
  "mpmc_rel W c h t ms b q \<longleftrightarrow> ring_rel c h t ms q \<and> mpmc_cur W c h t b q"

lemma mpmc_close_loop_live:
  assumes "live rt k"
  shows "\<exists>k'. mpmc_close_loop rt (mp_write_meta q) (k, q) =
    ret (k', q\<lparr>mp_write_meta := mp_write_meta q OR MPMC_MASK_64\<rparr>)"
  using assms
proof (induction rule: live_induct)
  case (now k)
  then have "mpmc_close_loop rt (mp_write_meta q) (k, q) =
      ret (k, q\<lparr>mp_write_meta := mp_write_meta q OR MPMC_MASK_64\<rparr>)"
    by (subst mpmc_close_loop.simps) (simp add: cas_weak_def)
  then show ?case ..
next
  case (later k)
  then have "mpmc_close_loop rt (mp_write_meta q) (k, q) =
      mpmc_close_loop rt (mp_write_meta q) (Suc k, q)"
    by (subst mpmc_close_loop.simps) (simp add: cas_weak_def)
  with later show ?case by simp
qed

text \<open>
  One round of the two selection loops on a bucket that carries the lap of the cursor: a
  spurious failure of the exchange repeats the round, success moves the cursor on.
\<close>

definition next_meta :: "u32 \<Rightarrow> u64 \<Rightarrow> u64" where
  "next_meta cap meta =
     (if meta_idx meta + 1 < cap then meta + 1 else lap_meta (meta_lap meta + 2))"

lemma mpmc_send_loop_equal:
  assumes "unat (meta_idx (mp_write_meta q)) < length (buffer q)"
    and "\<not> bit (mp_write_meta q) 63"
    and "lap (buffer q ! unat (meta_idx (mp_write_meta q))) = meta_lap (mp_write_meta q)"
  shows "mpmc_select_send rt (k, q) =
    (if spurious rt k then mpmc_send_loop rt (mp_write_meta q) (pause rt (k, q))
     else ret ((k, q\<lparr>mp_write_meta := next_meta (capacity q) (mp_write_meta q)\<rparr>),
               unat (meta_idx (mp_write_meta q)), meta_lap (mp_write_meta q), Success))"
  unfolding mpmc_select_send_def using assms
  by (subst mpmc_send_loop.simps) (simp add: cas_weak_def Let_def closed_bit load_lap_def next_meta_def)

lemma mpmc_recv_loop_equal:
  assumes "unat (meta_idx (mp_read_meta q)) < length (buffer q)"
    and "lap (buffer q ! unat (meta_idx (mp_read_meta q))) = meta_lap (mp_read_meta q)"
  shows "mpmc_select_recv rt (k, q) =
    (if spurious rt k then mpmc_recv_loop rt (mp_read_meta q) (pause rt (k, q))
     else ret ((k, q\<lparr>mp_read_meta := next_meta (capacity q) (mp_read_meta q)\<rparr>),
               unat (meta_idx (mp_read_meta q)), meta_lap (mp_read_meta q), True))"
  unfolding mpmc_select_recv_def using assms
  by (subst mpmc_recv_loop.simps) (simp add: cas_weak_def Let_def load_lap_def next_meta_def)

lemma mpmc_send_claim:
  assumes "live rt k" and "unat (meta_idx (mp_write_meta q)) < length (buffer q)"
    and "\<not> bit (mp_write_meta q) 63"
    and "lap (buffer q ! unat (meta_idx (mp_write_meta q))) = meta_lap (mp_write_meta q)"
  shows "\<exists>k'. mpmc_select_send rt (k, q) =
    ret ((k', q\<lparr>mp_write_meta := next_meta (capacity q) (mp_write_meta q)\<rparr>),
         unat (meta_idx (mp_write_meta q)), meta_lap (mp_write_meta q), Success)"
  using assms(1)
proof (induction rule: live_induct)
  case (now k)
  then show ?case by (simp add: mpmc_send_loop_equal [OF assms(2-4)])
next
  case (later k)
  then have "mpmc_select_send rt (k, q) = mpmc_select_send rt (Suc k, q)"
    by (subst mpmc_send_loop_equal [OF assms(2-4)]) (simp add: mpmc_select_send_def)
  with later show ?case by simp
qed

lemma mpmc_recv_claim:
  assumes "live rt k" and "unat (meta_idx (mp_read_meta q)) < length (buffer q)"
    and "lap (buffer q ! unat (meta_idx (mp_read_meta q))) = meta_lap (mp_read_meta q)"
  shows "\<exists>k'. mpmc_select_recv rt (k, q) =
    ret ((k', q\<lparr>mp_read_meta := next_meta (capacity q) (mp_read_meta q)\<rparr>),
         unat (meta_idx (mp_read_meta q)), meta_lap (mp_read_meta q), True)"
  using assms(1)
proof (induction rule: live_induct)
  case (now k)
  then show ?case by (simp add: mpmc_recv_loop_equal [OF assms(2-3)])
next
  case (later k)
  then have "mpmc_select_recv rt (k, q) = mpmc_select_recv rt (Suc k, q)"
    by (subst mpmc_recv_loop_equal [OF assms(2-3)]) (simp add: mpmc_select_recv_def)
  with later show ?case by simp
qed

lemma next_meta_cursor:
  assumes "cap_ok c"
  shows "next_meta (word_of_nat c) (write_cursor c k) = write_cursor c (Suc k)"
    and "next_meta (word_of_nat c) (read_cursor c k) = read_cursor c (Suc k)"
  using write_cursor_Suc [OF assms, of k] read_cursor_Suc [OF assms, of k]
  by (simp_all add: next_meta_def write_cursor_def read_cursor_def add.assoc split: if_splits)

lemma mpmc_select_send_full:
  assumes "ring_rel c h t ms q" and "mpmc_cur W c h t False q" and "t = h + c" and "in_budget c t"
  shows "mpmc_select_send rt (k, q) = ret ((k, q), t mod c, tkt_lap c t - 1, Failed)"
proof -
  note D = ring_relD [OF assms(1)]
  have "tkt_lap c t - 1 < tkt_lap c t"
    using tkt_lap_in_budget_nonzero [OF assms(4)] assms(3) D(5)
    by (intro word_sub_one_less) (simp add: cap_ok_def)
  moreover have "\<not> MPMC_MASK_32 \<le> tkt_lap c t"
    using write_cursor_in_budget [OF assms(4)] closed_bit [of "write_cursor c t"] by simp
  ultimately show ?thesis
    using assms(2) slots_full [OF D(1) assms(3)] D(5) slots_in [OF D(1), of t]
    unfolding mpmc_select_send_def
    by (subst mpmc_send_loop.simps) (simp add: mpmc_cur_def Let_def load_lap_def)
qed

lemma mpmc_select_send_closed:
  assumes "ring_rel c h t ms q" and "mpmc_cur W c h t True q"
  shows "mpmc_select_send rt (k, q) = ret ((k, q), t mod c, 0, Closed)"
proof -
  note D = ring_relD [OF assms(1)]
  have "MPMC_MASK_32 \<le> meta_lap (mp_write_meta q)"
    using assms(2) by (simp add: closed_bit mpmc_cur_def)
  then show ?thesis
    using assms(2) D(5) slots_in [OF D(1), of t] unfolding mpmc_select_send_def
    by (subst mpmc_send_loop.simps) (simp add: mpmc_cur_def Let_def)
qed

lemma mpmc_select_recv_none:
  assumes "ring_rel c h t ms q" and "mpmc_cur W c h t b q" and "h = t"
  shows "mpmc_select_recv rt (k, q) = ret ((k, q), h mod c, tkt_lap c h, False)"
proof -
  note D = ring_relD [OF assms(1)]
  have "lap (buffer q ! (h mod c)) = tkt_lap c h"
    using slots_free [OF D(1), of h] assms(3) D(5) by (simp add: cap_ok_def)
  then show ?thesis
    using assms(2) D(5) slots_in [OF D(1), of h] unfolding mpmc_select_recv_def
    by (subst mpmc_recv_loop.simps) (simp add: mpmc_cur_def Let_def load_lap_def)
qed

lemma mpmc_close_idle:
  assumes "live rt k" and "idle (read_waker q)" and "idle (write_waker q)"
    and "\<not> bit (mp_write_meta q) 63"
  shows "\<exists>k'. mpmc_close rt (k, q) = ret (k', q\<lparr>mp_write_meta := mp_write_meta q OR MPMC_MASK_64,
     write_waker := (write_waker q)\<lparr>empty_flag := True\<rparr>,
     read_waker := (read_waker q)\<lparr>empty_flag := True\<rparr>\<rparr>)"
proof -
  obtain k' where "mpmc_close_loop rt (mp_write_meta q) (k, q) =
      ret (k', q\<lparr>mp_write_meta := mp_write_meta q OR MPMC_MASK_64\<rparr>)"
    using mpmc_close_loop_live [OF assms(1)] by blast
  then show ?thesis
    using assms(2-4) by (simp add: mpmc_close_def and_mask_64_iff [simplified] waker_close_idle)
qed

lemma mpmc_close_twice:
  "bit (mp_write_meta q) 63 \<Longrightarrow> mpmc_close rt (k, q) = ret (k, q)"
  using and_mask_64_iff [of "mp_write_meta q"] by (simp add: mpmc_close_def)

interpretation mpmc: bounded_contract mpmc_vtable "mpmc_cur W" for W :: 'z
proof unfold_locales
  fix c h t k and ms :: "'a list" and q :: "('a, 'z) mpmc_bounded_scheme" and b and rt :: "('a, 'z) mpmc_bounded_scheme runtime"
  assume *: "ring_rel c h t ms q" "mpmc_cur W c h t b q" "idle (read_waker q)" "idle (write_waker q)"
    "live rt k"
  have flag: "waker_ok stk (wk\<lparr>empty_flag := True\<rparr>) = waker_ok stk wk"
    if "idle wk" "waker_ok stk wk" for stk wk using that by (simp add: waker_ok_def)
  show "\<exists>k' q'. v_close mpmc_vtable rt (k, q) = ret (k', q') \<and> ring_rel c h t ms q' \<and>
      mpmc_cur W c h t True q' \<and> stack q' = stack q \<and> reg_lists q' = reg_lists q"
  proof (cases "bit (mp_write_meta q) 63")
    case True
    with *(2) have "mpmc_cur W c h t True q"
      using or_mask_absorb [of "write_cursor c t"] by (auto simp: mpmc_cur_def split: if_splits)
    with True * show ?thesis by (simp add: mpmc_close_twice)
  next
    case False
    with *(2) have "\<not> b" by (auto simp: mpmc_cur_def)
    with mpmc_close_idle [OF *(5,3,4) False] * flag show ?thesis
      by (auto simp: mpmc_cur_def ring_rel_def reg_lists_def)
  qed
next
  fix c h t k and ms :: "'a list" and q :: "('a, 'z) mpmc_bounded_scheme" and rt :: "('a, 'z) mpmc_bounded_scheme runtime"
  assume *: "ring_rel c h t ms q" "mpmc_cur W c h t False q" "t < h + c" "in_budget c t" "live rt k"
  note D = ring_relD [OF *(1)]
  have m: "mp_write_meta q = write_cursor c t" using *(2) by (simp add: mpmc_cur_def)
  have "lap (buffer q ! (t mod c)) = tkt_lap c t" using slots_free [OF D(1), of t] *(3) by simp
  then obtain k' where "mpmc_select_send rt (k, q) =
      ret ((k', q\<lparr>mp_write_meta := write_cursor c (Suc t)\<rparr>), t mod c, tkt_lap c t, Success)"
    using mpmc_send_claim [OF *(5), of q] m D(2,5) slots_in [OF D(1), of t]
      write_cursor_in_budget [OF *(4)] by (auto simp: next_meta_cursor)
  with *(2) show "\<exists>k' q'. v_select_send mpmc_vtable rt (k, q) =
      ret ((k', q'), t mod c, tkt_lap c t, Success) \<and> same_ring q q' \<and> mpmc_cur W c h (Suc t) False q'"
    by (auto simp: same_ring_iff mpmc_cur_def)
next
  fix c h t k and ms :: "'a list" and q :: "('a, 'z) mpmc_bounded_scheme" and b and rt :: "('a, 'z) mpmc_bounded_scheme runtime"
  assume *: "ring_rel c h t ms q" "mpmc_cur W c h t b q" "h < t" "live rt k"
  note D = ring_relD [OF *(1)]
  have m: "mp_read_meta q = read_cursor c h" using *(2) by (simp add: mpmc_cur_def)
  have "lap (buffer q ! (h mod c)) = tkt_lap c h + 1"
    using slots_pending(1) [OF D(1), of h] *(3) by simp
  then obtain k' where "mpmc_select_recv rt (k, q) =
      ret ((k', q\<lparr>mp_read_meta := read_cursor c (Suc h)\<rparr>), h mod c, tkt_lap c h + 1, True)"
    using mpmc_recv_claim [OF *(4), of q] m D(2,5) slots_in [OF D(1), of h]
    by (auto simp: next_meta_cursor)
  with *(2) show "\<exists>k' q'. v_select_recv mpmc_vtable rt (k, q) =
      ret ((k', q'), h mod c, tkt_lap c h + 1, True) \<and> same_ring q q' \<and> mpmc_cur W c (Suc h) t b q'"
    by (auto simp: same_ring_iff mpmc_cur_def)
next
  fix c h t and b and q :: "('a, 'z) mpmc_bounded_scheme"
  assume "cap_ok c" "mpmc_cur W c h t b q" "in_budget c t"
  then show "v_is_close mpmc_vtable q = b"
    using write_cursor_in_budget [of c t]
    by (simp add: mpmc_is_close_def and_mask_64_iff mpmc_cur_def split: if_splits)
qed (simp_all add: mpmc_cur_def mpmc_select_send_full mpmc_select_send_closed mpmc_select_recv_none)

end
