(* ===== verification/Mpmc_Unbounded.thy ===== *)
theory Mpmc_Unbounded
  imports Closing Mpmc_Bounded
begin

text \<open>
  \<^verbatim>\<open>MpmcUnbounded\<close> of \<^verbatim>\<open>src/src/queue/unbounded.rs\<close>: the sender that finds the last node
  full claims it with a temporary node of capacity one, closes it and links a full-sized node
  in; a receiver that finds the first node drained moves the head on and frees the node.
\<close>

type_synonym 'a mpmc_unbounded = "('a, unit mpmc_bounded_ext) unbounded"
type_synonym 'a mpmc_node = "('a, unit mpmc_bounded_ext) node"

definition mpmc_frame ::
  "('a, unit mpmc_bounded_ext, ('a, unit mpmc_bounded_ext) around mpmc_bounded_ext) frame" where
  "mpmc_frame =
     \<lparr>ext = mpmc_bounded.extend, cut = mpmc_bounded.truncate, rest = mpmc_bounded.more\<rparr>"

definition mpmc_node_new :: "u32 \<Rightarrow> 'a mpmc_node outcome" where
  "mpmc_node_new cap = obind (mpmc_bounded_new cap) (\<lambda>q. Ret \<lparr>queue = q, next = None\<rparr>)"

definition mpmc_unbounded_default :: "'a mpmc_unbounded outcome" where
  "mpmc_unbounded_default =
     obind (mpmc_node_new SUB_QUEUE_SIZE) (\<lambda>n.
       let u = \<lparr>heap = Map.empty, brk = 0, u_head = None, u_tail = None, u_closed = False,
                destroyed = []\<rparr>;
           (p, u) = alloc n u
       in Ret (u\<lparr>u_head := Some p, u_tail := Some p\<rparr>))"

text \<open>A \<^verbatim>\<open>backoff.spin()\<close> is a pause.\<close>

partial_function (option) mpmc_unb_send ::
  "bool \<Rightarrow> 'a mpmc_unbounded runtime \<Rightarrow> 'a \<Rightarrow> 'a mpmc_unbounded clocked \<Rightarrow>
    ('a mpmc_unbounded clocked \<times> (unit, 'a send_error) result) run" where
  "mpmc_unb_send triv rt data s =
     (let tail = u_tail (snd s)
      in rbind (on_node mpmc_frame rt tail (\<lambda>irt. try_send mpmc_vtable irt data) s) (\<lambda>((k, u), r).
        case r of
          Inr _ \<Rightarrow> ret ((k, u), Ok ())
        | Inl (Disconnected m) \<Rightarrow>
            if u_closed u then ret ((k, u), Err (SendError m))
            else mpmc_unb_send triv rt m (pause rt (k, u))
        | Inl (Full m) \<Rightarrow>
            rbind (Some (mpmc_node_new 1)) (\<lambda>n.
              let (temp, u) = alloc n u
              in rbind (Some (deref tail u)) (\<lambda>tl.
                case cas_weak rt k (next tl) None of
                  Inr _ \<Rightarrow>
                    rbind (node_close mpmc_frame mpmc_vtable rt tail (k, set_next (the tail) (Some temp) u))
                      (\<lambda>(k, u).
                        rbind (Some (mpmc_node_new SUB_QUEUE_SIZE)) (\<lambda>n.
                          let (nxt, u) = alloc n u
                          in rbind (Some (free triv (Some temp) u)) (\<lambda>u.
                            rbind (on_node mpmc_frame rt (Some nxt)
                                     (\<lambda>irt. try_send mpmc_vtable irt m) (k, u)) (\<lambda>((k, u), _).
                              rbind (Some (deref tail u)) (\<lambda>_.
                                ret ((k, (set_next (the tail) (Some nxt) u)\<lparr>u_tail := Some nxt\<rparr>),
                                     Ok ()))))))
                | Inl _ \<Rightarrow>
                    rbind (Some (free triv (Some temp) u)) (\<lambda>u.
                      mpmc_unb_send triv rt m (pause rt (k, u)))))))"

text \<open>The loop that waits until the successor of the drained node is a full-sized node.\<close>

partial_function (option) mpmc_wait_next ::
  "'a mpmc_unbounded runtime \<Rightarrow> nat option \<Rightarrow> 'a mpmc_unbounded clocked \<Rightarrow>
    ('a mpmc_unbounded clocked \<times> nat option) run" where
  "mpmc_wait_next rt head s =
     rbind (Some (deref head (snd s))) (\<lambda>n.
       rbind (if next n = None then ret True
              else rbind (Some (deref (next n) (snd s))) (\<lambda>nn.
                     ret (mpmc_get_cap (queue nn) \<noteq> SUB_QUEUE_SIZE))) (\<lambda>again.
         if again then mpmc_wait_next rt head (pause rt s) else ret (s, next n)))"

text \<open>
  Each round loads the head again; a failed exchange lets the clock advance, as other threads may
  run before the next round.
\<close>

partial_function (option) mpmc_unb_recv ::
  "bool \<Rightarrow> 'a mpmc_unbounded runtime \<Rightarrow> nat \<Rightarrow> 'a mpmc_unbounded clocked \<Rightarrow>
    ('a mpmc_unbounded clocked \<times> ('a, recv_error) result) run" where
  "mpmc_unb_recv triv rt w s =
     (let head = u_head (snd s)
      in rbind (on_node mpmc_frame rt head (\<lambda>irt. recv mpmc_vtable mpmc_is_close irt w) s) (\<lambda>(s, r).
        case r of
          Inr m \<Rightarrow> ret (s, Ok m)
        | Inl _ \<Rightarrow>
            if u_closed (snd s) then ret (s, Err RecvError)
            else rbind (mpmc_wait_next rt head s) (\<lambda>((k, u), nxt).
              case cas_weak rt k (u_head u) head of
                Inr _ \<Rightarrow>
                  rbind (Some (free triv head (u\<lparr>u_head := nxt\<rparr>))) (\<lambda>u.
                    mpmc_unb_recv triv rt w (k, u))
              | Inl _ \<Rightarrow> mpmc_unb_recv triv rt w (pause rt (k, u)))))"

definition mpmc_unb_close :: "'a mpmc_unbounded runtime \<Rightarrow> 'a mpmc_unbounded clocked \<Rightarrow>
    'a mpmc_unbounded clocked run" where
  "mpmc_unb_close rt s =
     rbind (Some (mpmc_node_new 1)) (\<lambda>n.
       let (nxt, u) = alloc n (snd s)
       in rbind (node_close mpmc_frame mpmc_vtable rt (Some nxt) (fst s, u)) (\<lambda>s.
            rbind (set_close rt (Some nxt) s) (\<lambda>s.
              close_current_node mpmc_frame mpmc_vtable rt (u_head (snd s)) s)))"

section \<open>The nodes meet the contract\<close>

interpretation mpmc_node: node_contract mpmc_frame mpmc_vtable "mpmc_cur ()" mpmc_cur
proof unfold_locales
qed (auto simp: mpmc_frame_def mpmc_cur_def ring.truncate_def mpmc_bounded.defs)

section \<open>Refinement of the list\<close>

lemma mpmc_bounded_new_ok:
  assumes "cap_ok c"
  shows "\<exists>q. mpmc_bounded_new (word_of_nat c) = Ret q \<and> ring_rel c 0 0 [] q \<and>
    mpmc_cur () c 0 0 False q \<and> calm q \<and> open_wakers q"
proof -
  have u: "unat (word_of_nat c :: u32) = c"
    using assms by (simp add: cap_ok_def unsigned_of_nat take_bit_nat_eq_self)
  then have "word_of_nat c \<le> (push_bit 30 1 :: u32)" "(word_of_nat c :: u32) > 0"
    using assms by (simp_all add: cap_ok_def word_le_nat_alt word_less_nat_alt)
  then show ?thesis
    using slots_init [OF assms] assms u
    by (simp add: mpmc_bounded_new_def ring_rel_def mpmc_cur_def calm_def reg_lists_def
        open_wakers_def Let_def read_cursor_def write_cursor_def cap_ok_def pack_def lap_meta_def tkt_lap_0)
qed

lemma mpmc_node_new_ok:
  fixes hp :: "nat \<rightharpoonup> 'a mpmc_node"
  assumes "cap_ok c"
  shows "\<exists>n. mpmc_node_new (word_of_nat c) = Ret n \<and> node_at (mpmc_cur ()) (hp(a \<mapsto> n)) a None c 0 0 [] False"
proof -
  obtain q :: "'a mpmc_bounded" where "mpmc_bounded_new (word_of_nat c) = Ret q" "ring_rel c 0 0 [] q"
      "mpmc_cur () c 0 0 False q" "calm q"
    using mpmc_bounded_new_ok [OF assms] by blast
  then show ?thesis
    by (intro exI [of _ "\<lparr>queue = q, next = None\<rparr>"]) (simp add: mpmc_node_new_def node_at_def)
qed

lemma mpmc_unb_send_open:
  assumes C: "chain (mpmc_cur ()) n u xs (p, h, t, ls)" and "t < h + 1024" and "in_budget 1024 n"
    and "live rt k"
  shows "\<exists>k' u'. mpmc_unb_send triv rt m (k, u) = ret ((k', u'), Ok ()) \<and>
    chain (mpmc_cur ()) (Suc n) u' xs (p, h, Suc t, ls @ [m])"
proof -
  note D = chainD [OF C]
  from mpmc_node.node_send_open [OF D(2) assms(2) in_budget_mono [OF assms(3) D(3)] assms(4), of m]
  obtain k' n' where
    "on_node mpmc_frame rt (Some p) (\<lambda>irt. try_send mpmc_vtable irt m) (k, u) =
      ret ((k', u\<lparr>heap := (heap u)(p \<mapsto> n')\<rparr>), Ok ())"
    "node_at (mpmc_cur ()) ((heap u)(p \<mapsto> n')) p None 1024 h (Suc t) (ls @ [m]) False" by blast
  then show ?thesis
    using chain_push [OF C, of n' m] D(7) by (subst mpmc_unb_send.simps) simp
qed

text \<open>The temporary node, once it is freed, has left no trace but its address.\<close>

lemma free_triv: "heap u a = Some n \<Longrightarrow> free True (Some a) u = Ret (u\<lparr>heap := (heap u)(a := None)\<rparr>)"
  by (simp add: free_def deref_def)

text \<open>One round of the sender that finds the last node full.\<close>

lemma mpmc_unb_send_round:
  assumes C: "chain (mpmc_cur ()) n u xs (p, h, t, ls)" and full: "t = h + 1024"
    and B: "in_budget 1024 n" and L: "live rt 0"
  shows "if spurious rt k
    then \<exists>u'. mpmc_unb_send True rt m (k, u) = mpmc_unb_send True rt m (pause rt (k, u')) \<and>
      chain (mpmc_cur ()) n u' xs (p, h, t, ls)
    else \<exists>k' u'. mpmc_unb_send True rt m (k, u) = ret ((k', u'), Ok ()) \<and>
      chain (mpmc_cur ()) (Suc n) u' (xs @ [(p, h, t, ls)]) (Suc (brk u), 0, 1, [m])"
proof -
  note D = chainD [OF C]
  have Lk: "live rt k" for k using live_later [OF L] by simp
  let ?a = "brk u" and ?b = "Suc (brk u)"
  have pa: "p \<noteq> ?a" "p \<noteq> ?b" using chain_used [OF C] by simp_all
  have ua: "heap u ?a = None" using D(5) by auto
  have ls: "ls \<noteq> []" using node_at_length [OF D(2)] full by auto
  from mpmc_node.node_send_full [OF D(2) full in_budget_mono [OF B D(3)], of rt m k]
  obtain n1 where
    1: "on_node mpmc_frame rt (Some p) (\<lambda>irt. try_send mpmc_vtable irt m) (k, u) =
        ret ((k, u\<lparr>heap := (heap u)(p \<mapsto> n1)\<rparr>), Err (Full m))"
      "node_at (mpmc_cur ()) ((heap u)(p \<mapsto> n1)) p None 1024 h t ls False" by blast
  have n1: "next n1 = None" using 1(2) by (auto simp: node_at_def)
  obtain nt :: "'a mpmc_node" where nt: "mpmc_node_new 1 = Ret nt"
    using mpmc_node_new_ok [OF cap_ok_1024(2), of Map.empty 0] by auto
  show ?thesis
  proof (cases "spurious rt k")
    case True
    let ?u = "u\<lparr>brk := Suc ?a, heap := (heap u)(p \<mapsto> n1)\<rparr>"
    have "(heap u)(p \<mapsto> n1, ?a := None) = (heap u)(p \<mapsto> n1)" using ua pa by (auto simp: fun_upd_idem)
    then have "mpmc_unb_send True rt m (k, u) = mpmc_unb_send True rt m (pause rt (k, ?u))"
      using 1(1) nt n1 D(7) pa True
      by (subst mpmc_unb_send.simps) (simp add: alloc_def deref_def cas_weak_def free_triv)
    moreover have "chain (mpmc_cur ()) n ?u xs (p, h, t, ls)"
      using D 1(2) chain_used [OF C] by (auto simp: chain_def)
    ultimately show ?thesis using True by auto
  next
    case False
    let ?n1 = "n1\<lparr>next := Some ?a\<rparr>"
    let ?u1 = "u\<lparr>brk := ?b, heap := (heap u)(p \<mapsto> ?n1, ?a \<mapsto> nt)\<rparr>"
    have "node_at (mpmc_cur ()) (heap ?u1) p (Some ?a) 1024 h t ls False"
      using 1(2) pa by (auto simp: node_at_def)
    from mpmc_node.node_close_ret [OF this Lk, of k] obtain k2 n2 where
      2: "node_close mpmc_frame mpmc_vtable rt (Some p) (k, ?u1) =
          ret (k2, ?u1\<lparr>heap := (heap ?u1)(p \<mapsto> n2)\<rparr>)"
        "node_at (mpmc_cur ()) ((heap ?u1)(p \<mapsto> n2)) p (Some ?a) 1024 h t ls True" by blast
    obtain nd where
      nd: "mpmc_node_new SUB_QUEUE_SIZE = Ret nd"
        "node_at (mpmc_cur ()) ((heap u)(p \<mapsto> n2, ?b \<mapsto> nd)) ?b None 1024 0 0 [] False"
      using mpmc_node_new_ok [of 1024 "(heap u)(p \<mapsto> n2)" ?b] by (auto simp: SUB_QUEUE_SIZE_def)
    let ?u3 = "u\<lparr>brk := Suc ?b, heap := (heap u)(p \<mapsto> n2, ?b \<mapsto> nd)\<rparr>"
    from mpmc_node.node_send_open [of ?u3 ?b None 1024 0 0 "[]" rt k2 m] nd(2) Lk
    obtain k4 n4 where
      4: "on_node mpmc_frame rt (Some ?b) (\<lambda>irt. try_send mpmc_vtable irt m) (k2, ?u3) =
          ret ((k4, ?u3\<lparr>heap := (heap u)(p \<mapsto> n2, ?b \<mapsto> n4)\<rparr>), Ok ())"
        "node_at (mpmc_cur ()) ((heap u)(p \<mapsto> n2, ?b \<mapsto> n4)) ?b None 1024 0 1 [m] False"
      by (auto simp: in_budget_def)
    let ?n5 = "n2\<lparr>next := Some ?b\<rparr>"
    let ?u5 = "?u3\<lparr>heap := (heap u)(p \<mapsto> ?n5, ?b \<mapsto> n4), u_tail := Some ?b\<rparr>"
    have "node_at (mpmc_cur ()) (heap ?u5) p (Some ?b) 1024 h t ls True"
      "node_at (mpmc_cur ()) (heap ?u5) ?b None 1024 0 1 [m] False"
      using 2(2) 4(2) pa by (auto simp: node_at_def)
    then have "chain (mpmc_cur ()) (Suc n) ?u5 (xs @ [(p, h, t, ls)]) (?b, 0, 1, [m])"
      using full by (intro chain_append [OF C ls _ B]) simp_all
    moreover have "mpmc_unb_send True rt m (k, u) = ret ((k4, ?u5), Ok ())"
    proof -
      have h1: "(heap u)(p \<mapsto> n1, ?a \<mapsto> nt, p \<mapsto> ?n1) = (heap u)(p \<mapsto> ?n1, ?a \<mapsto> nt)"
        "(heap u)(p \<mapsto> ?n1, ?a \<mapsto> nt, p \<mapsto> n2, ?b \<mapsto> nd, ?a := None) = (heap u)(p \<mapsto> n2, ?b \<mapsto> nd)"
        "(heap u)(p \<mapsto> n2, ?b \<mapsto> n4, p \<mapsto> ?n5) = (heap u)(p \<mapsto> ?n5, ?b \<mapsto> n4)"
        using pa ua by (auto simp: fun_eq_iff)
      show ?thesis
        using 1(1) nt n1 D(7) pa False 2(1) nd(1) 4(1) h1
        by (subst mpmc_unb_send.simps)
          (simp add: alloc_def deref_def cas_weak_def free_triv set_next_def)
    qed
    ultimately show ?thesis using False by auto
  qed
qed

lemma mpmc_unb_send_full:
  assumes "chain (mpmc_cur ()) n u xs (p, h, t, ls)" and full: "t = h + 1024"
    and B: "in_budget 1024 n" and L: "live rt 0"
  shows "\<exists>k' u' a. mpmc_unb_send True rt m (k, u) = ret ((k', u'), Ok ()) \<and>
    chain (mpmc_cur ()) (Suc n) u' (xs @ [(p, h, t, ls)]) (a, 0, 1, [m])"
proof -
  have "live rt k" using live_later [OF L] by simp
  then show ?thesis
    using assms(1)
  proof (induction arbitrary: u rule: live_induct)
    case (now k)
    with mpmc_unb_send_round [OF now(3) full B L, of k m] show ?case by auto
  next
    case (later k)
    from mpmc_unb_send_round [OF later(4) full B L, of k m] later(2) obtain u' where
      "mpmc_unb_send True rt m (k, u) = mpmc_unb_send True rt m (pause rt (k, u'))"
      "chain (mpmc_cur ()) n u' xs (p, h, t, ls)" by auto
    with later(3) [of u'] later(1) show ?case by simp
  qed
qed

text \<open>
  With a message type that has a destructor the temporary node is dropped with its cell never
  written.
\<close>

lemma mpmc_unb_send_full_drop:
  assumes C: "chain (mpmc_cur ()) n u xs (p, h, t, ls)" and full: "t = h + 1024"
    and B: "in_budget 1024 n" and L: "live rt 0"
  shows "mpmc_unb_send False rt m (k, u) = Some Undef"
proof -
  note D = chainD [OF C]
  have Lk: "live rt k" for k using live_later [OF L] by simp
  let ?a = "brk u"
  have pa: "p \<noteq> ?a" using chain_used [OF C] by simp
  from mpmc_node.node_send_full [OF D(2) full in_budget_mono [OF B D(3)], of rt m k]
  obtain n1 where
    1: "on_node mpmc_frame rt (Some p) (\<lambda>irt. try_send mpmc_vtable irt m) (k, u) =
        ret ((k, u\<lparr>heap := (heap u)(p \<mapsto> n1)\<rparr>), Err (Full m))"
      "node_at (mpmc_cur ()) ((heap u)(p \<mapsto> n1)) p None 1024 h t ls False" by blast
  have n1: "next n1 = None" using 1(2) by (auto simp: node_at_def)
  obtain nt :: "'a mpmc_node" where nt: "mpmc_node_new 1 = Ret nt" "elems_drop (buffer (queue nt)) = Undef"
    by (simp add: mpmc_node_new_def mpmc_bounded_new_def elem_drop_def word_le_nat_alt)
  let ?n1 = "n1\<lparr>next := Some ?a\<rparr>"
  let ?u1 = "u\<lparr>brk := Suc ?a, heap := (heap u)(p \<mapsto> ?n1, ?a \<mapsto> nt)\<rparr>"
  have "node_at (mpmc_cur ()) (heap ?u1) p (Some ?a) 1024 h t ls False"
    using 1(2) pa by (auto simp: node_at_def)
  from mpmc_node.node_close_ret [OF this Lk, of k] obtain k2 n2 where
    2: "node_close mpmc_frame mpmc_vtable rt (Some p) (k, ?u1) =
        ret (k2, ?u1\<lparr>heap := (heap ?u1)(p \<mapsto> n2)\<rparr>)" by blast
  obtain nd :: "'a mpmc_node" where nd: "mpmc_node_new SUB_QUEUE_SIZE = Ret nd"
    using mpmc_node_new_ok [of 1024 Map.empty 0] by (auto simp: SUB_QUEUE_SIZE_def)
  have "(heap u)(p \<mapsto> n1, ?a \<mapsto> nt, p \<mapsto> ?n1) = (heap u)(p \<mapsto> ?n1, ?a \<mapsto> nt)"
    using pa by (auto simp: fun_eq_iff)
  then show ?thesis
    using 1(1) nt n1 D(7) pa 2 nd
    by (subst mpmc_unb_send.simps) (simp add: alloc_def deref_def cas_weak_def free_def set_next_def)
qed

text \<open>Receiving.\<close>

lemma mpmc_vtable_is_close: "v_is_close mpmc_vtable = mpmc_is_close"
  by simp

lemma mpmc_unb_recv_now:
  assumes C: "chain (mpmc_cur ()) n u xs (p, h, t, ls)" and ne: "seg_msgs (hd (xs @ [(p, h, t, ls)])) \<noteq> []"
    and L: "live rt k"
  shows "\<exists>k' u' xs' y'. mpmc_unb_recv triv rt w (k, u) =
      ret ((k', u'), Ok (hd (contents xs (p, h, t, ls)))) \<and>
    chain (mpmc_cur ()) n u' xs' y' \<and> destroyed u' = destroyed u \<and>
    contents xs' y' = tl (contents xs (p, h, t, ls)) \<and> tl (xs' @ [y']) = tl (xs @ [(p, h, t, ls)]) \<and>
    seg_msgs (hd (xs' @ [y'])) = tl (seg_msgs (hd (xs @ [(p, h, t, ls)])))"
  using mpmc_node.chain_recv [OF assms, of w] chainD(6) [OF C]
  unfolding mpmc_vtable_is_close by (subst mpmc_unb_recv.simps) fastforce

lemma mpmc_wait_next_now:
  assumes "heap u a = Some n" and "next n = Some p" and "heap u p = Some n'"
    and "capacity (queue n') = 1024"
  shows "mpmc_wait_next rt (Some a) (k, u) = ret ((k, u), Some p)"
  using assms by (subst mpmc_wait_next.simps) (simp add: deref_def mpmc_get_cap_def SUB_QUEUE_SIZE_def)

lemma chain_first_cap:
  assumes "chain qc n u xs (p, h, t, ls)"
  shows "\<exists>nd. heap u (first_addr xs p) = Some nd \<and> capacity (queue nd) = 1024"
proof (cases xs)
  case Nil
  then show ?thesis
    using chainD(2) [OF assms] by (auto simp: node_at_def dest!: ring_relD(2))
next
  case (Cons x xs')
  then show ?thesis
    using chainD(1) [OF assms] by (cases x) (auto simp: node_at_def dest!: ring_relD(2))
qed

lemma mpmc_unb_recv_next:
  assumes "chain (mpmc_cur ()) n u ((a, h', t', []) # xs) (p, h, t, ls)" and L: "live rt 0"
  shows "\<exists>k' u' xs' y'. mpmc_unb_recv triv rt w (k, u) =
      ret ((k', u'), Ok (hd (contents xs (p, h, t, ls)))) \<and>
    chain (mpmc_cur ()) n u' xs' y' \<and> contents xs' y' = tl (contents xs (p, h, t, ls)) \<and>
    (\<not> triv \<longrightarrow> length (destroyed u') = length (destroyed u) + 1024)"
proof -
  have Lk: "live rt k" for k using live_later [OF L] by simp
  from Lk [of k] show ?thesis
    using assms(1)
  proof (induction arbitrary: u rule: live_induct)
    case (now k)
    note C = now(3) and D = chainD [OF now(3)]
    from mpmc_node.chain_skip [OF C, of rt w k] obtain n1 ds where
      1: "on_node mpmc_frame rt (Some a) (\<lambda>irt. recv mpmc_vtable mpmc_is_close irt w) (k, u) =
          ret ((k, u\<lparr>heap := (heap u)(a \<mapsto> n1)\<rparr>), Err RecvError)"
        "next n1 = Some (first_addr xs p)" "elems_drop (buffer (queue n1)) = Ret ds" "length ds = 1024"
      and C': "\<And>ds. chain (mpmc_cur ()) n (u\<lparr>u_head := Some (first_addr xs p),
          heap := (heap u)(a := None), destroyed := ds\<rparr>) xs (p, h, t, ls)"
      unfolding mpmc_vtable_is_close by blast
    let ?u = "u\<lparr>u_head := Some (first_addr xs p), heap := (heap u)(a := None),
      destroyed := destroyed u @ (if triv then [] else ds)\<rparr>"
    have ne: "seg_msgs (hd (xs @ [(p, h, t, ls)])) \<noteq> []"
      using D(9) [of "hd (xs @ [(p, h, t, ls)])"] by (cases xs) auto
    obtain nf where nf: "heap u (first_addr xs p) = Some nf" "capacity (queue nf) = 1024"
        "first_addr xs p \<noteq> a"
      using chain_first_cap [OF C', of "[]"] by (auto split: if_splits)
    from mpmc_unb_recv_now [OF C' ne now(1), of triv w "destroyed u @ (if triv then [] else ds)"]
    obtain k2 u2 xs' y' where
      2: "mpmc_unb_recv triv rt w (k, ?u) = ret ((k2, u2), Ok (hd (contents xs (p, h, t, ls))))"
        "chain (mpmc_cur ()) n u2 xs' y'" "destroyed u2 = destroyed ?u"
        "contents xs' y' = tl (contents xs (p, h, t, ls))" by blast
    have W: "mpmc_wait_next rt (Some a) (k, u\<lparr>heap := (heap u)(a \<mapsto> n1)\<rparr>) =
        ret ((k, u\<lparr>heap := (heap u)(a \<mapsto> n1)\<rparr>), Some (first_addr xs p))"
      using 1(2) nf by (intro mpmc_wait_next_now) simp_all
    have "mpmc_unb_recv triv rt w (k, u) = mpmc_unb_recv triv rt w (k, ?u)"
      using 1 D(6,8) W now(2)
      by (subst mpmc_unb_recv.simps, cases triv) (simp_all add: cas_weak_def free_ret)
    with 2 1(4) show ?case by fastforce
  next
    case (later k)
    note C = later(4) and D = chainD [OF later(4)]
    from mpmc_node.chain_skip [OF C, of rt w k] obtain n1 where
      1: "on_node mpmc_frame rt (Some a) (\<lambda>irt. recv mpmc_vtable mpmc_is_close irt w) (k, u) =
          ret ((k, u\<lparr>heap := (heap u)(a \<mapsto> n1)\<rparr>), Err RecvError)"
        "next n1 = Some (first_addr xs p)"
      and C1: "chain (mpmc_cur ()) n (u\<lparr>heap := (heap u)(a \<mapsto> n1)\<rparr>) ((a, h', t', []) # xs) (p, h, t, ls)"
      and C': "\<And>ds. chain (mpmc_cur ()) n (u\<lparr>u_head := Some (first_addr xs p),
          heap := (heap u)(a := None), destroyed := ds\<rparr>) xs (p, h, t, ls)"
      unfolding mpmc_vtable_is_close by blast
    obtain nf where nf: "heap u (first_addr xs p) = Some nf" "capacity (queue nf) = 1024"
        "first_addr xs p \<noteq> a"
      using chain_first_cap [OF C', of "[]"] by (auto split: if_splits)
    let ?u = "u\<lparr>heap := (heap u)(a \<mapsto> n1)\<rparr>"
    have W: "mpmc_wait_next rt (Some a) (k, ?u) = ret ((k, ?u), Some (first_addr xs p))"
      using 1(2) nf by (intro mpmc_wait_next_now) simp_all
    have "mpmc_unb_recv triv rt w (k, u) = mpmc_unb_recv triv rt w (Suc k, ?u)"
      using 1 D(6,8) W later(1,2)
      by (subst mpmc_unb_recv.simps) (simp add: cas_weak_def)
    with later(3) [OF C1] show ?case by simp
  qed
qed

interpretation mpmc_unbounded: unbounded_contract "mpmc_unb_send True" "mpmc_unb_recv True"
  quiet "unb_rel (mpmc_cur ())"
proof unfold_locales
  fix n ms m k and u :: "'a mpmc_unbounded" and rt :: "'a mpmc_unbounded runtime"
  assume R: "unb_rel (mpmc_cur ()) n ms u" and B: "in_budget 1024 n" and L: "live rt 0"
  from R obtain xs p h t ls where C: "chain (mpmc_cur ()) n u xs (p, h, t, ls)"
    and ms: "ms = contents xs (p, h, t, ls)" unfolding unb_rel_def by (metis prod.exhaust)
  have "t \<le> h + 1024" using node_at_le [OF chainD(2) [OF C]] by simp
  then consider "t < h + 1024" | "t = h + 1024" by linarith
  then show "\<exists>k' u'. mpmc_unb_send True rt m (k, u) = ret ((k', u'), Ok ()) \<and>
      unb_rel (mpmc_cur ()) (Suc n) (ms @ [m]) u'"
  proof cases
    case 1
    from mpmc_unb_send_open [OF C 1 B live_later [OF L], of k True m] show ?thesis
      by (fastforce intro!: unb_relI simp: ms contents_def)
  next
    case 2
    from mpmc_unb_send_full [OF C 2 B L, of m k] show ?thesis
      by (fastforce intro!: unb_relI simp: ms contents_def)
  qed
next
  fix n ms m k w and u :: "'a mpmc_unbounded" and rt :: "'a mpmc_unbounded runtime"
  assume R: "unb_rel (mpmc_cur ()) n (m # ms) u" and L: "live rt 0"
  from R obtain xs p h t ls where C: "chain (mpmc_cur ()) n u xs (p, h, t, ls)"
    and ms: "m # ms = contents xs (p, h, t, ls)" unfolding unb_rel_def by (metis prod.exhaust)
  show "\<exists>k' u'. mpmc_unb_recv True rt w (k, u) = ret ((k', u'), Ok m) \<and>
      unb_rel (mpmc_cur ()) n ms u'"
  proof (cases "seg_msgs (hd (xs @ [(p, h, t, ls)])) = []")
    case False
    from mpmc_unb_recv_now [OF C False live_later [OF L], of k True w] show ?thesis
      unfolding unb_rel_def by (metis ms list.sel(1,3) le0)
  next
    case True
    with ms obtain a h' t' xs' where x: "xs = (a, h', t', []) # xs'"
      by (cases xs) (auto simp: contents_def)
    have "contents xs' (p, h, t, ls) = m # ms" using ms x by (simp add: contents_def)
    with mpmc_unb_recv_next [OF C [unfolded x] L, of True w k] show ?thesis
      unfolding unb_rel_def by (metis list.sel(1,3))
  qed
next
  fix n k w and u :: "'a mpmc_unbounded" and rt :: "'a mpmc_unbounded runtime"
  assume R: "unb_rel (mpmc_cur ()) n [] u" and B: "in_budget 1024 n" and Q: "quiet rt"
  from R obtain xs p h t ls where C: "chain (mpmc_cur ()) n u xs (p, h, t, ls)"
    and ms: "contents xs (p, h, t, ls) = []" unfolding unb_rel_def by (metis prod.exhaust)
  from mpmc_node.chain_empty [OF C ms] have e: "ls = []" "xs = []" by auto
  have "diverges (on_node mpmc_frame rt (Some p) (\<lambda>irt. recv mpmc_vtable mpmc_is_close irt w) (k, u))"
    using mpmc_node.node_recv_diverges [of u p None 1024 h t rt w k] chainD(2,3) [OF C] Q
      in_budget_mono [OF B] e(1) by simp
  then show "diverges (mpmc_unb_recv True rt w (k, u))"
    using chainD(6) [OF C] e(2) by (subst mpmc_unb_recv.simps) simp
qed (rule unb_rel_later)

section \<open>A new queue, and closing\<close>

lemma mpmc_unbounded_default_ok:
  "\<exists>u. mpmc_unbounded_default = Ret u \<and> unb_rel (mpmc_cur ()) 0 [] u \<and> destroyed u = [] \<and>
     chain (mpmc_cur ()) 0 u [] (0, 0, 0, [])"
proof -
  obtain n :: "'a mpmc_node" where
    n: "mpmc_node_new SUB_QUEUE_SIZE = Ret n" "node_at (mpmc_cur ()) [0 \<mapsto> n] 0 None 1024 0 0 [] False"
    using mpmc_node_new_ok [of 1024 Map.empty 0] by (auto simp: SUB_QUEUE_SIZE_def)
  let ?u = "\<lparr>heap = [0 \<mapsto> n], brk = 1, u_head = Some 0, u_tail = Some 0, u_closed = False,
    destroyed = []\<rparr>"
  have C: "chain (mpmc_cur ()) 0 ?u [] (0, 0, 0, [])"
    using n(2) by (simp add: chain_def)
  then have "unb_rel (mpmc_cur ()) 0 [] ?u" by (rule unb_relI) (simp add: contents_def)
  with C show ?thesis using n(1) by (simp add: mpmc_unbounded_default_def alloc_def)
qed

lemma mpmc_unb_close_chain:
  assumes C: "chain (mpmc_cur ()) n u xs (p, h, t, ls)" and B: "in_budget 1024 n" and L: "live rt 0"
  shows "\<exists>k' u' d. mpmc_unb_close rt (k, u) = ret (k', u') \<and>
    ending (mpmc_cur ()) u' xs (p, h, t, ls) d (length xs < 2)"
proof -
  obtain nd where nd: "mpmc_node_new 1 = Ret nd"
    "node_at (mpmc_cur ()) ((heap u)(brk u \<mapsto> nd)) (brk u) None 1 0 0 [] False"
    using mpmc_node_new_ok [OF cap_ok_1024(2), of "heap u" "brk u"] by (auto simp del: One_nat_def)
  from mpmc_node.close_chain [OF C B L nd(2), of k] nd(1) show ?thesis
    by (auto simp: mpmc_unb_close_def alloc_def)
qed

lemma mpmc_unb_send_ending:
  assumes E: "ending (mpmc_cur ()) u xs (p, h, t, ls) d True"
  shows "\<exists>k' u'. mpmc_unb_send triv rt m (k, u) = ret ((k', u'), Err (SendError m)) \<and>
    ending (mpmc_cur ()) u' xs (p, h, t, ls) d True"
proof -
  note D = endingD [OF E]
  from mpmc_node.node_send_closed [OF D(2,3), of rt m k] obtain k' n' where
    1: "on_node mpmc_frame rt (Some p) (\<lambda>irt. try_send mpmc_vtable irt m) (k, u) =
        ret ((k', u\<lparr>heap := (heap u)(p \<mapsto> n')\<rparr>), Err (Disconnected m))"
      "node_at (mpmc_cur ()) ((heap u)(p \<mapsto> n')) p (Some d) 1024 h t ls True" by blast
  then have "mpmc_unb_send triv rt m (k, u) =
      ret ((k', u\<lparr>heap := (heap u)(p \<mapsto> n')\<rparr>), Err (SendError m))"
    using D(7,8) by (subst mpmc_unb_send.simps) simp
  then show ?thesis using ending_upd_last [OF E 1(2)] by blast
qed

lemma mpmc_unb_send_still_open:
  assumes E: "ending (mpmc_cur ()) u xs (p, h, t, ls) d False" and "t < h + 1024" and "live rt k"
  shows "\<exists>k' u'. mpmc_unb_send triv rt m (k, u) = ret ((k', u'), Ok ()) \<and> u_closed u'"
  using mpmc_node.node_send_open [OF endingD(2) [OF E] assms(2) endingD(3) [OF E] assms(3), of m]
    endingD(7,8) [OF E]
  by (subst mpmc_unb_send.simps) fastforce

lemma mpmc_unb_recv_ending:
  assumes E: "ending (mpmc_cur ()) u xs y d (length xs < 2)"
    and L: "live rt 0"
  shows "seg_msgs (hd (xs @ [y])) = [] \<Longrightarrow>
      \<exists>k' u'. mpmc_unb_recv triv rt w (k, u) = ret ((k', u'), Err RecvError) \<and>
        ending (mpmc_cur ()) u' xs y d (length xs < 2)"
    and "seg_msgs (hd (xs @ [y])) \<noteq> [] \<Longrightarrow>
      \<exists>k' u' xs' y'. mpmc_unb_recv triv rt w (k, u) =
          ret ((k', u'), Ok (hd (seg_msgs (hd (xs @ [y]))))) \<and>
        ending (mpmc_cur ()) u' xs' y' d (length xs' < 2) \<and> tl (xs' @ [y']) = tl (xs @ [y]) \<and>
        seg_msgs (hd (xs' @ [y'])) = tl (seg_msgs (hd (xs @ [y])))"
proof -
  obtain p h t ls where y: "y = (p, h, t, ls)" by (metis prod.exhaust)
  note D = endingD [OF E [unfolded y]]
  show "\<exists>k' u'. mpmc_unb_recv triv rt w (k, u) = ret ((k', u'), Err RecvError) \<and>
      ending (mpmc_cur ()) u' xs y d (length xs < 2)" if "seg_msgs (hd (xs @ [y])) = []"
    using mpmc_node.ending_recv_none [OF E [unfolded y] that [unfolded y], of rt w k] D(6)
      endingD(8) y
    unfolding mpmc_vtable_is_close by (subst mpmc_unb_recv.simps) fastforce
  show "\<exists>k' u' xs' y'. mpmc_unb_recv triv rt w (k, u) =
          ret ((k', u'), Ok (hd (seg_msgs (hd (xs @ [y]))))) \<and>
        ending (mpmc_cur ()) u' xs' y' d (length xs' < 2) \<and> tl (xs' @ [y']) = tl (xs @ [y]) \<and>
        seg_msgs (hd (xs' @ [y'])) = tl (seg_msgs (hd (xs @ [y])))" if "seg_msgs (hd (xs @ [y])) \<noteq> []"
  proof -
    have Lk: "live rt k" using live_later [OF L] by simp
    from mpmc_node.ending_recv_some [OF E [unfolded y] that [unfolded y] Lk, of w]
    obtain k' u' xs' y' where
      1: "on_node mpmc_frame rt (Some (first_addr xs p)) (\<lambda>irt. recv mpmc_vtable mpmc_is_close irt w) (k, u) =
          ret ((k', u'), Ok (hd (seg_msgs (hd (xs @ [y])))))"
        "ending (mpmc_cur ()) u' xs' y' d (length xs < 2)" "tl (xs' @ [y']) = tl (xs @ [y])"
        "seg_msgs (hd (xs' @ [y'])) = tl (seg_msgs (hd (xs @ [y])))"
      unfolding mpmc_vtable_is_close y by blast
    have "length xs' = length xs" using arg_cong [OF 1(3), of length] by simp
    then have "ending (mpmc_cur ()) u' xs' y' d (length xs' < 2)" using 1(2) by simp
    moreover have "mpmc_unb_recv triv rt w (k, u) = ret ((k', u'), Ok (hd (seg_msgs (hd (xs @ [y])))))"
      using 1(1) D(6) by (subst mpmc_unb_recv.simps) simp
    ultimately show ?thesis using 1(3,4) by blast
  qed
qed

lemma mpmc_unb_close_again:
  assumes E: "ending (mpmc_cur ()) u xs (p, h, t, ls) d b" and L: "live rt 0"
  shows "diverges (mpmc_unb_close rt (k, u))"
proof -
  obtain nd where nd: "mpmc_node_new 1 = Ret nd"
    "node_at (mpmc_cur ()) ((heap u)(brk u \<mapsto> nd)) (brk u) None 1 0 0 [] False"
    using mpmc_node_new_ok [OF cap_ok_1024(2), of "heap u" "brk u"] by (auto simp del: One_nat_def)
  from mpmc_node.close_ending [OF E L nd(2), of k] nd(1) show ?thesis
    by (simp add: mpmc_unb_close_def alloc_def)
qed

interpretation mpmc_chain: chain_contract "mpmc_cur ()" "mpmc_unb_send True" "mpmc_unb_recv True" mpmc_unb_close
  quiet
proof (unfold_locales, goal_cases)
  case (1 n u xs p h t ls rt k m)
  then show ?case by (rule mpmc_unb_send_open)
next
  case (2 n u xs p h t ls rt m k)
  then show ?case using mpmc_unb_send_full [OF 2(1-4), of m k] by blast
next
  case (3 n u xs p h t ls rt k)
  then show ?case by (rule mpmc_unb_close_chain)
next
  case (4 u xs p h t ls d b rt k)
  then show ?case by (rule mpmc_unb_close_again)
next
  case (5 u xs p h t ls d rt m k)
  then show ?case by (rule mpmc_unb_send_ending)
next
  case (6 u xs p h t ls d rt k m)
  then show ?case by (rule mpmc_unb_send_still_open)
next
  case (7 u xs y d rt w k)
  then show ?case by (rule mpmc_unb_recv_ending(1))
next
  case (8 u xs y d rt w k)
  then show ?case by (rule mpmc_unb_recv_ending(2))
qed

end
