(* ===== verification/Channel.thy ===== *)
theory Channel
  imports Spsc_Unbounded Mpmc_Unbounded
begin

text \<open>
  The public interface in \<^verbatim>\<open>src/src/queue/spsc.rs\<close> and \<^verbatim>\<open>src/src/queue/mpmc.rs\<close>. A
  sender and a receiver, and the clones of a sender or a receiver, are pointers to one shared
  core (an \<^verbatim>\<open>Arc\<close> of an \<^verbatim>\<open>UnsafeCell\<close>), so the core is the state and the methods of
  the two sides act on it. \<^term>\<open>w\<close> is the address of the calling thread's waiter;
  \<^term>\<open>triv\<close> says that the message type has no destructor.
\<close>

section \<open>SPSC, bounded\<close>

definition spsc_channel :: "u32 \<Rightarrow> 'a spsc_bounded outcome" where
  "spsc_channel n = spsc_bounded_new n"

definition spsc_bsender_try_send :: "('a, 'z) spsc_bounded_scheme runtime \<Rightarrow> 'a \<Rightarrow> ('a, 'z) spsc_clocked \<Rightarrow>
    (('a, 'z) spsc_clocked \<times> (unit, 'a try_send_error) result) run" where
  "spsc_bsender_try_send rt m s = try_send spsc_vtable rt m s"

definition spsc_bsender_send :: "('a, 'z) spsc_bounded_scheme runtime \<Rightarrow> nat \<Rightarrow> 'a \<Rightarrow> ('a, 'z) spsc_clocked \<Rightarrow>
    (('a, 'z) spsc_clocked \<times> (unit, 'a send_error) result) run" where
  "spsc_bsender_send rt w m s = send spsc_vtable spsc_is_close rt w m s"

definition spsc_breceiver_try_recv :: "('a, 'z) spsc_bounded_scheme runtime \<Rightarrow> ('a, 'z) spsc_clocked \<Rightarrow>
    (('a, 'z) spsc_clocked \<times> ('a, try_recv_error) result) run" where
  "spsc_breceiver_try_recv rt s = try_recv spsc_vtable rt s"

definition spsc_breceiver_recv :: "('a, 'z) spsc_bounded_scheme runtime \<Rightarrow> nat \<Rightarrow> ('a, 'z) spsc_clocked \<Rightarrow>
    (('a, 'z) spsc_clocked \<times> ('a, recv_error) result) run" where
  "spsc_breceiver_recv rt w s = recv spsc_vtable spsc_is_close rt w s"

definition spsc_bsender_length :: "('a, 'z) spsc_bounded_scheme \<Rightarrow> u32" where
  "spsc_bsender_length q = spsc_length q"

definition spsc_bsender_close :: "('a, 'z) spsc_bounded_scheme runtime \<Rightarrow> ('a, 'z) spsc_clocked \<Rightarrow> ('a, 'z) spsc_clocked run" where
  "spsc_bsender_close rt s = spsc_close rt s"

definition spsc_bsender_is_close :: "('a, 'z) spsc_bounded_scheme \<Rightarrow> bool" where
  "spsc_bsender_is_close q = spsc_is_close q"

definition spsc_breceiver_length :: "('a, 'z) spsc_bounded_scheme \<Rightarrow> u32" where
  "spsc_breceiver_length q = spsc_length q"

definition spsc_breceiver_close :: "('a, 'z) spsc_bounded_scheme runtime \<Rightarrow> ('a, 'z) spsc_clocked \<Rightarrow> ('a, 'z) spsc_clocked run" where
  "spsc_breceiver_close rt s = spsc_close rt s"

definition spsc_breceiver_is_close :: "('a, 'z) spsc_bounded_scheme \<Rightarrow> bool" where
  "spsc_breceiver_is_close q = spsc_is_close q"

section \<open>SPSC, unbounded\<close>

definition spsc_unbounded_channel :: "'a spsc_unbounded outcome" where
  "spsc_unbounded_channel = spsc_unbounded_default"

definition spsc_usender_send :: "bool \<Rightarrow> 'a spsc_unbounded runtime \<Rightarrow> 'a \<Rightarrow> 'a spsc_unbounded clocked \<Rightarrow>
    ('a spsc_unbounded clocked \<times> (unit, 'a send_error) result) run" where
  "spsc_usender_send triv rt m s = spsc_unb_send triv rt m s"

definition spsc_usender_close :: "'a spsc_unbounded runtime \<Rightarrow> 'a spsc_unbounded clocked \<Rightarrow> 'a spsc_unbounded clocked run" where
  "spsc_usender_close rt s = spsc_unb_close rt s"

definition spsc_ureceiver_recv :: "bool \<Rightarrow> 'a spsc_unbounded runtime \<Rightarrow> nat \<Rightarrow> 'a spsc_unbounded clocked \<Rightarrow>
    ('a spsc_unbounded clocked \<times> ('a, recv_error) result) run" where
  "spsc_ureceiver_recv triv rt w s = spsc_unb_recv triv rt w s"

definition spsc_ureceiver_close :: "'a spsc_unbounded runtime \<Rightarrow> 'a spsc_unbounded clocked \<Rightarrow> 'a spsc_unbounded clocked run" where
  "spsc_ureceiver_close rt s = spsc_unb_close rt s"

lemmas spsc_channel_defs =
  spsc_channel_def
  spsc_bsender_try_send_def
  spsc_bsender_send_def
  spsc_breceiver_try_recv_def
  spsc_breceiver_recv_def
  spsc_bsender_length_def
  spsc_bsender_close_def
  spsc_bsender_is_close_def
  spsc_breceiver_length_def
  spsc_breceiver_close_def
  spsc_breceiver_is_close_def
  spsc_unbounded_channel_def
  spsc_usender_send_def
  spsc_usender_close_def
  spsc_ureceiver_recv_def
  spsc_ureceiver_close_def

section \<open>MPMC, bounded\<close>

definition mpmc_channel :: "u32 \<Rightarrow> 'a mpmc_bounded outcome" where
  "mpmc_channel n = mpmc_bounded_new n"

definition mpmc_bsender_try_send :: "('a, 'z) mpmc_bounded_scheme runtime \<Rightarrow> 'a \<Rightarrow> ('a, 'z) mpmc_clocked \<Rightarrow>
    (('a, 'z) mpmc_clocked \<times> (unit, 'a try_send_error) result) run" where
  "mpmc_bsender_try_send rt m s = try_send mpmc_vtable rt m s"

definition mpmc_bsender_send :: "('a, 'z) mpmc_bounded_scheme runtime \<Rightarrow> nat \<Rightarrow> 'a \<Rightarrow> ('a, 'z) mpmc_clocked \<Rightarrow>
    (('a, 'z) mpmc_clocked \<times> (unit, 'a send_error) result) run" where
  "mpmc_bsender_send rt w m s = send mpmc_vtable mpmc_is_close rt w m s"

definition mpmc_breceiver_try_recv :: "('a, 'z) mpmc_bounded_scheme runtime \<Rightarrow> ('a, 'z) mpmc_clocked \<Rightarrow>
    (('a, 'z) mpmc_clocked \<times> ('a, try_recv_error) result) run" where
  "mpmc_breceiver_try_recv rt s = try_recv mpmc_vtable rt s"

definition mpmc_breceiver_recv :: "('a, 'z) mpmc_bounded_scheme runtime \<Rightarrow> nat \<Rightarrow> ('a, 'z) mpmc_clocked \<Rightarrow>
    (('a, 'z) mpmc_clocked \<times> ('a, recv_error) result) run" where
  "mpmc_breceiver_recv rt w s = recv mpmc_vtable mpmc_is_close rt w s"

definition mpmc_bsender_length :: "('a, 'z) mpmc_bounded_scheme \<Rightarrow> u32" where
  "mpmc_bsender_length q = mpmc_length q"

definition mpmc_bsender_close :: "('a, 'z) mpmc_bounded_scheme runtime \<Rightarrow> ('a, 'z) mpmc_clocked \<Rightarrow> ('a, 'z) mpmc_clocked run" where
  "mpmc_bsender_close rt s = mpmc_close rt s"

definition mpmc_bsender_is_close :: "('a, 'z) mpmc_bounded_scheme \<Rightarrow> bool" where
  "mpmc_bsender_is_close q = mpmc_is_close q"

definition mpmc_breceiver_length :: "('a, 'z) mpmc_bounded_scheme \<Rightarrow> u32" where
  "mpmc_breceiver_length q = mpmc_length q"

definition mpmc_breceiver_close :: "('a, 'z) mpmc_bounded_scheme runtime \<Rightarrow> ('a, 'z) mpmc_clocked \<Rightarrow> ('a, 'z) mpmc_clocked run" where
  "mpmc_breceiver_close rt s = mpmc_close rt s"

definition mpmc_breceiver_is_close :: "('a, 'z) mpmc_bounded_scheme \<Rightarrow> bool" where
  "mpmc_breceiver_is_close q = mpmc_is_close q"

section \<open>MPMC, unbounded\<close>

definition mpmc_unbounded_channel :: "'a mpmc_unbounded outcome" where
  "mpmc_unbounded_channel = mpmc_unbounded_default"

definition mpmc_usender_send :: "bool \<Rightarrow> 'a mpmc_unbounded runtime \<Rightarrow> 'a \<Rightarrow> 'a mpmc_unbounded clocked \<Rightarrow>
    ('a mpmc_unbounded clocked \<times> (unit, 'a send_error) result) run" where
  "mpmc_usender_send triv rt m s = mpmc_unb_send triv rt m s"

definition mpmc_usender_close :: "'a mpmc_unbounded runtime \<Rightarrow> 'a mpmc_unbounded clocked \<Rightarrow> 'a mpmc_unbounded clocked run" where
  "mpmc_usender_close rt s = mpmc_unb_close rt s"

definition mpmc_ureceiver_recv :: "bool \<Rightarrow> 'a mpmc_unbounded runtime \<Rightarrow> nat \<Rightarrow> 'a mpmc_unbounded clocked \<Rightarrow>
    ('a mpmc_unbounded clocked \<times> ('a, recv_error) result) run" where
  "mpmc_ureceiver_recv triv rt w s = mpmc_unb_recv triv rt w s"

definition mpmc_ureceiver_close :: "'a mpmc_unbounded runtime \<Rightarrow> 'a mpmc_unbounded clocked \<Rightarrow> 'a mpmc_unbounded clocked run" where
  "mpmc_ureceiver_close rt s = mpmc_unb_close rt s"

lemmas mpmc_channel_defs =
  mpmc_channel_def
  mpmc_bsender_try_send_def
  mpmc_bsender_send_def
  mpmc_breceiver_try_recv_def
  mpmc_breceiver_recv_def
  mpmc_bsender_length_def
  mpmc_bsender_close_def
  mpmc_bsender_is_close_def
  mpmc_breceiver_length_def
  mpmc_breceiver_close_def
  mpmc_breceiver_is_close_def
  mpmc_unbounded_channel_def
  mpmc_usender_send_def
  mpmc_usender_close_def
  mpmc_ureceiver_recv_def
  mpmc_ureceiver_close_def

end
