(* ===== verification/Handles.thy ===== *)
theory Handles
  imports Channel
begin

text \<open>
  The handles of \<^verbatim>\<open>src/src/queue/spsc.rs\<close> and \<^verbatim>\<open>src/src/queue/mpmc.rs\<close>: every sender and
  receiver is a struct with an \<^verbatim>\<open>Arc\<close> of the shared core. Cloning a handle clones the
  \<^verbatim>\<open>Arc\<close>, dropping a handle drops it, and the last one to be dropped destroys the core. A
  handle that goes away does nothing else: it does not close the queue.
\<close>

section \<open>Arc\<close>

text \<open>An allocation of an \<^verbatim>\<open>Arc\<close>, with the number of pointers to it.\<close>

record 'q arc =
  strong :: nat
  content :: 'q

type_synonym 'q arcs = "nat \<rightharpoonup> 'q arc"

definition arc_new :: "nat \<Rightarrow> 'q \<Rightarrow> 'q arcs \<Rightarrow> 'q arcs" where
  "arc_new p q A = A(p \<mapsto> \<lparr>strong = 1, content = q\<rparr>)"

definition arc_clone :: "nat \<Rightarrow> 'q arcs \<Rightarrow> (nat \<times> 'q arcs) outcome" where
  "arc_clone p A =
     (case A p of None \<Rightarrow> Undef | Some a \<Rightarrow> Ret (p, A(p \<mapsto> a\<lparr>strong := strong a + 1\<rparr>)))"

text \<open>\<^term>\<open>destroy\<close> is the destructor of the content, with the messages it destroys.\<close>

definition arc_drop :: "('q \<Rightarrow> 'm list outcome) \<Rightarrow> nat \<Rightarrow> 'q arcs \<Rightarrow> ('q arcs \<times> 'm list) outcome" where
  "arc_drop destroy p A =
     (case A p of None \<Rightarrow> Undef
      | Some a \<Rightarrow>
          if strong a = 1 then obind (destroy (content a)) (\<lambda>ms. Ret (A(p := None), ms))
          else Ret (A(p \<mapsto> a\<lparr>strong := strong a - 1\<rparr>), []))"

text \<open>A method call through a pointer.\<close>

definition arc_call :: "nat \<Rightarrow> ('q clocked \<Rightarrow> ('q clocked \<times> 'b) run) \<Rightarrow> nat \<times> 'q arcs \<Rightarrow> ((nat \<times> 'q arcs) \<times> 'b) run" where
  "arc_call p f s =
     (case snd s p of None \<Rightarrow> Some Undef
      | Some a \<Rightarrow> rbind (f (fst s, content a)) (\<lambda>((k, q), r). ret ((k, (snd s)(p \<mapsto> a\<lparr>content := q\<rparr>)), r)))"

section \<open>The handles\<close>

datatype spsc_bsender = Spsc_BSender nat
datatype spsc_breceiver = Spsc_BReceiver nat
datatype spsc_usender = Spsc_USender nat
datatype spsc_ureceiver = Spsc_UReceiver nat
datatype mpmc_bsender = Mpmc_BSender nat
datatype mpmc_breceiver = Mpmc_BReceiver nat
datatype mpmc_usender = Mpmc_USender nat
datatype mpmc_ureceiver = Mpmc_UReceiver nat

text \<open>The eight implementations of \<^verbatim>\<open>Clone\<close>, and the constructors of the pairs.\<close>

fun spsc_bsender_clone :: "spsc_bsender \<Rightarrow> 'a spsc_bounded arcs \<Rightarrow> (spsc_bsender \<times> 'a spsc_bounded arcs) outcome" where
  "spsc_bsender_clone (Spsc_BSender p) A = obind (arc_clone p A) (\<lambda>(p, A). Ret (Spsc_BSender p, A))"

fun spsc_breceiver_clone :: "spsc_breceiver \<Rightarrow> 'a spsc_bounded arcs \<Rightarrow> (spsc_breceiver \<times> 'a spsc_bounded arcs) outcome" where
  "spsc_breceiver_clone (Spsc_BReceiver p) A = obind (arc_clone p A) (\<lambda>(p, A). Ret (Spsc_BReceiver p, A))"

fun spsc_usender_clone :: "spsc_usender \<Rightarrow> 'a spsc_unbounded arcs \<Rightarrow> (spsc_usender \<times> 'a spsc_unbounded arcs) outcome" where
  "spsc_usender_clone (Spsc_USender p) A = obind (arc_clone p A) (\<lambda>(p, A). Ret (Spsc_USender p, A))"

fun spsc_ureceiver_clone :: "spsc_ureceiver \<Rightarrow> 'a spsc_unbounded arcs \<Rightarrow> (spsc_ureceiver \<times> 'a spsc_unbounded arcs) outcome" where
  "spsc_ureceiver_clone (Spsc_UReceiver p) A = obind (arc_clone p A) (\<lambda>(p, A). Ret (Spsc_UReceiver p, A))"

fun mpmc_bsender_clone :: "mpmc_bsender \<Rightarrow> 'a mpmc_bounded arcs \<Rightarrow> (mpmc_bsender \<times> 'a mpmc_bounded arcs) outcome" where
  "mpmc_bsender_clone (Mpmc_BSender p) A = obind (arc_clone p A) (\<lambda>(p, A). Ret (Mpmc_BSender p, A))"

fun mpmc_breceiver_clone :: "mpmc_breceiver \<Rightarrow> 'a mpmc_bounded arcs \<Rightarrow> (mpmc_breceiver \<times> 'a mpmc_bounded arcs) outcome" where
  "mpmc_breceiver_clone (Mpmc_BReceiver p) A = obind (arc_clone p A) (\<lambda>(p, A). Ret (Mpmc_BReceiver p, A))"

fun mpmc_usender_clone :: "mpmc_usender \<Rightarrow> 'a mpmc_unbounded arcs \<Rightarrow> (mpmc_usender \<times> 'a mpmc_unbounded arcs) outcome" where
  "mpmc_usender_clone (Mpmc_USender p) A = obind (arc_clone p A) (\<lambda>(p, A). Ret (Mpmc_USender p, A))"

fun mpmc_ureceiver_clone :: "mpmc_ureceiver \<Rightarrow> 'a mpmc_unbounded arcs \<Rightarrow> (mpmc_ureceiver \<times> 'a mpmc_unbounded arcs) outcome" where
  "mpmc_ureceiver_clone (Mpmc_UReceiver p) A = obind (arc_clone p A) (\<lambda>(p, A). Ret (Mpmc_UReceiver p, A))"

text \<open>\<^term>\<open>p\<close> is the address of the new allocation.\<close>

definition spsc_bounded_pair :: "u32 \<Rightarrow> nat \<Rightarrow> 'a spsc_bounded arcs \<Rightarrow>
    ((spsc_bsender \<times> spsc_breceiver) \<times> 'a spsc_bounded arcs) outcome" where
  "spsc_bounded_pair n p A =
     obind (spsc_channel n) (\<lambda>q. obind (arc_clone p (arc_new p q A)) (\<lambda>(p', A).
       Ret ((Spsc_BSender p', Spsc_BReceiver p), A)))"

definition mpmc_bounded_pair :: "u32 \<Rightarrow> nat \<Rightarrow> 'a mpmc_bounded arcs \<Rightarrow>
    ((mpmc_bsender \<times> mpmc_breceiver) \<times> 'a mpmc_bounded arcs) outcome" where
  "mpmc_bounded_pair n p A =
     obind (mpmc_channel n) (\<lambda>q. obind (arc_clone p (arc_new p q A)) (\<lambda>(p', A).
       Ret ((Mpmc_BSender p', Mpmc_BReceiver p), A)))"

definition spsc_unbounded_pair :: "nat \<Rightarrow> 'a spsc_unbounded arcs \<Rightarrow>
    ((spsc_usender \<times> spsc_ureceiver) \<times> 'a spsc_unbounded arcs) outcome" where
  "spsc_unbounded_pair p A =
     obind spsc_unbounded_channel (\<lambda>q. obind (arc_clone p (arc_new p q A)) (\<lambda>(p', A).
       Ret ((Spsc_USender p', Spsc_UReceiver p), A)))"

definition mpmc_unbounded_pair :: "nat \<Rightarrow> 'a mpmc_unbounded arcs \<Rightarrow>
    ((mpmc_usender \<times> mpmc_ureceiver) \<times> 'a mpmc_unbounded arcs) outcome" where
  "mpmc_unbounded_pair p A =
     obind mpmc_unbounded_channel (\<lambda>q. obind (arc_clone p (arc_new p q A)) (\<lambda>(p', A).
       Ret ((Mpmc_USender p', Mpmc_UReceiver p), A)))"

text \<open>The destructor of a bounded core drops its buckets.\<close>

definition ring_drop :: "('a, 'z) ring_scheme \<Rightarrow> 'a list outcome" where
  "ring_drop q = elems_drop (buffer q)"

section \<open>A program that uses handles\<close>

text \<open>
  The live handles of one MPMC queue in the order in which they were made, and what a program does
  with them: clone one, drop one, or call a method of one.
\<close>

datatype mpmc_handle = Sender mpmc_bsender | Receiver mpmc_breceiver

fun at :: "mpmc_handle \<Rightarrow> nat" where
  "at (Sender (Mpmc_BSender p)) = p"
| "at (Receiver (Mpmc_BReceiver p)) = p"

datatype 'a handle_op = Clone nat | Drop nat | Call nat "'a op"

text \<open>The methods a handle has; Rust admits no use of a handle that is gone.\<close>

fun has_method :: "mpmc_handle \<Rightarrow> 'a op \<Rightarrow> bool" where
  "has_method (Sender h) Try_Recv = False"
| "has_method (Receiver h) (Try_Send m) = False"
| "has_method _ _ = True"

fun handle_clone :: "mpmc_handle \<Rightarrow> 'a mpmc_bounded arcs \<Rightarrow> (mpmc_handle \<times> 'a mpmc_bounded arcs) outcome" where
  "handle_clone (Sender h) A = obind (mpmc_bsender_clone h A) (\<lambda>(h, A). Ret (Sender h, A))"
| "handle_clone (Receiver h) A = obind (mpmc_breceiver_clone h A) (\<lambda>(h, A). Ret (Receiver h, A))"

type_synonym 'a program = "nat \<times> 'a mpmc_bounded arcs \<times> mpmc_handle list"

fun handle_step :: "'a mpmc_bounded runtime \<Rightarrow> 'a program \<Rightarrow> 'a handle_op \<Rightarrow> ('a program \<times> 'a answer list) run" where
  "handle_step rt (k, A, hs) (Clone i) =
     rbind (Some (handle_clone (hs ! i) A)) (\<lambda>(h, A). ret ((k, A, hs @ [h]), []))"
| "handle_step rt (k, A, hs) (Drop i) =
     rbind (Some (arc_drop ring_drop (at (hs ! i)) A)) (\<lambda>(A, ms). ret ((k, A, remove_at i hs), []))"
| "handle_step rt (k, A, hs) (Call i x) =
     rbind (arc_call (at (hs ! i)) (\<lambda>s. queue_step mpmc_vtable rt s x) (k, A)) (\<lambda>((k, A), a).
       ret ((k, A, hs), [a]))"

fun handle_run :: "'a mpmc_bounded runtime \<Rightarrow> 'a program \<Rightarrow> 'a handle_op list \<Rightarrow> ('a program \<times> 'a answer list) run" where
  "handle_run rt s [] = ret (s, [])"
| "handle_run rt s (x # xs) =
     rbind (handle_step rt s x) (\<lambda>(s, as). rbind (handle_run rt s xs) (\<lambda>(s, bs). ret (s, as @ bs)))"

text \<open>The handles are used while they live, and at least one is left.\<close>

fun well_used :: "mpmc_handle list \<Rightarrow> 'a handle_op list \<Rightarrow> bool" where
  "well_used hs [] = True"
| "well_used hs (Clone i # xs) = (i < length hs \<and> well_used (hs @ [hs ! i]) xs)"
| "well_used hs (Drop i # xs) = (i < length hs \<and> 1 < length hs \<and> well_used (remove_at i hs) xs)"
| "well_used hs (Call i x # xs) = (i < length hs \<and> has_method (hs ! i) x \<and> well_used hs xs)"

fun live_after :: "nat \<Rightarrow> 'a handle_op list \<Rightarrow> nat" where
  "live_after n [] = n"
| "live_after n (Clone i # xs) = live_after (Suc n) xs"
| "live_after n (Drop i # xs) = live_after (n - 1) xs"
| "live_after n (Call i x # xs) = live_after n xs"

fun calls :: "'a handle_op list \<Rightarrow> 'a op list" where
  "calls [] = []"
| "calls (Call i x # xs) = x # calls xs"
| "calls (_ # xs) = calls xs"

text \<open>The state: all handles point to the one allocation, which counts them.\<close>

definition shares :: "nat \<Rightarrow> 'a mpmc_bounded \<Rightarrow> 'a mpmc_bounded arcs \<Rightarrow> mpmc_handle list \<Rightarrow> bool" where
  "shares p q A hs \<longleftrightarrow> A p = Some \<lparr>strong = length hs, content = q\<rparr> \<and> (\<forall>h\<in>set hs. at h = p) \<and> hs \<noteq> []"

lemma sharesD:
  assumes "shares p q A hs"
  shows "A p = Some \<lparr>strong = length hs, content = q\<rparr>" and "i < length hs \<Longrightarrow> at (hs ! i) = p" and "hs \<noteq> []"
  using assms by (auto simp: shares_def)

lemma handle_clone_ok:
  assumes "shares p q A hs" and "at h = p"
  obtains A' where "handle_clone h A = Ret (h, A')" and "shares p q A' (hs @ [h])"
proof
  show "handle_clone h A = Ret (h, A(p \<mapsto> \<lparr>strong = length hs + 1, content = q\<rparr>))"
    using sharesD(1) [OF assms(1)] assms(2) by (cases h rule: at.cases) (simp_all add: arc_clone_def)
  show "shares p q (A(p \<mapsto> \<lparr>strong = length hs + 1, content = q\<rparr>)) (hs @ [h])"
    using assms by (auto simp: shares_def)
qed

lemma remove_at_facts:
  "i < length xs \<Longrightarrow> length (remove_at i xs) = length xs - 1" "set (remove_at i xs) \<subseteq> set xs"
  by (auto simp: remove_at_def dest: in_set_takeD in_set_dropD)

lemma handle_drop_ok:
  assumes S: "shares p q A hs" and i: "i < length hs" and l: "1 < length hs"
  obtains A' where "arc_drop ring_drop (at (hs ! i)) A = Ret (A', [])" and "shares p q A' (remove_at i hs)"
proof
  let ?A = "A(p \<mapsto> \<lparr>strong = length hs - 1, content = q\<rparr>)"
  show "arc_drop ring_drop (at (hs ! i)) A = Ret (?A, [])"
    using sharesD(1,2) [OF S] i l by (simp add: arc_drop_def)
  show "shares p q ?A (remove_at i hs)"
    using S i l remove_at_facts [of i hs] by (auto simp: shares_def)
qed

text \<open>
  Whatever clones are used, the queue answers as its core does when it is used directly, and the
  count is the number of the handles.
\<close>

lemma handle_run_calls:
  assumes "shares p q A hs" and "well_used hs xs" and "queue_run mpmc_vtable rt (k, q) (calls xs) = ret ((k', q'), as)"
  shows "\<exists>A' hs'. handle_run rt (k, A, hs) xs = ret ((k', A', hs'), as) \<and> shares p q' A' hs' \<and>
    length hs' = live_after (length hs) xs"
  using assms
proof (induction xs arbitrary: k q A hs as)
  case Nil
  then show ?case by auto
next
  case (Cons x xs)
  show ?case
  proof (cases x)
    case (Clone i)
    then have i: "i < length hs" "well_used (hs @ [hs ! i]) xs" using Cons.prems(2) by simp_all
    obtain A' where c: "handle_clone (hs ! i) A = Ret (hs ! i, A')" "shares p q A' (hs @ [hs ! i])"
      using handle_clone_ok [OF Cons.prems(1) sharesD(2) [OF Cons.prems(1) i(1)]] by blast
    have "queue_run mpmc_vtable rt (k, q) (calls xs) = ret ((k', q'), as)" using Cons.prems(3) Clone by simp
    from Cons.IH [OF c(2) i(2) this] c(1) Clone show ?thesis by auto
  next
    case (Drop i)
    then have i: "i < length hs" "1 < length hs" "well_used (remove_at i hs) xs" using Cons.prems(2) by simp_all
    obtain A' where c: "arc_drop ring_drop (at (hs ! i)) A = Ret (A', [])" "shares p q A' (remove_at i hs)"
      using handle_drop_ok [OF Cons.prems(1) i(1,2)] by blast
    have "queue_run mpmc_vtable rt (k, q) (calls xs) = ret ((k', q'), as)" using Cons.prems(3) Drop by simp
    from Cons.IH [OF c(2) i(3) this] c(1) Drop remove_at_facts(1) [OF i(1)] show ?thesis by auto
  next
    case (Call i y)
    then have i: "i < length hs" "well_used hs xs" using Cons.prems(2) by simp_all
    have "rbind (queue_step mpmc_vtable rt (k, q) y) (\<lambda>(s, a).
        rbind (queue_run mpmc_vtable rt s (calls xs)) (\<lambda>(s, as). ret (s, a # as))) = ret ((k', q'), as)"
      using Cons.prems(3) Call by simp
    then obtain k1 q1 a bs where s: "queue_step mpmc_vtable rt (k, q) y = ret ((k1, q1), a)"
      "queue_run mpmc_vtable rt (k1, q1) (calls xs) = ret ((k', q'), bs)" "as = a # bs"
      by (auto simp: rbind_ret_iff)
    let ?A = "A(p \<mapsto> \<lparr>strong = length hs, content = q1\<rparr>)"
    have "shares p q1 ?A hs" using Cons.prems(1) by (simp add: shares_def)
    from Cons.IH [OF this i(2) s(2)] obtain A' hs' where r: "handle_run rt (k1, ?A, hs) xs = ret ((k', A', hs'), bs)"
      "shares p q' A' hs'" "length hs' = live_after (length hs) xs" by blast
    have "handle_step rt (k, A, hs) (Call i y) = ret ((k1, ?A, hs), [a])"
      using s(1) sharesD(1,2) [OF Cons.prems(1)] i(1) by (simp add: arc_call_def)
    then show ?thesis using r s(3) Call by (auto simp del: handle_step.simps)
  qed
qed

end
