(* ===== verification/Bounded_Properties.thy ===== *)
theory Bounded_Properties
  imports Channel
begin

text \<open>
  The properties of the bounded queues, over the public constructors and methods. They rest on the
  facts of the contract \<^verbatim>\<open>bounded_contract\<close> for the two implementors, \<^verbatim>\<open>spsc\<close> and
  \<^verbatim>\<open>mpmc\<close>.
\<close>

section \<open>Environments with one other thread\<close>

text \<open>Another thread acts in pause \<^term>\<open>n\<close>.\<close>

definition meanwhile :: "'q runtime \<Rightarrow> nat \<Rightarrow> ('q \<Rightarrow> 'q) \<Rightarrow> 'q runtime" where
  "meanwhile rt n act = rt\<lparr>env := (\<lambda>k q. if k = n then act q else env rt k q)\<rparr>"

text \<open>The state after a complete call by another thread.\<close>

definition after_call :: "('q clocked \<Rightarrow> ('q clocked \<times> 'r) run) \<Rightarrow> 'q \<Rightarrow> 'q" where
  "after_call call q = (case call (0, q) of Some (Ret ((k, q'), r)) \<Rightarrow> q' | _ \<Rightarrow> q)"

definition spsc_mark_closed :: "('a, 'z) spsc_bounded_scheme \<Rightarrow> ('a, 'z) spsc_bounded_scheme" where
  "spsc_mark_closed q = q\<lparr>closed_flag := True\<rparr>"


lemma meanwhile_env [simp]:
  "env (meanwhile rt n act) n q = act q" "spurious (meanwhile rt n act) = spurious rt"
  by (simp_all add: meanwhile_def)

lemma meanwhile_quiet: "quiet rt \<Longrightarrow> k \<le> n \<Longrightarrow> quiet_until (meanwhile rt n act) k n"
  by (simp add: meanwhile_def quiet_until_def)

lemma meanwhile_live: "live rt 0 \<Longrightarrow> live (meanwhile rt n act) (Suc n)"
  by (simp add: meanwhile_def live_def)

lemma live_quiet: "live rt 0 \<Longrightarrow> quiet rt"
  unfolding live_def quiet_def by blast

lemma after_call_ret: "call (0, q) = ret ((k, q'), r) \<Longrightarrow> after_call call q = q'"
  by (simp add: after_call_def)

lemma channel_new:
  assumes "cap_ok c"
  shows "\<exists>q. spsc_channel (word_of_nat c) = Ret q \<and> spsc_rel () c 0 0 [] False q \<and> calm q \<and> open_wakers q"
    and "\<exists>q. mpmc_channel (word_of_nat c) = Ret q \<and> mpmc_rel () c 0 0 [] False q \<and> calm q \<and> open_wakers q"
  using spsc_bounded_new_ok [OF assms] mpmc_bounded_new_ok [OF assms]
  by (auto simp: spsc_channel_def mpmc_channel_def spsc_rel_def mpmc_rel_def)

section \<open>First in, first out\<close>

lemma mpmc_run_new:
  assumes "0 < c" and "c \<le> 2 ^ 30" and "length xs < 2 ^ 30 * c" and "live rt 0"
  shows "\<exists>q k' q' h' t'. mpmc_channel (word_of_nat c) = Ret q \<and>
    queue_run mpmc_vtable rt (0, q) xs = ret ((k', q'), snd (fifo_run c ([], False) xs)) \<and>
    mpmc_rel () c h' t' (fst (fst (fifo_run c ([], False) xs))) (snd (fst (fifo_run c ([], False) xs))) q'"
proof -
  have c: "cap_ok c" using assms by (simp add: cap_ok_def)
  obtain q :: "'a mpmc_bounded" where q: "mpmc_channel (word_of_nat c) = Ret q"
      "mpmc_rel () c 0 0 [] False q" "calm q"
    using channel_new(2) [OF c] by blast
  have "in_budget c (0 + length xs)" using assms by (simp add: in_budget_iff)
  moreover have "ring_rel c 0 0 [] q \<and> mpmc_cur () c 0 0 False q" "reg_lists q = ([], [])"
    using q by (simp_all add: mpmc_rel_def calm_def)
  ultimately show ?thesis
    using mpmc.queue_run_refines [OF _ _ assms(4)] q(1) unfolding mpmc_rel_def by blast
qed

text \<open>
  C1: a new MPMC queue of capacity \<^term>\<open>c\<close>, used by one thread at a time, answers every
  sequence of \<^verbatim>\<open>try_send\<close>, \<^verbatim>\<open>try_recv\<close> and \<^verbatim>\<open>close\<close> calls exactly as the FIFO list of
  at most \<^term>\<open>c\<close> messages does: full, empty and disconnected included, with spurious failures
  of the weak exchange, for up to \<open>2^30 * c\<close> calls.
\<close>

theorem mpmc_bounded_fifo:
  assumes "0 < c" and "c \<le> 2 ^ 30" and "length xs < 2 ^ 30 * c" and "live rt 0"
  shows "\<exists>q k' q' h' t'. mpmc_channel (word_of_nat c) = Ret q \<and>
    queue_run mpmc_vtable rt (0, q) xs = ret ((k', q'), snd (fifo_run c ([], False) xs)) \<and>
    mpmc_rel () c h' t' (fst (fst (fifo_run c ([], False) xs))) (snd (fst (fifo_run c ([], False) xs))) q'"
  by (rule mpmc_run_new [OF assms])

theorem mpmc_bounded_fifo_witness:
  "\<exists>q k' q'. mpmc_channel 2 = Ret q \<and>
     queue_run mpmc_vtable solo (0, q)
       [Try_Recv, Try_Send (1 :: nat), Try_Send 2, Try_Send 3, Try_Recv, Close_Queue, Try_Send 4, Try_Recv, Try_Recv] =
     ret ((k', q'), [Received (Err TryRecvError), Sent (Ok ()), Sent (Ok ()), Sent (Err (Full 3)),
       Received (Ok 1), Closed_Queue, Sent (Err (Disconnected 4)), Received (Ok 2),
       Received (Err TryRecvError)])"
  using mpmc_bounded_fifo [of 2 "[Try_Recv, Try_Send (1 :: nat), Try_Send 2, Try_Send 3, Try_Recv,
      Close_Queue, Try_Send 4, Try_Recv, Try_Recv]" solo]
  by auto

lemma spsc_run_new:
  assumes "0 < c" and "c \<le> 2 ^ 30" and "length xs < 2 ^ 30 * c" and "live rt 0"
  shows "\<exists>q k' q' h' t'. spsc_channel (word_of_nat c) = Ret q \<and>
    queue_run spsc_vtable rt (0, q) xs = ret ((k', q'), snd (fifo_run c ([], False) xs)) \<and>
    spsc_rel () c h' t' (fst (fst (fifo_run c ([], False) xs))) (snd (fst (fifo_run c ([], False) xs))) q'"
proof -
  have c: "cap_ok c" using assms by (simp add: cap_ok_def)
  obtain q :: "'a spsc_bounded" where q: "spsc_channel (word_of_nat c) = Ret q"
      "spsc_rel () c 0 0 [] False q" "calm q"
    using channel_new(1) [OF c] by blast
  have "in_budget c (0 + length xs)" using assms by (simp add: in_budget_iff)
  moreover have "ring_rel c 0 0 [] q \<and> spsc_cur () c 0 0 False q" "reg_lists q = ([], [])"
    using q by (simp_all add: spsc_rel_def calm_def)
  ultimately show ?thesis
    using spsc.queue_run_refines [OF _ _ assms(4)] q(1) unfolding spsc_rel_def by blast
qed

text \<open>
  C2: a new SPSC queue of capacity \<^term>\<open>c\<close>, used by one thread at a time, answers every
  sequence of \<^verbatim>\<open>try_send\<close>, \<^verbatim>\<open>try_recv\<close> and \<^verbatim>\<open>close\<close> calls exactly as the FIFO list
  of at most \<^term>\<open>c\<close> messages does, for up to \<open>2^30 * c\<close> calls.
\<close>

theorem spsc_bounded_fifo:
  assumes "0 < c" and "c \<le> 2 ^ 30" and "length xs < 2 ^ 30 * c" and "live rt 0"
  shows "\<exists>q k' q' h' t'. spsc_channel (word_of_nat c) = Ret q \<and>
    queue_run spsc_vtable rt (0, q) xs = ret ((k', q'), snd (fifo_run c ([], False) xs)) \<and>
    spsc_rel () c h' t' (fst (fst (fifo_run c ([], False) xs))) (snd (fst (fifo_run c ([], False) xs))) q'"
  by (rule spsc_run_new [OF assms])

theorem spsc_bounded_fifo_witness:
  "\<exists>q k' q'. spsc_channel 1 = Ret q \<and>
     queue_run spsc_vtable solo (0, q) [Try_Send (1 :: nat), Try_Send 2, Try_Recv, Try_Send 3, Close_Queue, Try_Send 4, Try_Recv] =
     ret ((k', q'), [Sent (Ok ()), Sent (Err (Full 2)), Received (Ok 1), Sent (Ok ()), Closed_Queue,
       Sent (Err (Disconnected 4)), Received (Ok 3)])"
  using spsc_bounded_fifo [of 1 "[Try_Send (1 :: nat), Try_Send 2, Try_Recv, Try_Send 3, Close_Queue,
      Try_Send 4, Try_Recv]" solo]
  by auto

text \<open>
  Nothing is lost, duplicated or reordered: in every run of a new MPMC queue the messages
  accepted are, in order, the messages delivered followed by at most \<^term>\<open>c\<close> that are still
  queued.
\<close>

theorem mpmc_conserves_messages:
  assumes "0 < c" and "c \<le> 2 ^ 30" and "length xs < 2 ^ 30 * c" and "live rt 0"
    and "mpmc_channel (word_of_nat c) = Ret q" and "queue_run mpmc_vtable rt (0, q) xs = ret (s, as)"
  shows "\<exists>rest. accepted xs as = delivered as @ rest \<and> length rest \<le> c"
proof -
  obtain ms b as' where f: "fifo_run c ([], False) xs = ((ms, b), as')" by (metis prod.exhaust)
  have "as = as'" using mpmc_run_new [OF assms(1-4)] assms(5,6) f by auto
  then show ?thesis
    using fifo_run_order [OF f] fifo_run_bounded [of "([], False)" c xs] f by auto
qed

theorem mpmc_conserves_messages_witness:
  "\<exists>q s as rest. mpmc_channel (word_of_nat 2) = Ret q \<and>
     queue_run mpmc_vtable solo (0, q) [Try_Send (1 :: nat), Try_Send 2, Try_Send 3, Try_Recv] = ret (s, as) \<and>
     delivered as = [1] \<and>
     accepted [Try_Send (1 :: nat), Try_Send 2, Try_Send 3, Try_Recv] as = delivered as @ rest \<and>
     length rest \<le> 2"
proof -
  let ?xs = "[Try_Send (1 :: nat), Try_Send 2, Try_Send 3, Try_Recv]"
  have h: "0 < (2 :: nat)" "(2 :: nat) \<le> 2 ^ 30" "length ?xs < 2 ^ 30 * 2" by simp_all
  from mpmc_run_new [OF h live_solo] obtain q k' q' where
    q: "mpmc_channel (word_of_nat 2) = Ret q" "queue_run mpmc_vtable solo (0, q) ?xs =
      ret ((k', q'), [Sent (Ok ()), Sent (Ok ()), Sent (Err (Full 3)), Received (Ok 1)])"
    by (auto split: prod.splits)
  from mpmc_conserves_messages [OF h live_solo q] q show ?thesis by fastforce
qed

section \<open>What another thread does in a pause\<close>

lemma mpmc_methods:
  "mpmc_bsender_try_send rt m = try_send mpmc_vtable rt m"
  "mpmc_bsender_send rt w m = send mpmc_vtable (v_is_close mpmc_vtable) rt w m"
  "mpmc_breceiver_try_recv rt = try_recv mpmc_vtable rt"
  "mpmc_breceiver_recv rt w = recv_loop mpmc_vtable (v_is_close mpmc_vtable) rt w Success"
  by (simp_all add: fun_eq_iff mpmc_channel_defs recv_def)


lemma mpmc_recv_env:
  assumes "ring_rel c h (h + c) ms q \<and> mpmc_cur W c h (h + c) False q"
  shows "(ring_rel c (Suc h) (h + c) (tl ms) (after_call (mpmc_breceiver_try_recv solo) q) \<and>
      mpmc_cur W c (Suc h) (h + c) False (after_call (mpmc_breceiver_try_recv solo) q)) \<and>
    stack (after_call (mpmc_breceiver_try_recv solo) q) = stack q \<and>
    reg_lists (after_call (mpmc_breceiver_try_recv solo) q) = reg_lists q"
proof -
  have "h < h + c" using assms(1) ring_relD(5) [of c h "h + c" ms q] by (simp add: cap_ok_def)
  from mpmc.try_recv_some [OF conjunct1 [OF assms(1)] conjunct2 [OF assms(1)] this live_solo, of 0]
  show ?thesis
    by (auto simp: mpmc_methods dest!: after_call_ret)
qed


lemma spsc_methods:
  "spsc_bsender_try_send rt m = try_send spsc_vtable rt m"
  "spsc_bsender_send rt w m = send spsc_vtable (v_is_close spsc_vtable) rt w m"
  "spsc_breceiver_try_recv rt = try_recv spsc_vtable rt"
  "spsc_breceiver_recv rt w = recv_loop spsc_vtable (v_is_close spsc_vtable) rt w Success"
  by (simp_all add: fun_eq_iff spsc_channel_defs recv_def)

lemma spsc_send_env:
  assumes "ring_rel c t t [] q \<and> spsc_cur W c t t False q" and "in_budget c (Suc t)"
  shows "(ring_rel c t (Suc t) [m] (after_call (spsc_bsender_try_send solo m) q) \<and>
      spsc_cur W c t (Suc t) False (after_call (spsc_bsender_try_send solo m) q)) \<and>
    stack (after_call (spsc_bsender_try_send solo m) q) = stack q \<and>
    reg_lists (after_call (spsc_bsender_try_send solo m) q) = reg_lists q"
proof -
  have "t < t + c" using assms(1) ring_relD(5) [of c t t "[]" q] by (simp add: cap_ok_def)
  from spsc.try_send_open [OF conjunct1 [OF assms(1)] conjunct2 [OF assms(1)] this
      in_budget_mono [OF assms(2)] live_solo, of m 0]
  show ?thesis
    by (auto simp: spsc_methods dest!: after_call_ret)
qed

lemma spsc_recv_env:
  assumes "ring_rel c h (h + c) ms q \<and> spsc_cur W c h (h + c) False q"
  shows "(ring_rel c (Suc h) (h + c) (tl ms) (after_call (spsc_breceiver_try_recv solo) q) \<and>
      spsc_cur W c (Suc h) (h + c) False (after_call (spsc_breceiver_try_recv solo) q)) \<and>
    stack (after_call (spsc_breceiver_try_recv solo) q) = stack q \<and>
    reg_lists (after_call (spsc_breceiver_try_recv solo) q) = reg_lists q"
proof -
  have "h < h + c" using assms(1) ring_relD(5) [of c h "h + c" ms q] by (simp add: cap_ok_def)
  from spsc.try_recv_some [OF conjunct1 [OF assms(1)] conjunct2 [OF assms(1)] this live_solo, of 0]
  show ?thesis
    by (auto simp: spsc_methods dest!: after_call_ret)
qed

lemma spsc_mark_env:
  assumes "ring_rel c h t ms q \<and> spsc_cur W c h t False q"
  shows "(ring_rel c h t ms (spsc_mark_closed q) \<and> spsc_cur W c h t True (spsc_mark_closed q)) \<and>
    stack (spsc_mark_closed q) = stack q \<and> reg_lists (spsc_mark_closed q) = reg_lists q"
  using assms by (auto simp: spsc_mark_closed_def spsc_cur_def ring_rel_def reg_lists_def)

section \<open>Blocking calls of the MPMC queue\<close>



text \<open>
  A sender that finds the MPMC queue full sends as soon as another thread has received a
  message, and leaves no waiter behind.
\<close>

theorem mpmc_send_woken_by_recv:
  assumes "mpmc_rel W c h (h + c) ms False q" and "fresh w q" and "open_wakers q"
    and "in_budget c (h + c)" and "live rt 0"
  shows "\<exists>k' q'. mpmc_bsender_send (meanwhile rt n (after_call (mpmc_breceiver_try_recv solo))) w m (0, q) =
      ret ((k', q'), Ok ()) \<and> mpmc_rel W c (Suc h) (Suc (h + c)) (tl ms @ [m]) False q' \<and>
      reg_lists q' = reg_lists q"
  unfolding mpmc_rel_def mpmc_methods(2)
  by (rule mpmc.send_woken_by_room [OF assms(1) [unfolded mpmc_rel_def] assms(2-4)
        meanwhile_quiet [OF live_quiet [OF assms(5)]] meanwhile_live [OF assms(5)]])
    (use mpmc_recv_env in simp_all)

lemma mpmc_one_sent:
  "\<exists>q k q'. mpmc_channel 1 = Ret q \<and> mpmc_bsender_try_send solo (m :: nat) (0, q) = ret ((k, q'), Ok ()) \<and>
     mpmc_rel () 1 0 1 [m] False q' \<and> calm q' \<and> open_wakers q'"
proof -
  obtain q :: "nat mpmc_bounded" where q: "mpmc_channel 1 = Ret q" "mpmc_rel () 1 0 0 [] False q" "calm q"
      "open_wakers q"
    using channel_new(2) [OF cap_ok_1024(2)] by (auto simp del: One_nat_def)
  have R: "ring_rel 1 0 0 [] q" "mpmc_cur () 1 0 0 False q" using q(2) by (simp_all add: mpmc_rel_def)
  have B: "(0 :: nat) < 0 + 1" "in_budget 1 0" by (simp_all add: in_budget_def)
  from mpmc.try_send_open [OF R B live_solo, of m 0] obtain k q' where
    q': "try_send mpmc_vtable solo m (0, q) = ret ((k, q'), Ok ())" "ring_rel 1 0 1 [m] q'"
      "mpmc_cur () 1 0 1 False q'" "stack q' = stack q" "reg_lists q' = reg_lists q"
      "open_wakers q' = open_wakers q" by auto
  with q show ?thesis by (auto simp: mpmc_methods mpmc_rel_def calm_def)
qed

theorem mpmc_send_woken_by_recv_witness:
  "\<exists>q k1 q1 k2 q2. mpmc_channel 1 = Ret q \<and>
     mpmc_bsender_try_send solo (7 :: nat) (0, q) = ret ((k1, q1), Ok ()) \<and>
     mpmc_bsender_send (meanwhile solo 4 (after_call (mpmc_breceiver_try_recv solo))) 0 8 (0, q1) =
       ret ((k2, q2), Ok ())"
proof -
  obtain q k1 q1 where q: "mpmc_channel 1 = Ret q"
      "mpmc_bsender_try_send solo (7 :: nat) (0, q) = ret ((k1, q1), Ok ())"
      "mpmc_rel () 1 0 1 [7] False q1" "calm q1" "open_wakers q1"
    using mpmc_one_sent by blast
  have "mpmc_rel () 1 0 (0 + 1) [7] False q1" "in_budget 1 (0 + 1)"
    using q(3) by (simp_all add: in_budget_def)
  from mpmc_send_woken_by_recv [OF this(1) calm_fresh [OF q(4)] q(5) this(2) live_solo, of 4 0 8] q(1,2)
  show ?thesis by blast
qed

section \<open>Blocking calls of the SPSC queue\<close>

text \<open>
  A receiver that finds the SPSC queue empty returns the message as soon as another thread
  has sent one, whichever pause of \<^verbatim>\<open>retry\<close> or \<^verbatim>\<open>sleep\<close> that happens in, and leaves no
  waiter behind.
\<close>

theorem spsc_recv_woken_by_send:
  assumes "spsc_rel W c t t [] False q" and "fresh w q" and "open_wakers q"
    and "in_budget c (Suc t)" and "live rt 0"
  shows "\<exists>k' q'. spsc_breceiver_recv (meanwhile rt n (after_call (spsc_bsender_try_send solo m))) w (0, q) =
      ret ((k', q'), Ok m) \<and> spsc_rel W c (Suc t) (Suc t) [] False q' \<and> reg_lists q' = reg_lists q"
  unfolding spsc_rel_def spsc_methods(4)
  by (rule spsc.recv_woken_by_arrival [OF assms(1) [unfolded spsc_rel_def] _ assms(2-4)
        meanwhile_quiet [OF live_quiet [OF assms(5)]] meanwhile_live [OF assms(5)]])
    (use spsc_send_env [OF _ assms(4)] in simp_all)

theorem spsc_recv_woken_by_send_witness:
  "\<exists>q k' q'. spsc_channel 1 = Ret q \<and>
     spsc_breceiver_recv (meanwhile solo 5 (after_call (spsc_bsender_try_send solo (7 :: nat)))) 0 (0, q) =
       ret ((k', q'), Ok 7)"
proof -
  obtain q :: "nat spsc_bounded" where q: "spsc_channel 1 = Ret q" "spsc_rel () 1 0 0 [] False q" "calm q"
      "open_wakers q"
    using channel_new(1) [OF cap_ok_1024(2)] by (auto simp del: One_nat_def)
  from spsc_recv_woken_by_send [OF q(2) calm_fresh [OF q(3)] q(4) _ live_solo, of 5 7 0] q(1)
  show ?thesis by (auto simp: in_budget_def)
qed

text \<open>
  A sender that finds the SPSC queue full sends as soon as another thread has received a
  message, and leaves no waiter behind.
\<close>

theorem spsc_send_woken_by_recv:
  assumes "spsc_rel W c h (h + c) ms False q" and "fresh w q" and "open_wakers q"
    and "in_budget c (h + c)" and "live rt 0"
  shows "\<exists>k' q'. spsc_bsender_send (meanwhile rt n (after_call (spsc_breceiver_try_recv solo))) w m (0, q) =
      ret ((k', q'), Ok ()) \<and> spsc_rel W c (Suc h) (Suc (h + c)) (tl ms @ [m]) False q' \<and>
      reg_lists q' = reg_lists q"
  unfolding spsc_rel_def spsc_methods(2)
  by (rule spsc.send_woken_by_room [OF assms(1) [unfolded spsc_rel_def] assms(2-4)
        meanwhile_quiet [OF live_quiet [OF assms(5)]] meanwhile_live [OF assms(5)]])
    (use spsc_recv_env in simp_all)

lemma spsc_one_sent:
  "\<exists>q k q'. spsc_channel 1 = Ret q \<and> spsc_bsender_try_send solo (m :: nat) (0, q) = ret ((k, q'), Ok ()) \<and>
     spsc_rel () 1 0 1 [m] False q' \<and> calm q' \<and> open_wakers q'"
proof -
  obtain q :: "nat spsc_bounded" where q: "spsc_channel 1 = Ret q" "spsc_rel () 1 0 0 [] False q" "calm q"
      "open_wakers q"
    using channel_new(1) [OF cap_ok_1024(2)] by (auto simp del: One_nat_def)
  have R: "ring_rel 1 0 0 [] q" "spsc_cur () 1 0 0 False q" using q(2) by (simp_all add: spsc_rel_def)
  have B: "(0 :: nat) < 0 + 1" "in_budget 1 0" by (simp_all add: in_budget_def)
  from spsc.try_send_open [OF R B live_solo, of m 0] obtain k q' where
    q': "try_send spsc_vtable solo m (0, q) = ret ((k, q'), Ok ())" "ring_rel 1 0 1 [m] q'"
      "spsc_cur () 1 0 1 False q'" "stack q' = stack q" "reg_lists q' = reg_lists q"
      "open_wakers q' = open_wakers q" by auto
  with q show ?thesis by (auto simp: spsc_methods spsc_rel_def calm_def)
qed

theorem spsc_send_woken_by_recv_witness:
  "\<exists>q k1 q1 k2 q2. spsc_channel 1 = Ret q \<and>
     spsc_bsender_try_send solo (7 :: nat) (0, q) = ret ((k1, q1), Ok ()) \<and>
     spsc_bsender_send (meanwhile solo 4 (after_call (spsc_breceiver_try_recv solo))) 0 8 (0, q1) =
       ret ((k2, q2), Ok ())"
proof -
  obtain q k1 q1 where q: "spsc_channel 1 = Ret q"
      "spsc_bsender_try_send solo (7 :: nat) (0, q) = ret ((k1, q1), Ok ())"
      "spsc_rel () 1 0 1 [7] False q1" "calm q1" "open_wakers q1"
    using spsc_one_sent by blast
  have "spsc_rel () 1 0 (0 + 1) [7] False q1" "in_budget 1 (0 + 1)"
    using q(3) by (simp_all add: in_budget_def)
  from spsc_send_woken_by_recv [OF this(1) calm_fresh [OF q(4)] q(5) this(2) live_solo, of 4 0 8] q(1,2)
  show ?thesis by blast
qed



text \<open>
  Nobody else is needed to be stuck: with no other thread at work, \<^verbatim>\<open>recv\<close> on an empty
  open MPMC queue and \<^verbatim>\<open>send\<close> on a full open one never return.
\<close>

theorem mpmc_blocks_alone:
  fixes q q1 :: "('a, 'z) mpmc_bounded_scheme"
  assumes "mpmc_rel W c t t [] False q" and "mpmc_rel W c h (h + c) ms False q1"
    and "fresh w q" "fresh w q1" and "in_budget c t" "in_budget c (h + c)" and "quiet rt"
  shows "diverges (mpmc_breceiver_recv rt w (k, q)) \<and> diverges (mpmc_bsender_send rt w m (k, q1))"
  unfolding mpmc_methods(2,4)
  using mpmc.recv_loop_diverges [OF assms(7,5) assms(1) [unfolded mpmc_rel_def] assms(3), of Success k]
    mpmc.send_diverges [OF assms(7,6) assms(2) [unfolded mpmc_rel_def] assms(4), of m k] by simp

theorem mpmc_blocks_alone_witness:
  "\<exists>q k1 q1. mpmc_channel 1 = Ret q \<and>
     mpmc_bsender_try_send solo (7 :: nat) (0, q) = ret ((k1, q1), Ok ()) \<and>
     diverges (mpmc_breceiver_recv solo 0 (0, q)) \<and> diverges (mpmc_bsender_send solo 0 8 (0, q1))"
proof -
  obtain q k1 q1 where q: "mpmc_channel 1 = Ret q"
      "mpmc_bsender_try_send solo (7 :: nat) (0, q) = ret ((k1, q1), Ok ())"
      "mpmc_rel () 1 0 1 [7] False q1" "calm q1" "open_wakers q1"
    using mpmc_one_sent by blast
  obtain q' :: "nat mpmc_bounded" where q': "mpmc_channel 1 = Ret q'" "mpmc_rel () 1 0 0 [] False q'"
      "calm q'" "open_wakers q'"
    using channel_new(2) [OF cap_ok_1024(2)] by (auto simp del: One_nat_def)
  with q(1) have e: "q' = q" by simp
  have "mpmc_rel () 1 0 (0 + 1) [7] False q1" "in_budget 1 (0 + 1)" "in_budget 1 0"
    using q(3) by (simp_all add: in_budget_def)
  from mpmc_blocks_alone [OF q'(2) this(1) calm_fresh [OF q'(3)] calm_fresh [OF q(4)]
      this(3,2) solo_simps(4), of 0 0 8] q(1,2)
  show ?thesis unfolding e by blast
qed

section \<open>A closed queue\<close>

fun recv_times :: "('q clocked \<Rightarrow> ('q clocked \<times> 'r) run) \<Rightarrow> nat \<Rightarrow> 'q clocked \<Rightarrow>
    ('q clocked \<times> 'r list) run" where
  "recv_times call 0 s = ret (s, [])"
| "recv_times call (Suc n) s =
     rbind (call s) (\<lambda>(s, r). rbind (recv_times call n s) (\<lambda>(s, rs). ret (s, r # rs)))"

lemma mpmc_drain:
  assumes "mpmc_rel W c h t ms True q" and "fresh w q" and "in_budget c t" and "live rt 0"
  shows "\<exists>s. recv_times (mpmc_breceiver_recv rt w) (Suc (length ms)) (k, q) =
    ret (s, map Ok ms @ [Err RecvError])"
  using assms(1,2)
proof (induction ms arbitrary: h k q)
  case Nil
  then have "h = t" using ring_relD(6,8) [of c h t "[]" q] by (simp add: mpmc_rel_def)
  with Nil mpmc.recv_loop_closed [OF _ Nil(2) assms(3), of W rt Success k] show ?case
    by (auto simp: mpmc_rel_def mpmc_methods)
next
  case (Cons m ms)
  then have lt: "h < t" using ring_relD(6,8) [of c h t "m # ms" q] by (auto simp: mpmc_rel_def)
  have L: "live rt k" using live_later [OF assms(4)] by simp
  have R: "ring_rel c h t (m # ms) q" "mpmc_cur W c h t True q"
    using Cons.prems(1) by (simp_all add: mpmc_rel_def)
  from mpmc.recv_loop_some [OF R lt L, of mpmc_is_close w Success]
  obtain k1 q1 where
    1: "mpmc_breceiver_recv rt w (k, q) = ret ((k1, q1), Ok m)" "mpmc_rel W c (Suc h) t ms True q1"
      "stack q1 = stack q"
    by (auto simp: mpmc_rel_def mpmc_methods)
  have "fresh w q1" using Cons.prems(2) 1(3) by (simp add: fresh_def)
  from Cons.IH [OF 1(2) this, of k1] 1(1) show ?case by auto
qed

text \<open>
  From a closed MPMC queue the remaining messages are still received, in order, and only then
  does \<^verbatim>\<open>recv\<close> report the closing; every \<^verbatim>\<open>send\<close> and \<^verbatim>\<open>try_send\<close> is refused with its
  message.
\<close>

theorem mpmc_closed_drains:
  assumes "mpmc_rel W c h t ms True q" and "fresh w q" and "in_budget c t" and "live rt 0"
  shows "(\<exists>s. recv_times (mpmc_breceiver_recv rt w) (Suc (length ms)) (k, q) =
      ret (s, map Ok ms @ [Err RecvError])) \<and>
    mpmc_bsender_send rt w m (k, q) = ret ((k, q), Err (SendError m)) \<and>
    mpmc_bsender_try_send rt m (k, q) = ret ((k, q), Err (Disconnected m))"
  using mpmc_drain [OF assms] assms(1,3) mpmc.send_closed [of c h t ms q W]
    mpmc.try_send_closed [of c h t ms q W]
  by (simp add: mpmc_rel_def mpmc_methods)

theorem mpmc_closed_drains_witness:
  "\<exists>q k1 q1 k2 q2 s. mpmc_channel 1 = Ret q \<and>
     mpmc_bsender_try_send solo (7 :: nat) (0, q) = ret ((k1, q1), Ok ()) \<and>
     mpmc_bsender_close solo (0, q1) = ret (k2, q2) \<and>
     recv_times (mpmc_breceiver_recv solo 0) 2 (0, q2) = ret (s, [Ok 7, Err RecvError])"
proof -
  obtain q k1 q1 where q: "mpmc_channel 1 = Ret q"
      "mpmc_bsender_try_send solo (7 :: nat) (0, q) = ret ((k1, q1), Ok ())"
      "mpmc_rel () 1 0 1 [7] False q1" "calm q1"
    using mpmc_one_sent by blast
  from mpmc.close_cur [of 1 0 1 "[7]" q1 "()" False solo 0] q(3) calm_idle [OF q(4)]
  obtain k2 q2 where q2: "mpmc_bsender_close solo (0, q1) = ret (k2, q2)"
      "mpmc_rel () 1 0 1 [7] True q2" "stack q2 = stack q1"
    by (auto simp: mpmc_rel_def mpmc_channel_defs)
  have "fresh 0 q2" "in_budget 1 1"
    using calm_fresh [OF q(4)] q2(3) by (simp_all add: fresh_def in_budget_def)
  from mpmc_closed_drains [OF q2(2) this live_solo, of 0] q(1,2) q2(1) show ?thesis
    by (fastforce simp: numeral_2_eq_2)
qed

section \<open>Construction, length, destruction\<close>

lemma channel_of_word:
  assumes "n \<le> 2 ^ 30"
  shows "cap_ok (max (unat n) 1)" and "(if (n :: u32) > 0 then n else 1) = word_of_nat (max (unat n) 1)"
proof -
  have "unat n \<le> 2 ^ 30" using assms by (simp add: word_le_nat_alt)
  then show "cap_ok (max (unat n) 1)" by (simp add: cap_ok_def)
  show "(if n > 0 then n else 1) = word_of_nat (max (unat n) 1)"
  proof (cases "n = 0")
    case False
    then have "unat n \<ge> 1" using unat_gt_0 [of n] by linarith
    with False show ?thesis by (simp add: max_def word_gt_0)
  qed simp
qed

lemma bounded_new_max:
  assumes "n \<le> 2 ^ 30"
  shows "spsc_bounded_new n = spsc_bounded_new (word_of_nat (max (unat n) 1))"
    and "mpmc_bounded_new n = mpmc_bounded_new (word_of_nat (max (unat n) 1))"
  using channel_of_word(2) [OF assms] assms
  by (auto simp: spsc_bounded_new_def mpmc_bounded_new_def Let_def word_gt_0 split: if_splits)

text \<open>
  The constructors panic for a capacity above \<open>2^30\<close>, and otherwise make an empty open
  queue, of capacity one when zero is asked for.
\<close>

theorem channel_construction:
  "if n > 2 ^ 30 then spsc_channel n = Panic \<and> mpmc_channel n = Panic
   else (\<exists>q. spsc_channel n = Ret q \<and> spsc_rel () (max (unat n) 1) 0 0 [] False q) \<and>
        (\<exists>q. mpmc_channel n = Ret q \<and> mpmc_rel () (max (unat n) 1) 0 0 [] False q)"
proof (cases "n > 2 ^ 30")
  case True
  then show ?thesis
    by (auto simp: spsc_channel_def mpmc_channel_def spsc_bounded_new_def mpmc_bounded_new_def not_le)
next
  case False
  then have n: "n \<le> 2 ^ 30" by simp
  show ?thesis
    using False channel_new [OF channel_of_word(1) [OF n]] bounded_new_max [OF n]
    unfolding spsc_channel_def mpmc_channel_def by metis
qed

text \<open>
  A queue of capacity zero takes a message with no receiver in sight, although its
  documentation says that a send then waits for a receiver to pair up with.
\<close>

theorem zero_capacity_buffers:
  fixes m :: 'a
  shows "\<exists>q k q'. mpmc_channel 0 = Ret q \<and> mpmc_bsender_try_send solo m (0, q) = ret ((k, q'), Ok ()) \<and>
     mpmc_rel () 1 0 1 [m] False q'"
proof -
  obtain q :: "'a mpmc_bounded" where q: "mpmc_channel 0 = Ret q" "mpmc_rel () 1 0 0 [] False q"
  proof -
    have "(mpmc_channel 0 :: 'a mpmc_bounded outcome) = mpmc_channel 1"
      by (simp add: mpmc_channel_def mpmc_bounded_new_def Let_def word_le_nat_alt)
    then show ?thesis using that channel_new(2) [OF cap_ok_1024(2)] by (auto simp del: One_nat_def)
  qed
  have R: "ring_rel 1 0 0 [] q" "mpmc_cur () 1 0 0 False q" using q(2) by (simp_all add: mpmc_rel_def)
  have B: "(0 :: nat) < 0 + 1" "in_budget 1 0" by (simp_all add: in_budget_def)
  from mpmc.try_send_open [OF R B live_solo, of m 0] q(1) show ?thesis
    by (auto simp: mpmc_methods mpmc_rel_def)
qed

lemma window_length:
  fixes h t c :: nat
  assumes "h \<le> t" and "t \<le> h + c" and "0 < c"
  shows "(if h mod c < t mod c then t mod c - h mod c + 1 else c - h mod c + t mod c) =
    (if h mod c < t mod c then t - h + 1 else if t = h then c else t - h)"
proof -
  have h: "h = c * (h div c) + h mod c" and t: "t = c * (t div c) + t mod c" by simp_all
  have l: "h mod c < c" "t mod c < c" using assms(3) by simp_all
  have "h div c \<le> t div c" using assms(1) by (rule div_le_mono)
  moreover have "t div c \<le> Suc (h div c)"
    using div_le_mono [OF assms(2), of c] assms(3) by (simp add: div_add_self2)
  ultimately consider "t div c = h div c" | "t div c = Suc (h div c)" by linarith
  then show ?thesis
  proof cases
    case 1
    then have "t - h = t mod c - h mod c" "h mod c \<le> t mod c" using h t assms(1) by (metis add_diff_cancel_left, metis nat_add_left_cancel_le)
    then show ?thesis using l assms(1) by auto
  next
    case 2
    then have "c * (t div c) = c * (h div c) + c" by simp
    then have "t - h = c + t mod c - h mod c" "t mod c \<le> h mod c"
      using h t assms(2) l by linarith+
    then show ?thesis using l assms(3) by auto
  qed
qed

lemma cursor_length:
  assumes "cap_ok c" and "h \<le> t" and "t \<le> h + c"
    and "hd_i = word_of_nat (h mod c)" and "tl_i = word_of_nat (t mod c)"
  shows "unat (if (tl_i :: u32) > hd_i then tl_i - hd_i + 1 else word_of_nat c - hd_i + tl_i) =
    (if h mod c < t mod c then t - h + 1 else if t = h then c else t - h)"
proof -
  have c: "0 < c" "c \<le> 1073741824" using cap_okD [OF assms(1)] by simp_all
  have u: "unat hd_i = h mod c" "unat tl_i = t mod c" using assms by simp_all
  have uc: "unat (word_of_nat c :: u32) = c"
    using c by (simp add: unsigned_of_nat take_bit_nat_eq_self)
  have l: "h mod c < c" "t mod c < c" using c by simp_all
  have "unat (if tl_i > hd_i then tl_i - hd_i + 1 else word_of_nat c - hd_i + tl_i) =
      (if h mod c < t mod c then t mod c - h mod c + 1 else c - h mod c + t mod c)"
  proof (cases "h mod c < t mod c")
    case True
    then have "unat (tl_i - hd_i) = t mod c - h mod c"
      using u by (simp add: unat_sub word_le_nat_alt)
    moreover have "Suc (t mod c - h mod c) < 4294967296" using l c by linarith
    ultimately show ?thesis using True u by (simp add: word_less_nat_alt unat_word_ariths)
  next
    case False
    have "unat (word_of_nat c - hd_i) = c - h mod c"
      using u uc l by (simp add: unat_sub word_le_nat_alt)
    moreover have "c - h mod c + t mod c < 4294967296" using l c by linarith
    ultimately show ?thesis using False u by (simp add: word_less_nat_alt unat_word_ariths)
  qed
  then show ?thesis using window_length [OF assms(2,3) c(1)] by simp
qed

text \<open>
  What \<^verbatim>\<open>length\<close> returns: one message too many while the write index is above the read
  index, the capacity for an empty queue, and the number of messages only when the write index has
  wrapped around.
\<close>

theorem length_value:
  assumes "mpmc_rel W c h t ms b q" and "spsc_rel W c h t ms b q1"
  shows "unat (mpmc_bsender_length q) =
      (if h mod c < t mod c then length ms + 1 else if ms = [] then c else length ms) \<and>
    unat (spsc_bsender_length q1) =
      (if h mod c < t mod c then length ms + 1 else if ms = [] then c else length ms)"
proof -
  have R: "ring_rel c h t ms q" "ring_rel c h t ms q1" using assms by (simp_all add: mpmc_rel_def spsc_rel_def)
  note D = ring_relD [OF R(1)]
  have l: "length ms = t - h" "ms = [] \<longleftrightarrow> t = h" using D(6,8) by auto
  have i: "meta_idx (mp_read_meta q) = word_of_nat (h mod c)" "meta_idx (mp_write_meta q) = word_of_nat (t mod c)"
    "meta_idx (read_meta q1) = word_of_nat (h mod c)" "meta_idx (write_meta q1) = word_of_nat (t mod c)"
    using assms
    by (auto simp: mpmc_rel_def spsc_rel_def mpmc_cur_def spsc_cur_def write_cursor_def read_cursor_def)
  have "unat (mpmc_length q) = (if h mod c < t mod c then t - h + 1 else if t = h then c else t - h)"
    "unat (spsc_length q1) = (if h mod c < t mod c then t - h + 1 else if t = h then c else t - h)"
    unfolding mpmc_length_def spsc_length_def Let_def D(2) ring_relD(2) [OF R(2)]
    using cursor_length [OF D(5-7) i(1,2)] cursor_length [OF D(5-7) i(3,4)] by blast+
  then show ?thesis
    unfolding mpmc_channel_defs spsc_channel_defs l by simp
qed

theorem length_value_witness:
  "\<exists>q q1. mpmc_channel 8 = Ret q \<and> spsc_channel 8 = Ret (q1 :: nat spsc_bounded) \<and>
     unat (mpmc_bsender_length (q :: nat mpmc_bounded)) = 8 \<and> unat (spsc_bsender_length q1) = 8"
proof -
  have "cap_ok 8" by (simp add: cap_ok_def)
  from channel_new [OF this] obtain q :: "nat mpmc_bounded" and q1 :: "nat spsc_bounded" where
    "mpmc_channel 8 = Ret q" "mpmc_rel () 8 0 0 [] False q"
    "spsc_channel 8 = Ret q1" "spsc_rel () 8 0 0 [] False q1" by auto
  with length_value [of "()" 8 0 0 "[]" False q q1] show ?thesis by auto
qed

text \<open>
  C39: dropping a queue drops every bucket: undefined behaviour while some bucket was never
  written, and otherwise all \<^term>\<open>c\<close> of them, though only the messages that were not received
  are still the queue's to drop.
\<close>

theorem drop_buffer:
  assumes "mpmc_rel W c h t ms b q"
  shows "if t < c then elems_drop (buffer q) = Undef
    else \<exists>ds. elems_drop (buffer q) = Ret ds \<and> length ds = c"
proof (cases "t < c")
  case True
  have "slots c h t ms (buffer q)" using assms by (simp add: mpmc_rel_def ring_rel_def)
  from slots_msg_None_iff [OF this] True show ?thesis
    by (simp add: elems_drop_Undef_iff)
next
  case False
  have S: "slots c h t ms (buffer q)" using assms by (simp add: mpmc_rel_def ring_rel_def)
  from slots_msg_None_iff [OF S] False have "\<forall>e\<in>set (buffer q). msg e \<noteq> None" by auto
  then have "map msg (buffer q) = map Some (map (the \<circ> msg) (buffer q))" by simp
  then show ?thesis
    using False slotsD(2) [OF S] by (metis elems_drop_Ret_iff length_map)
qed

theorem drop_buffer_witness:
  "\<exists>q :: nat mpmc_bounded. mpmc_channel 8 = Ret q \<and> elems_drop (buffer q) = Undef"
proof -
  have "cap_ok 8" by (simp add: cap_ok_def)
  from channel_new(2) [OF this] obtain q :: "nat mpmc_bounded" where
    "mpmc_channel 8 = Ret q" "mpmc_rel () 8 0 0 [] False q" by auto
  with drop_buffer [of "()" 8 0 0 "[]" False q] show ?thesis by auto
qed

section \<open>Laps that run out\<close>

lemma queue_run_append:
  "queue_run vt rt s (xs @ ys) =
     rbind (queue_run vt rt s xs) (\<lambda>(s, as). rbind (queue_run vt rt s ys) (\<lambda>(s, bs). ret (s, as @ bs)))"
proof (induction xs arbitrary: s)
  case Nil
  then show ?case by (simp add: rbind_id split_beta)
next
  case (Cons x xs)
  then show ?case by (simp add: rbind_assoc case_prod_unfold)
qed

text \<open>\<^term>\<open>n\<close> times one message in and out.\<close>

abbreviation pairs :: "nat \<Rightarrow> 'a \<Rightarrow> 'a op list" where
  "pairs n m \<equiv> concat (replicate n [Try_Send m, Try_Recv])"

abbreviation pair_answers :: "nat \<Rightarrow> 'a \<Rightarrow> 'a answer list" where
  "pair_answers n m \<equiv> concat (replicate n [Sent (Ok ()), Received (Ok m)])"

lemma pairs_Suc: "pairs (Suc n) m = pairs n m @ [Try_Send m, Try_Recv]"
  "pair_answers (Suc n) m = pair_answers n m @ [Sent (Ok ()), Received (Ok m)]"
  by (induction n) simp_all

lemma mpmc_pairs:
  assumes "mpmc_rel W c 0 0 [] False q" and "n \<le> 2 ^ 30 * c"
  shows "\<exists>k q'. queue_run mpmc_vtable solo (0, q) (pairs n m) = ret ((k, q'), pair_answers n m) \<and>
    mpmc_rel W c n n [] False q'"
  using assms(2)
proof (induction n)
  case 0
  then show ?case using assms(1) by simp
next
  case (Suc n)
  then obtain k q' where 1: "queue_run mpmc_vtable solo (0, q) (pairs n m) = ret ((k, q'), pair_answers n m)"
    "ring_rel c n n [] q'" "mpmc_cur W c n n False q'" by (auto simp: mpmc_rel_def)
  have c: "0 < c" using ring_relD(5) [OF 1(2)] by (simp add: cap_ok_def)
  have B: "n < n + c" "in_budget c n" using Suc.prems c by (simp_all add: in_budget_iff)
  from mpmc.try_send_open [OF 1(2,3) B live_solo, of m k] obtain k2 q2 where
    2: "try_send mpmc_vtable solo m (k, q') = ret ((k2, q2), Ok ())" "ring_rel c n (Suc n) [m] q2"
      "mpmc_cur W c n (Suc n) False q2" by auto
  from mpmc.try_recv_some [OF 2(2,3) lessI live_solo, of k2] obtain k3 q3 where
    3: "try_recv mpmc_vtable solo (k2, q2) = ret ((k3, q3), Ok m)" "ring_rel c (Suc n) (Suc n) [] q3"
      "mpmc_cur W c (Suc n) (Suc n) False q3" by auto
  show ?case
    unfolding pairs_Suc queue_run_append using 1(1) 2(1) 3 by (simp add: mpmc_rel_def)
qed

text \<open>
  C40: after \<open>2^30 * c\<close> messages went in and out of an MPMC queue of capacity \<^term>\<open>c\<close>, the
  lap of the write cursor reaches the bit that marks a closed queue: the queue reports itself
  closed and refuses every message, though nobody closed it.
\<close>

theorem mpmc_lap_overflow:
  fixes m :: 'a
  assumes "0 < c" and "c \<le> 2 ^ 30"
  shows "\<exists>q k q'. mpmc_channel (word_of_nat c) = Ret q \<and>
    queue_run mpmc_vtable solo (0, q) (pairs (2 ^ 30 * c) m) = ret ((k, q'), pair_answers (2 ^ 30 * c) m) \<and>
    mpmc_bsender_is_close q' \<and>
    (\<forall>rt k. mpmc_bsender_try_send rt m (k, q') = ret ((k, q'), Err (Disconnected m)))"
proof -
  have c: "cap_ok c" using assms by (simp add: cap_ok_def)
  let ?t = "2 ^ 30 * c"
  obtain q :: "'a mpmc_bounded" where q: "mpmc_channel (word_of_nat c) = Ret q" "mpmc_rel () c 0 0 [] False q"
    using channel_new(2) [OF c] by blast
  from mpmc_pairs [OF q(2) le_refl, of m] obtain k q' where
    1: "queue_run mpmc_vtable solo (0, q) (pairs ?t m) = ret ((k, q'), pair_answers ?t m)"
      "ring_rel c ?t ?t [] q'" "mpmc_cur () c ?t ?t False q'"
    unfolding mpmc_rel_def by blast
  have "?t div c = 2 ^ 30" using assms(1) by simp
  then have "unat (tkt_lap c ?t) = 2147483648" by (simp add: unat_tkt_lap)
  then have b: "bit (write_cursor c ?t) 63" by (simp add: write_cursor_bit)
  have m: "mp_write_meta q' = write_cursor c ?t" using 1(3) by (simp add: mpmc_cur_def)
  have "write_cursor c ?t OR MPMC_MASK_64 = write_cursor c ?t" by (rule or_mask_absorb [OF b])
  then have "mpmc_cur () c ?t ?t True q'" using 1(3) by (simp add: mpmc_cur_def)
  from mpmc_select_send_closed [OF 1(2) this]
  have "mpmc_bsender_try_send rt m (k, q') = ret ((k, q'), Err (Disconnected m))" for rt k
    by (simp add: mpmc_methods try_send_def)
  moreover have "mpmc_bsender_is_close q'"
    using b m by (simp add: mpmc_channel_defs mpmc_is_close_def and_mask_64_iff)
  ultimately show ?thesis using q(1) 1(1) by blast
qed

theorem mpmc_lap_overflow_witness:
  "\<exists>q k q'. mpmc_channel (word_of_nat 1) = Ret q \<and>
    queue_run mpmc_vtable solo (0, q) (pairs (2 ^ 30 * 1) (7 :: nat)) =
      ret ((k, q'), pair_answers (2 ^ 30 * 1) 7) \<and>
    mpmc_bsender_is_close q'"
proof -
  have "0 < (1 :: nat)" "(1 :: nat) \<le> 2 ^ 30" by simp_all
  from mpmc_lap_overflow [OF this, of 7] show ?thesis by blast
qed

text \<open>The SPSC queue takes messages in every lap, but cannot tell that it is full in lap zero.\<close>

lemma spsc_try_send_any:
  assumes "spsc_rel W c h t ms False q" and "t < h + c"
  shows "\<exists>q'. try_send spsc_vtable rt m (k, q) = ret ((k, q'), Ok ()) \<and>
    spsc_rel W c h (Suc t) (ms @ [m]) False q'"
proof -
  have R: "ring_rel c h t ms q" and C: "spsc_cur W c h t False q"
    using assms(1) by (simp_all add: spsc_rel_def)
  let ?q = "q\<lparr>write_meta := write_cursor c (Suc t)\<rparr>"
  have R1: "ring_rel c h t ms ?q" by (rule ring_rel_same [OF R]) (simp add: same_ring_iff)
  have C1: "spsc_cur W c h (Suc t) False ?q" using C by (simp add: spsc_cur_def)
  from ring_rel_write [OF R1 assms(2), of m] obtain q2 wk wo where
    2: "wake_one_reader_if_any (upd_elem (t mod c) (elem_write (tkt_lap c t + 1) m) ?q) = Ret q2"
      "ring_rel c h (Suc t) (ms @ [m]) q2"
      "q2 = ?q\<lparr>buffer := buffer q2, read_waker := wk, woken := wo\<rparr>" by metis
  have "spsc_cur W c h (Suc t) False q2"
    using C1 spsc.cur_wrote [OF 2(3)] by blast
  then show ?thesis
    using spsc_select_send_cases(1) [OF R C assms(2), of rt k] 2(1,2)
    by (simp add: try_send_def spsc_rel_def)
qed

lemma spsc_pairs:
  assumes "spsc_rel W c 0 0 [] False q"
  shows "\<exists>k q'. queue_run spsc_vtable solo (0, q) (pairs n m) = ret ((k, q'), pair_answers n m) \<and>
    spsc_rel W c n n [] False q'"
proof (induction n)
  case 0
  then show ?case using assms by simp
next
  case (Suc n)
  then obtain k q' where 1: "queue_run spsc_vtable solo (0, q) (pairs n m) = ret ((k, q'), pair_answers n m)"
    "spsc_rel W c n n [] False q'" by blast
  have "n < n + c" using 1(2) ring_relD(5) [of c n n "[]" q'] by (simp add: spsc_rel_def cap_ok_def)
  from spsc_try_send_any [OF 1(2) this, of solo m k] obtain q2 where
    2: "try_send spsc_vtable solo m (k, q') = ret ((k, q2), Ok ())" "ring_rel c n (Suc n) [m] q2"
      "spsc_cur W c n (Suc n) False q2" by (auto simp: spsc_rel_def)
  from spsc.try_recv_some [OF 2(2,3) lessI live_solo, of k] obtain k3 q3 where
    3: "try_recv spsc_vtable solo (k, q2) = ret ((k3, q3), Ok m)" "ring_rel c (Suc n) (Suc n) [] q3"
      "spsc_cur W c (Suc n) (Suc n) False q3" by auto
  show ?case
    unfolding pairs_Suc queue_run_append using 1(1) 2(1) 3 by (simp add: spsc_rel_def)
qed

lemma spsc_fill:
  assumes "spsc_rel W c h t ms False q" and "t + n \<le> h + c"
  shows "\<exists>q'. queue_run spsc_vtable solo (k, q) (replicate n (Try_Send m)) =
      ret ((k, q'), replicate n (Sent (Ok ()))) \<and>
    spsc_rel W c h (t + n) (ms @ replicate n m) False q'"
  using assms
proof (induction n arbitrary: t ms q)
  case 0
  then show ?case by simp
next
  case (Suc n)
  then have "t < h + c" by simp
  from spsc_try_send_any [OF Suc.prems(1) this, of solo m k] obtain q2 where
    2: "try_send spsc_vtable solo m (k, q) = ret ((k, q2), Ok ())"
      "spsc_rel W c h (Suc t) (ms @ [m]) False q2" by blast
  from Suc.IH [OF 2(2)] Suc.prems(2) 2(1) show ?case by auto
qed

lemma spsc_spins:
  assumes "spsc_rel W c h (h + c) ms False q" and "tkt_lap c (h + c) = 0" and "quiet rt"
  shows "diverges (spsc_select_send rt (k, q))"
proof (rule ccontr)
  let ?M = "write_cursor c (h + c)"
  have R: "ring_rel c h (h + c) ms q" and C: "spsc_cur W c h (h + c) False q"
    using assms(1) by (simp_all add: spsc_rel_def)
  have eq: "spsc_select_send rt (k, q) = spsc_send_loop rt ?M (Suc k, q)" for k
    using spsc_select_send_cases(3) [OF R C refl assms(2), of rt k] assms(3) by simp
  have wm: "write_meta q = ?M" "\<not> closed_flag q" using C by (simp_all add: spsc_cur_def)
  have lp: "lap (buffer q ! ((h + c) mod c)) = - 1"
    using slots_full [OF ring_relD(1) [OF R] refl] assms(2) by simp
  have i: "(h + c) mod c < length (buffer q)" by (rule slots_in [OF ring_relD(1) [OF R]])
  have mi: "unat (meta_idx ?M) = (h + c) mod c" "meta_lap ?M = 0"
    using ring_relD(5) [OF R] assms(2) by (simp_all add: write_cursor_def del: mod_add_self2)
  have less: "cmp 0 (- 1) = Less" by (simp add: cmp_def word_gt_0)
  assume "spsc_select_send rt (k, q) \<noteq> None"
  then obtain r where "spsc_send_loop rt ?M (Suc k, q) = Some r" using eq by auto
  then have "\<not> (quiet rt \<and> ?M = ?M \<and> snd (Suc k, q) = q)"
  proof (rule spsc_send_loop.raw_induct [where
        P = "\<lambda>rt meta s r. \<not> (quiet rt \<and> meta = ?M \<and> snd s = q)", rotated], goal_cases)
    case (1 f rt meta s r)
    show ?case
    proof
      assume Q: "quiet rt \<and> meta = ?M \<and> snd s = q"
      with 1(2) i mi lp wm less have "f rt meta (pause rt (fst s, q)) = Some r"
        by (simp add: Let_def load_lap_def)
      from 1(1) [OF this] Q show False by simp
    qed
  qed
  with assms(3) show False by simp
qed

text \<open>
  An SPSC queue of capacity \<^term>\<open>c\<close> that is full in the lap in which the 32-bit lap has
  wrapped around to zero does not answer \<^verbatim>\<open>Full\<close>: \<^verbatim>\<open>try_send\<close>, which is documented not
  to block, spins until a receiver comes. The state is reached by \<open>(2^31 - 1) * c\<close> messages that
  went in and out and \<^term>\<open>c\<close> more.
\<close>

theorem spsc_full_spins:
  fixes m :: 'a
  assumes "0 < c" and "c \<le> 2 ^ 30" and "quiet rt"
  shows "\<exists>q k q' k' q''. spsc_channel (word_of_nat c) = Ret q \<and>
    queue_run spsc_vtable solo (0, q) (pairs ((2 ^ 31 - 1) * c) m) =
      ret ((k, q'), pair_answers ((2 ^ 31 - 1) * c) m) \<and>
    queue_run spsc_vtable solo (k, q') (replicate c (Try_Send m)) =
      ret ((k', q''), replicate c (Sent (Ok ()))) \<and>
    diverges (spsc_bsender_try_send rt m (k', q''))"
proof -
  have c: "cap_ok c" using assms by (simp add: cap_ok_def)
  let ?h = "(2 ^ 31 - 1) * c"
  obtain q :: "'a spsc_bounded" where q: "spsc_channel (word_of_nat c) = Ret q" "spsc_rel () c 0 0 [] False q"
    using channel_new(1) [OF c] by blast
  from spsc_pairs [OF q(2), of ?h m] obtain k q' where
    1: "queue_run spsc_vtable solo (0, q) (pairs ?h m) = ret ((k, q'), pair_answers ?h m)"
      "spsc_rel () c ?h ?h [] False q'" by blast
  from spsc_fill [OF 1(2) le_refl, of k m] obtain q'' where
    2: "queue_run spsc_vtable solo (k, q') (replicate c (Try_Send m)) =
        ret ((k, q''), replicate c (Sent (Ok ())))" "spsc_rel () c ?h (?h + c) ([] @ replicate c m) False q''"
    by blast
  have "(?h + c) div c = 2 ^ 31" using assms(1) by (simp add: div_add_self2)
  then have "tkt_lap c (?h + c) = 0" by (simp add: tkt_lap_eq_0_iff)
  from spsc_spins [OF 2(2) this assms(3), of k] have "diverges (spsc_bsender_try_send rt m (k, q''))"
    by (simp add: spsc_methods try_send_def)
  with q(1) 1(1) 2(1) show ?thesis by blast
qed

theorem spsc_full_spins_witness:
  "\<exists>q k q' k' q''. spsc_channel (word_of_nat 1) = Ret q \<and>
    queue_run spsc_vtable solo (0, q) (pairs ((2 ^ 31 - 1) * 1) (7 :: nat)) =
      ret ((k, q'), pair_answers ((2 ^ 31 - 1) * 1) 7) \<and>
    queue_run spsc_vtable solo (k, q') (replicate 1 (Try_Send 7)) =
      ret ((k', q''), replicate 1 (Sent (Ok ()))) \<and>
    diverges (spsc_bsender_try_send solo 7 (k', q''))"
proof -
  have "0 < (1 :: nat)" "(1 :: nat) \<le> 2 ^ 30" by simp_all
  from spsc_full_spins [OF this solo_simps(4), of 7] show ?thesis by blast
qed

end
