(* ===== verification/Handle_Properties.thy ===== *)
theory Handle_Properties
  imports Handles Bounded_Properties
begin

text \<open>
  What the senders and receivers of the bounded MPMC queue promise as handles of one shared core.
\<close>

text \<open>
  C19: Clone, drop and use the handles of a new queue in any way, as long as one of them is left:
  every call is answered as the FIFO list answers it, whatever clone it is made on, and the shared
  core counts the handles that are left. So no access is to a destroyed queue, and a queue whose
  last receiver or last sender is gone is still open.
\<close>

theorem handles_share:
  assumes "0 < c" and "c \<le> 2 ^ 30" and "length (calls xs) < 2 ^ 30 * c" and "live rt 0"
    and "well_used [Sender (Mpmc_BSender p), Receiver (Mpmc_BReceiver p)] xs"
  shows "\<exists>A k' A' hs' a. mpmc_bounded_pair (word_of_nat c) p Map.empty = Ret ((Mpmc_BSender p, Mpmc_BReceiver p), A) \<and>
    handle_run rt (0, A, [Sender (Mpmc_BSender p), Receiver (Mpmc_BReceiver p)]) xs =
      ret ((k', A', hs'), snd (fifo_run c ([], False) (calls xs))) \<and>
    A' p = Some a \<and> strong a = live_after 2 xs \<and> length hs' = live_after 2 xs"
proof -
  obtain q k' q' where q: "mpmc_channel (word_of_nat c) = Ret q"
    "queue_run mpmc_vtable rt (0, q) (calls xs) = ret ((k', q'), snd (fifo_run c ([], False) (calls xs)))"
    using mpmc_run_new [OF assms(1-4)] by blast
  let ?A = "[p \<mapsto> \<lparr>strong = 2, content = q\<rparr>] :: 'a mpmc_bounded arcs"
  have pair: "mpmc_bounded_pair (word_of_nat c) p Map.empty = Ret ((Mpmc_BSender p, Mpmc_BReceiver p), ?A)"
    using q(1) by (simp add: mpmc_bounded_pair_def arc_new_def arc_clone_def numeral_2_eq_2)
  have "shares p q ?A [Sender (Mpmc_BSender p), Receiver (Mpmc_BReceiver p)]" by (simp add: shares_def)
  from handle_run_calls [OF this assms(5) q(2)] obtain A' hs' where
    r: "handle_run rt (0, ?A, [Sender (Mpmc_BSender p), Receiver (Mpmc_BReceiver p)]) xs =
      ret ((k', A', hs'), snd (fifo_run c ([], False) (calls xs)))"
    "shares p q' A' hs'" "length hs' = live_after 2 xs" by (auto simp: numeral_2_eq_2)
  show ?thesis using pair r sharesD(1) [OF r(2)] by auto
qed

text \<open>A sender is cloned, the receiver is dropped, and sends are still accepted until the queue is full.\<close>

lemma handles_share_witness:
  "\<exists>A k' A' hs' a. mpmc_bounded_pair 1 3 Map.empty = Ret ((Mpmc_BSender 3, Mpmc_BReceiver 3), A) \<and>
    handle_run solo (0, A, [Sender (Mpmc_BSender 3), Receiver (Mpmc_BReceiver 3)])
      [Clone 0, Drop 1, Call 1 (Try_Send (7 :: nat)), Drop 0, Call 0 (Try_Send 8)] =
      ret ((k', A', hs'), [Sent (Ok ()), Sent (Err (Full 8))]) \<and>
    A' 3 = Some a \<and> strong a = 1"
  using handles_share [of 1 "[Clone 0, Drop 1, Call 1 (Try_Send (7 :: nat)), Drop 0, Call 0 (Try_Send 8)]" solo 3]
  by (auto simp: remove_at_def)

end
