(* ===== verification/Cells.thy ===== *)
theory Cells
  imports Tickets
begin

text \<open>
  The buckets of a ring while calls are under way: what their laps and cells hold at each atomic
  access, for the interleaved views of both bounded queues.
\<close>

section \<open>The buckets while calls are under way\<close>

text \<open>
  The lap of a bucket counts the completed accesses to it. With \<^term>\<open>h\<close> moves of the read
  cursor and the messages \<^term>\<open>ms\<close> sent: a bucket is claimed again only after the previous
  message was read out of it; no access runs ahead of the cursors; messages claimed for reading are
  there; and a bucket on the lap of message \<^term>\<open>j\<close> holds it.
\<close>

abbreviation lapn :: "'a elem list \<Rightarrow> nat \<Rightarrow> nat" where
  "lapn buf i \<equiv> unat (lap (buf ! i))"

definition cells_ok :: "nat \<Rightarrow> nat \<Rightarrow> 'a list \<Rightarrow> 'a elem list \<Rightarrow> bool" where
  "cells_ok c h ms buf \<longleftrightarrow>
     cap_ok c \<and> length buf = c \<and> h \<le> length ms \<and> length ms \<le> h + c \<and> in_budget c (length ms) \<and>
     (\<forall>j. j + c < length ms \<longrightarrow> 2 * (j div c) + 2 \<le> lapn buf (j mod c)) \<and>
     (\<forall>j\<ge>length ms. lapn buf (j mod c) \<le> 2 * (j div c)) \<and>
     (\<forall>j\<ge>h. lapn buf (j mod c) \<le> 2 * (j div c) + 1) \<and>
     (\<forall>j<h. 2 * (j div c) + 1 \<le> lapn buf (j mod c)) \<and>
     (\<forall>j<length ms. lapn buf (j mod c) = 2 * (j div c) + 1 \<longrightarrow> msg (buf ! (j mod c)) = Some (ms ! j))"

lemma cells_okD:
  assumes "cells_ok c h ms buf"
  shows "cap_ok c" and "0 < c" and "length buf = c" and "h \<le> length ms" and "length ms \<le> h + c"
    and "in_budget c (length ms)" and "j + c < length ms \<Longrightarrow> 2 * (j div c) + 2 \<le> lapn buf (j mod c)"
    and "length ms \<le> j \<Longrightarrow> lapn buf (j mod c) \<le> 2 * (j div c)"
    and "h \<le> j \<Longrightarrow> lapn buf (j mod c) \<le> 2 * (j div c) + 1"
    and "j < h \<Longrightarrow> 2 * (j div c) + 1 \<le> lapn buf (j mod c)"
    and "j < length ms \<Longrightarrow> lapn buf (j mod c) = 2 * (j div c) + 1 \<Longrightarrow> msg (buf ! (j mod c)) = Some (ms ! j)"
  using assms by (simp_all add: cells_ok_def cap_ok_def)

lemma same_bucket:
  assumes "(j :: nat) mod c = k mod c" and "j < k"
  shows "j + c \<le> k" and "0 < c \<Longrightarrow> j div c < k div c"
proof -
  have "c dvd k - j" using assms by (metis less_imp_le_nat mod_eq_dvd_iff_nat)
  then show le: "j + c \<le> k" using assms(2) by (metis dvd_imp_le le_diff_conv2 less_imp_le_nat zero_less_diff add.commute)
  then have "(j + c) div c \<le> k div c" by (rule div_le_mono)
  then show "j div c < k div c" if "0 < c" using that by (simp add: div_add_self2)
qed

lemma same_ticket: "(j :: nat) mod c = k mod c \<Longrightarrow> j div c = k div c \<Longrightarrow> j = k"
  by (metis div_mult_mod_eq)

lemma parity: "Suc (2 * a) \<noteq> 2 * (b :: nat)" "2 * a \<noteq> Suc (2 * (b :: nat))"
  by presburger+

lemma div_minus: "0 < (c :: nat) \<Longrightarrow> c \<le> j \<Longrightarrow> Suc ((j - c) div c) = j div c"
  by (metis Suc_eq_plus1 div_add_self2 le_add_diff_inverse2 less_numeral_extra(3))

text \<open>Every message sent so far has its bucket at least on its writing lap.\<close>

lemma cells_ok_sent:
  assumes C: "cells_ok c h ms buf" and j: "j < length ms"
  shows "2 * (j div c) \<le> lapn buf (j mod c)"
proof (cases "j < c")
  case True
  then show ?thesis by simp
next
  case False
  then have "(j - c) + c < length ms" "(j - c) mod c = j mod c" "Suc ((j - c) div c) = j div c"
    using j div_minus [OF cells_okD(2) [OF C]] by (simp_all add: le_mod_geq [symmetric])
  then show ?thesis using cells_okD(7) [OF C, of "j - c"] by simp
qed

lemma cells_write_claim:
  assumes C: "cells_ok c h ms buf" and L: "2 * (length ms div c) \<le> lapn buf (length ms mod c)"
    and B: "in_budget c (Suc (length ms))"
  shows "cells_ok c h (ms @ [m]) buf"
proof -
  let ?t = "length ms"
  note D = cells_okD [OF C]
  have eq: "lapn buf (?t mod c) = 2 * (?t div c)" using D(8) [of ?t] L by simp
  have prev: "2 * (j div c) + 2 \<le> lapn buf (j mod c)" if "j + c = ?t" for j
  proof -
    have "j mod c = ?t mod c" "?t div c = Suc (j div c)"
      using that D(2) by (metis mod_add_self2, metis Suc_eq_plus1 div_add_self2 less_numeral_extra(3))
    then show ?thesis using eq by simp
  qed
  have room: "Suc ?t \<le> h + c"
  proof (cases "c \<le> ?t")
    case True
    have "\<not> h \<le> ?t - c"
      using prev [of "?t - c"] D(9) [of "?t - c"] True by auto
    then show ?thesis using True by simp
  qed simp
  have "2 * (j div c) + 2 \<le> lapn buf (j mod c)" if "j + c < Suc ?t" for j
    using that D(7) [of j] prev [of j] by (cases "j + c = ?t") auto
  moreover have "msg (buf ! (j mod c)) = Some ((ms @ [m]) ! j)"
    if "j < Suc ?t" "lapn buf (j mod c) = 2 * (j div c) + 1" for j
  proof (cases "j = ?t")
    case True
    then show ?thesis using eq that(2) by simp
  next
    case False
    with that show ?thesis using D(11) [of j] by (simp add: nth_append)
  qed
  ultimately show ?thesis
    using D room B unfolding cells_ok_def by (auto simp del: One_nat_def)
qed

lemma cells_read_claim:
  assumes C: "cells_ok c h ms buf" and L: "2 * (h div c) + 1 \<le> lapn buf (h mod c)"
  shows "cells_ok c (Suc h) ms buf" and "h < length ms" and "lapn buf (h mod c) = 2 * (h div c) + 1"
proof -
  note D = cells_okD [OF C]
  show lt: "h < length ms" using D(8) [of h] L by (cases "length ms \<le> h") auto
  show "lapn buf (h mod c) = 2 * (h div c) + 1" using D(9) [of h] L by simp
  have "2 * (j div c) + 1 \<le> lapn buf (j mod c)" if "j < Suc h" for j
    using that L D(10) [of j] by (cases "j = h") auto
  then show "cells_ok c (Suc h) ms buf"
    using D lt unfolding cells_ok_def by auto
qed

lemma cells_ok_update:
  assumes C: "cells_ok c h ms buf" and i: "k mod c = i"
    and L: "unat (lap e) = lapn buf i \<or>
      unat (lap e) = Suc (lapn buf i) \<and> (lapn buf i = 2 * (k div c) \<and> k < length ms \<or>
        lapn buf i = 2 * (k div c) + 1 \<and> k < h)"
    and M: "\<And>j. j < length ms \<Longrightarrow> j mod c = i \<Longrightarrow> unat (lap e) = 2 * (j div c) + 1 \<Longrightarrow> msg e = Some (ms ! j)"
  shows "cells_ok c h ms (buf[i := e])"
proof -
  note D = cells_okD [OF C]
  have il: "i < length buf" using i D(2,3) by auto
  have bump: "2 * (k div c) + 2 \<le> 2 * (j div c)" if "k < j" "j mod c = i" for j
    using same_bucket(2) [of k c j] that i D(2) by simp
  have "2 * (j div c) + 2 \<le> lapn (buf[i := e]) (j mod c)" if "j + c < length ms" for j
    using D(7) [OF that] L il by (auto simp: nth_list_update)
  moreover have "lapn (buf[i := e]) (j mod c) \<le> 2 * (j div c)" if "length ms \<le> j" for j
    using D(8) [OF that] L il bump [of j] that D(4) by (auto simp: nth_list_update)
  moreover have "lapn (buf[i := e]) (j mod c) \<le> 2 * (j div c) + 1" if "h \<le> j" for j
  proof (cases "j mod c = i \<and> unat (lap e) = Suc (lapn buf i)")
    case True
    then consider "lapn buf i = 2 * (k div c)" "k < length ms" | "lapn buf i = 2 * (k div c) + 1" "k < h"
      using L by auto
    then show ?thesis
    proof cases
      case 1
      have "\<not> j < k"
      proof
        assume "j < k"
        with True i have "j + c \<le> k" using same_bucket(1) [of j c k] by simp
        with 1 that D(5) show False by simp
      qed
      then have "k = j \<or> k < j" by auto
      then show ?thesis using True 1 bump [of j] il by auto
    next
      case 2
      then show ?thesis using True that bump [of j] il by auto
    qed
  next
    case False
    then show ?thesis using D(9) [OF that] L il by (auto simp: nth_list_update)
  qed
  moreover have "2 * (j div c) + 1 \<le> lapn (buf[i := e]) (j mod c)" if "j < h" for j
    using D(10) [OF that] L il by (auto simp: nth_list_update)
  moreover have "msg (buf[i := e] ! (j mod c)) = Some (ms ! j)"
    if "j < length ms" "lapn (buf[i := e]) (j mod c) = 2 * (j div c) + 1" for j
    using that D(11) [OF that(1)] M il by (cases "j mod c = i") auto
  ultimately show ?thesis
    using D unfolding cells_ok_def by simp
qed

text \<open>The buffer changes only in the bucket \<^term>\<open>x\<close>, and no lap goes back.\<close>

definition buf_later :: "nat option \<Rightarrow> 'a elem list \<Rightarrow> 'a elem list \<Rightarrow> bool" where
  "buf_later x buf buf' \<longleftrightarrow> (\<forall>i. lapn buf i \<le> lapn buf' i \<and> (Some i \<noteq> x \<longrightarrow> buf' ! i = buf ! i))"

lemma buf_later_refl [simp]: "buf_later x buf buf"
  by (simp add: buf_later_def)

lemma buf_later_update:
  assumes "lapn buf idx \<le> unat (lap e)"
  shows "buf_later (Some idx) buf (buf[idx := e])"
  unfolding buf_later_def
proof (intro allI conjI impI)
  fix k
  show "lapn buf k \<le> lapn (buf[idx := e]) k"
  proof (cases "k = idx \<and> idx < length buf")
    case False
    then have "buf[idx := e] ! k = buf ! k" by (metis list_update_beyond not_le nth_list_update_neq)
    then show ?thesis by simp
  qed (use assms in simp)
qed simp

lemma write_cursor_inject:
  assumes "cap_ok c" and "in_budget c t" and "in_budget c k"
  shows "write_cursor c t = write_cursor c k \<longleftrightarrow> t = k"
proof
  assume eq: "write_cursor c t = write_cursor c k"
  have "tkt_lap c t = tkt_lap c k" "t mod c = k mod c"
    using arg_cong [OF eq, of meta_lap] arg_cong [OF eq, of "\<lambda>x. unat (meta_idx x)"] assms(1) by simp_all
  moreover from this have "t div c = k div c"
    using unat_tkt_lap_in_budget [OF assms(2)] unat_tkt_lap_in_budget [OF assms(3)] by simp
  ultimately show "t = k" using same_ticket by blast
qed simp

lemma read_cursor_inject:
  assumes "cap_ok c" and "in_budget c t" and "in_budget c k"
  shows "read_cursor c t = read_cursor c k \<longleftrightarrow> t = k"
proof
  assume eq: "read_cursor c t = read_cursor c k"
  have "tkt_lap c t + 1 = tkt_lap c k + 1" "t mod c = k mod c"
    using arg_cong [OF eq, of meta_lap] arg_cong [OF eq, of "\<lambda>x. unat (meta_idx x)"] assms(1) by simp_all
  moreover from this have "t div c = k div c"
    using unat_tkt_lap_in_budget [OF assms(2)] unat_tkt_lap_in_budget [OF assms(3)] by simp
  ultimately show "t = k" using same_ticket by blast
qed simp

lemma cells_budget: "cells_ok c h ms buf \<Longrightarrow> t \<le> length ms \<Longrightarrow> in_budget c t"
  using cells_okD(6) in_budget_mono by blast

lemma read_bound: "cells_ok c h ms buf \<Longrightarrow> t \<le> h \<Longrightarrow> t \<le> length ms"
  using cells_okD(4) le_trans by blast

lemma lap_word: "in_budget c j \<Longrightarrow> unat (tkt_lap c j) = 2 * (j div c)"
  "in_budget c j \<Longrightarrow> unat (tkt_lap c j + 1) = 2 * (j div c) + 1"
  "in_budget c j \<Longrightarrow> unat (tkt_lap c j + 1 + 1) = 2 * (j div c) + 2"
proof -
  assume B: "in_budget c j"
  then show 1: "unat (tkt_lap c j) = 2 * (j div c)" by (rule unat_tkt_lap_in_budget)
  then show 2: "unat (tkt_lap c j + 1) = 2 * (j div c) + 1" by (simp add: unat_tkt_lap_Suc)
  have "2 * (j div c) + 1 + 1 < 4294967296" using B by (simp add: in_budget_def)
  then have "unat (tkt_lap c j + 1) + 1 < 2 ^ 32" by (simp only: 2) simp
  then have "unat (tkt_lap c j + 1 + 1) = unat (tkt_lap c j + 1) + 1"
    by (rule unat_plus_one)
  then show "unat (tkt_lap c j + 1 + 1) = 2 * (j div c) + 2" using 2 by simp
qed

end
