(* ===== verification/Mpmc_Steps.thy ===== *)
theory Mpmc_Steps
  imports Cells Mpmc_Bounded
begin

text \<open>
  The non-blocking calls of \<^verbatim>\<open>MpmcBounded\<close> cut at their atomic accesses (\<^verbatim>\<open>try_send\<close>,
  \<^verbatim>\<open>try_recv\<close> and \<^verbatim>\<open>close\<close> of \<^verbatim>\<open>src/src/queue/bounded.rs\<close>), as steps of any number of
  threads that interleave in any order. Nobody waits here, so the wakers stay empty. Accesses are
  sequentially consistent.
\<close>

section \<open>The steps\<close>

text \<open>
  Where a thread is: before the load of the cursor; at the top of the loop with the cursor it
  loaded; before the second load of the lap; before the exchange; before the access to the
  message cell; before the store of the lap; before the wake-up; at the end with the answer.
  \<^verbatim>\<open>S\<close> is \<^verbatim>\<open>try_send\<close>, \<^verbatim>\<open>R\<close> is \<^verbatim>\<open>try_recv\<close>, \<^verbatim>\<open>K\<close> is \<^verbatim>\<open>close\<close>; \<^verbatim>\<open>Dead\<close> is
  undefined behaviour.
\<close>

datatype 'a mp_pc =
    Out
  | S_Load 'a | S_Top u64 'a | S_Again u64 u32 'a | S_Cas u64 u32 'a | S_Write nat u32 'a
  | S_Store nat u32 'a | S_Wake | S_End "(unit, 'a try_send_error) result"
  | R_Load | R_Top u64 | R_Again u64 u32 | R_Cas u64 u32 | R_Read nat u32
  | R_Store nat u32 'a | R_Wake 'a | R_End "('a, try_recv_error) result"
  | K_Load | K_Cas u64 | K_Wake | K_End
  | Dead

text \<open>
  \<^term>\<open>sent\<close>, \<^term>\<open>taken\<close> and \<^term>\<open>reads\<close> are the history: the messages in the order in
  which their senders moved the write cursor, the number of moves of the read cursor, and what
  the receivers read, with the number of the move.
\<close>

record 'a mp_sys =
  core :: "'a mpmc_bounded"
  mp_pcs :: "nat \<Rightarrow> 'a mp_pc"
  sent :: "'a list"
  taken :: nat
  reads :: "(nat \<times> 'a) list"

datatype 'a mp_action = Call_Send 'a | Call_Recv | Call_Close | Step bool

definition mp_goto :: "nat \<Rightarrow> 'a mp_pc \<Rightarrow> 'a mp_sys \<Rightarrow> 'a mp_sys" where
  "mp_goto i pc s = s\<lparr>mp_pcs := (mp_pcs s)(i := pc)\<rparr>"

definition on_core :: "('a mpmc_bounded \<Rightarrow> 'a mpmc_bounded) \<Rightarrow> 'a mp_sys \<Rightarrow> 'a mp_sys" where
  "on_core f s = s\<lparr>core := f (core s)\<rparr>"

text \<open>The number of the message that goes through bucket \<^term>\<open>idx\<close> while its lap is \<^term>\<open>l\<close>.\<close>

definition ticket :: "'a mpmc_bounded \<Rightarrow> nat \<Rightarrow> u32 \<Rightarrow> nat" where
  "ticket q idx l = unat (capacity q) * (unat l div 2) + idx"

definition outcome_pc :: "'b outcome \<Rightarrow> ('b \<Rightarrow> 'a mp_pc) \<Rightarrow> 'a mp_pc" where
  "outcome_pc r f = (case r of Ret x \<Rightarrow> f x | _ \<Rightarrow> Dead)"

text \<open>
  One atomic access of thread \<^term>\<open>i\<close> in \<^verbatim>\<open>try_send\<close>; \<^term>\<open>sp\<close> says that an exchange
  fails spuriously. The write cursor is moved less than \<open>2^30 * c\<close> times.
\<close>

fun mp_send_next :: "nat \<Rightarrow> bool \<Rightarrow> 'a mp_pc \<Rightarrow> 'a mp_sys \<Rightarrow> 'a mp_sys option" where
  "mp_send_next i sp (S_Load m) s = Some (mp_goto i (S_Top (mp_write_meta (core s)) m) s)"
| "mp_send_next i sp (S_Top meta m) s =
     Some (mp_goto i (outcome_pc (get_unchecked (buffer (core s)) (unat (meta_idx meta))) (\<lambda>e.
       if meta_lap meta \<ge> MPMC_MASK_32 then S_End (Err (Disconnected m))
       else case cmp (meta_lap meta) (load_lap e) of
           Equal \<Rightarrow> S_Cas meta (load_lap e) m
         | Greater \<Rightarrow> S_Again meta (load_lap e) m
         | Less \<Rightarrow> S_Load m)) s)"
| "mp_send_next i sp (S_Again meta l m) s =
     Some (mp_goto i (outcome_pc (get_unchecked (buffer (core s)) (unat (meta_idx meta))) (\<lambda>e.
       if meta_lap meta > load_lap e then S_End (Err (Full m)) else S_Load m)) s)"
| "mp_send_next i sp (S_Cas meta l m) s =
     (if mp_write_meta (core s) = meta \<and> \<not> sp then
        if in_budget (unat (capacity (core s))) (Suc (length (sent s))) then
          Some (mp_goto i (S_Write (unat (meta_idx meta)) l m)
            (on_core (\<lambda>q. q\<lparr>mp_write_meta := next_meta (capacity q) meta\<rparr>) (s\<lparr>sent := sent s @ [m]\<rparr>)))
        else None
      else Some (mp_goto i (S_Top (mp_write_meta (core s)) m) s))"
| "mp_send_next i sp (S_Write idx l m) s =
     Some (mp_goto i (S_Store idx l m) (on_core (upd_elem idx (\<lambda>e. e\<lparr>msg := Some m\<rparr>)) s))"
| "mp_send_next i sp (S_Store idx l m) s =
     Some (mp_goto i S_Wake (on_core (upd_elem idx (\<lambda>e. e\<lparr>lap := l + 1\<rparr>)) s))"
| "mp_send_next i sp S_Wake s =
     (case wake_one_reader_if_any (core s) of
        Ret q \<Rightarrow> Some (mp_goto i (S_End (Ok ())) (s\<lparr>core := q\<rparr>))
      | _ \<Rightarrow> Some (mp_goto i Dead s))"
| "mp_send_next i sp (S_End r) s = Some (mp_goto i Out s)"
| "mp_send_next i sp _ s = None"

text \<open>One atomic access in \<^verbatim>\<open>try_recv\<close>.\<close>

fun mp_recv_next :: "nat \<Rightarrow> bool \<Rightarrow> 'a mp_pc \<Rightarrow> 'a mp_sys \<Rightarrow> 'a mp_sys option" where
  "mp_recv_next i sp R_Load s = Some (mp_goto i (R_Top (mp_read_meta (core s))) s)"
| "mp_recv_next i sp (R_Top meta) s =
     Some (mp_goto i (outcome_pc (get_unchecked (buffer (core s)) (unat (meta_idx meta))) (\<lambda>e.
       case cmp (meta_lap meta) (load_lap e) of
           Equal \<Rightarrow> R_Cas meta (load_lap e)
         | Greater \<Rightarrow> R_Again meta (load_lap e)
         | Less \<Rightarrow> R_Load)) s)"
| "mp_recv_next i sp (R_Again meta l) s =
     Some (mp_goto i (outcome_pc (get_unchecked (buffer (core s)) (unat (meta_idx meta))) (\<lambda>e.
       if meta_lap meta > load_lap e then R_End (Err TryRecvError) else R_Load)) s)"
| "mp_recv_next i sp (R_Cas meta l) s =
     (if mp_read_meta (core s) = meta \<and> \<not> sp then
        Some (mp_goto i (R_Read (unat (meta_idx meta)) l)
          (on_core (\<lambda>q. q\<lparr>mp_read_meta := next_meta (capacity q) meta\<rparr>) (s\<lparr>taken := Suc (taken s)\<rparr>)))
      else Some (mp_goto i (R_Top (mp_read_meta (core s))) s))"
| "mp_recv_next i sp (R_Read idx l) s =
     (case msg (buffer (core s) ! idx) of
        Some m \<Rightarrow> Some (mp_goto i (R_Store idx l m) (s\<lparr>reads := reads s @ [(ticket (core s) idx l, m)]\<rparr>))
      | None \<Rightarrow> Some (mp_goto i Dead s))"
| "mp_recv_next i sp (R_Store idx l m) s =
     Some (mp_goto i (R_Wake m) (on_core (upd_elem idx (\<lambda>e. e\<lparr>lap := l + 1\<rparr>)) s))"
| "mp_recv_next i sp (R_Wake m) s =
     (case wake_one_writer_if_any (core s) of
        Ret q \<Rightarrow> Some (mp_goto i (R_End (Ok m)) (s\<lparr>core := q\<rparr>))
      | _ \<Rightarrow> Some (mp_goto i Dead s))"
| "mp_recv_next i sp (R_End r) s = Some (mp_goto i Out s)"
| "mp_recv_next i sp _ s = None"

text \<open>
  One atomic access in \<^verbatim>\<open>close\<close>. Nobody is registered with the wakers, so their
  \<^verbatim>\<open>close\<close> finds them empty.
\<close>

fun mp_close_next :: "nat \<Rightarrow> bool \<Rightarrow> 'a mp_pc \<Rightarrow> 'a mp_sys \<Rightarrow> 'a mp_sys option" where
  "mp_close_next i sp K_Load s =
     Some (mp_goto i (if mp_write_meta (core s) AND MPMC_MASK_64 \<noteq> 0 then K_End
                      else K_Cas (mp_write_meta (core s))) s)"
| "mp_close_next i sp (K_Cas meta) s =
     (if mp_write_meta (core s) = meta \<and> \<not> sp
      then Some (mp_goto i K_Wake (on_core (\<lambda>q. q\<lparr>mp_write_meta := meta OR MPMC_MASK_64\<rparr>) s))
      else Some (mp_goto i (K_Cas (mp_write_meta (core s))) s))"
| "mp_close_next i sp K_Wake s =
     (if md_is_empty (guard (write_waker (core s))) \<and> md_is_empty (guard (read_waker (core s)))
      then Some (mp_goto i K_End (on_core (\<lambda>q. q\<lparr>write_waker := (write_waker q)\<lparr>empty_flag := True\<rparr>,
             read_waker := (read_waker q)\<lparr>empty_flag := True\<rparr>\<rparr>) s))
      else None)"
| "mp_close_next i sp K_End s = Some (mp_goto i Out s)"
| "mp_close_next i sp _ s = None"

fun mp_next :: "nat \<Rightarrow> bool \<Rightarrow> 'a mp_pc \<Rightarrow> 'a mp_sys \<Rightarrow> 'a mp_sys option" where
  "mp_next i sp (S_Load m) s = mp_send_next i sp (S_Load m) s"
| "mp_next i sp (S_Top meta m) s = mp_send_next i sp (S_Top meta m) s"
| "mp_next i sp (S_Again meta l m) s = mp_send_next i sp (S_Again meta l m) s"
| "mp_next i sp (S_Cas meta l m) s = mp_send_next i sp (S_Cas meta l m) s"
| "mp_next i sp (S_Write idx l m) s = mp_send_next i sp (S_Write idx l m) s"
| "mp_next i sp (S_Store idx l m) s = mp_send_next i sp (S_Store idx l m) s"
| "mp_next i sp S_Wake s = mp_send_next i sp S_Wake s"
| "mp_next i sp (S_End r) s = mp_send_next i sp (S_End r) s"
| "mp_next i sp R_Load s = mp_recv_next i sp R_Load s"
| "mp_next i sp (R_Top meta) s = mp_recv_next i sp (R_Top meta) s"
| "mp_next i sp (R_Again meta l) s = mp_recv_next i sp (R_Again meta l) s"
| "mp_next i sp (R_Cas meta l) s = mp_recv_next i sp (R_Cas meta l) s"
| "mp_next i sp (R_Read idx l) s = mp_recv_next i sp (R_Read idx l) s"
| "mp_next i sp (R_Store idx l m) s = mp_recv_next i sp (R_Store idx l m) s"
| "mp_next i sp (R_Wake m) s = mp_recv_next i sp (R_Wake m) s"
| "mp_next i sp (R_End r) s = mp_recv_next i sp (R_End r) s"
| "mp_next i sp K_Load s = mp_close_next i sp K_Load s"
| "mp_next i sp (K_Cas meta) s = mp_close_next i sp (K_Cas meta) s"
| "mp_next i sp K_Wake s = mp_close_next i sp K_Wake s"
| "mp_next i sp K_End s = mp_close_next i sp K_End s"
| "mp_next i sp Out s = None"
| "mp_next i sp Dead s = None"

fun mp_act :: "nat \<Rightarrow> 'a mp_action \<Rightarrow> 'a mp_sys \<Rightarrow> 'a mp_sys option" where
  "mp_act i (Call_Send m) s = (if mp_pcs s i = Out then Some (mp_goto i (S_Load m) s) else None)"
| "mp_act i Call_Recv s = (if mp_pcs s i = Out then Some (mp_goto i R_Load s) else None)"
| "mp_act i Call_Close s = (if mp_pcs s i = Out then Some (mp_goto i K_Load s) else None)"
| "mp_act i (Step sp) s = mp_next i sp (mp_pcs s i) s"

definition mp_sys_new :: "'a mpmc_bounded \<Rightarrow> 'a mp_sys" where
  "mp_sys_new q = \<lparr>core = q, mp_pcs = (\<lambda>_. Out), sent = [], taken = 0, reads = []\<rparr>"

inductive mp_reach :: "u32 \<Rightarrow> 'a mp_sys \<Rightarrow> bool" for n where
  start: "mpmc_bounded_new n = Ret q \<Longrightarrow> mp_reach n (mp_sys_new q)"
| step: "mp_reach n s \<Longrightarrow> mp_act i a s = Some s' \<Longrightarrow> mp_reach n s'"

section \<open>The invariant\<close>

text \<open>The bucket a thread has claimed and not yet given back.\<close>

fun owns :: "'a mp_pc \<Rightarrow> nat option" where
  "owns (S_Write idx l m) = Some idx"
| "owns (S_Store idx l m) = Some idx"
| "owns (R_Read idx l) = Some idx"
| "owns (R_Store idx l m) = Some idx"
| "owns _ = None"

definition write_meta_ok :: "nat \<Rightarrow> nat \<Rightarrow> u64 \<Rightarrow> bool" where
  "write_meta_ok c n meta \<longleftrightarrow>
     (\<exists>t\<le>n. meta = write_cursor c t) \<or> bit meta 63 \<and> unat (meta_idx meta) < c"

text \<open>
  \<^term>\<open>pc_ok c h ms buf lg pc\<close>: what a thread at \<^term>\<open>pc\<close> knows. The last exchange of a
  cursor still holds when the cursor has not moved, because laps never go back.
\<close>

fun pc_ok :: "nat \<Rightarrow> nat \<Rightarrow> 'a list \<Rightarrow> 'a elem list \<Rightarrow> (nat \<times> 'a) list \<Rightarrow> 'a mp_pc \<Rightarrow> bool" where
  "pc_ok c h ms buf lg (S_Top meta m) = write_meta_ok c (length ms) meta"
| "pc_ok c h ms buf lg (S_Again meta l m) = (\<exists>t\<le>length ms. meta = write_cursor c t)"
| "pc_ok c h ms buf lg (S_Cas meta l m) =
     (\<exists>t\<le>length ms. meta = write_cursor c t \<and> l = tkt_lap c t \<and> 2 * (t div c) \<le> lapn buf (t mod c))"
| "pc_ok c h ms buf lg (S_Write idx l m) =
     (\<exists>j<length ms. idx = j mod c \<and> l = tkt_lap c j \<and> lapn buf idx = 2 * (j div c) \<and> m = ms ! j)"
| "pc_ok c h ms buf lg (S_Store idx l m) =
     (\<exists>j<length ms. idx = j mod c \<and> l = tkt_lap c j \<and> lapn buf idx = 2 * (j div c) \<and> m = ms ! j \<and>
        msg (buf ! idx) = Some m)"
| "pc_ok c h ms buf lg (R_Top meta) = (\<exists>t\<le>h. meta = read_cursor c t)"
| "pc_ok c h ms buf lg (R_Again meta l) = (\<exists>t\<le>h. meta = read_cursor c t)"
| "pc_ok c h ms buf lg (R_Cas meta l) =
     (\<exists>t\<le>h. meta = read_cursor c t \<and> l = tkt_lap c t + 1 \<and> 2 * (t div c) + 1 \<le> lapn buf (t mod c))"
| "pc_ok c h ms buf lg (R_Read idx l) =
     (\<exists>j<h. idx = j mod c \<and> l = tkt_lap c j + 1 \<and> lapn buf idx = 2 * (j div c) + 1 \<and> j \<notin> fst ` set lg)"
| "pc_ok c h ms buf lg (R_Store idx l m) =
     (\<exists>j<h. idx = j mod c \<and> l = tkt_lap c j + 1 \<and> lapn buf idx = 2 * (j div c) + 1 \<and> m = ms ! j)"
| "pc_ok c h ms buf lg Dead = False"
| "pc_ok c h ms buf lg _ = True"

definition log_ok :: "nat \<Rightarrow> 'a list \<Rightarrow> (nat \<times> 'a) list \<Rightarrow> bool" where
  "log_ok h ms lg \<longleftrightarrow> distinct (map fst lg) \<and> (\<forall>(j, v)\<in>set lg. j < h \<and> v = ms ! j)"

text \<open>The core with its cursors and empty wakers.\<close>

definition core_ok :: "nat \<Rightarrow> nat \<Rightarrow> nat \<Rightarrow> 'a mpmc_bounded \<Rightarrow> bool" where
  "core_ok c h t q \<longleftrightarrow>
     capacity q = word_of_nat c \<and> mp_read_meta q = read_cursor c h \<and>
     mp_write_meta q \<in> {write_cursor c t, write_cursor c t OR MPMC_MASK_64} \<and>
     idle (read_waker q) \<and> empty_flag (read_waker q) \<and> idle (write_waker q) \<and> empty_flag (write_waker q)"

definition mp_inv :: "nat \<Rightarrow> 'a mp_sys \<Rightarrow> bool" where
  "mp_inv c s \<longleftrightarrow>
     cells_ok c (taken s) (sent s) (buffer (core s)) \<and> core_ok c (taken s) (length (sent s)) (core s) \<and>
     log_ok (taken s) (sent s) (reads s) \<and>
     (\<forall>i. pc_ok c (taken s) (sent s) (buffer (core s)) (reads s) (mp_pcs s i)) \<and>
     (\<forall>i j x. owns (mp_pcs s i) = Some x \<longrightarrow> owns (mp_pcs s j) = Some x \<longrightarrow> i = j)"

lemma mp_invD:
  assumes "mp_inv c s"
  shows "cells_ok c (taken s) (sent s) (buffer (core s))" and "core_ok c (taken s) (length (sent s)) (core s)"
    and "log_ok (taken s) (sent s) (reads s)"
    and "pc_ok c (taken s) (sent s) (buffer (core s)) (reads s) (mp_pcs s i)"
    and "owns (mp_pcs s i) = Some x \<Longrightarrow> owns (mp_pcs s j) = Some x \<Longrightarrow> i = j"
  using assms unfolding mp_inv_def by blast+

lemma core_okD:
  assumes "core_ok c h t q"
  shows "capacity q = word_of_nat c" and "mp_read_meta q = read_cursor c h"
    and "mp_write_meta q = write_cursor c t \<or> mp_write_meta q = write_cursor c t OR MPMC_MASK_64"
    and "idle (read_waker q)" "empty_flag (read_waker q)" "idle (write_waker q)" "empty_flag (write_waker q)"
  using assms by (auto simp: core_ok_def)

text \<open>What a thread knows stays true while other threads move on.\<close>

lemma pc_ok_later:
  assumes P: "pc_ok c h ms buf lg pc" and hs: "h \<le> length ms" and "h \<le> h'" and "ms' = ms @ more_ms" and B: "buf_later x buf buf'"
    and O: "x \<noteq> None \<Longrightarrow> owns pc \<noteq> x"
    and G: "\<And>idx l j. pc = R_Read idx l \<Longrightarrow> idx = j mod c \<Longrightarrow> j < h \<Longrightarrow> l = tkt_lap c j + 1 \<Longrightarrow>
      j \<notin> fst ` set lg \<Longrightarrow> j \<notin> fst ` set lg'"
  shows "pc_ok c h' ms' buf' lg' pc"
proof -
  have same: "buf' ! i = buf ! i" if "owns pc = Some i" for i
    using that B O by (cases x) (auto simp: buf_later_def)
  have up: "n \<le> lapn buf i \<Longrightarrow> n \<le> lapn buf' i" for n i
    using B unfolding buf_later_def by (meson le_trans)
  have nth: "j < length ms \<Longrightarrow> ms' ! j = ms ! j" and len: "j < length ms \<Longrightarrow> j < length ms'"
    "j \<le> length ms \<Longrightarrow> j \<le> length ms'" for j
    using assms(4) by (auto simp: nth_append)
  show ?thesis
  proof (cases pc)
    case (S_Top meta m)
    then show ?thesis using P len by (auto simp: write_meta_ok_def)
  next
    case (S_Again meta l m)
    then show ?thesis using P len by auto
  next
    case (S_Cas meta l m)
    then obtain t where "t \<le> length ms" "meta = write_cursor c t" "l = tkt_lap c t"
      "2 * (t div c) \<le> lapn buf (t mod c)" using P by auto
    then show ?thesis using S_Cas len up by (auto intro!: exI [of _ t])
  next
    case (S_Write idx l m)
    then obtain j where "j < length ms" "idx = j mod c" "l = tkt_lap c j" "lapn buf idx = 2 * (j div c)"
      "m = ms ! j" using P by auto
    then show ?thesis using S_Write same [of idx] nth len by (auto intro!: exI [of _ j])
  next
    case (S_Store idx l m)
    then obtain j where "j < length ms" "idx = j mod c" "l = tkt_lap c j" "lapn buf idx = 2 * (j div c)"
      "m = ms ! j" "msg (buf ! idx) = Some m" using P by auto
    then show ?thesis using S_Store same [of idx] nth len by (auto intro!: exI [of _ j])
  next
    case (R_Top meta)
    then show ?thesis using P assms(3) by (auto intro: le_trans)
  next
    case (R_Again meta l)
    then show ?thesis using P assms(3) by (auto intro: le_trans)
  next
    case (R_Cas meta l)
    then obtain t where "t \<le> h" "meta = read_cursor c t" "l = tkt_lap c t + 1"
      "2 * (t div c) + 1 \<le> lapn buf (t mod c)" using P by auto
    then show ?thesis using R_Cas assms(3) up by (auto intro!: exI [of _ t])
  next
    case (R_Read idx l)
    then obtain j where j: "j < h" "idx = j mod c" "l = tkt_lap c j + 1" "lapn buf idx = 2 * (j div c) + 1"
      "j \<notin> fst ` set lg" using P by auto
    have "buf' ! idx = buf ! idx" using same [of idx] R_Read by simp
    moreover have "j \<notin> fst ` set lg'" by (rule G [OF R_Read j(2,1,3,5)])
    moreover have "j < h'" using j(1) assms(3) by simp
    ultimately show ?thesis using j R_Read by auto
  next
    case (R_Store idx l m)
    then obtain j where j: "j < h" "idx = j mod c" "l = tkt_lap c j + 1" "lapn buf idx = 2 * (j div c) + 1"
      "m = ms ! j" using P by auto
    have "buf' ! idx = buf ! idx" using same [of idx] R_Store by simp
    moreover have "j < h'" "ms' ! j = ms ! j" using j(1) assms(3) hs nth [of j] by simp_all
    ultimately show ?thesis using j R_Store by auto
  qed (use P in simp_all)
qed

text \<open>One step of thread \<^term>\<open>i\<close>.\<close>

lemma mp_inv_step:
  assumes I: "mp_inv c s" and P: "mp_pcs s' = (mp_pcs s)(i := pc)"
    and C: "cells_ok c (taken s') (sent s') (buffer (core s'))" and Q: "core_ok c (taken s') (length (sent s')) (core s')"
    and R: "log_ok (taken s') (sent s') (reads s')"
    and H: "taken s \<le> taken s'" "sent s' = sent s @ more_ms"
    and B: "buf_later x (buffer (core s)) (buffer (core s'))" and X: "x \<noteq> None \<Longrightarrow> owns (mp_pcs s i) = x"
    and N: "pc_ok c (taken s') (sent s') (buffer (core s')) (reads s') pc"
    and O: "\<And>y j. owns pc = Some y \<Longrightarrow> owns (mp_pcs s i) \<noteq> Some y \<Longrightarrow> owns (mp_pcs s j) \<noteq> Some y"
    and G: "\<And>k. k \<in> fst ` set (reads s') \<Longrightarrow> k \<notin> fst ` set (reads s) \<Longrightarrow> owns (mp_pcs s i) = Some (k mod c)"
  shows "mp_inv c s'"
proof -
  note D = mp_invD [OF I]
  have "pc_ok c (taken s') (sent s') (buffer (core s')) (reads s') (mp_pcs s' j)" for j
  proof (cases "j = i")
    case True
    then show ?thesis using N P by simp
  next
    case False
    have "pc_ok c (taken s') (sent s') (buffer (core s')) (reads s') (mp_pcs s j)"
    proof (rule pc_ok_later [OF D(4) cells_okD(4) [OF D(1)] H B])
      show "owns (mp_pcs s j) \<noteq> x" if "x \<noteq> None"
        using X [OF that] D(5) [of i _ j] False that by auto
      show "k \<notin> fst ` set (reads s')"
        if "mp_pcs s j = R_Read idx l" "idx = k mod c" "k \<notin> fst ` set (reads s)" for idx l k
        using G [of k] that D(5) [of i "k mod c" j] False by auto
    qed
    then show ?thesis using P False by simp
  qed
  moreover have "j = k" if "owns (mp_pcs s' j) = Some y" "owns (mp_pcs s' k) = Some y" for j k y
    using that P O [of y] D(5) [of _ y] by (auto split: if_splits)
  ultimately show ?thesis
    using C Q R unfolding mp_inv_def by blast
qed

text \<open>A step that only moves the thread on.\<close>

lemma mp_inv_move:
  assumes I: "mp_inv c s" and "owns pc = None"
    and "pc_ok c (taken s) (sent s) (buffer (core s)) (reads s) pc"
  shows "mp_inv c (mp_goto i pc s)"
  by (rule mp_inv_step [OF I, where i = i and pc = pc and x = None and more_ms = "[]"])
    (use mp_invD(1-3) [OF I] assms(2,3) in \<open>simp_all add: mp_goto_def\<close>)

lemma owner_lap:
  assumes "pc_ok c h ms buf lg pc" and "owns pc = Some y"
  shows "\<exists>k. y = k mod c \<and> (k < length ms \<and> lapn buf y = 2 * (k div c) \<or>
    k < h \<and> lapn buf y = 2 * (k div c) + 1)"
  using assms by (cases pc) auto

text \<open>The sender.\<close>

lemma mp_inv_s_top:
  assumes I: "mp_inv c s" and pc: "mp_pcs s i = S_Top meta m" and A: "mp_next i sp (S_Top meta m) s = Some s'"
  shows "mp_inv c s'"
proof -
  note D = mp_invD [OF I] and C = cells_okD [OF mp_invD(1) [OF I]]
  let ?buf = "buffer (core s)"
  have ok: "write_meta_ok c (length (sent s)) meta" using D(4) [of i] pc by simp
  then have idx: "unat (meta_idx meta) < length ?buf"
    using C(1-3) by (auto simp: write_meta_ok_def)
  show ?thesis
  proof (cases "MPMC_MASK_32 \<le> meta_lap meta")
    case True
    then show ?thesis using A idx by (auto simp: outcome_pc_def intro!: mp_inv_move [OF I])
  next
    case False
    then obtain t where t: "t \<le> length (sent s)" "meta = write_cursor c t"
      using ok by (auto simp: write_meta_ok_def closed_bit)
    have B: "in_budget c t" by (rule cells_budget [OF D(1) t(1)])
    have "pc_ok c (taken s) (sent s) ?buf (reads s)
        (case cmp (meta_lap meta) (load_lap (?buf ! unat (meta_idx meta))) of
           Equal \<Rightarrow> S_Cas meta (load_lap (?buf ! unat (meta_idx meta))) m
         | Greater \<Rightarrow> S_Again meta (load_lap (?buf ! unat (meta_idx meta))) m
         | Less \<Rightarrow> S_Load m)"
      using t C(1) lap_word(1) [OF B] by (auto simp: cmp_def load_lap_def)
    then show ?thesis
      using A idx False by (auto simp: outcome_pc_def intro!: mp_inv_move [OF I] split: ordering.splits)
  qed
qed

lemma mp_inv_s_again:
  assumes I: "mp_inv c s" and pc: "mp_pcs s i = S_Again meta l m"
    and A: "mp_next i sp (S_Again meta l m) s = Some s'"
  shows "mp_inv c s'"
proof -
  obtain t where "meta = write_cursor c t" using mp_invD(4) [OF I, of i] pc by auto
  then have idx: "unat (meta_idx meta) < length (buffer (core s))"
    using cells_okD(1-3) [OF mp_invD(1) [OF I]] by simp
  then show ?thesis using A by (auto simp: outcome_pc_def intro!: mp_inv_move [OF I])
qed

lemma write_meta_ok_now:
  assumes "mp_inv c s"
  shows "write_meta_ok c (length (sent s)) (mp_write_meta (core s))"
  using core_okD(3) [OF mp_invD(2) [OF assms]] cells_okD(1,2) [OF mp_invD(1) [OF assms]]
  by (auto simp: write_meta_ok_def)

lemma mp_inv_s_cas:
  assumes I: "mp_inv c s" and pc: "mp_pcs s i = S_Cas meta l m"
    and A: "mp_next i sp (S_Cas meta l m) s = Some s'"
  shows "mp_inv c s'"
proof (cases "mp_write_meta (core s) = meta \<and> \<not> sp")
  case False
  then show ?thesis
    using A write_meta_ok_now [OF I] by (auto intro!: mp_inv_move [OF I])
next
  case True
  note D = mp_invD [OF I] and C = cells_okD [OF mp_invD(1) [OF I]] and K = core_okD [OF mp_invD(2) [OF I]]
  let ?t = "length (sent s)" and ?buf = "buffer (core s)"
  obtain t where t: "t \<le> ?t" "meta = write_cursor c t" "l = tkt_lap c t" "2 * (t div c) \<le> lapn ?buf (t mod c)"
    using D(4) [of i] pc by auto
  have B: "in_budget c t" by (rule cells_budget [OF D(1) t(1)])
  then have "\<not> bit meta 63" using t(2) write_cursor_in_budget by simp
  then have "mp_write_meta (core s) = write_cursor c ?t" using K(3) True by auto
  then have tt: "t = ?t" using True t(2) write_cursor_inject [OF C(1) B C(6)] by simp
  have c: "unat (capacity (core s)) = c"
    using K(1) cap_okD [OF C(1)] by (simp add: unat_of_nat)
  have bud: "in_budget c (Suc ?t)" and s': "s' = mp_goto i (S_Write (unat (meta_idx meta)) l m)
      (on_core (\<lambda>q. q\<lparr>mp_write_meta := next_meta (capacity q) meta\<rparr>) (s\<lparr>sent := sent s @ [m]\<rparr>))"
    using A True c by (auto split: if_splits)
  have lap: "lapn ?buf (?t mod c) = 2 * (?t div c)" using C(8) [of ?t] t(4) tt by simp
  have idx: "unat (meta_idx meta) = ?t mod c" using t(2) tt C(1) by simp
  have free: "owns (mp_pcs s j) \<noteq> Some (?t mod c)" for j
  proof
    assume "owns (mp_pcs s j) = Some (?t mod c)"
    from owner_lap [OF D(4) this] obtain k where k: "?t mod c = k mod c"
      "k < ?t \<and> 2 * (k div c) = 2 * (?t div c) \<or> 2 * (k div c) + 1 = 2 * (?t div c)"
      using lap by auto
    then consider "k < ?t" "k div c = ?t div c" | "Suc (2 * (k div c)) = 2 * (?t div c)" by auto
    then show False
    proof cases
      case 1
      then show False using same_ticket [OF k(1)] by simp
    next
      case 2
      then show False using parity by blast
    qed
  qed
  show ?thesis
  proof (rule mp_inv_step [OF I, where i = i and x = None and more_ms = "[m]"])
    show "cells_ok c (taken s') (sent s') (buffer (core s'))"
      using cells_write_claim [OF D(1) _ bud, of m] t(4) tt by (simp add: s' mp_goto_def on_core_def)
    show "core_ok c (taken s') (length (sent s')) (core s')"
      using D(2) K(1) t(2) tt next_meta_cursor(1) [OF C(1)]
      by (simp add: s' mp_goto_def on_core_def core_ok_def)
    show "log_ok (taken s') (sent s') (reads s')"
      using D(3) C(4) by (auto simp: s' mp_goto_def on_core_def log_ok_def nth_append)
    show "pc_ok c (taken s') (sent s') (buffer (core s')) (reads s') (S_Write (unat (meta_idx meta)) l m)"
      using t(3) tt idx lap by (auto simp: s' mp_goto_def on_core_def intro!: exI [of _ ?t])
    show "owns (mp_pcs s j) \<noteq> Some y" if "owns (S_Write (unat (meta_idx meta)) l m) = Some y" for y j
      using that free idx by auto
  qed (simp_all add: s' mp_goto_def on_core_def)
qed

text \<open>An access to the bucket that the thread owns.\<close>

lemma mp_inv_access:
  assumes I: "mp_inv c s" and own: "owns (mp_pcs s i) = Some idx"
    and s': "s' = mp_goto i pc (on_core (upd_elem idx f) s)"
    and C: "cells_ok c (taken s) (sent s) ((buffer (core s))[idx := f (buffer (core s) ! idx)])"
    and le: "lapn (buffer (core s)) idx \<le> unat (lap (f (buffer (core s) ! idx)))"
    and N: "pc_ok c (taken s) (sent s) ((buffer (core s))[idx := f (buffer (core s) ! idx)]) (reads s) pc"
    and O: "owns pc = None \<or> owns pc = Some idx"
  shows "mp_inv c s'"
proof (rule mp_inv_step [OF I, where i = i and x = "Some idx" and more_ms = "[]"])
  note D = mp_invD [OF I]
  show "core_ok c (taken s') (length (sent s')) (core s')"
    using D(2) by (simp add: s' mp_goto_def on_core_def core_ok_def upd_elem_def)
  show "log_ok (taken s') (sent s') (reads s')"
    using D(3) by (simp add: s' mp_goto_def on_core_def)
  show "buf_later (Some idx) (buffer (core s)) (buffer (core s'))"
    using buf_later_update [where e = "f (buffer (core s) ! idx)", OF le]
    by (simp add: s' mp_goto_def on_core_def upd_elem_def)
  show "owns (mp_pcs s j) \<noteq> Some y" if "owns pc = Some y" "owns (mp_pcs s i) \<noteq> Some y" for y j
    using that O own by auto
qed (use C N own in \<open>simp_all add: s' mp_goto_def on_core_def upd_elem_def\<close>)

lemma mp_inv_s_write:
  assumes I: "mp_inv c s" and pc: "mp_pcs s i = S_Write idx l m"
    and A: "mp_next i sp (S_Write idx l m) s = Some s'"
  shows "mp_inv c s'"
proof -
  let ?buf = "buffer (core s)"
  note D = mp_invD [OF I] and C = cells_okD [OF mp_invD(1) [OF I]]
  obtain j where j: "j < length (sent s)" "idx = j mod c" "l = tkt_lap c j" "lapn ?buf idx = 2 * (j div c)"
    "m = sent s ! j" using D(4) [of i] pc by auto
  have idx: "idx < length ?buf" using j(2) C(2,3) by simp
  show ?thesis
  proof (rule mp_inv_access [OF I, where i = i and idx = idx and pc = "S_Store idx l m" and f = "msg_update (\<lambda>_. Some m)"])
    show "cells_ok c (taken s) (sent s) (?buf[idx := (?buf ! idx)\<lparr>msg := Some m\<rparr>])"
      by (rule cells_ok_update [OF D(1) j(2) [symmetric]]) (use j(4) parity in auto)
    show "pc_ok c (taken s) (sent s) (?buf[idx := (?buf ! idx)\<lparr>msg := Some m\<rparr>]) (reads s) (S_Store idx l m)"
      using j idx by (auto intro!: exI [of _ j])
  qed (use A pc in simp_all)
qed

lemma mp_inv_s_store:
  assumes I: "mp_inv c s" and pc: "mp_pcs s i = S_Store idx l m"
    and A: "mp_next i sp (S_Store idx l m) s = Some s'"
  shows "mp_inv c s'"
proof -
  let ?buf = "buffer (core s)"
  note D = mp_invD [OF I] and C = cells_okD [OF mp_invD(1) [OF I]]
  obtain j where j: "j < length (sent s)" "idx = j mod c" "l = tkt_lap c j" "lapn ?buf idx = 2 * (j div c)"
    "m = sent s ! j" "msg (?buf ! idx) = Some m" using D(4) [of i] pc by auto
  have "in_budget c j" by (rule cells_budget [OF D(1)]) (use j(1) in simp)
  note L = lap_word(2) [OF this]
  show ?thesis
  proof (rule mp_inv_access [OF I, where i = i and idx = idx and pc = "S_Wake" and f = "lap_update (\<lambda>_. l + 1)"])
    show "cells_ok c (taken s) (sent s) (?buf[idx := (?buf ! idx)\<lparr>lap := l + 1\<rparr>])"
    proof (rule cells_ok_update [OF D(1) j(2) [symmetric]])
      show "msg ((?buf ! idx)\<lparr>lap := l + 1\<rparr>) = Some (sent s ! j')"
        if "j' mod c = idx" "unat (lap ((?buf ! idx)\<lparr>lap := l + 1\<rparr>)) = 2 * (j' div c) + 1" for j'
      proof -
        have "j' = j" using that L j(2,3) by (intro same_ticket [of j' c j]) simp_all
        then show ?thesis using j(5,6) by simp
      qed
    qed (use j(1,3,4) L in simp)
  qed (use A pc j(3,4) L in simp_all)
qed

lemma wake_nobody:
  assumes "core_ok c h t q"
  shows "wake_one_reader_if_any q = Ret q" and "wake_one_writer_if_any q = Ret q"
  using core_okD [OF assms]
  by (simp_all add: wake_one_reader_if_any_def wake_one_writer_if_any_def waker_wake_one_def)

text \<open>The receiver.\<close>

lemma mp_inv_r_load:
  assumes "mp_inv c s"
  shows "mp_inv c (mp_goto i (R_Top (mp_read_meta (core s))) s)"
  by (rule mp_inv_move [OF assms]) (use core_okD(2) [OF mp_invD(2) [OF assms]] in auto)

lemma mp_inv_r_top:
  assumes I: "mp_inv c s" and pc: "mp_pcs s i = R_Top meta" and A: "mp_next i sp (R_Top meta) s = Some s'"
  shows "mp_inv c s'"
proof -
  note D = mp_invD [OF I] and C = cells_okD [OF mp_invD(1) [OF I]]
  let ?buf = "buffer (core s)"
  obtain t where t: "t \<le> taken s" "meta = read_cursor c t" using D(4) [of i] pc by auto
  then have idx: "unat (meta_idx meta) < length ?buf" using C(1-3) by simp
  have B: "in_budget c t" by (rule cells_budget [OF D(1) read_bound [OF D(1) t(1)]])
  have "pc_ok c (taken s) (sent s) ?buf (reads s)
      (case cmp (meta_lap meta) (load_lap (?buf ! unat (meta_idx meta))) of
         Equal \<Rightarrow> R_Cas meta (load_lap (?buf ! unat (meta_idx meta)))
       | Greater \<Rightarrow> R_Again meta (load_lap (?buf ! unat (meta_idx meta)))
       | Less \<Rightarrow> R_Load)"
    using t C(1) lap_word(2) [OF B] by (auto simp: cmp_def load_lap_def intro!: exI [of _ t])
  then show ?thesis
    using A idx by (auto simp: outcome_pc_def intro!: mp_inv_move [OF I] split: ordering.splits)
qed

lemma mp_inv_r_again:
  assumes I: "mp_inv c s" and pc: "mp_pcs s i = R_Again meta l"
    and A: "mp_next i sp (R_Again meta l) s = Some s'"
  shows "mp_inv c s'"
proof -
  obtain t where "meta = read_cursor c t" using mp_invD(4) [OF I, of i] pc by auto
  then have idx: "unat (meta_idx meta) < length (buffer (core s))"
    using cells_okD(1-3) [OF mp_invD(1) [OF I]] by simp
  then show ?thesis using A by (auto simp: outcome_pc_def intro!: mp_inv_move [OF I])
qed

lemma mp_inv_r_cas:
  assumes I: "mp_inv c s" and pc: "mp_pcs s i = R_Cas meta l"
    and A: "mp_next i sp (R_Cas meta l) s = Some s'"
  shows "mp_inv c s'"
proof (cases "mp_read_meta (core s) = meta \<and> \<not> sp")
  case False
  then have "s' = mp_goto i (R_Top (mp_read_meta (core s))) s" using A by auto
  then show ?thesis using mp_inv_r_load [OF I] by simp
next
  case True
  note D = mp_invD [OF I] and C = cells_okD [OF mp_invD(1) [OF I]] and K = core_okD [OF mp_invD(2) [OF I]]
  let ?h = "taken s" and ?buf = "buffer (core s)"
  obtain t where t: "t \<le> ?h" "meta = read_cursor c t" "l = tkt_lap c t + 1"
    "2 * (t div c) + 1 \<le> lapn ?buf (t mod c)" using D(4) [of i] pc by auto
  have B: "in_budget c t" "in_budget c ?h"
    using cells_budget [OF D(1)] read_bound [OF D(1)] t(1) by simp_all
  have tt: "t = ?h" using True K(2) t(2) read_cursor_inject [OF C(1) B] by simp
  note R = cells_read_claim [OF D(1) t(4) [unfolded tt]]
  have s': "s' = mp_goto i (R_Read (unat (meta_idx meta)) l)
      (on_core (\<lambda>q. q\<lparr>mp_read_meta := next_meta (capacity q) meta\<rparr>) (s\<lparr>taken := Suc ?h\<rparr>))"
    using A True by simp
  have idx: "unat (meta_idx meta) = ?h mod c" using t(2) tt C(1) by simp
  have new: "?h \<notin> fst ` set (reads s)" using D(3) by (auto simp: log_ok_def)
  have free: "owns (mp_pcs s j) \<noteq> Some (?h mod c)" for j
  proof
    assume "owns (mp_pcs s j) = Some (?h mod c)"
    from owner_lap [OF D(4) this] obtain k where k: "?h mod c = k mod c"
      "2 * (k div c) = 2 * (?h div c) + 1 \<or> k < ?h \<and> 2 * (k div c) + 1 = 2 * (?h div c) + 1"
      using R(3) by auto
    then show False using parity same_ticket [OF k(1)] by auto
  qed
  show ?thesis
  proof (rule mp_inv_step [OF I, where i = i and x = None and more_ms = "[]"])
    show "core_ok c (taken s') (length (sent s')) (core s')"
      using D(2) K(1) t(2) tt next_meta_cursor(2) [OF C(1)]
      by (simp add: s' mp_goto_def on_core_def core_ok_def)
    show "log_ok (taken s') (sent s') (reads s')"
      using D(3) by (fastforce simp: s' mp_goto_def on_core_def log_ok_def)
    show "pc_ok c (taken s') (sent s') (buffer (core s')) (reads s') (R_Read (unat (meta_idx meta)) l)"
      using t(3) tt idx R(3) new by (auto simp: s' mp_goto_def on_core_def intro!: exI [of _ ?h])
    show "owns (mp_pcs s j) \<noteq> Some y" if "owns (R_Read (unat (meta_idx meta)) l) = Some y" for y j
      using that free idx by auto
  qed (use R(1) in \<open>simp_all add: s' mp_goto_def on_core_def\<close>)
qed

lemma mp_inv_r_read:
  assumes I: "mp_inv c s" and pc: "mp_pcs s i = R_Read idx l"
    and A: "mp_next i sp (R_Read idx l) s = Some s'"
  shows "mp_inv c s'"
proof -
  note D = mp_invD [OF I] and C = cells_okD [OF mp_invD(1) [OF I]] and K = core_okD [OF mp_invD(2) [OF I]]
  let ?buf = "buffer (core s)"
  obtain j where j: "j < taken s" "idx = j mod c" "l = tkt_lap c j + 1" "lapn ?buf idx = 2 * (j div c) + 1"
    "j \<notin> fst ` set (reads s)" using D(4) [of i] pc by auto
  have js: "j < length (sent s)" using j(1) C(4) by simp
  have m: "msg (?buf ! idx) = Some (sent s ! j)" using C(11) [OF js] j(2,4) by simp
  have "in_budget c j" by (rule cells_budget [OF D(1)]) (use js in simp)
  note L = lap_word(2) [OF this]
  have "unat (capacity (core s)) = c" using K(1) cap_okD [OF C(1)] by (simp add: unat_of_nat)
  then have tk: "ticket (core s) idx l = j" using j(2,3) L by (simp add: ticket_def)
  have s': "s' = mp_goto i (R_Store idx l (sent s ! j)) (s\<lparr>reads := reads s @ [(j, sent s ! j)]\<rparr>)"
    using A m tk by simp
  show ?thesis
  proof (rule mp_inv_step [OF I, where i = i and x = None and more_ms = "[]"])
    show "log_ok (taken s') (sent s') (reads s')"
      using D(3) j(1,5) by (auto simp: s' mp_goto_def log_ok_def)
    show "pc_ok c (taken s') (sent s') (buffer (core s')) (reads s') (R_Store idx l (sent s ! j))"
      using j by (auto simp: s' mp_goto_def)
    show "owns (mp_pcs s i) = Some (k mod c)"
      if "k \<in> fst ` set (reads s')" "k \<notin> fst ` set (reads s)" for k
      using that pc j(2) by (auto simp: s' mp_goto_def)
  qed (use D(1,2) pc in \<open>simp_all add: s' mp_goto_def\<close>)
qed

lemma mp_inv_r_store:
  assumes I: "mp_inv c s" and pc: "mp_pcs s i = R_Store idx l m"
    and A: "mp_next i sp (R_Store idx l m) s = Some s'"
  shows "mp_inv c s'"
proof -
  let ?buf = "buffer (core s)"
  note D = mp_invD [OF I] and C = cells_okD [OF mp_invD(1) [OF I]]
  obtain j where j: "j < taken s" "idx = j mod c" "l = tkt_lap c j + 1" "lapn ?buf idx = 2 * (j div c) + 1"
    using D(4) [of i] pc by auto
  have "in_budget c j" by (rule cells_budget [OF D(1)]) (use j(1) C(4) in simp)
  note L = lap_word(3) [OF this]
  show ?thesis
  proof (rule mp_inv_access [OF I, where i = i and idx = idx and pc = "R_Wake m" and f = "lap_update (\<lambda>_. l + 1)"])
    show "cells_ok c (taken s) (sent s) (?buf[idx := (?buf ! idx)\<lparr>lap := l + 1\<rparr>])"
    proof (rule cells_ok_update [OF D(1) j(2) [symmetric]])
      show "msg ((?buf ! idx)\<lparr>lap := l + 1\<rparr>) = Some (sent s ! j')"
        if "unat (lap ((?buf ! idx)\<lparr>lap := l + 1\<rparr>)) = 2 * (j' div c) + 1" for j'
        using that L j(3) parity(1) [of "j' div c" "Suc (j div c)"] by simp
    qed (use j(1,3,4) L in simp)
  qed (use A pc j(3,4) L in simp_all)
qed

lemma mp_inv_k_cas:
  assumes I: "mp_inv c s" and pc: "mp_pcs s i = K_Cas meta" and A: "mp_next i sp (K_Cas meta) s = Some s'"
  shows "mp_inv c s'"
proof (cases "mp_write_meta (core s) = meta \<and> \<not> sp")
  case False
  then show ?thesis using A by (auto intro!: mp_inv_move [OF I])
next
  case True
  note D = mp_invD [OF I]
  have s': "s' = mp_goto i K_Wake (on_core (\<lambda>q. q\<lparr>mp_write_meta := meta OR MPMC_MASK_64\<rparr>) s)"
    using A True by simp
  have "core_ok c (taken s) (length (sent s)) ((core s)\<lparr>mp_write_meta := meta OR MPMC_MASK_64\<rparr>)"
    using D(2) True or_mask_absorb [OF bit_or_mask] by (auto simp: core_ok_def)
  then show ?thesis
    by (intro mp_inv_step [OF I, where i = i and pc = K_Wake and x = None and more_ms = "[]"])
      (use D(1,3) in \<open>simp_all add: s' mp_goto_def on_core_def\<close>)
qed

lemma mp_inv_k_wake:
  assumes I: "mp_inv c s" and A: "mp_next i sp K_Wake s = Some s'"
  shows "mp_inv c s'"
proof -
  note D = mp_invD [OF I]
  have s': "s' = mp_goto i K_End (on_core (\<lambda>q. q\<lparr>write_waker := (write_waker q)\<lparr>empty_flag := True\<rparr>,
      read_waker := (read_waker q)\<lparr>empty_flag := True\<rparr>\<rparr>) s)"
    using A by (simp split: if_splits)
  show ?thesis
    by (intro mp_inv_step [OF I, where i = i and pc = K_End and x = None and more_ms = "[]"])
      (use D(1-3) in \<open>simp_all add: s' mp_goto_def on_core_def core_ok_def\<close>)
qed

lemma mp_inv_same_core:
  assumes "mp_inv c s" and "owns pc = None" and "pc_ok c (taken s) (sent s) (buffer (core s)) (reads s) pc"
  shows "mp_inv c (mp_goto i pc (s\<lparr>core := core s\<rparr>))"
  using mp_inv_move [OF assms] by simp

lemma mp_inv_next:
  assumes I: "mp_inv c s" and A: "mp_next i sp (mp_pcs s i) s = Some s'"
  shows "mp_inv c s'"
proof (cases "mp_pcs s i")
  case (S_Load m)
  then show ?thesis using A write_meta_ok_now [OF I] by (auto intro!: mp_inv_move [OF I])
next
  case S_Wake
  then show ?thesis
    using A wake_nobody [OF mp_invD(2) [OF I]] by (auto intro!: mp_inv_move [OF I])
next
  case (R_Wake m)
  then show ?thesis
    using A wake_nobody [OF mp_invD(2) [OF I]] by (auto intro!: mp_inv_move [OF I])
next
  case R_Load
  then show ?thesis using A mp_inv_r_load [OF I] by auto
next
  case K_Load
  then show ?thesis using A by (auto intro!: mp_inv_move [OF I])
next
  case (S_Top meta m)
  then show ?thesis using mp_inv_s_top [OF I] A by simp
next
  case (S_Again meta l m)
  then show ?thesis using mp_inv_s_again [OF I] A by simp
next
  case (S_Cas meta l m)
  then show ?thesis using mp_inv_s_cas [OF I] A by (simp del: mp_next.simps)
next
  case (S_Write idx l m)
  then show ?thesis using mp_inv_s_write [OF I] A by (simp del: mp_next.simps)
next
  case (S_Store idx l m)
  then show ?thesis using mp_inv_s_store [OF I] A by (simp del: mp_next.simps)
next
  case (R_Top meta)
  then show ?thesis using mp_inv_r_top [OF I] A by simp
next
  case (R_Again meta l)
  then show ?thesis using mp_inv_r_again [OF I] A by simp
next
  case (R_Cas meta l)
  then show ?thesis using mp_inv_r_cas [OF I] A by (simp del: mp_next.simps)
next
  case (R_Read idx l)
  then show ?thesis using mp_inv_r_read [OF I] A by (simp del: mp_next.simps)
next
  case (R_Store idx l m)
  then show ?thesis using mp_inv_r_store [OF I] A by (simp del: mp_next.simps)
next
  case (K_Cas meta)
  then show ?thesis using mp_inv_k_cas [OF I] A by (simp del: mp_next.simps)
next
  case K_Wake
  then show ?thesis using mp_inv_k_wake [OF I] A by (simp del: mp_next.simps)
qed (use A in \<open>auto intro!: mp_inv_move [OF I]\<close>)

lemma mp_inv_new:
  assumes "mpmc_bounded_new n = Ret q"
  shows "mp_inv (unat (capacity q)) (mp_sys_new q)"
proof -
  let ?cap = "if n > 0 then n else 1"
  have n: "n \<le> push_bit 30 1" and q: "capacity q = ?cap" "buffer q = replicate (unat ?cap) elem_default"
    "mp_read_meta q = push_bit 32 1" "mp_write_meta q = 0" "read_waker q = waker_default" "write_waker q = waker_default"
    using assms by (auto simp: mpmc_bounded_new_def Let_def split: if_splits)
  have c: "cap_ok (unat ?cap)"
    using n by (auto simp: cap_ok_def word_le_nat_alt word_less_nat_alt)
  have "cells_ok (unat ?cap) 0 [] (replicate (unat ?cap) elem_default)"
    using c unfolding cells_ok_def by (auto simp: in_budget_def cap_ok_def)
  moreover have "core_ok (unat ?cap) 0 0 q"
    by (simp add: core_ok_def q read_cursor_def write_cursor_def tkt_lap_0 cap_okD(1) [OF c] pack_def lap_meta_def)
  ultimately show ?thesis
    by (simp add: mp_inv_def mp_sys_new_def log_ok_def q)
qed

lemma mp_act_capacity: "mp_act i a s = Some s' \<Longrightarrow> mp_inv c s \<Longrightarrow> mp_inv c s'"
proof (cases a)
  case (Step sp)
  then show "mp_act i a s = Some s' \<Longrightarrow> mp_inv c s \<Longrightarrow> mp_inv c s'" using mp_inv_next by auto
qed (auto intro!: mp_inv_move split: if_splits)

lemma mp_inv_reach: "mp_reach n s \<Longrightarrow> mp_inv (unat (if n > 0 then n else 1)) s"
proof (induction rule: mp_reach.induct)
  case (start q)
  then have "capacity q = (if n > 0 then n else 1)"
    by (auto simp: mpmc_bounded_new_def Let_def split: if_splits)
  with mp_inv_new [OF start] show ?case by simp
next
  case (step s i a s')
  then show ?case using mp_act_capacity by blast
qed

end
