(* ===== verification/Mpmc_Progress.thy ===== *)
theory Mpmc_Progress
  imports Mpmc_Steps "HOL-Library.Multiset"
begin

text \<open>
  What the interleaved calls of \<^verbatim>\<open>Mpmc_Steps\<close> promise beyond the safety of their accesses:
  every claimed bucket has a thread that is working on it, every message whose turn was taken is
  read, a failure answer means what it says, and a thread that runs alone comes to its end.
\<close>

section \<open>Every claim has its thread\<close>

definition claims_ok ::
    "nat \<Rightarrow> nat \<Rightarrow> 'a list \<Rightarrow> 'a elem list \<Rightarrow> (nat \<times> 'a) list \<Rightarrow> (nat \<Rightarrow> 'a mp_pc) \<Rightarrow> bool" where
  "claims_ok c h ms buf lg pcs \<longleftrightarrow>
     (\<forall>j<length ms. lapn buf (j mod c) = 2 * (j div c) \<longrightarrow> (\<exists>i. owns (pcs i) = Some (j mod c))) \<and>
     (\<forall>j<h. lapn buf (j mod c) = 2 * (j div c) + 1 \<longrightarrow> (\<exists>i. owns (pcs i) = Some (j mod c))) \<and>
     (\<forall>j<h. j \<notin> fst ` set lg \<longrightarrow> (\<exists>i. pcs i = R_Read (j mod c) (tkt_lap c j + 1)))"

lemma claims_okD:
  assumes "claims_ok c h ms buf lg pcs"
  shows "j < length ms \<Longrightarrow> lapn buf (j mod c) = 2 * (j div c) \<Longrightarrow> \<exists>i. owns (pcs i) = Some (j mod c)"
    and "j < h \<Longrightarrow> lapn buf (j mod c) = 2 * (j div c) + 1 \<Longrightarrow> \<exists>i. owns (pcs i) = Some (j mod c)"
    and "j < h \<Longrightarrow> j \<notin> fst ` set lg \<Longrightarrow> \<exists>i. pcs i = R_Read (j mod c) (tkt_lap c j + 1)"
  using assms unfolding claims_ok_def by blast+

text \<open>One thread moves: what is new it has claimed itself, what it gives up is done.\<close>

lemma claims_ok_step:
  assumes K: "claims_ok c h ms buf lg pcs"
    and W: "\<And>j. j < length ms' \<Longrightarrow> lapn buf' (j mod c) = 2 * (j div c) \<Longrightarrow> owns pc = Some (j mod c) \<or>
      j < length ms \<and> lapn buf (j mod c) = 2 * (j div c) \<and> owns (pcs i) \<noteq> Some (j mod c)"
    and R: "\<And>j. j < h' \<Longrightarrow> lapn buf' (j mod c) = 2 * (j div c) + 1 \<Longrightarrow> owns pc = Some (j mod c) \<or>
      j < h \<and> lapn buf (j mod c) = 2 * (j div c) + 1 \<and> owns (pcs i) \<noteq> Some (j mod c)"
    and L: "\<And>j. j < h' \<Longrightarrow> j \<notin> fst ` set lg' \<Longrightarrow> pc = R_Read (j mod c) (tkt_lap c j + 1) \<or>
      j < h \<and> j \<notin> fst ` set lg \<and> pcs i \<noteq> R_Read (j mod c) (tkt_lap c j + 1)"
  shows "claims_ok c h' ms' buf' lg' (pcs(i := pc))"
proof -
  note D = claims_okD [OF K]
  have "\<exists>k. owns ((pcs(i := pc)) k) = Some (j mod c)"
    if "j < length ms'" "lapn buf' (j mod c) = 2 * (j div c)" for j
    using W [OF that] D(1) [of j] by (metis fun_upd_apply)
  moreover have "\<exists>k. owns ((pcs(i := pc)) k) = Some (j mod c)"
    if "j < h'" "lapn buf' (j mod c) = 2 * (j div c) + 1" for j
    using R [OF that] D(2) [of j] by (metis fun_upd_apply)
  moreover have "\<exists>k. (pcs(i := pc)) k = R_Read (j mod c) (tkt_lap c j + 1)"
    if "j < h'" "j \<notin> fst ` set lg'" for j
    using L [OF that] D(3) [of j] by (metis fun_upd_apply)
  ultimately show ?thesis unfolding claims_ok_def by blast
qed

definition claims :: "nat \<Rightarrow> 'a mp_sys \<Rightarrow> bool" where
  "claims c s \<longleftrightarrow> claims_ok c (taken s) (sent s) (buffer (core s)) (reads s) (mp_pcs s)"

lemma claims_move:
  assumes K: "claims c s" and "owns (mp_pcs s i) = None"
  shows "claims c (mp_goto i pc s)"
proof -
  have "mp_pcs s i \<noteq> R_Read idx l" for idx l using assms(2) by auto
  then show ?thesis
    using claims_ok_step [OF K [unfolded claims_def], of "sent s" "buffer (core s)" pc i "taken s" "reads s"]
      assms(2) by (simp add: claims_def mp_goto_def)
qed

lemma claims_on_core:
  "(\<And>q. buffer (f q) = buffer q) \<Longrightarrow> claims c (on_core f s) = claims c s"
  by (simp add: claims_def on_core_def)

lemma claims_mp_goto_on_core:
  assumes K: "claims c s" and "owns (mp_pcs s i) = None" and "\<And>q. buffer (f q) = buffer q"
  shows "claims c (mp_goto i pc (on_core f s))"
  using claims_move [of c "on_core f s" i pc] assms by (simp add: claims_on_core) (simp add: on_core_def)

lemma write_idx_now:
  assumes "mp_inv c s"
  shows "unat (meta_idx (mp_write_meta (core s))) = length (sent s) mod c"
  using core_okD(3) [OF mp_invD(2) [OF assms]] cells_okD(1) [OF mp_invD(1) [OF assms]] by auto

lemma read_idx_now:
  assumes "mp_inv c s"
  shows "unat (meta_idx (mp_read_meta (core s))) = taken s mod c"
  using core_okD(2) [OF mp_invD(2) [OF assms]] cells_okD(1) [OF mp_invD(1) [OF assms]] by auto

lemma claims_s_cas:
  assumes I: "mp_inv c s" and K: "claims c s" and pc: "mp_pcs s i = S_Cas meta l m"
    and A: "mp_next i sp (S_Cas meta l m) s = Some s'"
  shows "claims c s'"
proof (cases "mp_write_meta (core s) = meta \<and> \<not> sp")
  case False
  then show ?thesis using A claims_move [OF K, of i] pc by auto
next
  case True
  let ?t = "length (sent s)"
  let ?pc = "S_Write (?t mod c) l m"
  have s': "s' = mp_goto i ?pc
      (on_core (\<lambda>q. q\<lparr>mp_write_meta := next_meta (capacity q) meta\<rparr>) (s\<lparr>sent := sent s @ [m]\<rparr>))"
    using A True write_idx_now [OF I] by (auto split: if_splits)
  have "claims_ok c (taken s) (sent s @ [m]) (buffer (core s)) (reads s) ((mp_pcs s)(i := ?pc))"
  proof (rule claims_ok_step [OF K [unfolded claims_def]])
    show "owns ?pc = Some (j mod c) \<or> j < ?t \<and> lapn (buffer (core s)) (j mod c) = 2 * (j div c) \<and>
        owns (mp_pcs s i) \<noteq> Some (j mod c)"
      if "j < length (sent s @ [m])" "lapn (buffer (core s)) (j mod c) = 2 * (j div c)" for j
      using that pc by (cases "j = ?t") simp_all
  qed (simp_all add: pc)
  then show ?thesis by (simp add: s' claims_def mp_goto_def on_core_def)
qed

lemma claims_r_cas:
  assumes I: "mp_inv c s" and K: "claims c s" and pc: "mp_pcs s i = R_Cas meta l"
    and A: "mp_next i sp (R_Cas meta l) s = Some s'"
  shows "claims c s'"
proof (cases "mp_read_meta (core s) = meta \<and> \<not> sp")
  case False
  then show ?thesis using A claims_move [OF K, of i] pc by auto
next
  case True
  let ?h = "taken s"
  let ?pc = "R_Read (?h mod c) l"
  have C: "cells_ok c (taken s) (sent s) (buffer (core s))" by (rule mp_invD(1) [OF I])
  obtain t where t: "t \<le> ?h" "meta = read_cursor c t" "l = tkt_lap c t + 1"
    using mp_invD(4) [OF I, of i] pc by auto
  have "in_budget c t" "in_budget c ?h"
    using cells_budget [OF C] read_bound [OF C] t(1) by simp_all
  then have "t = ?h"
    using True t(2) core_okD(2) [OF mp_invD(2) [OF I]] read_cursor_inject [OF cells_okD(1) [OF C]] by simp
  then have l: "l = tkt_lap c ?h + 1" using t(3) by simp
  have s': "s' = mp_goto i ?pc
      (on_core (\<lambda>q. q\<lparr>mp_read_meta := next_meta (capacity q) meta\<rparr>) (s\<lparr>taken := Suc ?h\<rparr>))"
    using A True read_idx_now [OF I] by auto
  have "claims_ok c (Suc ?h) (sent s) (buffer (core s)) (reads s) ((mp_pcs s)(i := ?pc))"
  proof (rule claims_ok_step [OF K [unfolded claims_def]])
    show "owns ?pc = Some (j mod c) \<or> j < ?h \<and> lapn (buffer (core s)) (j mod c) = 2 * (j div c) + 1 \<and>
        owns (mp_pcs s i) \<noteq> Some (j mod c)"
      if "j < Suc ?h" "lapn (buffer (core s)) (j mod c) = 2 * (j div c) + 1" for j
      using that pc by (cases "j = ?h") simp_all
    show "?pc = R_Read (j mod c) (tkt_lap c j + 1) \<or> j < ?h \<and> j \<notin> fst ` set (reads s) \<and>
        mp_pcs s i \<noteq> R_Read (j mod c) (tkt_lap c j + 1)"
      if "j < Suc ?h" "j \<notin> fst ` set (reads s)" for j
      using that pc l by (cases "j = ?h") simp_all
  qed (simp_all add: pc)
  then show ?thesis by (simp add: s' claims_def mp_goto_def on_core_def)
qed

text \<open>The accesses to a bucket: the thread keeps it, or its lap has passed on.\<close>

lemma claims_access:
  assumes K: "claims c s" and own: "owns (mp_pcs s i) = Some idx" "owns pc = Some idx"
    and lap: "lap (f (buffer (core s) ! idx)) = lap (buffer (core s) ! idx)"
    and nr: "\<And>l. mp_pcs s i \<noteq> R_Read idx l"
  shows "claims c (mp_goto i pc (on_core (upd_elem idx f) s))"
proof -
  let ?buf = "buffer (core s)" and ?buf' = "buffer (upd_elem idx f (core s))"
  have same: "lapn ?buf' k = lapn ?buf k" for k
  proof (cases "k = idx \<and> idx < length ?buf")
    case False
    then have "?buf' ! k = ?buf ! k"
      unfolding upd_elem_def by (simp) (metis list_update_beyond not_le nth_list_update_neq)
    then show ?thesis by simp
  qed (use lap in \<open>simp add: upd_elem_def\<close>)
  have "claims_ok c (taken s) (sent s) ?buf' (reads s) ((mp_pcs s)(i := pc))"
  proof (rule claims_ok_step [OF K [unfolded claims_def]])
    show "pc = R_Read (j mod c) (tkt_lap c j + 1) \<or> j < taken s \<and> j \<notin> fst ` set (reads s) \<and>
        mp_pcs s i \<noteq> R_Read (j mod c) (tkt_lap c j + 1)"
      if "j < taken s" "j \<notin> fst ` set (reads s)" for j
      using that nr [of "tkt_lap c j + 1"] own(1) by auto
  qed (simp_all only: same own, auto)
  then show ?thesis by (simp add: claims_def mp_goto_def on_core_def)
qed

lemma claims_release:
  assumes I: "mp_inv c s" and K: "claims c s" and own: "owns (mp_pcs s i) = Some idx" "owns pc = None"
    and lap: "lapn (buffer (core s)) idx = n" "unat (lap (f (buffer (core s) ! idx))) = Suc n"
    and ok: "\<And>j. j mod c = idx \<Longrightarrow> j < taken s \<Longrightarrow> Suc n \<noteq> 2 * (j div c) + 1"
      "\<And>j. j mod c = idx \<Longrightarrow> j < length (sent s) \<Longrightarrow> Suc n \<noteq> 2 * (j div c)"
    and nr: "\<And>l. mp_pcs s i \<noteq> R_Read idx l" and idx: "idx < length (buffer (core s))"
  shows "claims c (mp_goto i pc (on_core (upd_elem idx f) s))"
proof -
  let ?buf = "buffer (core s)" and ?buf' = "buffer (upd_elem idx f (core s))"
  have at: "lapn ?buf' idx = Suc n" using lap idx by (simp add: upd_elem_def)
  have off: "lapn ?buf' k = lapn ?buf k" if "k \<noteq> idx" for k
    using that by (simp add: upd_elem_def)
  have "claims_ok c (taken s) (sent s) ?buf' (reads s) ((mp_pcs s)(i := pc))"
  proof (rule claims_ok_step [OF K [unfolded claims_def]])
    show "owns pc = Some (j mod c) \<or> j < length (sent s) \<and> lapn ?buf (j mod c) = 2 * (j div c) \<and>
        owns (mp_pcs s i) \<noteq> Some (j mod c)"
      if "j < length (sent s)" "lapn ?buf' (j mod c) = 2 * (j div c)" for j
      using that ok(2) [of j] at off [of "j mod c"] own(1) by (cases "j mod c = idx") auto
    show "owns pc = Some (j mod c) \<or> j < taken s \<and> lapn ?buf (j mod c) = 2 * (j div c) + 1 \<and>
        owns (mp_pcs s i) \<noteq> Some (j mod c)"
      if "j < taken s" "lapn ?buf' (j mod c) = 2 * (j div c) + 1" for j
      using that ok(1) [of j] at off [of "j mod c"] own(1) by (cases "j mod c = idx") auto
    show "pc = R_Read (j mod c) (tkt_lap c j + 1) \<or> j < taken s \<and> j \<notin> fst ` set (reads s) \<and>
        mp_pcs s i \<noteq> R_Read (j mod c) (tkt_lap c j + 1)"
      if "j < taken s" "j \<notin> fst ` set (reads s)" for j
      using that nr [of "tkt_lap c j + 1"] own(1) by auto
  qed
  then show ?thesis by (simp add: claims_def mp_goto_def on_core_def)
qed

lemma claims_s_store:
  assumes I: "mp_inv c s" and K: "claims c s" and pc: "mp_pcs s i = S_Store idx l m"
    and A: "mp_next i sp (S_Store idx l m) s = Some s'"
  shows "claims c s'"
proof -
  let ?buf = "buffer (core s)"
  note D = mp_invD [OF I] and C = cells_okD [OF mp_invD(1) [OF I]]
  obtain k where k: "k < length (sent s)" "idx = k mod c" "l = tkt_lap c k" "lapn ?buf idx = 2 * (k div c)"
    using D(4) [of i] pc by auto
  have L: "unat (l + 1) = Suc (2 * (k div c))"
    using lap_word(2) [OF cells_budget [OF D(1)], of k] k(1,3) by simp
  have "claims c (mp_goto i S_Wake (on_core (upd_elem idx (lap_update (\<lambda>_. l + 1))) s))"
  proof (rule claims_release [OF I K, where n = "2 * (k div c)"])
    show "Suc (2 * (k div c)) \<noteq> 2 * (j div c) + 1" if "j mod c = idx" "j < taken s" for j
      using that C(10) [of j] k(4) by auto
    show "Suc (2 * (k div c)) \<noteq> 2 * (j div c)" for j by (rule parity)
  qed (use pc k(2,4) C(2,3) L in simp_all)
  then show ?thesis using A by simp
qed

lemma claims_r_store:
  assumes I: "mp_inv c s" and K: "claims c s" and pc: "mp_pcs s i = R_Store idx l m"
    and A: "mp_next i sp (R_Store idx l m) s = Some s'"
  shows "claims c s'"
proof -
  let ?buf = "buffer (core s)"
  note D = mp_invD [OF I] and C = cells_okD [OF mp_invD(1) [OF I]]
  obtain k where k: "k < taken s" "idx = k mod c" "l = tkt_lap c k + 1" "lapn ?buf idx = 2 * (k div c) + 1"
    using D(4) [of i] pc by auto
  have "k < length (sent s)" using k(1) C(4) by simp
  then have L: "unat (l + 1) = Suc (2 * (k div c) + 1)"
    using lap_word(3) [OF cells_budget [OF D(1)], of k] k(3) by simp
  have "claims c (mp_goto i (R_Wake m) (on_core (upd_elem idx (lap_update (\<lambda>_. l + 1))) s))"
  proof (rule claims_release [OF I K, where n = "2 * (k div c) + 1"])
    show "Suc (2 * (k div c) + 1) \<noteq> 2 * (j div c) + 1" for j using parity(2) [of "Suc (k div c)" "j div c"] by simp
    show "Suc (2 * (k div c) + 1) \<noteq> 2 * (j div c)" if j: "j mod c = idx" "j < length (sent s)" for j
    proof
      assume eq: "Suc (2 * (k div c) + 1) = 2 * (j div c)"
      then have "j div c = Suc (k div c)" by simp
      then have "k < j" using div_le_mono [of j k c] by (cases "k < j") auto
      with j(1) k(2) have "k + c \<le> j" by (intro same_bucket(1)) simp_all
      then have "k + c < length (sent s)" using j(2) by simp
      then show False using C(7) [of k] k(2,4) by simp
    qed
  qed (use pc k(2,4) C(2,3) L in simp_all)
  then show ?thesis using A by simp
qed

lemma claims_r_read:
  assumes I: "mp_inv c s" and K: "claims c s" and pc: "mp_pcs s i = R_Read idx l"
    and A: "mp_next i sp (R_Read idx l) s = Some s'"
  shows "claims c s'"
proof -
  obtain m where m: "s' = mp_goto i (R_Store idx l m) (s\<lparr>reads := reads s @ [(ticket (core s) idx l, m)]\<rparr>)"
    using A mp_invD(4) [OF mp_inv_r_read [OF I pc A], of i] by (auto simp: mp_goto_def split: option.splits)
  note C = cells_okD [OF mp_invD(1) [OF I]]
  have "unat (capacity (core s)) = c"
    using core_okD(1) [OF mp_invD(2) [OF I]] cap_okD [OF C(1)] by (simp add: unat_of_nat)
  then have tk: "ticket (core s) idx l = j"
    if "idx = j mod c" "l = tkt_lap c j + 1" "j < taken s" for j
    using that lap_word(2) [OF cells_budget [OF mp_invD(1) [OF I]], of j] C(4) by (simp add: ticket_def)
  let ?lg = "reads s @ [(ticket (core s) idx l, m)]"
  have "claims_ok c (taken s) (sent s) (buffer (core s)) ?lg ((mp_pcs s)(i := R_Store idx l m))"
  proof (rule claims_ok_step [OF K [unfolded claims_def]])
    show "R_Store idx l m = R_Read (j mod c) (tkt_lap c j + 1) \<or> j < taken s \<and> j \<notin> fst ` set (reads s) \<and>
        mp_pcs s i \<noteq> R_Read (j mod c) (tkt_lap c j + 1)"
      if "j < taken s" "j \<notin> fst ` set ?lg" for j
      using that tk [of j] pc by auto
  qed (auto simp: pc)
  then show ?thesis by (simp add: m claims_def mp_goto_def)
qed

lemma claims_next:
  assumes I: "mp_inv c s" and K: "claims c s" and A: "mp_next i sp (mp_pcs s i) s = Some s'"
  shows "claims c s'"
proof (cases "mp_pcs s i")
  case (S_Cas meta l m)
  then show ?thesis using claims_s_cas [OF I K] A by (simp del: mp_next.simps)
next
  case (S_Write idx l m)
  then have "s' = mp_goto i (S_Store idx l m) (on_core (upd_elem idx (msg_update (\<lambda>_. Some m))) s)"
    using A by simp
  then show ?thesis using claims_access [OF K, of i idx "S_Store idx l m" "msg_update (\<lambda>_. Some m)"] S_Write by simp
next
  case (S_Store idx l m)
  then show ?thesis using claims_s_store [OF I K] A by (simp del: mp_next.simps)
next
  case (R_Cas meta l)
  then show ?thesis using claims_r_cas [OF I K] A by (simp del: mp_next.simps)
next
  case (R_Read idx l)
  then show ?thesis using claims_r_read [OF I K] A by (simp del: mp_next.simps)
next
  case (R_Store idx l m)
  then show ?thesis using claims_r_store [OF I K] A by (simp del: mp_next.simps)
next
  case S_Wake
  then show ?thesis using A wake_nobody [OF mp_invD(2) [OF I]] by (auto intro!: claims_move [OF K])
next
  case (R_Wake m)
  then show ?thesis using A wake_nobody [OF mp_invD(2) [OF I]] by (auto intro!: claims_move [OF K])
next
  case (K_Cas meta)
  then show ?thesis
    using A by (auto intro!: claims_move [OF K] claims_mp_goto_on_core [OF K] split: if_splits)
next
  case K_Wake
  then show ?thesis
    using A by (auto intro!: claims_mp_goto_on_core [OF K] split: if_splits)
qed (use A in \<open>auto intro!: claims_move [OF K]\<close>)

abbreviation cap_of :: "u32 \<Rightarrow> nat" where
  "cap_of n \<equiv> unat (if n > 0 then n else 1)"

lemma claims_reach: "mp_reach n s \<Longrightarrow> claims (cap_of n) s"
proof (induction rule: mp_reach.induct)
  case (start q)
  then show ?case by (simp add: claims_def claims_ok_def mp_sys_new_def)
next
  case (step s i a s')
  have I: "mp_inv (cap_of n) s" by (rule mp_inv_reach [OF step.hyps(1)])
  show ?case
  proof (cases a)
    case (Step sp)
    then show ?thesis using claims_next [OF I step.IH] step.hyps(2) by simp
  qed (use step in \<open>auto intro!: claims_move split: if_splits\<close>)
qed

section \<open>When everybody is done\<close>

lemma reads_all:
  assumes I: "mp_inv c s" and K: "claims c s" and quiet: "\<And>i. owns (mp_pcs s i) = None"
  shows "mset (reads s) = mset (zip [0..<taken s] (sent s))"
proof -
  note D = mp_invD [OF I] and C = cells_okD [OF mp_invD(1) [OF I]]
  let ?z = "zip [0..<taken s] (sent s)"
  have nr: "mp_pcs s i \<noteq> R_Read idx l" for i idx l using quiet [of i] by auto
  have all: "j < taken s \<Longrightarrow> j \<in> fst ` set (reads s)" for j
    using claims_okD(3) [OF K [unfolded claims_def], of j] nr by blast
  have "set (reads s) = set ?z"
  proof (rule set_eqI, rule iffI)
    fix x assume "x \<in> set (reads s)"
    then have "fst x < taken s" "snd x = sent s ! fst x" using D(3) by (auto simp: log_ok_def)
    then show "x \<in> set ?z" using C(4) by (cases x) (auto simp: in_set_zip intro!: exI [of _ "fst x"])
  next
    fix x assume "x \<in> set ?z"
    then have x: "fst x < taken s" "snd x = sent s ! fst x" by (auto simp: in_set_zip)
    then obtain v where "(fst x, v) \<in> set (reads s)" using all by force
    moreover from this have "v = sent s ! fst x" using D(3) by (auto simp: log_ok_def)
    ultimately show "x \<in> set (reads s)" using x by (cases x) auto
  qed
  moreover have "distinct (reads s)" using D(3) by (simp add: log_ok_def distinct_map)
  moreover have "distinct ?z" by (simp add: distinct_zipI1)
  ultimately show ?thesis by (simp add: set_eq_iff_mset_eq_distinct)
qed

section \<open>What a failure means\<close>

text \<open>The number of the message a thread is writing, or reading.\<close>

fun writes_ticket :: "'a mpmc_bounded \<Rightarrow> 'a mp_pc \<Rightarrow> nat option" where
  "writes_ticket q (S_Write idx l m) = Some (ticket q idx l)"
| "writes_ticket q (S_Store idx l m) = Some (ticket q idx l)"
| "writes_ticket q _ = None"

fun reads_ticket :: "'a mpmc_bounded \<Rightarrow> 'a mp_pc \<Rightarrow> nat option" where
  "reads_ticket q (R_Read idx l) = Some (ticket q idx l)"
| "reads_ticket q (R_Store idx l m) = Some (ticket q idx l)"
| "reads_ticket q _ = None"

lemma ticket_word:
  assumes I: "mp_inv c s" and "j < length (sent s)"
  shows "ticket (core s) (j mod c) (tkt_lap c j) = j" and "ticket (core s) (j mod c) (tkt_lap c j + 1) = j"
proof -
  have "unat (capacity (core s)) = c"
    using core_okD(1) [OF mp_invD(2) [OF I]] cap_okD [OF cells_okD(1) [OF mp_invD(1) [OF I]]]
    by (simp add: unat_of_nat)
  moreover have "in_budget c j" by (rule cells_budget [OF mp_invD(1) [OF I]]) (use assms(2) in simp)
  ultimately show "ticket (core s) (j mod c) (tkt_lap c j) = j"
    "ticket (core s) (j mod c) (tkt_lap c j + 1) = j"
    using lap_word by (simp_all add: ticket_def)
qed

lemma working_writer:
  assumes I: "mp_inv c s" and K: "claims c s" and j: "j < length (sent s)"
    and lap: "lapn (buffer (core s)) (j mod c) = 2 * (j div c)"
  shows "\<exists>k. writes_ticket (core s) (mp_pcs s k) = Some j"
proof -
  obtain k where k: "owns (mp_pcs s k) = Some (j mod c)"
    using claims_okD(1) [OF K [unfolded claims_def] j lap] by blast
  have "writes_ticket (core s) (mp_pcs s k) = Some j"
    using mp_invD(4) [OF I, of k] k lap parity same_ticket [of j c] ticket_word [OF I]
    by (cases "mp_pcs s k") (auto dest: sym)
  then show ?thesis by blast
qed

lemma working_reader:
  assumes I: "mp_inv c s" and K: "claims c s" and j: "j < taken s"
    and lap: "lapn (buffer (core s)) (j mod c) = 2 * (j div c) + 1"
  shows "\<exists>k. reads_ticket (core s) (mp_pcs s k) = Some j"
proof -
  have js: "x < taken s \<Longrightarrow> x < length (sent s)" for x using cells_okD(4) [OF mp_invD(1) [OF I]] by simp
  obtain k where k: "owns (mp_pcs s k) = Some (j mod c)"
    using claims_okD(2) [OF K [unfolded claims_def] j lap] by blast
  have "reads_ticket (core s) (mp_pcs s k) = Some j"
    using mp_invD(4) [OF I, of k] k lap parity same_ticket [of j c] ticket_word [OF I] js
    by (cases "mp_pcs s k") (auto dest: sym)
  then show ?thesis by blast
qed

text \<open>
  \<^verbatim>\<open>Full\<close> is answered only while all the buckets are taken: \<open>c\<close> messages are in the
  queue, or the receiver of the oldest one has not given its bucket back yet.
\<close>

lemma full_precise:
  assumes I: "mp_inv c s" and K: "claims c s" and pc: "mp_pcs s i = S_Again meta l m"
    and A: "mp_next i sp (S_Again meta l m) s = Some s'" and F: "mp_pcs s' i = S_End r"
  shows "r = Err (Full m)" and "length (sent s) = taken s + c \<or>
    c \<le> length (sent s) \<and> (\<exists>k. reads_ticket (core s) (mp_pcs s k) = Some (length (sent s) - c))"
proof -
  note D = mp_invD [OF I] and C = cells_okD [OF mp_invD(1) [OF I]]
  let ?buf = "buffer (core s)"
  obtain t where t: "t \<le> length (sent s)" "meta = write_cursor c t" using D(4) [of i] pc by auto
  then have idx: "unat (meta_idx meta) = t mod c" "t mod c < length ?buf" using C(1-3) by simp_all
  have B: "in_budget c t" by (rule cells_budget [OF D(1) t(1)])
  have res: "r = Err (Full m) \<and> load_lap (?buf ! (t mod c)) < meta_lap meta"
    using A F idx by (auto simp: outcome_pc_def mp_goto_def split: if_splits)
  then show "r = Err (Full m)" by simp
  have lt: "lapn ?buf (t mod c) < 2 * (t div c)"
    using res t(2) C(1) lap_word(1) [OF B] by (auto simp: load_lap_def word_less_nat_alt)
  then have tn: "t = length (sent s)" using cells_ok_sent [OF D(1), of t] t(1) by (cases "t < length (sent s)") simp_all
  have ct: "c \<le> t" using lt by (cases "c \<le> t") simp_all
  let ?j = "t - c"
  have j: "?j mod c = t mod c" "Suc (?j div c) = t div c"
    using ct div_minus [OF C(2) ct] by (simp_all add: le_mod_geq [symmetric])
  show "length (sent s) = taken s + c \<or>
    c \<le> length (sent s) \<and> (\<exists>k. reads_ticket (core s) (mp_pcs s k) = Some (length (sent s) - c))"
  proof (cases "?j < taken s")
    case True
    then have "lapn ?buf (?j mod c) = 2 * (?j div c) + 1" using C(10) [of ?j] lt j by simp
    then show ?thesis using working_reader [OF I K True] tn ct by simp
  next
    case False
    then have "length (sent s) = taken s + c" using C(5) tn ct by simp
    then show ?thesis ..
  qed
qed

text \<open>
  \<^verbatim>\<open>TryRecvError\<close> is answered only while no message is ready: all are taken, or the sender of
  the next one has not published it yet.
\<close>

lemma empty_precise:
  assumes I: "mp_inv c s" and K: "claims c s" and pc: "mp_pcs s i = R_Again meta l"
    and A: "mp_next i sp (R_Again meta l) s = Some s'" and F: "mp_pcs s' i = R_End r"
  shows "r = Err TryRecvError" and "taken s = length (sent s) \<or>
    (\<exists>k. writes_ticket (core s) (mp_pcs s k) = Some (taken s))"
proof -
  note D = mp_invD [OF I] and C = cells_okD [OF mp_invD(1) [OF I]]
  let ?buf = "buffer (core s)"
  obtain t where t: "t \<le> taken s" "meta = read_cursor c t" using D(4) [of i] pc by auto
  then have idx: "unat (meta_idx meta) = t mod c" "t mod c < length ?buf" using C(1-3) by simp_all
  have B: "in_budget c t" by (rule cells_budget [OF D(1) read_bound [OF D(1) t(1)]])
  have res: "r = Err TryRecvError \<and> load_lap (?buf ! (t mod c)) < meta_lap meta"
    using A F idx by (auto simp: outcome_pc_def mp_goto_def split: if_splits)
  then show "r = Err TryRecvError" by simp
  have lt: "lapn ?buf (t mod c) < 2 * (t div c) + 1"
    using res t(2) C(1) lap_word(2) [OF B] by (auto simp: load_lap_def word_less_nat_alt)
  then have tn: "t = taken s" using C(10) [of t] t(1) by (cases "t < taken s") simp_all
  show "taken s = length (sent s) \<or> (\<exists>k. writes_ticket (core s) (mp_pcs s k) = Some (taken s))"
  proof (cases "taken s < length (sent s)")
    case True
    then have "lapn ?buf (taken s mod c) = 2 * (taken s div c)"
      using cells_ok_sent [OF D(1) True] lt tn by simp
    then show ?thesis using working_writer [OF I K True] by simp
  qed (use C(4) in simp)
qed

section \<open>The closed bit\<close>

definition mp_closed :: "'a mp_sys \<Rightarrow> bool" where
  "mp_closed s \<longleftrightarrow> mp_write_meta (core s) AND MPMC_MASK_64 \<noteq> 0"

lemma mp_closed_bit: "mp_closed s \<longleftrightarrow> bit (mp_write_meta (core s)) 63"
  by (simp add: mp_closed_def and_mask_64_iff [simplified])

text \<open>A thread has seen a closed cursor only when the queue is closed.\<close>

definition seen_ok :: "'a mp_sys \<Rightarrow> bool" where
  "seen_ok s \<longleftrightarrow> (\<forall>i meta m. mp_pcs s i = S_Top meta m \<longrightarrow> bit meta 63 \<longrightarrow> mp_closed s)"

lemma core_upd_elem [simp]: "mp_write_meta (upd_elem idx f q) = mp_write_meta q"
  by (simp add: upd_elem_def)

lemma mp_goto_pc [simp]: "mp_pcs (mp_goto i pc s) i = pc" "core (mp_goto i pc s) = core s"
  "sent (mp_goto i pc s) = sent s" "taken (mp_goto i pc s) = taken s"
  by (simp_all add: mp_goto_def)

lemma mp_goto_closed [simp]: "mp_closed (mp_goto i pc s) = mp_closed s"
  by (simp add: mp_closed_def mp_goto_def)

lemma closed_next:
  assumes I: "mp_inv c s" and A: "mp_next i sp (mp_pcs s i) s = Some s'" and C: "mp_closed s"
  shows "mp_closed s'" and "sent s' = sent s"
proof -
  have no_cas: "mp_write_meta (core s) \<noteq> meta" if pc: "mp_pcs s i = S_Cas meta l m" for meta l m
  proof -
    obtain t where t: "t \<le> length (sent s)" "meta = write_cursor c t" using mp_invD(4) [OF I, of i] pc by auto
    have "in_budget c t" by (rule cells_budget [OF mp_invD(1) [OF I] t(1)])
    then have "\<not> bit meta 63" using t(2) write_cursor_in_budget by simp
    then show ?thesis using C mp_closed_bit by auto
  qed
  show "mp_closed s'"
    using A C no_cas wake_nobody [OF mp_invD(2) [OF I]] unfolding mp_closed_bit
    by (cases "mp_pcs s i") (auto simp: mp_goto_def on_core_def bit_or_iff split: if_splits option.splits)
  show "sent s' = sent s"
    using A no_cas wake_nobody [OF mp_invD(2) [OF I]]
    by (cases "mp_pcs s i") (auto simp: mp_goto_def on_core_def split: if_splits option.splits)
qed

lemma closed_act:
  assumes "mp_inv c s" and "mp_act i a s = Some s'" and "mp_closed s"
  shows "mp_closed s'" and "sent s' = sent s"
  using assms closed_next [of c s i _ s'] by (cases a; auto split: if_splits)+

lemma seen_next:
  assumes I: "mp_inv c s" and A: "mp_next i sp (mp_pcs s i) s = Some s'" and S: "seen_ok s"
  shows "seen_ok s'"
  unfolding seen_ok_def
proof (intro allI impI)
  fix j meta m assume pc: "mp_pcs s' j = S_Top meta m" and b: "bit meta 63"
  show "mp_closed s'"
  proof (cases "mp_pcs s j = S_Top meta m")
    case True
    then have "mp_closed s" using S b by (auto simp: seen_ok_def)
    then show ?thesis by (rule closed_next(1) [OF I A])
  next
    case False
    have "j = i" and "mp_write_meta (core s) = meta"
      using A pc False wake_nobody [OF mp_invD(2) [OF I]]
      by (cases "mp_pcs s i"; auto simp: mp_goto_def on_core_def outcome_pc_def
        split: if_splits option.splits outcome.splits ordering.splits)+
    then have "mp_closed s" using b mp_closed_bit by blast
    then show ?thesis by (rule closed_next(1) [OF I A])
  qed
qed

lemma seen_goto:
  assumes "seen_ok s" and "\<And>meta m. pc \<noteq> S_Top meta m"
  shows "seen_ok (mp_goto i pc s)"
  unfolding seen_ok_def
proof (intro allI impI)
  fix j meta m assume "mp_pcs (mp_goto i pc s) j = S_Top meta m" and b: "bit meta 63"
  then have "mp_pcs s j = S_Top meta m" using assms(2) [of meta m] by (simp add: mp_goto_def split: if_splits)
  then show "mp_closed (mp_goto i pc s)" using assms(1) b unfolding seen_ok_def mp_goto_closed by blast
qed

lemma seen_reach: "mp_reach n s \<Longrightarrow> seen_ok s"
proof (induction rule: mp_reach.induct)
  case (start q)
  then show ?case by (simp add: seen_ok_def mp_sys_new_def)
next
  case (step s i a s')
  have I: "mp_inv (cap_of n) s" by (rule mp_inv_reach [OF step.hyps(1)])
  show ?case
  proof (cases a)
    case (Step sp)
    then show ?thesis using seen_next [OF I _ step.IH] step.hyps(2) by simp
  qed (use step in \<open>auto intro!: seen_goto split: if_splits\<close>)
qed

text \<open>Where the answers come from.\<close>

lemma answer_full:
  assumes "mp_next i sp (mp_pcs s i) s = Some s'" and "mp_pcs s' i = S_End (Err (Full m))"
  shows "\<exists>meta l. mp_pcs s i = S_Again meta l m"
  using assms by (cases "mp_pcs s i")
    (auto simp: outcome_pc_def split: if_splits option.splits outcome.splits ordering.splits)

lemma answer_disconnected:
  assumes "mp_next i sp (mp_pcs s i) s = Some s'" and "mp_pcs s' i = S_End (Err (Disconnected m))"
  shows "\<exists>meta. mp_pcs s i = S_Top meta m \<and> bit meta 63"
  using assms by (cases "mp_pcs s i")
    (auto simp: outcome_pc_def closed_bit split: if_splits option.splits outcome.splits ordering.splits)

lemma answer_empty:
  assumes "mp_next i sp (mp_pcs s i) s = Some s'" and "mp_pcs s' i = R_End (Err TryRecvError)"
  shows "\<exists>meta l. mp_pcs s i = R_Again meta l"
  using assms by (cases "mp_pcs s i")
    (auto simp: outcome_pc_def split: if_splits option.splits outcome.splits ordering.splits)

section \<open>A thread that runs alone\<close>

text \<open>
  At most \<open>k\<close> steps of one thread, without spurious failures, until its call is over. Every call
  ends after eight steps of its own, wherever the other threads have stopped: the calls are
  obstruction-free.
\<close>

fun call_over :: "'a mp_pc \<Rightarrow> bool" where
  "call_over Out = True"
| "call_over (S_End r) = True"
| "call_over (R_End r) = True"
| "call_over K_End = True"
| "call_over _ = False"

fun mp_alone :: "nat \<Rightarrow> nat \<Rightarrow> 'a mp_sys \<Rightarrow> 'a mp_sys option" where
  "mp_alone 0 i s = Some s"
| "mp_alone (Suc k) i s =
     (if call_over (mp_pcs s i) then Some s
      else case mp_next i False (mp_pcs s i) s of Some s' \<Rightarrow> mp_alone k i s' | None \<Rightarrow> None)"

definition ends :: "nat \<Rightarrow> nat \<Rightarrow> 'a mp_sys \<Rightarrow> bool" where
  "ends k i s \<longleftrightarrow> (\<exists>s'. mp_alone k i s = Some s' \<and> call_over (mp_pcs s' i))"

lemma ends_over: "call_over (mp_pcs s i) \<Longrightarrow> ends k i s"
  by (cases k) (simp_all add: ends_def)

lemma ends_next: "mp_next i False (mp_pcs s i) s = Some s' \<Longrightarrow> ends k i s' \<Longrightarrow> ends (Suc k) i s"
  by (auto simp: ends_def)

lemma ends_Suc: "ends k i s \<Longrightarrow> ends (Suc k) i s"
proof (induction k arbitrary: s)
  case 0
  then show ?case by (simp add: ends_def)
next
  case (Suc k)
  then show ?case
    by (cases "call_over (mp_pcs s i)"; cases "mp_next i False (mp_pcs s i) s")
      (auto intro: ends_over simp: ends_def simp del: mp_next.simps)
qed

lemma ends_add: "ends k i s \<Longrightarrow> ends (d + k) i s"
  by (induction d) (auto intro: ends_Suc)

lemma ends_s_wake: "mp_inv c s \<Longrightarrow> mp_pcs s i = S_Wake \<Longrightarrow> ends 1 i s"
  using wake_nobody [OF mp_invD(2), of c s] by (simp add: ends_def)

lemma ends_s_store:
  assumes I: "mp_inv c s" and pc: "mp_pcs s i = S_Store idx l m"
  shows "ends 2 i s"
proof -
  obtain s' where A: "mp_next i False (mp_pcs s i) s = Some s'" and P: "mp_pcs s' i = S_Wake" using pc by simp
  have "ends 1 i s'" by (rule ends_s_wake [OF mp_inv_next [OF I A] P])
  then show ?thesis using ends_next [OF A] by (simp add: numeral_2_eq_2)
qed

lemma ends_s_write:
  assumes I: "mp_inv c s" and pc: "mp_pcs s i = S_Write idx l m"
  shows "ends 3 i s"
proof -
  obtain s' where A: "mp_next i False (mp_pcs s i) s = Some s'" and P: "mp_pcs s' i = S_Store idx l m" using pc by simp
  have "ends 2 i s'" by (rule ends_s_store [OF mp_inv_next [OF I A] P])
  then show ?thesis using ends_next [OF A, of 2] by simp
qed

lemma ends_s_cas:
  assumes I: "mp_inv c s" and pc: "mp_pcs s i = S_Cas meta l m" and now: "mp_write_meta (core s) = meta"
    and B: "in_budget c (Suc (length (sent s)))"
  shows "ends 4 i s"
proof -
  have "unat (capacity (core s)) = c"
    using core_okD(1) [OF mp_invD(2) [OF I]] cap_okD [OF cells_okD(1) [OF mp_invD(1) [OF I]]]
    by (simp add: unat_of_nat)
  then obtain s' idx where A: "mp_next i False (mp_pcs s i) s = Some s'" and P: "mp_pcs s' i = S_Write idx l m"
    using pc now B by simp
  have "ends 3 i s'" by (rule ends_s_write [OF mp_inv_next [OF I A] P])
  then show ?thesis using ends_next [OF A, of 3] by simp
qed

lemma ends_s_top:
  assumes I: "mp_inv c s" and pc: "mp_pcs s i = S_Top meta m" and now: "mp_write_meta (core s) = meta"
    and B: "in_budget c (Suc (length (sent s)))"
  shows "ends 5 i s"
proof -
  note D = mp_invD [OF I] and C = cells_okD [OF mp_invD(1) [OF I]]
  let ?t = "length (sent s)" and ?e = "buffer (core s) ! (length (sent s) mod c)"
  have idx: "unat (meta_idx meta) = ?t mod c" "?t mod c < length (buffer (core s))"
    using write_idx_now [OF I] now C(2,3) by simp_all
  consider (closed) "MPMC_MASK_32 \<le> meta_lap meta" | (eq) "\<not> MPMC_MASK_32 \<le> meta_lap meta" "meta_lap meta = load_lap ?e"
    | (gr) "\<not> MPMC_MASK_32 \<le> meta_lap meta" "load_lap ?e < meta_lap meta"
    | (le) "\<not> MPMC_MASK_32 \<le> meta_lap meta" "meta_lap meta < load_lap ?e"
    by (meson linorder_less_linear)
  then show ?thesis
  proof cases
    case closed
    let ?s = "mp_goto i (S_End (Err (Disconnected m))) s"
    have A: "mp_next i False (mp_pcs s i) s = Some ?s" using pc idx closed by (simp add: outcome_pc_def)
    have "ends 4 i ?s" by (rule ends_over) simp
    then show ?thesis using ends_next [OF A, of 4] by simp
  next
    case eq
    let ?s = "mp_goto i (S_Cas meta (load_lap ?e) m) s"
    have A: "mp_next i False (mp_pcs s i) s = Some ?s" using pc idx eq by (simp add: outcome_pc_def cmp_def)
    have "ends 4 i ?s" by (rule ends_s_cas [OF mp_inv_next [OF I A]]) (use now B in simp_all)
    then show ?thesis using ends_next [OF A, of 4] by simp
  next
    case gr
    let ?s = "mp_goto i (S_Again meta (load_lap ?e) m) s"
    let ?s2 = "mp_goto i (S_End (Err (Full m))) ?s"
    have A: "mp_next i False (mp_pcs s i) s = Some ?s" using pc idx gr by (auto simp: outcome_pc_def cmp_def)
    have A2: "mp_next i False (mp_pcs ?s i) ?s = Some ?s2" using idx gr by (simp add: outcome_pc_def)
    have "ends 3 i ?s2" by (rule ends_over) simp
    then have "ends 4 i ?s" using ends_next [OF A2, of 3] by simp
    then show ?thesis using ends_next [OF A, of 4] by simp
  next
    case le
    have "meta = write_cursor c ?t"
      using core_okD(3) [OF D(2)] now le(1) write_meta_ok_now [OF I] C(1) by (auto simp: closed_bit)
    then have "meta_lap meta = tkt_lap c ?t" using C(1) by simp
    then have "unat (meta_lap meta) = 2 * (?t div c)" using lap_word(1) [OF C(6)] by simp
    then have False using le(2) C(8) [of ?t] by (simp add: word_less_nat_alt load_lap_def)
    then show ?thesis ..
  qed
qed

lemma ends_s_load:
  assumes I: "mp_inv c s" and pc: "mp_pcs s i = S_Load m" and B: "in_budget c (Suc (length (sent s)))"
  shows "ends 6 i s"
proof -
  let ?s = "mp_goto i (S_Top (mp_write_meta (core s)) m) s"
  have A: "mp_next i False (mp_pcs s i) s = Some ?s" using pc by simp
  have "ends 5 i ?s" by (rule ends_s_top [OF mp_inv_next [OF I A]]) (use B in simp_all)
  then show ?thesis using ends_next [OF A, of 5] by simp
qed

lemma ends_s_again:
  assumes I: "mp_inv c s" and pc: "mp_pcs s i = S_Again meta l m" and B: "in_budget c (Suc (length (sent s)))"
  shows "ends 7 i s"
proof -
  obtain t where "meta = write_cursor c t" using mp_invD(4) [OF I, of i] pc by auto
  then have idx: "unat (meta_idx meta) < length (buffer (core s))"
    using cells_okD(1-3) [OF mp_invD(1) [OF I]] by simp
  show ?thesis
  proof (cases "load_lap (buffer (core s) ! unat (meta_idx meta)) < meta_lap meta")
    case True
    let ?s = "mp_goto i (S_End (Err (Full m))) s"
    have A: "mp_next i False (mp_pcs s i) s = Some ?s" using pc True idx by (simp add: outcome_pc_def)
    have "ends 6 i ?s" by (rule ends_over) simp
    then show ?thesis using ends_next [OF A, of 6] by simp
  next
    case False
    let ?s = "mp_goto i (S_Load m) s"
    have A: "mp_next i False (mp_pcs s i) s = Some ?s" using pc False idx by (simp add: outcome_pc_def)
    have "ends 6 i ?s" by (rule ends_s_load [OF mp_inv_next [OF I A]]) (use B in simp_all)
    then show ?thesis using ends_next [OF A, of 6] by simp
  qed
qed

lemma ends_s_cas_any:
  assumes I: "mp_inv c s" and pc: "mp_pcs s i = S_Cas meta l m" and B: "in_budget c (Suc (length (sent s)))"
  shows "ends 6 i s"
proof (cases "mp_write_meta (core s) = meta")
  case True
  have "ends 4 i s" by (rule ends_s_cas [OF I pc True B])
  from ends_add [OF this, of 2] show ?thesis by simp
next
  case False
  let ?s = "mp_goto i (S_Top (mp_write_meta (core s)) m) s"
  have A: "mp_next i False (mp_pcs s i) s = Some ?s" using pc False by simp
  have "ends 5 i ?s" by (rule ends_s_top [OF mp_inv_next [OF I A]]) (use B in simp_all)
  then show ?thesis using ends_next [OF A, of 5] by simp
qed

lemma ends_s_top_any:
  assumes I: "mp_inv c s" and pc: "mp_pcs s i = S_Top meta m" and B: "in_budget c (Suc (length (sent s)))"
  shows "ends 8 i s"
proof -
  have idx: "unat (meta_idx meta) < length (buffer (core s))"
    using mp_invD(4) [OF I, of i] pc cells_okD(1-3) [OF mp_invD(1) [OF I]]
    by (auto simp: write_meta_ok_def)
  then obtain s' where A: "mp_next i False (mp_pcs s i) s = Some s'" using pc by (simp add: outcome_pc_def)
  have same: "sent s' = sent s" using A pc by auto
  from A pc idx consider "call_over (mp_pcs s' i)" | "mp_pcs s' i = S_Load m"
    | l where "mp_pcs s' i = S_Cas meta l m" | l where "mp_pcs s' i = S_Again meta l m"
    by (auto simp: outcome_pc_def split: if_splits ordering.splits)
  then have "ends 7 i s'"
  proof cases
    case 1
    then show ?thesis by (rule ends_over)
  next
    case 2
    from ends_add [OF ends_s_load [OF mp_inv_next [OF I A] 2], of 1] show ?thesis using B same by simp
  next
    case 3
    from ends_add [OF ends_s_cas_any [OF mp_inv_next [OF I A] 3], of 1] show ?thesis using B same by simp
  next
    case 4
    from ends_s_again [OF mp_inv_next [OF I A] 4] show ?thesis using B same by simp
  qed
  then show ?thesis using ends_next [OF A, of 7] by simp
qed

text \<open>The receiver.\<close>

lemma ends_r_wake: "mp_inv c s \<Longrightarrow> mp_pcs s i = R_Wake m \<Longrightarrow> ends 1 i s"
  using wake_nobody [OF mp_invD(2), of c s] by (simp add: ends_def)

lemma ends_r_store:
  assumes I: "mp_inv c s" and pc: "mp_pcs s i = R_Store idx l m"
  shows "ends 2 i s"
proof -
  obtain s' where A: "mp_next i False (mp_pcs s i) s = Some s'" and P: "mp_pcs s' i = R_Wake m" using pc by simp
  have "ends 1 i s'" by (rule ends_r_wake [OF mp_inv_next [OF I A] P])
  then show ?thesis using ends_next [OF A] by (simp add: numeral_2_eq_2)
qed

lemma ends_r_read:
  assumes I: "mp_inv c s" and pc: "mp_pcs s i = R_Read idx l"
  shows "ends 3 i s"
proof -
  note D = mp_invD [OF I] and C = cells_okD [OF mp_invD(1) [OF I]]
  obtain j where j: "j < taken s" "idx = j mod c" "lapn (buffer (core s)) idx = 2 * (j div c) + 1"
    using D(4) [of i] pc by auto
  then have "msg (buffer (core s) ! idx) = Some (sent s ! j)" using C(4) C(11) [of j] by simp
  then obtain s' m where A: "mp_next i False (mp_pcs s i) s = Some s'" and P: "mp_pcs s' i = R_Store idx l m"
    using pc by (simp add: mp_goto_def)
  have "ends 2 i s'" by (rule ends_r_store [OF mp_inv_next [OF I A] P])
  then show ?thesis using ends_next [OF A, of 2] by simp
qed

lemma ends_r_cas:
  assumes I: "mp_inv c s" and pc: "mp_pcs s i = R_Cas meta l" and now: "mp_read_meta (core s) = meta"
  shows "ends 4 i s"
proof -
  obtain s' idx where A: "mp_next i False (mp_pcs s i) s = Some s'" and P: "mp_pcs s' i = R_Read idx l"
    using pc now by simp
  have "ends 3 i s'" by (rule ends_r_read [OF mp_inv_next [OF I A] P])
  then show ?thesis using ends_next [OF A, of 3] by simp
qed

lemma ends_r_top:
  assumes I: "mp_inv c s" and pc: "mp_pcs s i = R_Top meta" and now: "mp_read_meta (core s) = meta"
  shows "ends 5 i s"
proof -
  note D = mp_invD [OF I] and C = cells_okD [OF mp_invD(1) [OF I]]
  let ?h = "taken s" and ?e = "buffer (core s) ! (taken s mod c)"
  have idx: "unat (meta_idx meta) = ?h mod c" "?h mod c < length (buffer (core s))"
    using read_idx_now [OF I] now C(2,3) by simp_all
  consider (eq) "meta_lap meta = load_lap ?e" | (gr) "load_lap ?e < meta_lap meta" | (le) "meta_lap meta < load_lap ?e"
    by (meson linorder_less_linear)
  then show ?thesis
  proof cases
    case eq
    let ?s = "mp_goto i (R_Cas meta (load_lap ?e)) s"
    have A: "mp_next i False (mp_pcs s i) s = Some ?s" using pc idx eq by (simp add: outcome_pc_def cmp_def)
    have "ends 4 i ?s" by (rule ends_r_cas [OF mp_inv_next [OF I A]]) (use now in simp_all)
    then show ?thesis using ends_next [OF A, of 4] by simp
  next
    case gr
    let ?s = "mp_goto i (R_Again meta (load_lap ?e)) s"
    let ?s2 = "mp_goto i (R_End (Err TryRecvError)) ?s"
    have A: "mp_next i False (mp_pcs s i) s = Some ?s" using pc idx gr by (auto simp: outcome_pc_def cmp_def)
    have A2: "mp_next i False (mp_pcs ?s i) ?s = Some ?s2" using idx gr by (simp add: outcome_pc_def)
    have "ends 3 i ?s2" by (rule ends_over) simp
    then have "ends 4 i ?s" using ends_next [OF A2, of 3] by simp
    then show ?thesis using ends_next [OF A, of 4] by simp
  next
    case le
    have "meta_lap meta = tkt_lap c ?h + 1" using core_okD(2) [OF D(2)] now C(1) by auto
    then have "unat (meta_lap meta) = 2 * (?h div c) + 1"
      using lap_word(2) [OF cells_budget [OF D(1) C(4)]] by simp
    then have False using le C(9) [of ?h] by (simp add: word_less_nat_alt load_lap_def)
    then show ?thesis ..
  qed
qed

lemma ends_r_load:
  assumes I: "mp_inv c s" and pc: "mp_pcs s i = R_Load"
  shows "ends 6 i s"
proof -
  let ?s = "mp_goto i (R_Top (mp_read_meta (core s))) s"
  have A: "mp_next i False (mp_pcs s i) s = Some ?s" using pc by simp
  have "ends 5 i ?s" by (rule ends_r_top [OF mp_inv_next [OF I A]]) simp_all
  then show ?thesis using ends_next [OF A, of 5] by simp
qed

lemma ends_r_again:
  assumes I: "mp_inv c s" and pc: "mp_pcs s i = R_Again meta l"
  shows "ends 7 i s"
proof -
  obtain t where "meta = read_cursor c t" using mp_invD(4) [OF I, of i] pc by auto
  then have idx: "unat (meta_idx meta) < length (buffer (core s))"
    using cells_okD(1-3) [OF mp_invD(1) [OF I]] by simp
  show ?thesis
  proof (cases "load_lap (buffer (core s) ! unat (meta_idx meta)) < meta_lap meta")
    case True
    let ?s = "mp_goto i (R_End (Err TryRecvError)) s"
    have A: "mp_next i False (mp_pcs s i) s = Some ?s" using pc True idx by (simp add: outcome_pc_def)
    have "ends 6 i ?s" by (rule ends_over) simp
    then show ?thesis using ends_next [OF A, of 6] by simp
  next
    case False
    let ?s = "mp_goto i R_Load s"
    have A: "mp_next i False (mp_pcs s i) s = Some ?s" using pc False idx by (simp add: outcome_pc_def)
    have "ends 6 i ?s" by (rule ends_r_load [OF mp_inv_next [OF I A]]) simp
    then show ?thesis using ends_next [OF A, of 6] by simp
  qed
qed

lemma ends_r_cas_any:
  assumes I: "mp_inv c s" and pc: "mp_pcs s i = R_Cas meta l"
  shows "ends 6 i s"
proof (cases "mp_read_meta (core s) = meta")
  case True
  have "ends 4 i s" by (rule ends_r_cas [OF I pc True])
  from ends_add [OF this, of 2] show ?thesis by simp
next
  case False
  let ?s = "mp_goto i (R_Top (mp_read_meta (core s))) s"
  have A: "mp_next i False (mp_pcs s i) s = Some ?s" using pc False by simp
  have "ends 5 i ?s" by (rule ends_r_top [OF mp_inv_next [OF I A]]) simp_all
  then show ?thesis using ends_next [OF A, of 5] by simp
qed

lemma ends_r_top_any:
  assumes I: "mp_inv c s" and pc: "mp_pcs s i = R_Top meta"
  shows "ends 8 i s"
proof -
  obtain t where "meta = read_cursor c t" using mp_invD(4) [OF I, of i] pc by auto
  then have idx: "unat (meta_idx meta) < length (buffer (core s))"
    using cells_okD(1-3) [OF mp_invD(1) [OF I]] by simp
  then obtain s' where A: "mp_next i False (mp_pcs s i) s = Some s'" using pc by (simp add: outcome_pc_def)
  from A pc idx consider "mp_pcs s' i = R_Load" | l where "mp_pcs s' i = R_Cas meta l"
    | l where "mp_pcs s' i = R_Again meta l"
    by (auto simp: outcome_pc_def split: if_splits ordering.splits)
  then have "ends 7 i s'"
  proof cases
    case 1
    from ends_add [OF ends_r_load [OF mp_inv_next [OF I A] 1], of 1] show ?thesis by simp
  next
    case 2
    from ends_add [OF ends_r_cas_any [OF mp_inv_next [OF I A] 2], of 1] show ?thesis by simp
  next
    case 3
    show ?thesis by (rule ends_r_again [OF mp_inv_next [OF I A] 3])
  qed
  then show ?thesis using ends_next [OF A, of 7] by simp
qed

text \<open>\<^verbatim>\<open>close\<close>.\<close>

lemma ends_k_wake: "mp_inv c s \<Longrightarrow> mp_pcs s i = K_Wake \<Longrightarrow> ends 1 i s"
  using core_okD(4,6) [OF mp_invD(2), of c s] by (simp add: ends_def md_is_empty_def)

lemma ends_k_cas:
  assumes I: "mp_inv c s" and pc: "mp_pcs s i = K_Cas meta"
  shows "ends 3 i s"
proof -
  have now: "ends 2 i s" if I: "mp_inv c s" and pc: "mp_pcs s i = K_Cas (mp_write_meta (core s))" for s :: "'a mp_sys"
  proof -
    obtain s' where A: "mp_next i False (mp_pcs s i) s = Some s'" and P: "mp_pcs s' i = K_Wake" using pc by simp
    have "ends 1 i s'" by (rule ends_k_wake [OF mp_inv_next [OF I A] P])
    then show ?thesis using ends_next [OF A] by (simp add: numeral_2_eq_2)
  qed
  show ?thesis
  proof (cases "mp_write_meta (core s) = meta")
    case True
    then have "ends 2 i s" using now [OF I] pc by simp
    from ends_Suc [OF this] show ?thesis by simp
  next
    case False
    let ?s = "mp_goto i (K_Cas (mp_write_meta (core s))) s"
    have A: "mp_next i False (mp_pcs s i) s = Some ?s" using pc False by simp
    have "ends 2 i ?s" by (rule now [OF mp_inv_next [OF I A]]) simp
    then show ?thesis using ends_next [OF A, of 2] by simp
  qed
qed

lemma ends_k_load:
  assumes I: "mp_inv c s" and pc: "mp_pcs s i = K_Load"
  shows "ends 4 i s"
proof -
  obtain s' where A: "mp_next i False (mp_pcs s i) s = Some s'"
    and P: "mp_pcs s' i = K_End \<or> mp_pcs s' i = K_Cas (mp_write_meta (core s))" using pc by simp
  from P have "ends 3 i s'" using ends_over [of s' i 3] ends_k_cas [OF mp_inv_next [OF I A]] by auto
  then show ?thesis using ends_next [OF A, of 3] by simp
qed

lemma ends_any:
  assumes I: "mp_inv c s" and B: "in_budget c (Suc (length (sent s)))"
  shows "ends 8 i s"
proof -
  have up: "ends k i s \<Longrightarrow> k \<le> 8 \<Longrightarrow> ends 8 i s" for k using ends_add [of k i s "8 - k"] by simp
  show ?thesis
  proof (cases "mp_pcs s i")
    case (S_Load m)
    from ends_s_load [OF I this B] show ?thesis by (rule up) simp
  next
    case (S_Top meta m)
    from ends_s_top_any [OF I this B] show ?thesis .
  next
    case (S_Again meta l m)
    from ends_s_again [OF I this B] show ?thesis by (rule up) simp
  next
    case (S_Cas meta l m)
    from ends_s_cas_any [OF I this B] show ?thesis by (rule up) simp
  next
    case (S_Write idx l m)
    from ends_s_write [OF I this] show ?thesis by (rule up) simp
  next
    case (S_Store idx l m)
    from ends_s_store [OF I this] show ?thesis by (rule up) simp
  next
    case S_Wake
    from ends_s_wake [OF I this] show ?thesis by (rule up) simp
  next
    case R_Load
    from ends_r_load [OF I this] show ?thesis by (rule up) simp
  next
    case (R_Top meta)
    from ends_r_top_any [OF I this] show ?thesis .
  next
    case (R_Again meta l)
    from ends_r_again [OF I this] show ?thesis by (rule up) simp
  next
    case (R_Cas meta l)
    from ends_r_cas_any [OF I this] show ?thesis by (rule up) simp
  next
    case (R_Read idx l)
    from ends_r_read [OF I this] show ?thesis by (rule up) simp
  next
    case (R_Store idx l m)
    from ends_r_store [OF I this] show ?thesis by (rule up) simp
  next
    case (R_Wake m)
    from ends_r_wake [OF I this] show ?thesis by (rule up) simp
  next
    case K_Load
    from ends_k_load [OF I this] show ?thesis by (rule up) simp
  next
    case (K_Cas meta)
    from ends_k_cas [OF I this] show ?thesis by (rule up) simp
  next
    case K_Wake
    from ends_k_wake [OF I this] show ?thesis by (rule up) simp
  qed (use mp_invD(4) [OF I, of i] in \<open>simp_all add: ends_over\<close>)
qed

end
