(* ===== verification/Spsc_Steps.thy ===== *)
theory Spsc_Steps
  imports Cells Spsc_Bounded
begin

text \<open>
  The non-blocking calls of \<^verbatim>\<open>SpscBounded\<close> cut at their atomic accesses (\<^verbatim>\<open>try_send\<close>,
  \<^verbatim>\<open>try_recv\<close> and \<^verbatim>\<open>close\<close> of \<^verbatim>\<open>src/src/queue/bounded.rs\<close>). The cursors are plain words:
  the calls are safe as long as one thread at a time sends and one at a time receives, which is
  what this theory shows; the handles do not enforce it.
\<close>

section \<open>The steps\<close>

text \<open>
  Where a thread is: before the read of the cursor; at the top of the loop, before the load of the
  closed flag; before the load of the lap; before its second load; before the write of the cursor;
  before the access to the message cell; before the store of the lap; before the wake-up; at the
  end with the answer. \<^verbatim>\<open>Dead\<close> is undefined behaviour.
\<close>

datatype 'a sp_pc =
    Idle
  | Snd_Load 'a | Snd_Flag u64 'a | Snd_Top u64 'a | Snd_Again u64 'a | Snd_Move u64 u32 'a
  | Snd_Write nat u32 'a | Snd_Store nat u32 'a | Snd_Wake | Snd_End "(unit, 'a try_send_error) result"
  | Rcv_Load | Rcv_Top u64 | Rcv_Again u64 | Rcv_Move u64 u32 | Rcv_Read nat u32
  | Rcv_Store nat u32 'a | Rcv_Wake 'a | Rcv_End "('a, try_recv_error) result"
  | Cls_Flag | Cls_Wake | Cls_End
  | Stuck

text \<open>
  \<^term>\<open>sp_sent\<close>, \<^term>\<open>sp_taken\<close> and \<^term>\<open>sp_reads\<close> are the history: the messages in the
  order in which the write cursor was moved for them, the number of moves of the read cursor, and
  what was read.
\<close>

record 'a sp_sys =
  sp_core :: "'a spsc_bounded"
  sp_pcs :: "nat \<Rightarrow> 'a sp_pc"
  sp_sent :: "'a list"
  sp_taken :: nat
  sp_reads :: "'a list"

datatype 'a sp_action = Do_Send 'a | Do_Recv | Do_Close | Do_Step

definition sp_goto :: "nat \<Rightarrow> 'a sp_pc \<Rightarrow> 'a sp_sys \<Rightarrow> 'a sp_sys" where
  "sp_goto i pc s = s\<lparr>sp_pcs := (sp_pcs s)(i := pc)\<rparr>"

definition on_sp_core :: "('a spsc_bounded \<Rightarrow> 'a spsc_bounded) \<Rightarrow> 'a sp_sys \<Rightarrow> 'a sp_sys" where
  "on_sp_core f s = s\<lparr>sp_core := f (sp_core s)\<rparr>"

definition sp_outcome :: "'b outcome \<Rightarrow> ('b \<Rightarrow> 'a sp_pc) \<Rightarrow> 'a sp_pc" where
  "sp_outcome r f = (case r of Ret x \<Rightarrow> f x | _ \<Rightarrow> Stuck)"

text \<open>
  One access of thread \<^term>\<open>i\<close> in \<^verbatim>\<open>try_send\<close>. The write cursor is moved less than
  \<open>2^30 * c\<close> times.
\<close>

fun sp_send_next :: "nat \<Rightarrow> 'a sp_pc \<Rightarrow> 'a sp_sys \<Rightarrow> 'a sp_sys option" where
  "sp_send_next i (Snd_Load m) s = Some (sp_goto i (Snd_Flag (write_meta (sp_core s)) m) s)"
| "sp_send_next i (Snd_Flag meta m) s =
     Some (sp_goto i (if closed_flag (sp_core s) then Snd_End (Err (Disconnected m)) else Snd_Top meta m) s)"
| "sp_send_next i (Snd_Top meta m) s =
     Some (sp_goto i (sp_outcome (get_unchecked (buffer (sp_core s)) (unat (meta_idx meta))) (\<lambda>e.
       case cmp (meta_lap meta) (load_lap e) of
           Equal \<Rightarrow> Snd_Move meta (load_lap e) m
         | Greater \<Rightarrow> Snd_Again meta m
         | Less \<Rightarrow> Snd_Flag meta m)) s)"
| "sp_send_next i (Snd_Again meta m) s =
     Some (sp_goto i (sp_outcome (get_unchecked (buffer (sp_core s)) (unat (meta_idx meta))) (\<lambda>e.
       if meta_lap meta > load_lap e then Snd_End (Err (Full m)) else Snd_Flag meta m)) s)"
| "sp_send_next i (Snd_Move meta l m) s =
     (if in_budget (unat (capacity (sp_core s))) (Suc (length (sp_sent s))) then
        Some (sp_goto i (Snd_Write (unat (meta_idx meta)) l m)
          (on_sp_core (\<lambda>q. if meta_idx meta + 1 < capacity q
                        then q\<lparr>write_meta := write_meta q + 1\<rparr>
                        else q\<lparr>write_meta := lap_meta (meta_lap meta + 2)\<rparr>)
            (s\<lparr>sp_sent := sp_sent s @ [m]\<rparr>)))
      else None)"
| "sp_send_next i (Snd_Write idx l m) s =
     Some (sp_goto i (Snd_Store idx l m) (on_sp_core (upd_elem idx (\<lambda>e. e\<lparr>msg := Some m\<rparr>)) s))"
| "sp_send_next i (Snd_Store idx l m) s =
     Some (sp_goto i Snd_Wake (on_sp_core (upd_elem idx (\<lambda>e. e\<lparr>lap := l + 1\<rparr>)) s))"
| "sp_send_next i Snd_Wake s =
     (case wake_one_reader_if_any (sp_core s) of
        Ret q \<Rightarrow> Some (sp_goto i (Snd_End (Ok ())) (s\<lparr>sp_core := q\<rparr>))
      | _ \<Rightarrow> Some (sp_goto i Stuck s))"
| "sp_send_next i (Snd_End r) s = Some (sp_goto i Idle s)"
| "sp_send_next i _ s = None"

text \<open>One access in \<^verbatim>\<open>try_recv\<close>.\<close>

fun sp_recv_next :: "nat \<Rightarrow> 'a sp_pc \<Rightarrow> 'a sp_sys \<Rightarrow> 'a sp_sys option" where
  "sp_recv_next i Rcv_Load s = Some (sp_goto i (Rcv_Top (read_meta (sp_core s))) s)"
| "sp_recv_next i (Rcv_Top meta) s =
     Some (sp_goto i (sp_outcome (get_unchecked (buffer (sp_core s)) (unat (meta_idx meta))) (\<lambda>e.
       case cmp (meta_lap meta) (load_lap e) of
           Equal \<Rightarrow> Rcv_Move meta (load_lap e)
         | Greater \<Rightarrow> Rcv_Again meta
         | Less \<Rightarrow> Rcv_Top meta)) s)"
| "sp_recv_next i (Rcv_Again meta) s =
     Some (sp_goto i (sp_outcome (get_unchecked (buffer (sp_core s)) (unat (meta_idx meta))) (\<lambda>e.
       if meta_lap meta > load_lap e then Rcv_End (Err TryRecvError) else Rcv_Top meta)) s)"
| "sp_recv_next i (Rcv_Move meta l) s =
     Some (sp_goto i (Rcv_Read (unat (meta_idx meta)) l)
       (on_sp_core (\<lambda>q. if meta_idx meta + 1 < capacity q
                     then q\<lparr>read_meta := read_meta q + 1\<rparr>
                     else q\<lparr>read_meta := lap_meta (meta_lap meta + 2)\<rparr>)
         (s\<lparr>sp_taken := Suc (sp_taken s)\<rparr>)))"
| "sp_recv_next i (Rcv_Read idx l) s =
     (case msg (buffer (sp_core s) ! idx) of
        Some m \<Rightarrow> Some (sp_goto i (Rcv_Store idx l m) (s\<lparr>sp_reads := sp_reads s @ [m]\<rparr>))
      | None \<Rightarrow> Some (sp_goto i Stuck s))"
| "sp_recv_next i (Rcv_Store idx l m) s =
     Some (sp_goto i (Rcv_Wake m) (on_sp_core (upd_elem idx (\<lambda>e. e\<lparr>lap := l + 1\<rparr>)) s))"
| "sp_recv_next i (Rcv_Wake m) s =
     (case wake_one_writer_if_any (sp_core s) of
        Ret q \<Rightarrow> Some (sp_goto i (Rcv_End (Ok m)) (s\<lparr>sp_core := q\<rparr>))
      | _ \<Rightarrow> Some (sp_goto i Stuck s))"
| "sp_recv_next i (Rcv_End r) s = Some (sp_goto i Idle s)"
| "sp_recv_next i _ s = None"

text \<open>
  One access in \<^verbatim>\<open>close\<close>. Nobody is registered with the wakers, so their \<^verbatim>\<open>close\<close> finds
  them empty.
\<close>

fun sp_close_next :: "nat \<Rightarrow> 'a sp_pc \<Rightarrow> 'a sp_sys \<Rightarrow> 'a sp_sys option" where
  "sp_close_next i Cls_Flag s = Some (sp_goto i Cls_Wake (on_sp_core (\<lambda>q. q\<lparr>closed_flag := True\<rparr>) s))"
| "sp_close_next i Cls_Wake s =
     (if md_is_empty (guard (write_waker (sp_core s))) \<and> md_is_empty (guard (read_waker (sp_core s)))
      then Some (sp_goto i Cls_End (on_sp_core (\<lambda>q. q\<lparr>write_waker := (write_waker q)\<lparr>empty_flag := True\<rparr>,
             read_waker := (read_waker q)\<lparr>empty_flag := True\<rparr>\<rparr>) s))
      else None)"
| "sp_close_next i Cls_End s = Some (sp_goto i Idle s)"
| "sp_close_next i _ s = None"

text \<open>Who is sending, and who is receiving.\<close>

fun sending :: "'a sp_pc \<Rightarrow> bool" where
  "sending (Snd_Load m) = True"
| "sending (Snd_Flag meta m) = True"
| "sending (Snd_Top meta m) = True"
| "sending (Snd_Again meta m) = True"
| "sending (Snd_Move meta l m) = True"
| "sending (Snd_Write idx l m) = True"
| "sending (Snd_Store idx l m) = True"
| "sending Snd_Wake = True"
| "sending (Snd_End r) = True"
| "sending _ = False"

fun receiving :: "'a sp_pc \<Rightarrow> bool" where
  "receiving Rcv_Load = True"
| "receiving (Rcv_Top meta) = True"
| "receiving (Rcv_Again meta) = True"
| "receiving (Rcv_Move meta l) = True"
| "receiving (Rcv_Read idx l) = True"
| "receiving (Rcv_Store idx l m) = True"
| "receiving (Rcv_Wake m) = True"
| "receiving (Rcv_End r) = True"
| "receiving _ = False"

definition sp_next :: "nat \<Rightarrow> 'a sp_pc \<Rightarrow> 'a sp_sys \<Rightarrow> 'a sp_sys option" where
  "sp_next i pc s =
     (if sending pc then sp_send_next i pc s
      else if receiving pc then sp_recv_next i pc s
      else sp_close_next i pc s)"

fun sp_act :: "nat \<Rightarrow> 'a sp_action \<Rightarrow> 'a sp_sys \<Rightarrow> 'a sp_sys option" where
  "sp_act i (Do_Send m) s = (if sp_pcs s i = Idle then Some (sp_goto i (Snd_Load m) s) else None)"
| "sp_act i Do_Recv s = (if sp_pcs s i = Idle then Some (sp_goto i Rcv_Load s) else None)"
| "sp_act i Do_Close s = (if sp_pcs s i = Idle then Some (sp_goto i Cls_Flag s) else None)"
| "sp_act i Do_Step s = sp_next i (sp_pcs s i) s"

definition sp_sys_new :: "'a spsc_bounded \<Rightarrow> 'a sp_sys" where
  "sp_sys_new q = \<lparr>sp_core = q, sp_pcs = (\<lambda>_. Idle), sp_sent = [], sp_taken = 0, sp_reads = []\<rparr>"

text \<open>One thread at a time sends, and one at a time receives.\<close>

fun one_each :: "'a sp_action \<Rightarrow> 'a sp_sys \<Rightarrow> bool" where
  "one_each (Do_Send m) s = (\<forall>j. \<not> sending (sp_pcs s j))"
| "one_each Do_Recv s = (\<forall>j. \<not> receiving (sp_pcs s j))"
| "one_each _ s = True"

inductive sp_reach :: "u32 \<Rightarrow> 'a sp_sys \<Rightarrow> bool" for n where
  start: "spsc_bounded_new n = Ret q \<Longrightarrow> sp_reach n (sp_sys_new q)"
| step: "sp_reach n s \<Longrightarrow> one_each a s \<Longrightarrow> sp_act i a s = Some s' \<Longrightarrow> sp_reach n s'"

section \<open>The invariant\<close>

text \<open>
  What a thread knows. The sender knows the write cursor exactly, because nobody else moves it, and
  the receiver the read cursor.
\<close>

fun sp_ok :: "nat \<Rightarrow> nat \<Rightarrow> 'a list \<Rightarrow> 'a elem list \<Rightarrow> 'a list \<Rightarrow> 'a sp_pc \<Rightarrow> bool" where
  "sp_ok c h ms buf lg (Snd_Flag meta m) = (meta = write_cursor c (length ms))"
| "sp_ok c h ms buf lg (Snd_Top meta m) = (meta = write_cursor c (length ms))"
| "sp_ok c h ms buf lg (Snd_Again meta m) = (meta = write_cursor c (length ms))"
| "sp_ok c h ms buf lg (Snd_Move meta l m) =
     (meta = write_cursor c (length ms) \<and> l = tkt_lap c (length ms) \<and>
      2 * (length ms div c) \<le> lapn buf (length ms mod c))"
| "sp_ok c h ms buf lg (Snd_Write idx l m) =
     (\<exists>j. Suc j = length ms \<and> idx = j mod c \<and> l = tkt_lap c j \<and> lapn buf idx = 2 * (j div c) \<and> m = ms ! j)"
| "sp_ok c h ms buf lg (Snd_Store idx l m) =
     (\<exists>j. Suc j = length ms \<and> idx = j mod c \<and> l = tkt_lap c j \<and> lapn buf idx = 2 * (j div c) \<and> m = ms ! j \<and>
        msg (buf ! idx) = Some m)"
| "sp_ok c h ms buf lg (Rcv_Top meta) = (meta = read_cursor c h)"
| "sp_ok c h ms buf lg (Rcv_Again meta) = (meta = read_cursor c h)"
| "sp_ok c h ms buf lg (Rcv_Move meta l) =
     (meta = read_cursor c h \<and> l = tkt_lap c h + 1 \<and> 2 * (h div c) + 1 \<le> lapn buf (h mod c))"
| "sp_ok c h ms buf lg (Rcv_Read idx l) =
     (\<exists>j. Suc j = h \<and> idx = j mod c \<and> l = tkt_lap c j + 1 \<and> lapn buf idx = 2 * (j div c) + 1 \<and> length lg = j)"
| "sp_ok c h ms buf lg (Rcv_Store idx l m) =
     (\<exists>j. Suc j = h \<and> idx = j mod c \<and> l = tkt_lap c j + 1 \<and> lapn buf idx = 2 * (j div c) + 1 \<and> m = ms ! j)"
| "sp_ok c h ms buf lg Stuck = False"
| "sp_ok c h ms buf lg _ = True"

fun sp_bucket :: "'a sp_pc \<Rightarrow> nat option" where
  "sp_bucket (Snd_Write idx l m) = Some idx"
| "sp_bucket (Snd_Store idx l m) = Some idx"
| "sp_bucket (Rcv_Read idx l) = Some idx"
| "sp_bucket (Rcv_Store idx l m) = Some idx"
| "sp_bucket _ = None"

definition sp_core_ok :: "nat \<Rightarrow> nat \<Rightarrow> nat \<Rightarrow> 'a spsc_bounded \<Rightarrow> bool" where
  "sp_core_ok c h t q \<longleftrightarrow>
     capacity q = word_of_nat c \<and> read_meta q = read_cursor c h \<and> write_meta q = write_cursor c t \<and>
     idle (read_waker q) \<and> empty_flag (read_waker q) \<and> idle (write_waker q) \<and> empty_flag (write_waker q)"

fun sp_reading :: "'a sp_pc \<Rightarrow> bool" where
  "sp_reading (Rcv_Read idx l) = True"
| "sp_reading _ = False"

definition sp_log_ok :: "nat \<Rightarrow> 'a list \<Rightarrow> 'a list \<Rightarrow> (nat \<Rightarrow> 'a sp_pc) \<Rightarrow> bool" where
  "sp_log_ok h ms lg pcs \<longleftrightarrow>
     length lg \<le> h \<and> lg = take (length lg) ms \<and> ((\<forall>i. \<not> sp_reading (pcs i)) \<longrightarrow> length lg = h)"

definition sp_inv :: "nat \<Rightarrow> 'a sp_sys \<Rightarrow> bool" where
  "sp_inv c s \<longleftrightarrow>
     cells_ok c (sp_taken s) (sp_sent s) (buffer (sp_core s)) \<and>
     sp_core_ok c (sp_taken s) (length (sp_sent s)) (sp_core s) \<and>
     sp_log_ok (sp_taken s) (sp_sent s) (sp_reads s) (sp_pcs s) \<and>
     (\<forall>i. sp_ok c (sp_taken s) (sp_sent s) (buffer (sp_core s)) (sp_reads s) (sp_pcs s i)) \<and>
     (\<forall>i j. sending (sp_pcs s i) \<and> sending (sp_pcs s j) \<longrightarrow> i = j) \<and>
     (\<forall>i j. receiving (sp_pcs s i) \<and> receiving (sp_pcs s j) \<longrightarrow> i = j)"

lemma sp_invD:
  assumes "sp_inv c s"
  shows "cells_ok c (sp_taken s) (sp_sent s) (buffer (sp_core s))"
    and "sp_core_ok c (sp_taken s) (length (sp_sent s)) (sp_core s)"
    and "sp_log_ok (sp_taken s) (sp_sent s) (sp_reads s) (sp_pcs s)"
    and "sp_ok c (sp_taken s) (sp_sent s) (buffer (sp_core s)) (sp_reads s) (sp_pcs s i)"
    and "sending (sp_pcs s i) \<Longrightarrow> sending (sp_pcs s j) \<Longrightarrow> i = j"
    and "receiving (sp_pcs s i) \<Longrightarrow> receiving (sp_pcs s j) \<Longrightarrow> i = j"
  using assms unfolding sp_inv_def by blast+

lemma sp_core_okD:
  assumes "sp_core_ok c h t q"
  shows "capacity q = word_of_nat c" and "read_meta q = read_cursor c h" and "write_meta q = write_cursor c t"
    and "idle (read_waker q)" "empty_flag (read_waker q)" "idle (write_waker q)" "empty_flag (write_waker q)"
  using assms by (auto simp: sp_core_ok_def)

text \<open>A sender and a receiver never hold the same bucket: its lap is even for one and odd for the other.\<close>

lemma sp_bucket_sending: "sp_bucket pc = Some x \<Longrightarrow> sending pc \<or> receiving pc"
  by (cases pc) auto

lemma sp_bucket_even:
  "sp_ok c h ms buf lg pc \<Longrightarrow> sending pc \<Longrightarrow> sp_bucket pc = Some x \<Longrightarrow> even (lapn buf x)"
  by (cases pc) auto

lemma sp_bucket_odd:
  "sp_ok c h ms buf lg pc \<Longrightarrow> receiving pc \<Longrightarrow> sp_bucket pc = Some x \<Longrightarrow> odd (lapn buf x)"
  by (cases pc) auto

text \<open>What the one sender knows stays true while the receiver moves on, and the other way round.\<close>

lemma sp_ok_sender_later:
  assumes P: "sp_ok c h ms buf lg pc" and S: "sending pc" and B: "buf_later x buf buf'"
    and O: "x \<noteq> None \<Longrightarrow> sp_bucket pc \<noteq> x"
  shows "sp_ok c h' ms buf' lg' pc"
proof -
  have same: "buf' ! i = buf ! i" if "sp_bucket pc = Some i" for i
    using that B O by (cases x) (auto simp: buf_later_def)
  have up: "n \<le> lapn buf i \<Longrightarrow> n \<le> lapn buf' i" for n i
    using B unfolding buf_later_def by (meson le_trans)
  show ?thesis using P S same up by (cases pc) auto
qed

lemma sp_ok_receiver_later:
  assumes P: "sp_ok c h ms buf lg pc" and S: "receiving pc" and B: "buf_later x buf buf'"
    and O: "x \<noteq> None \<Longrightarrow> sp_bucket pc \<noteq> x" and h: "h \<le> length ms"
  shows "sp_ok c h (ms @ more_ms) buf' lg pc"
proof -
  have same: "buf' ! i = buf ! i" if "sp_bucket pc = Some i" for i
    using that B O by (cases x) (auto simp: buf_later_def)
  have up: "n \<le> lapn buf i \<Longrightarrow> n \<le> lapn buf' i" for n i
    using B unfolding buf_later_def by (meson le_trans)
  have nth: "Suc j = h \<Longrightarrow> (ms @ more_ms) ! j = ms ! j" for j using h by (simp add: nth_append)
  show ?thesis using P S same up nth by (cases pc) auto
qed

lemma sp_ok_other: "\<not> sending pc \<Longrightarrow> \<not> receiving pc \<Longrightarrow> sp_ok c h ms buf lg pc \<Longrightarrow> sp_ok c h' ms' buf' lg' pc"
  by (cases pc) auto

lemma sp_inv_step:
  assumes I: "sp_inv c s" and P: "sp_pcs s' = (sp_pcs s)(i := pc)"
    and C: "cells_ok c (sp_taken s') (sp_sent s') (buffer (sp_core s'))"
    and Q: "sp_core_ok c (sp_taken s') (length (sp_sent s')) (sp_core s')"
    and R: "sp_log_ok (sp_taken s') (sp_sent s') (sp_reads s') (sp_pcs s')"
    and S: "sp_sent s' = sp_sent s @ more_ms" "more_ms = [] \<or> sending (sp_pcs s i)"
    and T: "sp_taken s' = sp_taken s \<and> sp_reads s' = sp_reads s \<or> receiving (sp_pcs s i)"
    and B: "buf_later x (buffer (sp_core s)) (buffer (sp_core s'))" and X: "x \<noteq> None \<Longrightarrow> sp_bucket (sp_pcs s i) = x"
    and N: "sp_ok c (sp_taken s') (sp_sent s') (buffer (sp_core s')) (sp_reads s') pc"
    and O: "sending pc \<Longrightarrow> sending (sp_pcs s i) \<or> (\<forall>j. \<not> sending (sp_pcs s j))"
      "receiving pc \<Longrightarrow> receiving (sp_pcs s i) \<or> (\<forall>j. \<not> receiving (sp_pcs s j))"
  shows "sp_inv c s'"
proof -
  note D = sp_invD [OF I]
  have ok: "sp_ok c (sp_taken s') (sp_sent s') (buffer (sp_core s')) (sp_reads s') (sp_pcs s j)" if j: "j \<noteq> i" for j
  proof -
    have apart: "sp_bucket (sp_pcs s j) \<noteq> x" if x: "x \<noteq> None"
    proof
      assume "sp_bucket (sp_pcs s j) = x"
      then obtain y where y: "sp_bucket (sp_pcs s j) = Some y" "sp_bucket (sp_pcs s i) = Some y" using x X by auto
      note E = sp_bucket_even [OF D(4)] sp_bucket_odd [OF D(4)]
      show False
        using sp_bucket_sending [OF y(1)] sp_bucket_sending [OF y(2)] E(1) [OF _ y(1)] E(2) [OF _ y(1)]
          E(1) [OF _ y(2)] E(2) [OF _ y(2)] D(5) [of i j] D(6) [of i j] j by blast
    qed
    consider "sending (sp_pcs s j)" | "receiving (sp_pcs s j)" | "\<not> sending (sp_pcs s j)" "\<not> receiving (sp_pcs s j)"
      by blast
    then show ?thesis
    proof cases
      case 1
      then have "more_ms = []" using S(2) D(5) [of i j] j by blast
      then show ?thesis using sp_ok_sender_later [OF D(4) 1 B apart] S(1) by simp
    next
      case 2
      then have "sp_taken s' = sp_taken s" "sp_reads s' = sp_reads s" using T D(6) [of i j] j by blast+
      then show ?thesis
        using sp_ok_receiver_later [OF D(4) 2 B apart cells_okD(4) [OF D(1)]] S(1) by simp
    next
      case 3
      then show ?thesis by (rule sp_ok_other) (rule D(4))
    qed
  qed
  have one: "j = k" if "sending (sp_pcs s' j)" "sending (sp_pcs s' k)" for j k
    using that P O(1) D(5) by (auto split: if_splits)
  have one': "j = k" if "receiving (sp_pcs s' j)" "receiving (sp_pcs s' k)" for j k
    using that P O(2) D(6) by (auto split: if_splits)
  have "sp_ok c (sp_taken s') (sp_sent s') (buffer (sp_core s')) (sp_reads s') (sp_pcs s' j)" for j
    using ok [of j] N P by (cases "j = i") simp_all
  then show ?thesis using C Q R one one' unfolding sp_inv_def by blast
qed

text \<open>The log does not change, and a thread that is not reading moves on.\<close>

lemma sp_log_move:
  assumes "sp_log_ok h ms lg pcs" and "\<not> sp_reading (pcs i)" and "h \<le> length ms"
  shows "sp_log_ok h (ms @ more_ms) lg (pcs(i := pc))"
proof -
  have "\<forall>j. \<not> sp_reading (pcs j)" if "\<forall>j. \<not> sp_reading ((pcs(i := pc)) j)"
    using that assms(2) by (metis fun_upd_apply)
  then show ?thesis using assms(1,3) by (auto simp: sp_log_ok_def)
qed

lemma sp_inv_move:
  assumes I: "sp_inv c s" and "\<not> sp_reading (sp_pcs s i)"
    and "sp_ok c (sp_taken s) (sp_sent s) (buffer (sp_core s)) (sp_reads s) pc"
    and "sending pc \<Longrightarrow> sending (sp_pcs s i) \<or> (\<forall>j. \<not> sending (sp_pcs s j))"
    and "receiving pc \<Longrightarrow> receiving (sp_pcs s i) \<or> (\<forall>j. \<not> receiving (sp_pcs s j))"
  shows "sp_inv c (sp_goto i pc s)"
  by (rule sp_inv_step [OF I, where i = i and pc = pc and x = None and more_ms = "[]"])
    (use sp_invD(1,2) [OF I] assms(3-5) sp_log_move [OF sp_invD(3) [OF I] assms(2) cells_okD(4) [OF sp_invD(1) [OF I]], of "[]"]
      in \<open>simp_all add: sp_goto_def\<close>)

lemma sp_inv_access:
  assumes I: "sp_inv c s" and own: "sp_bucket (sp_pcs s i) = Some idx" "\<not> sp_reading (sp_pcs s i)"
    and s': "s' = sp_goto i pc (on_sp_core (upd_elem idx f) s)"
    and C: "cells_ok c (sp_taken s) (sp_sent s) ((buffer (sp_core s))[idx := f (buffer (sp_core s) ! idx)])"
    and le: "lapn (buffer (sp_core s)) idx \<le> unat (lap (f (buffer (sp_core s) ! idx)))"
    and N: "sp_ok c (sp_taken s) (sp_sent s) ((buffer (sp_core s))[idx := f (buffer (sp_core s) ! idx)]) (sp_reads s) pc"
    and O: "sending pc \<Longrightarrow> sending (sp_pcs s i)" "receiving pc \<Longrightarrow> receiving (sp_pcs s i)"
  shows "sp_inv c s'"
proof (rule sp_inv_step [OF I, where i = i and pc = pc and x = "Some idx" and more_ms = "[]"])
  note D = sp_invD [OF I]
  show "sp_core_ok c (sp_taken s') (length (sp_sent s')) (sp_core s')"
    using D(2) by (simp add: s' sp_goto_def on_sp_core_def sp_core_ok_def upd_elem_def)
  show "sp_log_ok (sp_taken s') (sp_sent s') (sp_reads s') (sp_pcs s')"
    using sp_log_move [OF D(3) own(2) cells_okD(4) [OF D(1)], of "[]"]
    by (simp add: s' sp_goto_def on_sp_core_def)
  show "buf_later (Some idx) (buffer (sp_core s)) (buffer (sp_core s'))"
    using buf_later_update [where e = "f (buffer (sp_core s) ! idx)", OF le]
    by (simp add: s' sp_goto_def on_sp_core_def upd_elem_def)
qed (use C N O own in \<open>simp_all add: s' sp_goto_def on_sp_core_def upd_elem_def\<close>)

text \<open>The sender.\<close>

lemma sp_idx:
  assumes I: "sp_inv c s"
  shows "unat (meta_idx (write_cursor c t)) < length (buffer (sp_core s))"
    and "unat (meta_idx (read_cursor c t)) < length (buffer (sp_core s))"
  using cells_okD(1-3) [OF sp_invD(1) [OF I]] by simp_all

lemma sp_inv_s_top:
  assumes I: "sp_inv c s" and pc: "sp_pcs s i = Snd_Top meta m"
    and A: "sp_send_next i (Snd_Top meta m) s = Some s'"
  shows "sp_inv c s'"
proof -
  note D = sp_invD [OF I] and C = cells_okD [OF sp_invD(1) [OF I]]
  let ?buf = "buffer (sp_core s)"
  have m: "meta = write_cursor c (length (sp_sent s))" using D(4) [of i] pc by simp
  have B: "in_budget c (length (sp_sent s))" by (rule C(6))
  have "sp_ok c (sp_taken s) (sp_sent s) ?buf (sp_reads s)
      (case cmp (meta_lap meta) (load_lap (?buf ! unat (meta_idx meta))) of
         Equal \<Rightarrow> Snd_Move meta (load_lap (?buf ! unat (meta_idx meta))) m
       | Greater \<Rightarrow> Snd_Again meta m
       | Less \<Rightarrow> Snd_Flag meta m)"
    using m C(1) lap_word(1) [OF B] by (auto simp: cmp_def load_lap_def)
  then show ?thesis
    using A pc sp_idx(1) [OF I] m
    by (auto simp: sp_outcome_def intro!: sp_inv_move [OF I] split: ordering.splits)
qed

lemma sp_inv_s_move:
  assumes I: "sp_inv c s" and pc: "sp_pcs s i = Snd_Move meta l m"
    and A: "sp_send_next i (Snd_Move meta l m) s = Some s'"
  shows "sp_inv c s'"
proof -
  note D = sp_invD [OF I] and C = cells_okD [OF sp_invD(1) [OF I]] and K = sp_core_okD [OF sp_invD(2) [OF I]]
  let ?t = "length (sp_sent s)" and ?buf = "buffer (sp_core s)"
  have m: "meta = write_cursor c ?t" "l = tkt_lap c ?t" "2 * (?t div c) \<le> lapn ?buf (?t mod c)"
    using D(4) [of i] pc by auto
  have c: "unat (capacity (sp_core s)) = c" using K(1) cap_okD [OF C(1)] by (simp add: unat_of_nat)
  have idx: "unat (meta_idx meta) = ?t mod c" using m(1) C(1) by simp
  have lap: "lapn ?buf (?t mod c) = 2 * (?t div c)" using C(8) [of ?t] m(3) by simp
  define q where "q = (if meta_idx meta + 1 < capacity (sp_core s)
      then (sp_core s)\<lparr>write_meta := write_meta (sp_core s) + 1\<rparr>
      else (sp_core s)\<lparr>write_meta := lap_meta (meta_lap meta + 2)\<rparr>)"
  have bud: "in_budget c (Suc ?t)" and s': "s' = sp_goto i (Snd_Write (?t mod c) l m)
      (s\<lparr>sp_sent := sp_sent s @ [m], sp_core := q\<rparr>)"
    using A c idx by (auto simp: q_def on_sp_core_def split: if_splits)
  have buf: "buffer q = ?buf" by (simp add: q_def)
  have "meta_idx (write_cursor c ?t) = word_of_nat (?t mod c)" by (simp add: write_cursor_def)
  then have Q: "sp_core_ok c (sp_taken s) (Suc ?t) q"
    using D(2) m(1) write_cursor_Suc [OF C(1), of ?t] by (auto simp: sp_core_ok_def q_def split: if_splits)
  show ?thesis
  proof (rule sp_inv_step [OF I, where i = i and pc = "Snd_Write (?t mod c) l m" and x = None and more_ms = "[m]"])
    show "cells_ok c (sp_taken s') (sp_sent s') (buffer (sp_core s'))"
      using cells_write_claim [OF D(1) m(3) bud, of m] by (simp add: s' sp_goto_def buf)
    show "sp_log_ok (sp_taken s') (sp_sent s') (sp_reads s') (sp_pcs s')"
      using sp_log_move [OF D(3) _ C(4), of i "[m]"] pc by (simp add: s' sp_goto_def)
    show "sp_ok c (sp_taken s') (sp_sent s') (buffer (sp_core s')) (sp_reads s') (Snd_Write (?t mod c) l m)"
      using m(2) lap by (auto simp: s' sp_goto_def buf intro!: exI [of _ ?t])
  qed (use Q pc in \<open>simp_all add: s' sp_goto_def buf\<close>)
qed

lemma sp_inv_s_write:
  assumes I: "sp_inv c s" and pc: "sp_pcs s i = Snd_Write idx l m"
    and A: "sp_send_next i (Snd_Write idx l m) s = Some s'"
  shows "sp_inv c s'"
proof -
  let ?buf = "buffer (sp_core s)"
  note D = sp_invD [OF I] and C = cells_okD [OF sp_invD(1) [OF I]]
  obtain j where j: "Suc j = length (sp_sent s)" "idx = j mod c" "l = tkt_lap c j" "lapn ?buf idx = 2 * (j div c)"
    "m = sp_sent s ! j" using D(4) [of i] pc by auto
  have idx: "idx < length ?buf" using j(2) C(2,3) by simp
  show ?thesis
  proof (rule sp_inv_access [OF I, where i = i and idx = idx and pc = "Snd_Store idx l m" and f = "msg_update (\<lambda>_. Some m)"])
    show "cells_ok c (sp_taken s) (sp_sent s) (?buf[idx := (?buf ! idx)\<lparr>msg := Some m\<rparr>])"
      by (rule cells_ok_update [OF D(1) j(2) [symmetric]]) (use j(4) parity in auto)
    show "sp_ok c (sp_taken s) (sp_sent s) (?buf[idx := (?buf ! idx)\<lparr>msg := Some m\<rparr>]) (sp_reads s) (Snd_Store idx l m)"
      using j idx by (auto intro!: exI [of _ j])
  qed (use A pc in simp_all)
qed

lemma sp_inv_s_store:
  assumes I: "sp_inv c s" and pc: "sp_pcs s i = Snd_Store idx l m"
    and A: "sp_send_next i (Snd_Store idx l m) s = Some s'"
  shows "sp_inv c s'"
proof -
  let ?buf = "buffer (sp_core s)"
  note D = sp_invD [OF I] and C = cells_okD [OF sp_invD(1) [OF I]]
  obtain j where j: "Suc j = length (sp_sent s)" "idx = j mod c" "l = tkt_lap c j" "lapn ?buf idx = 2 * (j div c)"
    "m = sp_sent s ! j" "msg (?buf ! idx) = Some m" using D(4) [of i] pc by auto
  have "in_budget c j" by (rule cells_budget [OF D(1)]) (use j(1) in simp)
  note L = lap_word(2) [OF this]
  show ?thesis
  proof (rule sp_inv_access [OF I, where i = i and idx = idx and pc = Snd_Wake and f = "lap_update (\<lambda>_. l + 1)"])
    show "cells_ok c (sp_taken s) (sp_sent s) (?buf[idx := (?buf ! idx)\<lparr>lap := l + 1\<rparr>])"
    proof (rule cells_ok_update [OF D(1) j(2) [symmetric]])
      show "msg ((?buf ! idx)\<lparr>lap := l + 1\<rparr>) = Some (sp_sent s ! j')"
        if "j' mod c = idx" "unat (lap ((?buf ! idx)\<lparr>lap := l + 1\<rparr>)) = 2 * (j' div c) + 1" for j'
      proof -
        have "j' = j" using that L j(2,3) by (intro same_ticket [of j' c j]) simp_all
        then show ?thesis using j(5,6) by simp
      qed
    qed (use j(1,3,4) L in simp)
  qed (use A pc j(3,4) L in simp_all)
qed

lemma sp_wake_nobody:
  assumes "sp_core_ok c h t q"
  shows "wake_one_reader_if_any q = Ret q" and "wake_one_writer_if_any q = Ret q"
  using sp_core_okD [OF assms]
  by (simp_all add: wake_one_reader_if_any_def wake_one_writer_if_any_def waker_wake_one_def)

lemma sp_inv_send:
  assumes I: "sp_inv c s" and S: "sending (sp_pcs s i)" and A: "sp_send_next i (sp_pcs s i) s = Some s'"
  shows "sp_inv c s'"
proof (cases "sp_pcs s i")
  case (Snd_Load m)
  then show ?thesis
    using A sp_core_okD(3) [OF sp_invD(2) [OF I]] by (auto intro!: sp_inv_move [OF I])
next
  case (Snd_Flag meta m)
  then show ?thesis
    using A sp_invD(4) [OF I, of i] by (cases "closed_flag (sp_core s)") (auto intro!: sp_inv_move [OF I])
next
  case (Snd_Top meta m)
  then show ?thesis using A sp_inv_s_top [OF I] by simp
next
  case (Snd_Again meta m)
  then show ?thesis
    using A sp_invD(4) [OF I, of i] sp_idx(1) [OF I]
    by (auto simp: sp_outcome_def intro!: sp_inv_move [OF I] split: if_splits)
next
  case (Snd_Move meta l m)
  then show ?thesis using A sp_inv_s_move [OF I] by (simp del: sp_send_next.simps)
next
  case (Snd_Write idx l m)
  then show ?thesis using A sp_inv_s_write [OF I] by (simp del: sp_send_next.simps)
next
  case (Snd_Store idx l m)
  then show ?thesis using A sp_inv_s_store [OF I] by (simp del: sp_send_next.simps)
next
  case Snd_Wake
  then show ?thesis
    using A sp_wake_nobody [OF sp_invD(2) [OF I]] by (auto intro!: sp_inv_move [OF I])
next
  case (Snd_End r)
  then show ?thesis using A by (auto intro!: sp_inv_move [OF I])
qed (use S in simp_all)

text \<open>The receiver.\<close>

lemma sp_inv_r_top:
  assumes I: "sp_inv c s" and pc: "sp_pcs s i = Rcv_Top meta"
    and A: "sp_recv_next i (Rcv_Top meta) s = Some s'"
  shows "sp_inv c s'"
proof -
  note D = sp_invD [OF I] and C = cells_okD [OF sp_invD(1) [OF I]]
  let ?buf = "buffer (sp_core s)"
  have m: "meta = read_cursor c (sp_taken s)" using D(4) [of i] pc by simp
  have B: "in_budget c (sp_taken s)" by (rule cells_budget [OF D(1) C(4)])
  have "sp_ok c (sp_taken s) (sp_sent s) ?buf (sp_reads s)
      (case cmp (meta_lap meta) (load_lap (?buf ! unat (meta_idx meta))) of
         Equal \<Rightarrow> Rcv_Move meta (load_lap (?buf ! unat (meta_idx meta)))
       | Greater \<Rightarrow> Rcv_Again meta
       | Less \<Rightarrow> Rcv_Top meta)"
    using m C(1) lap_word(2) [OF B] by (auto simp: cmp_def load_lap_def)
  then show ?thesis
    using A pc sp_idx(2) [OF I] m
    by (auto simp: sp_outcome_def intro!: sp_inv_move [OF I] split: ordering.splits)
qed

lemma sp_inv_r_move:
  assumes I: "sp_inv c s" and pc: "sp_pcs s i = Rcv_Move meta l"
    and A: "sp_recv_next i (Rcv_Move meta l) s = Some s'"
  shows "sp_inv c s'"
proof -
  note D = sp_invD [OF I] and C = cells_okD [OF sp_invD(1) [OF I]] and K = sp_core_okD [OF sp_invD(2) [OF I]]
  let ?h = "sp_taken s" and ?buf = "buffer (sp_core s)" and ?pc = "Rcv_Read (sp_taken s mod c) l"
  have m: "meta = read_cursor c ?h" "l = tkt_lap c ?h + 1" "2 * (?h div c) + 1 \<le> lapn ?buf (?h mod c)"
    using D(4) [of i] pc by auto
  have idx: "unat (meta_idx meta) = ?h mod c" using m(1) C(1) by simp
  note R = cells_read_claim [OF D(1) m(3)]
  define q where "q = (if meta_idx meta + 1 < capacity (sp_core s)
      then (sp_core s)\<lparr>read_meta := read_meta (sp_core s) + 1\<rparr>
      else (sp_core s)\<lparr>read_meta := lap_meta (meta_lap meta + 2)\<rparr>)"
  have s': "s' = sp_goto i ?pc (s\<lparr>sp_taken := Suc ?h, sp_core := q\<rparr>)"
    using A idx by (auto simp: q_def on_sp_core_def)
  have buf: "buffer q = ?buf" by (simp add: q_def)
  have "meta_idx (read_cursor c ?h) = word_of_nat (?h mod c)" by (simp add: read_cursor_def)
  then have Q: "sp_core_ok c (Suc ?h) (length (sp_sent s)) q"
    using D(2) m(1) read_cursor_Suc [OF C(1), of ?h]
    by (auto simp: sp_core_ok_def q_def add.assoc split: if_splits)
  have quiet: "\<not> sp_reading (sp_pcs s j)" for j
  proof (cases "j = i")
    case False
    then have "\<not> receiving (sp_pcs s j)" using D(6) [of i j] pc by auto
    then show ?thesis by (cases "sp_pcs s j") auto
  qed (simp add: pc)
  then have lg: "length (sp_reads s) = ?h" "sp_reads s = take ?h (sp_sent s)" using D(3) by (auto simp: sp_log_ok_def)
  show ?thesis
  proof (rule sp_inv_step [OF I, where i = i and pc = ?pc and x = None and more_ms = "[]"])
    show "sp_log_ok (sp_taken s') (sp_sent s') (sp_reads s') (sp_pcs s')"
      using lg by (auto simp: s' sp_goto_def sp_log_ok_def intro: exI [of _ i])
    show "sp_ok c (sp_taken s') (sp_sent s') (buffer (sp_core s')) (sp_reads s') ?pc"
      using m(2) R(3) lg(1) by (simp add: s' sp_goto_def buf)
  qed (use Q R(1) pc in \<open>simp_all add: s' sp_goto_def buf\<close>)
qed

lemma sp_inv_r_read:
  assumes I: "sp_inv c s" and pc: "sp_pcs s i = Rcv_Read idx l"
    and A: "sp_recv_next i (Rcv_Read idx l) s = Some s'"
  shows "sp_inv c s'"
proof -
  note D = sp_invD [OF I] and C = cells_okD [OF sp_invD(1) [OF I]]
  let ?buf = "buffer (sp_core s)"
  obtain j where j: "Suc j = sp_taken s" "idx = j mod c" "l = tkt_lap c j + 1" "lapn ?buf idx = 2 * (j div c) + 1"
    "length (sp_reads s) = j" using D(4) [of i] pc by auto
  have js: "j < length (sp_sent s)" using j(1) C(4) by simp
  let ?pc = "Rcv_Store idx l (sp_sent s ! j)"
  have "msg (?buf ! idx) = Some (sp_sent s ! j)" using C(11) [OF js] j(2,4) by simp
  then have s': "s' = sp_goto i ?pc (s\<lparr>sp_reads := sp_reads s @ [sp_sent s ! j]\<rparr>)" using A by simp
  have lg: "sp_reads s @ [sp_sent s ! j] = take (Suc j) (sp_sent s)"
    using D(3) j(5) js by (simp add: sp_log_ok_def take_Suc_conv_app_nth)
  show ?thesis
  proof (rule sp_inv_step [OF I, where i = i and pc = ?pc and x = None and more_ms = "[]"])
    show "sp_log_ok (sp_taken s') (sp_sent s') (sp_reads s') (sp_pcs s')"
      using lg j(1,5) C(4) by (simp add: s' sp_goto_def sp_log_ok_def min_def)
    show "sp_ok c (sp_taken s') (sp_sent s') (buffer (sp_core s')) (sp_reads s') ?pc"
      using j by (auto simp: s' sp_goto_def)
  qed (use D(1,2) pc in \<open>simp_all add: s' sp_goto_def\<close>)
qed

lemma sp_inv_r_store:
  assumes I: "sp_inv c s" and pc: "sp_pcs s i = Rcv_Store idx l m"
    and A: "sp_recv_next i (Rcv_Store idx l m) s = Some s'"
  shows "sp_inv c s'"
proof -
  let ?buf = "buffer (sp_core s)"
  note D = sp_invD [OF I] and C = cells_okD [OF sp_invD(1) [OF I]]
  obtain j where j: "Suc j = sp_taken s" "idx = j mod c" "l = tkt_lap c j + 1" "lapn ?buf idx = 2 * (j div c) + 1"
    using D(4) [of i] pc by auto
  have "in_budget c j" by (rule cells_budget [OF D(1)]) (use j(1) C(4) in simp)
  note L = lap_word(3) [OF this]
  show ?thesis
  proof (rule sp_inv_access [OF I, where i = i and idx = idx and pc = "Rcv_Wake m" and f = "lap_update (\<lambda>_. l + 1)"])
    show "cells_ok c (sp_taken s) (sp_sent s) (?buf[idx := (?buf ! idx)\<lparr>lap := l + 1\<rparr>])"
    proof (rule cells_ok_update [OF D(1) j(2) [symmetric]])
      show "msg ((?buf ! idx)\<lparr>lap := l + 1\<rparr>) = Some (sp_sent s ! j')"
        if "unat (lap ((?buf ! idx)\<lparr>lap := l + 1\<rparr>)) = 2 * (j' div c) + 1" for j'
        using that L j(3) parity(1) [of "j' div c" "Suc (j div c)"] by simp
    qed (use j(1,3,4) L in simp)
  qed (use A pc j(3,4) L in simp_all)
qed

lemma sp_inv_recv:
  assumes I: "sp_inv c s" and S: "receiving (sp_pcs s i)" and A: "sp_recv_next i (sp_pcs s i) s = Some s'"
  shows "sp_inv c s'"
proof (cases "sp_pcs s i")
  case Rcv_Load
  then show ?thesis
    using A sp_core_okD(2) [OF sp_invD(2) [OF I]] by (auto intro!: sp_inv_move [OF I])
next
  case (Rcv_Top meta)
  then show ?thesis using A sp_inv_r_top [OF I] by simp
next
  case (Rcv_Again meta)
  then show ?thesis
    using A sp_invD(4) [OF I, of i] sp_idx(2) [OF I]
    by (auto simp: sp_outcome_def intro!: sp_inv_move [OF I] split: if_splits)
next
  case (Rcv_Move meta l)
  then show ?thesis using A sp_inv_r_move [OF I] by (simp del: sp_recv_next.simps)
next
  case (Rcv_Read idx l)
  then show ?thesis using A sp_inv_r_read [OF I] by (simp del: sp_recv_next.simps)
next
  case (Rcv_Store idx l m)
  then show ?thesis using A sp_inv_r_store [OF I] by (simp del: sp_recv_next.simps)
next
  case (Rcv_Wake m)
  then show ?thesis
    using A sp_wake_nobody [OF sp_invD(2) [OF I]] by (auto intro!: sp_inv_move [OF I])
next
  case (Rcv_End r)
  then show ?thesis using A by (auto intro!: sp_inv_move [OF I])
qed (use S in simp_all)

text \<open>\<^verbatim>\<open>close\<close>.\<close>

lemma sp_inv_core:
  assumes I: "sp_inv c s" and "\<not> sp_reading (sp_pcs s i)" and "\<not> sending pc" and "\<not> receiving pc" and "pc \<noteq> Stuck"
    and "sp_core_ok c (sp_taken s) (length (sp_sent s)) q" and "buffer q = buffer (sp_core s)"
  shows "sp_inv c (sp_goto i pc (s\<lparr>sp_core := q\<rparr>))"
proof -
  have "sp_ok c (sp_taken s) (sp_sent s) (buffer (sp_core s)) (sp_reads s) pc" using assms(3-5) by (cases pc) auto
  then show ?thesis
    by (intro sp_inv_step [OF I, where i = i and pc = pc and x = None and more_ms = "[]"])
      (use sp_invD(1) [OF I] assms(3-7) sp_log_move [OF sp_invD(3) [OF I] assms(2) cells_okD(4) [OF sp_invD(1) [OF I]], of "[]"]
        in \<open>simp_all add: sp_goto_def\<close>)
qed

lemma sp_inv_close:
  assumes I: "sp_inv c s" and S: "\<not> sending (sp_pcs s i)" "\<not> receiving (sp_pcs s i)"
    and A: "sp_close_next i (sp_pcs s i) s = Some s'"
  shows "sp_inv c s'"
proof (cases "sp_pcs s i")
  case Cls_Flag
  then show ?thesis
    using A sp_invD(2) [OF I] by (auto simp: on_sp_core_def sp_core_ok_def intro!: sp_inv_core [OF I])
next
  case Cls_Wake
  then show ?thesis
    using A sp_invD(2) [OF I] by (auto simp: on_sp_core_def sp_core_ok_def intro!: sp_inv_core [OF I] split: if_splits)
next
  case Cls_End
  then show ?thesis using A by (auto intro!: sp_inv_move [OF I])
qed (use S A in simp_all)

lemma sp_inv_new:
  assumes "spsc_bounded_new n = Ret q"
  shows "sp_inv (unat (if n > 0 then n else 1)) (sp_sys_new q)"
proof -
  let ?cap = "if n > 0 then n else 1"
  have n: "n \<le> push_bit 30 1" and q: "capacity q = ?cap" "buffer q = replicate (unat ?cap) elem_default"
    "read_meta q = push_bit 32 1" "write_meta q = 0" "read_waker q = waker_default" "write_waker q = waker_default"
    using assms by (auto simp: spsc_bounded_new_def Let_def split: if_splits)
  have c: "cap_ok (unat ?cap)"
    using n by (auto simp: cap_ok_def word_le_nat_alt word_less_nat_alt)
  have "cells_ok (unat ?cap) 0 [] (replicate (unat ?cap) elem_default)"
    using c unfolding cells_ok_def by (auto simp: in_budget_def cap_ok_def)
  moreover have "sp_core_ok (unat ?cap) 0 0 q"
    by (simp add: sp_core_ok_def q read_cursor_def write_cursor_def tkt_lap_0 cap_okD(1) [OF c] pack_def lap_meta_def)
  ultimately show ?thesis
    by (simp add: sp_inv_def sp_sys_new_def sp_log_ok_def q)
qed

lemma sp_inv_act:
  assumes I: "sp_inv c s" and O: "one_each a s" and A: "sp_act i a s = Some s'"
  shows "sp_inv c s'"
proof (cases a)
  case Do_Step
  then show ?thesis
    using A sp_inv_send [OF I] sp_inv_recv [OF I] sp_inv_close [OF I] by (auto simp: sp_next_def split: if_splits)
qed (use A O in \<open>auto intro!: sp_inv_move [OF I] split: if_splits\<close>)

lemma sp_inv_reach: "sp_reach n s \<Longrightarrow> sp_inv (unat (if n > 0 then n else 1)) s"
proof (induction rule: sp_reach.induct)
  case (start q)
  then show ?case by (rule sp_inv_new)
next
  case (step s a i s')
  then show ?case using sp_inv_act by blast
qed

end
