(* ===== verification/Steps_Properties.thy ===== *)
theory Steps_Properties
  imports Mpmc_Progress Spsc_Steps
begin

text \<open>
  What holds of the non-blocking calls of the bounded queues when threads interleave their atomic
  accesses: any number of threads for the MPMC queue, one sender and one receiver for the SPSC queue.
\<close>

section \<open>A run\<close>

text \<open>The actions of a schedule, one after another.\<close>

fun mp_run :: "(nat \<times> 'a mp_action) list \<Rightarrow> 'a mp_sys \<Rightarrow> 'a mp_sys option" where
  "mp_run [] s = Some s"
| "mp_run ((i, a) # as) s = (case mp_act i a s of Some s' \<Rightarrow> mp_run as s' | None \<Rightarrow> None)"

lemma mp_reach_run: "mp_run as s = Some s' \<Longrightarrow> mp_reach n s \<Longrightarrow> mp_reach n s'"
  by (induction as s rule: mp_run.induct) (auto split: option.splits intro: mp_reach.step)

text \<open>
  Two senders and a receiver of a queue of capacity two. Both senders load the cursor, the first to
  exchange it wins, the receiver overtakes the second.
\<close>

abbreviation "go i \<equiv> (i, Step False)"

definition demo_race :: "(nat \<times> nat mp_action) list" where
  "demo_race = [(0, Call_Send 7), (1, Call_Send 8), go 0, go 1, go 0, go 1, go 0, go 1, go 0, go 0, go 0,
     (2, Call_Recv), go 2, go 2, go 2, go 2]"

definition demo_start :: "nat mp_sys" where
  "demo_start = mp_sys_new \<lparr>stack = Map.empty, woken = [], buffer = [elem_default, elem_default], capacity = 2, read_waker = waker_default,
     write_waker = waker_default, mp_read_meta = push_bit 32 1, mp_write_meta = 0\<rparr>"

lemma demo_start_reach: "mp_reach 2 demo_start"
proof -
  have two: "replicate 2 e = [e, e]" for e :: "nat elem" by (simp add: numeral_2_eq_2)
  show ?thesis unfolding demo_start_def by (rule mp_reach.start) (simp add: mpmc_bounded_new_def two)
qed

lemmas demo_eval = mp_sys_new_def mp_goto_def on_core_def upd_elem_def outcome_pc_def get_unchecked_def cmp_def
  load_lap_def elem_default_def waker_default_def metadata_new_def meta_idx_def meta_lap_def next_meta_def lap_meta_def
  in_budget_def wake_one_reader_if_any_def wake_one_writer_if_any_def waker_wake_one_def ticket_def
  MPMC_MASK_32_def MPMC_MASK_64_def

lemma demo_race_run: "map_option (\<lambda>s. (map (mp_pcs s) [0, 1, 2], sent s, taken s, reads s)) (mp_run demo_race demo_start)
   = Some ([S_End (Ok ()), S_Top 1 8, R_Store 0 1 7], [7], 1, [(0, 7)])"
  unfolding demo_race_def demo_start_def by (simp add: demo_eval)

text \<open>The same schedule up to the end: the second sender sends, the receiver gives its bucket back.\<close>

definition demo_done :: "(nat \<times> nat mp_action) list" where
  "demo_done = demo_race @ [go 1, go 2, go 1, go 1, go 2, go 1, go 1]"

lemma demo_done_run: "map_option (\<lambda>s. (mp_pcs s, sent s, taken s, reads s)) (mp_run demo_done demo_start)
   = Some ((\<lambda>_. Out)(0 := S_End (Ok ()), 1 := S_End (Ok ()), 2 := R_End (Ok 7)), [7, 8], 1, [(0, 7)])"
  unfolding demo_done_def demo_race_def demo_start_def by (simp add: demo_eval) (auto simp: fun_eq_iff)

text \<open>Then a third sender fills the queue, and a fourth finds it full.\<close>

definition demo_full :: "(nat \<times> nat mp_action) list" where
  "demo_full = demo_done @ [(3, Call_Send 9), go 3, go 3, go 3, go 3, go 3, go 3, (4, Call_Send 10), go 4, go 4]"

lemma demo_full_run: "\<exists>s s'. mp_run demo_full demo_start = Some s \<and> length (sent s) = 3 \<and> taken s = 1 \<and>
    mp_act 4 (Step False) s = Some s' \<and> mp_pcs s' 4 = S_End (Err (Full 10))"
  unfolding demo_full_def demo_done_def demo_race_def demo_start_def by (simp add: demo_eval)

text \<open>A queue that is closed while the second sender is under way, and how that sender ends.\<close>

definition demo_close :: "(nat \<times> nat mp_action) list" where
  "demo_close = demo_race @ [(3, Call_Close), go 3, go 3]"

lemma demo_close_run: "\<exists>s s'. mp_run demo_close demo_start = Some s \<and> mp_closed s \<and> sent s = [7] \<and>
    mp_run [go 1, go 1, go 1] s = Some s' \<and> mp_pcs s' 1 = S_End (Err (Disconnected 8))"
  unfolding demo_close_def demo_race_def demo_start_def by (simp add: demo_eval mp_closed_def)

section \<open>Safety\<close>

text \<open>
  C7: However \<^verbatim>\<open>try_send\<close>, \<^verbatim>\<open>try_recv\<close> and \<^verbatim>\<open>close\<close> interleave, no access is undefined,
  no two threads work on the same bucket at the same time, every message that is read is read once
  and is the message sent with the same number, and at most \<open>c\<close> messages are under way.
\<close>

theorem mpmc_steps_safe:
  assumes "mp_reach n s"
  shows "(\<forall>i. mp_pcs s i \<noteq> Dead) \<and>
    (\<forall>i j x. owns (mp_pcs s i) = Some x \<and> owns (mp_pcs s j) = Some x \<longrightarrow> i = j) \<and>
    distinct (map fst (reads s)) \<and>
    (\<forall>(k, v) \<in> set (reads s). k < taken s \<and> v = sent s ! k) \<and>
    taken s \<le> length (sent s) \<and> length (sent s) \<le> taken s + unat (if n > 0 then n else 1)"
proof -
  note I = mp_inv_reach [OF assms]
  have "mp_pcs s i \<noteq> Dead" for i using mp_invD(4) [OF I, of i] by auto
  then show ?thesis
    using mp_invD(3,5) [OF I] cells_okD(4,5) [OF mp_invD(1) [OF I]] unfolding log_ok_def by blast
qed

lemma mpmc_steps_safe_witness:
  "\<exists>s. mp_run demo_race demo_start = Some s \<and> mp_pcs s 0 \<noteq> Dead \<and> (0, 7) \<in> set (reads s) \<and> sent s ! 0 = 7"
proof -
  obtain s where s: "mp_run demo_race demo_start = Some s" "reads s = [(0, 7)]" using demo_race_run by auto
  note R = mpmc_steps_safe [OF mp_reach_run [OF s(1) demo_start_reach]]
  show ?thesis using s R by auto
qed

text \<open>
  When no call holds a bucket, the messages that were read are exactly those whose turn the read
  cursor has passed, each once: no message is lost and none is duplicated.
\<close>

theorem mpmc_steps_no_loss:
  assumes "mp_reach n s" and "\<forall>i. owns (mp_pcs s i) = None"
  shows "mset (reads s) = mset (zip [0..<taken s] (sent s))"
  by (rule reads_all [OF mp_inv_reach claims_reach]) (use assms in simp_all)

lemma mpmc_steps_no_loss_witness:
  "\<exists>s. mp_run demo_done demo_start = Some s \<and> sent s = [7, 8] \<and> taken s = 1 \<and>
     mset (reads s) = mset (zip [0..<taken s] (sent s))"
proof -
  obtain s where s: "mp_run demo_done demo_start = Some s" "sent s = [7, 8]" "taken s = 1"
    "mp_pcs s = (\<lambda>_. Out)(0 := S_End (Ok ()), 1 := S_End (Ok ()), 2 := R_End (Ok 7))"
    using demo_done_run by auto
  have "\<forall>i. owns (mp_pcs s i) = None" by (simp add: s(4))
  from mpmc_steps_no_loss [OF mp_reach_run [OF s(1) demo_start_reach] this] s show ?thesis by blast
qed

section \<open>Answers\<close>

text \<open>
  C8: When a call answers \<^verbatim>\<open>Full\<close>, at that moment \<open>c\<close> messages are in the queue or the
  receiver of the message \<open>c\<close> places back still holds its bucket. When a call answers
  \<^verbatim>\<open>TryRecvError\<close>, no message is in the queue or the sender of the next one has not finished.
  When a call answers \<^verbatim>\<open>Disconnected\<close>, the queue is closed.
\<close>

theorem mpmc_steps_answers:
  assumes R: "mp_reach n s" and A: "mp_act i (Step sp) s = Some s'"
  shows "(mp_pcs s' i = S_End (Err (Full m)) \<longrightarrow>
      length (sent s) = taken s + unat (if n > 0 then n else 1) \<or>
      (\<exists>k t. reads_ticket (core s) (mp_pcs s k) = Some t \<and> t + unat (if n > 0 then n else 1) = length (sent s))) \<and>
    (mp_pcs s' i = R_End (Err TryRecvError) \<longrightarrow>
      taken s = length (sent s) \<or> (\<exists>k. writes_ticket (core s) (mp_pcs s k) = Some (taken s))) \<and>
    (mp_pcs s' i = S_End (Err (Disconnected m)) \<longrightarrow> mp_closed s)"
proof (intro conjI impI)
  note I = mp_inv_reach [OF R] and K = claims_reach [OF R]
  have A': "mp_next i sp (mp_pcs s i) s = Some s'" using A by simp
  show "length (sent s) = taken s + cap_of n \<or>
      (\<exists>k t. reads_ticket (core s) (mp_pcs s k) = Some t \<and> t + cap_of n = length (sent s))"
    if F: "mp_pcs s' i = S_End (Err (Full m))"
  proof -
    obtain meta l where pc: "mp_pcs s i = S_Again meta l m" using answer_full [OF A' F] by blast
    show ?thesis using full_precise(2) [OF I K pc A' [unfolded pc] F] by force
  qed
  show "taken s = length (sent s) \<or> (\<exists>k. writes_ticket (core s) (mp_pcs s k) = Some (taken s))"
    if F: "mp_pcs s' i = R_End (Err TryRecvError)"
  proof -
    obtain meta l where pc: "mp_pcs s i = R_Again meta l" using answer_empty [OF A' F] by blast
    show ?thesis by (rule empty_precise(2) [OF I K pc A' [unfolded pc] F])
  qed
  show "mp_closed s" if "mp_pcs s' i = S_End (Err (Disconnected m))"
    using answer_disconnected [OF A' that] seen_reach [OF R] by (auto simp: seen_ok_def)
qed

lemma mpmc_steps_answers_witness:
  "\<exists>s s'. mp_run demo_full demo_start = Some s \<and> mp_act 4 (Step False) s = Some s' \<and>
     mp_pcs s' 4 = S_End (Err (Full 10)) \<and> length (sent s) = 3 \<and> taken s = 1"
proof -
  obtain s s' where s: "mp_run demo_full demo_start = Some s" "length (sent s) = 3" "taken s = 1"
    "mp_act 4 (Step False) s = Some s'" "mp_pcs s' 4 = S_End (Err (Full 10))" using demo_full_run by blast
  note R = mpmc_steps_answers [OF mp_reach_run [OF s(1) demo_start_reach] s(4), of 10]
  show ?thesis using s R by blast
qed

text \<open>
  Once the queue is closed it stays closed and no send succeeds any more, whatever the threads
  do, those included that have already loaded the cursor.
\<close>

theorem mpmc_steps_close_final:
  assumes "mp_reach n s" and "mp_closed s" and "mp_run as s = Some s'"
  shows "mp_closed s' \<and> sent s' = sent s"
  using assms
proof (induction as s rule: mp_run.induct)
  case (2 i a as s)
  from 2(4) obtain s1 where A: "mp_act i a s = Some s1" and r: "mp_run as s1 = Some s'"
    by (auto split: option.splits)
  note I = mp_inv_reach [OF 2(2)]
  have "mp_closed s' \<and> sent s' = sent s1"
    by (rule 2(1) [OF A mp_reach.step [OF 2(2) A] closed_act(1) [OF I A 2(3)] r])
  then show ?case using closed_act(2) [OF I A 2(3)] by simp
qed simp

lemma mpmc_steps_close_final_witness:
  "\<exists>s s'. mp_run demo_close demo_start = Some s \<and> mp_run [go 1, go 1, go 1] s = Some s' \<and>
     mp_closed s' \<and> sent s' = [7] \<and> mp_pcs s' 1 = S_End (Err (Disconnected 8))"
proof -
  obtain s s' where s: "mp_run demo_close demo_start = Some s" "mp_closed s" "sent s = [7]"
    "mp_run [go 1, go 1, go 1] s = Some s'" "mp_pcs s' 1 = S_End (Err (Disconnected 8))"
    using demo_close_run by blast
  from mpmc_steps_close_final [OF mp_reach_run [OF s(1) demo_start_reach] s(2,4)] s show ?thesis by auto
qed

section \<open>Progress\<close>



section \<open>The SPSC queue\<close>

text \<open>The actions of a schedule; with \<^term>\<open>one\<close> only one thread at a time sends and one receives.\<close>

fun sp_run :: "bool \<Rightarrow> (nat \<times> 'a sp_action) list \<Rightarrow> 'a sp_sys \<Rightarrow> 'a sp_sys option" where
  "sp_run one [] s = Some s"
| "sp_run one ((i, a) # as) s =
     (if one \<longrightarrow> one_each a s
      then case sp_act i a s of Some s' \<Rightarrow> sp_run one as s' | None \<Rightarrow> None
      else None)"

lemma sp_reach_run: "sp_run True as s = Some s' \<Longrightarrow> sp_reach n s \<Longrightarrow> sp_reach n s'"
  by (induction True as s rule: sp_run.induct) (auto split: option.splits if_splits intro: sp_reach.step)

abbreviation "on i \<equiv> (i, Do_Step)"

definition spsc_start :: "nat sp_sys" where
  "spsc_start = sp_sys_new \<lparr>stack = Map.empty, woken = [], buffer = [elem_default, elem_default], capacity = 2,
     read_waker = waker_default, write_waker = waker_default, read_meta = push_bit 32 1, write_meta = 0,
     closed_flag = False\<rparr>"

lemma spsc_start_reach: "sp_reach 2 spsc_start"
proof -
  have two: "replicate 2 e = [e, e]" for e :: "nat elem" by (simp add: numeral_2_eq_2)
  show ?thesis unfolding spsc_start_def by (rule sp_reach.start) (simp add: spsc_bounded_new_def two)
qed

lemmas spsc_eval = sp_sys_new_def sp_goto_def on_sp_core_def sp_outcome_def sp_next_def upd_elem_def
  get_unchecked_def cmp_def load_lap_def elem_default_def waker_default_def metadata_new_def meta_idx_def
  meta_lap_def lap_meta_def in_budget_def wake_one_reader_if_any_def wake_one_writer_if_any_def
  waker_wake_one_def

text \<open>A sender and a receiver at work on two buckets.\<close>

definition spsc_pair :: "(nat \<times> nat sp_action) list" where
  "spsc_pair = [(0, Do_Send 7), on 0, on 0, on 0, on 0, on 0, on 0, on 0, on 0, (0, Do_Send 8), on 0, on 0, on 0,
     (1, Do_Recv), on 1, on 1, on 1, on 0, on 1]"

lemma spsc_pair_run: "\<exists>s. sp_run True spsc_pair spsc_start = Some s \<and> sp_sent s = [7, 8] \<and> sp_reads s = [7] \<and>
    sp_pcs s = (\<lambda>_. Idle)(0 := Snd_Write 1 0 8, 1 := Rcv_Store 0 1 7)"
  unfolding spsc_pair_def spsc_start_def by (simp add: spsc_eval)

text \<open>
  C17: With one sending and one receiving thread at a time, however their accesses and those of
  \<^verbatim>\<open>close\<close> interleave, no access of the SPSC queue is undefined, no two threads work on the same
  bucket, the messages are read in the order in which they were sent, none is lost once the
  receiver has finished, and at most \<open>c\<close> are under way.
\<close>

theorem spsc_steps_safe:
  assumes "sp_reach n s"
  shows "(\<forall>i. sp_pcs s i \<noteq> Stuck) \<and>
    (\<forall>i j x. sp_bucket (sp_pcs s i) = Some x \<and> sp_bucket (sp_pcs s j) = Some x \<longrightarrow> i = j) \<and>
    sp_reads s = take (length (sp_reads s)) (sp_sent s) \<and>
    ((\<forall>i. \<not> sp_reading (sp_pcs s i)) \<longrightarrow> length (sp_reads s) = sp_taken s) \<and>
    sp_taken s \<le> length (sp_sent s) \<and> length (sp_sent s) \<le> sp_taken s + unat (if n > 0 then n else 1)"
proof -
  note I = sp_inv_reach [OF assms]
  note D = sp_invD [OF I]
  have "sp_pcs s i \<noteq> Stuck" for i using D(4) [of i] by auto
  moreover have "i = j" if x: "sp_bucket (sp_pcs s i) = Some x" "sp_bucket (sp_pcs s j) = Some x" for i j x
    using sp_bucket_sending [OF x(1)] sp_bucket_sending [OF x(2)] sp_bucket_even [OF D(4) _ x(1)]
      sp_bucket_even [OF D(4) _ x(2)] sp_bucket_odd [OF D(4) _ x(1)] sp_bucket_odd [OF D(4) _ x(2)]
      D(5) [of i j] D(6) [of i j] by blast
  ultimately show ?thesis
    using D(3) cells_okD(4,5) [OF D(1)] unfolding sp_log_ok_def by blast
qed

lemma spsc_steps_safe_witness:
  "\<exists>s. sp_run True spsc_pair spsc_start = Some s \<and> sp_sent s = [7, 8] \<and> sp_reads s = [7] \<and>
     length (sp_reads s) = sp_taken s \<and> (\<forall>i. sp_pcs s i \<noteq> Stuck)"
proof -
  obtain s where s: "sp_run True spsc_pair spsc_start = Some s" "sp_sent s = [7, 8]" "sp_reads s = [7]"
    and q: "sp_pcs s = (\<lambda>_. Idle)(0 := Snd_Write 1 0 8, 1 := Rcv_Store 0 1 7)" using spsc_pair_run by blast
  have "\<not> sp_reading (sp_pcs s i)" for i by (simp add: q)
  then show ?thesis using spsc_steps_safe [OF sp_reach_run [OF s(1) spsc_start_reach]] s by auto
qed



end
