(* ===== verification/Linear.thy ===== *)
theory Linear
  imports Fifo
begin

text \<open>
  What it means that concurrent calls of a queue behave like calls made one at a time: every call
  takes effect at one moment between its invocation and its return, and the effects, in their
  order, are those of a list. The rule that proves it of a step relation is a locale.
\<close>

section \<open>Histories\<close>

text \<open>A thread calls, the call takes effect with an answer, the call returns.\<close>

datatype 'a moment = Call "'a op" | Point "'a op" "'a answer" | Return "'a answer"

type_synonym 'a history = "(nat \<times> 'a moment) list"

datatype 'a phase = Between | Called "'a op" | Done "'a answer"

fun phase_next :: "'a phase \<Rightarrow> 'a moment \<Rightarrow> 'a phase option" where
  "phase_next Between (Call x) = Some (Called x)"
| "phase_next (Called x) (Point y a) = (if x = y then Some (Done a) else None)"
| "phase_next (Done a) (Return b) = (if a = b then Some Between else None)"
| "phase_next _ _ = None"

fun run_phases :: "'a phase \<Rightarrow> 'a moment list \<Rightarrow> 'a phase option" where
  "run_phases ph [] = Some ph"
| "run_phases ph (x # xs) = (case phase_next ph x of Some ph' \<Rightarrow> run_phases ph' xs | None \<Rightarrow> None)"

definition of_thread :: "nat \<Rightarrow> 'a history \<Rightarrow> 'a moment list" where
  "of_thread i H = map snd (filter (\<lambda>x. fst x = i) H)"

fun is_point :: "'a moment \<Rightarrow> bool" where
  "is_point (Point x a) = True"
| "is_point _ = False"

text \<open>What can be seen from outside: the calls and the returns.\<close>

definition visible :: "'a history \<Rightarrow> 'a history" where
  "visible H = filter (\<lambda>x. \<not> is_point (snd x)) H"

fun points :: "'a history \<Rightarrow> ('a op \<times> 'a answer) list" where
  "points [] = []"
| "points ((i, Point x a) # H) = (x, a) # points H"
| "points ((i, Call x) # H) = points H"
| "points ((i, Return a) # H) = points H"

section \<open>The list with its tolerances\<close>

text \<open>
  The list answers a call, or refuses the answer. With \<^term>\<open>late\<close> a send may still be served
  after the queue was closed; with \<^term>\<open>weak\<close> a call may fail although there is room or a
  message. Without both this is \<^term>\<open>fifo_step\<close>.
\<close>

fun serve :: "bool \<Rightarrow> bool \<Rightarrow> nat \<Rightarrow> 'a op \<Rightarrow> 'a answer \<Rightarrow> 'a list \<times> bool \<Rightarrow> ('a list \<times> bool) option" where
  "serve late weak c (Try_Send m) (Sent (Ok _)) (ms, b) =
     (if (late \<or> \<not> b) \<and> length ms < c then Some (ms @ [m], b) else None)"
| "serve late weak c (Try_Send m) (Sent (Err (Full m'))) (ms, b) =
     (if m' = m \<and> (weak \<or> (late \<or> \<not> b) \<and> length ms = c) then Some (ms, b) else None)"
| "serve late weak c (Try_Send m) (Sent (Err (Disconnected m'))) (ms, b) =
     (if m' = m \<and> b then Some (ms, b) else None)"
| "serve late weak c Try_Recv (Received (Ok m)) (ms, b) =
     (case ms of [] \<Rightarrow> None | x # xs \<Rightarrow> if x = m then Some (xs, b) else None)"
| "serve late weak c Try_Recv (Received (Err _)) (ms, b) = (if weak \<or> ms = [] then Some (ms, b) else None)"
| "serve late weak c Close_Queue Closed_Queue (ms, b) = Some (ms, True)"
| "serve late weak c _ _ _ = None"

lemma serve_fifo:
  assumes "length ms \<le> c"
  shows "serve False False c x a (ms, b) = Some st \<longleftrightarrow> fifo_step c (ms, b) x = (st, a)"
proof (cases "(False, False, c, x, a, (ms, b))" rule: serve.cases)
  case (5 late weak c' e ms' b')
  then show ?thesis by (cases e) (auto split: list.splits)
qed (use assms in \<open>auto split: list.splits if_splits\<close>)

fun serve_run :: "('a op \<Rightarrow> 'a answer \<Rightarrow> 'q \<Rightarrow> 'q option) \<Rightarrow> ('a op \<times> 'a answer) list \<Rightarrow> 'q \<Rightarrow> 'q option" where
  "serve_run srv [] st = Some st"
| "serve_run srv ((x, a) # xs) st = (case srv x a st of Some st' \<Rightarrow> serve_run srv xs st' | None \<Rightarrow> None)"

lemma serve_run_append:
  "serve_run srv (xs @ ys) st = (case serve_run srv xs st of Some st' \<Rightarrow> serve_run srv ys st' | None \<Rightarrow> None)"
  by (induction srv xs st rule: serve_run.induct) (auto split: option.splits)

text \<open>A list that nobody closes needs no tolerance for late sends.\<close>

lemma serve_late:
  assumes "serve late weak c x a (ms, False) = Some (ms', b')" and "x \<noteq> Close_Queue"
  shows "\<not> b'" and "serve False weak c x a (ms, False) = Some (ms', b')"
  using assms by (cases "(late, weak, c, x, a, (ms, False))" rule: serve.cases;
    auto split: list.splits if_splits)+

lemma serve_run_late:
  assumes "serve_run (serve late weak c) xs (ms, False) = Some st" and "Close_Queue \<notin> fst ` set xs"
  shows "serve_run (serve False weak c) xs (ms, False) = Some st"
  using assms
proof (induction xs arbitrary: ms)
  case (Cons xa xs)
  obtain x a where xa: "xa = (x, a)" by fastforce
  obtain ms' b' where 1: "serve late weak c x a (ms, False) = Some (ms', b')"
      "serve_run (serve late weak c) xs (ms', b') = Some st"
    using Cons.prems(1) xa by (auto split: option.splits)
  have x: "x \<noteq> Close_Queue" using Cons.prems(2) xa by auto
  from serve_late [OF 1(1) x] Cons.IH [of ms'] 1(2) Cons.prems(2) xa show ?case by simp
qed simp

section \<open>Linearizability\<close>

text \<open>
  Calls and returns \<^term>\<open>H\<close> are linearizable if moments at which the calls take effect can be put
  between them.
\<close>

definition linearizable :: "('a op \<Rightarrow> 'a answer \<Rightarrow> 'a list \<times> bool \<Rightarrow> ('a list \<times> bool) option) \<Rightarrow> 'a history \<Rightarrow> bool" where
  "linearizable srv H \<longleftrightarrow>
     (\<exists>L. visible L = H \<and> (\<forall>i. run_phases Between (of_thread i L) \<noteq> None) \<and>
        serve_run srv (points L) ([], False) \<noteq> None)"

lemma run_phases_append:
  "run_phases ph (xs @ ys) = (case run_phases ph xs of Some ph' \<Rightarrow> run_phases ph' ys | None \<Rightarrow> None)"
  by (induction ph xs rule: run_phases.induct) (auto split: option.splits)

lemma of_thread_append: "of_thread i (H @ L) = of_thread i H @ of_thread i L"
  by (simp add: of_thread_def)

lemma of_thread_one: "of_thread i (map (Pair j) xs) = (if i = j then xs else [])"
  by (induction xs) (auto simp: of_thread_def)

lemma points_append: "points (H @ L) = points H @ points L"
  by (induction H rule: points.induct) auto

lemma points_thread: "points (map (Pair i) xs) = points (map (Pair j) xs)"
proof (induction xs)
  case (Cons x xs)
  then show ?case by (cases x) simp_all
qed simp

text \<open>
  The moments of a run under a schedule; \<^term>\<open>ok\<close> says which actions may be taken in a state.
\<close>

fun moments_run :: "(nat \<Rightarrow> 'act \<Rightarrow> 's \<Rightarrow> 's option) \<Rightarrow> ('act \<Rightarrow> 's \<Rightarrow> bool) \<Rightarrow>
    (nat \<Rightarrow> 'act \<Rightarrow> 's \<Rightarrow> 's \<Rightarrow> 'a moment list) \<Rightarrow> (nat \<times> 'act) list \<Rightarrow> 's \<Rightarrow> ('s \<times> 'a history) option" where
  "moments_run act ok mom [] s = Some (s, [])"
| "moments_run act ok mom ((i, a) # as) s =
     (if ok a s
      then case act i a s of
             None \<Rightarrow> None
           | Some s' \<Rightarrow> map_option (\<lambda>(s'', H). (s'', map (Pair i) (mom i a s s') @ H)) (moments_run act ok mom as s')
      else None)"

text \<open>
  The rule. \<^term>\<open>abs\<close> is the list a state stands for, \<^term>\<open>ph s i\<close> how far thread \<^term>\<open>i\<close> is in
  its call.
\<close>

locale point_machine =
  fixes act :: "nat \<Rightarrow> 'act \<Rightarrow> 's \<Rightarrow> 's option" and ok :: "'act \<Rightarrow> 's \<Rightarrow> bool"
    and mom :: "nat \<Rightarrow> 'act \<Rightarrow> 's \<Rightarrow> 's \<Rightarrow> 'a moment list"
    and inv :: "'s \<Rightarrow> bool" and abs :: "'s \<Rightarrow> 'a list \<times> bool" and ph :: "'s \<Rightarrow> nat \<Rightarrow> 'a phase"
    and srv :: "'a op \<Rightarrow> 'a answer \<Rightarrow> 'a list \<times> bool \<Rightarrow> ('a list \<times> bool) option"
  assumes inv_act: "\<lbrakk>inv s; ok a s; act i a s = Some s'\<rbrakk> \<Longrightarrow> inv s'"
    and own_phase: "\<lbrakk>inv s; ok a s; act i a s = Some s'\<rbrakk> \<Longrightarrow> run_phases (ph s i) (mom i a s s') = Some (ph s' i)"
    and other_phase: "\<lbrakk>inv s; ok a s; act i a s = Some s'; j \<noteq> i\<rbrakk> \<Longrightarrow> ph s' j = ph s j"
    and effect: "\<lbrakk>inv s; ok a s; act i a s = Some s'\<rbrakk> \<Longrightarrow>
      serve_run srv (points (map (Pair i) (mom i a s s'))) (abs s) = Some (abs s')"
begin

lemma moments_phases:
  assumes "moments_run act ok mom as s = Some (s', H)" and "inv s"
  shows "run_phases (ph s i) (of_thread i H) = Some (ph s' i) \<and> serve_run srv (points H) (abs s) = Some (abs s')"
  using assms
proof (induction as arbitrary: s H)
  case Nil
  then show ?case by (simp add: of_thread_def)
next
  case (Cons ja as)
  obtain j a where ja: "ja = (j, a)" by fastforce
  obtain s1 H1 where 1: "ok a s" "act j a s = Some s1" "moments_run act ok mom as s1 = Some (s', H1)"
      "H = map (Pair j) (mom j a s s1) @ H1"
    using Cons.prems(1) ja by (auto split: option.splits if_splits)
  note IH = Cons.IH [OF 1(3) inv_act [OF Cons.prems(2) 1(1,2)]]
  have "run_phases (ph s i) (of_thread i (map (Pair j) (mom j a s s1))) = Some (ph s1 i)"
    using own_phase [OF Cons.prems(2) 1(1,2)] other_phase [OF Cons.prems(2) 1(1,2), of i]
    by (cases "i = j") (simp_all add: of_thread_one)
  then show ?case
    using IH effect [OF Cons.prems(2) 1(1,2)]
    by (simp add: 1(4) of_thread_append run_phases_append points_append serve_run_append)
qed

lemma moments_linearizable:
  assumes "moments_run act ok mom as s = Some (s', H)" and "inv s" and "abs s = ([], False)" and "\<And>i. ph s i = Between"
  shows "linearizable srv (visible H)"
proof -
  have "run_phases Between (of_thread i H) \<noteq> None" "serve_run srv (points H) ([], False) \<noteq> None" for i
    using moments_phases [OF assms(1,2), of i] assms(3,4) by simp_all
  then show ?thesis unfolding linearizable_def by blast
qed

end

end
