(* ===== verification/Spsc_Linear.thy ===== *)
theory Spsc_Linear
  imports Spsc_Steps Linear
begin

text \<open>
  The moments at which the calls of \<^verbatim>\<open>SpscBounded\<close> take effect when one thread sends and one
  receives: a send when it stores the lap of the bucket it has written, a receive when it stores the
  lap of the bucket it has read, a refusal at the load that decides it.
\<close>

section \<open>The moments\<close>

fun sp_moment :: "'a sp_pc \<Rightarrow> 'a sp_pc \<Rightarrow> 'a moment list" where
  "sp_moment (Snd_Flag meta m) pc = (case pc of Snd_End r \<Rightarrow> [Point (Try_Send m) (Sent r)] | _ \<Rightarrow> [])"
| "sp_moment (Snd_Again meta m) pc = (case pc of Snd_End r \<Rightarrow> [Point (Try_Send m) (Sent r)] | _ \<Rightarrow> [])"
| "sp_moment (Snd_Store idx l m) pc = [Point (Try_Send m) (Sent (Ok ()))]"
| "sp_moment (Snd_End r) pc = [Return (Sent r)]"
| "sp_moment (Rcv_Again meta) pc = (case pc of Rcv_End r \<Rightarrow> [Point Try_Recv (Received r)] | _ \<Rightarrow> [])"
| "sp_moment (Rcv_Store idx l m) pc = [Point Try_Recv (Received (Ok m))]"
| "sp_moment (Rcv_End r) pc = [Return (Received r)]"
| "sp_moment Cls_Flag pc = [Point Close_Queue Closed_Queue]"
| "sp_moment Cls_End pc = [Return Closed_Queue]"
| "sp_moment _ pc = []"

fun sp_moments :: "nat \<Rightarrow> 'a sp_action \<Rightarrow> 'a sp_sys \<Rightarrow> 'a sp_sys \<Rightarrow> 'a moment list" where
  "sp_moments i (Do_Send m) s s' = [Call (Try_Send m)]"
| "sp_moments i Do_Recv s s' = [Call Try_Recv]"
| "sp_moments i Do_Close s s' = [Call Close_Queue]"
| "sp_moments i Do_Step s s' = sp_moment (sp_pcs s i) (sp_pcs s' i)"

fun sp_phase :: "'a sp_pc \<Rightarrow> 'a phase" where
  "sp_phase Idle = Between"
| "sp_phase (Snd_Load m) = Called (Try_Send m)"
| "sp_phase (Snd_Flag meta m) = Called (Try_Send m)"
| "sp_phase (Snd_Top meta m) = Called (Try_Send m)"
| "sp_phase (Snd_Again meta m) = Called (Try_Send m)"
| "sp_phase (Snd_Move meta l m) = Called (Try_Send m)"
| "sp_phase (Snd_Write idx l m) = Called (Try_Send m)"
| "sp_phase (Snd_Store idx l m) = Called (Try_Send m)"
| "sp_phase Snd_Wake = Done (Sent (Ok ()))"
| "sp_phase (Snd_End r) = Done (Sent r)"
| "sp_phase Rcv_Load = Called Try_Recv"
| "sp_phase (Rcv_Top meta) = Called Try_Recv"
| "sp_phase (Rcv_Again meta) = Called Try_Recv"
| "sp_phase (Rcv_Move meta l) = Called Try_Recv"
| "sp_phase (Rcv_Read idx l) = Called Try_Recv"
| "sp_phase (Rcv_Store idx l m) = Called Try_Recv"
| "sp_phase (Rcv_Wake m) = Done (Received (Ok m))"
| "sp_phase (Rcv_End r) = Done (Received r)"
| "sp_phase Cls_Flag = Called Close_Queue"
| "sp_phase Cls_Wake = Done Closed_Queue"
| "sp_phase Cls_End = Done Closed_Queue"
| "sp_phase Stuck = Between"

lemma sp_act_pcs: "sp_act i a s = Some s' \<Longrightarrow> \<exists>pc. sp_pcs s' = (sp_pcs s)(i := pc)"
  by (cases a; cases "sp_pcs s i")
    (auto simp: sp_next_def sp_goto_def on_sp_core_def split: if_splits outcome.splits option.splits)

lemma sp_own_phase:
  assumes "sp_inv c s'" and "sp_act i a s = Some s'"
  shows "run_phases (sp_phase (sp_pcs s i)) (sp_moments i a s s') = Some (sp_phase (sp_pcs s' i))"
proof -
  have "sp_pcs s' i \<noteq> Stuck" using sp_invD(4) [OF assms(1), of i] by auto
  then show ?thesis using assms(2)
    by (cases a; cases "sp_pcs s i")
      (auto simp: sp_next_def sp_goto_def on_sp_core_def sp_outcome_def
        split: if_splits outcome.splits option.splits ordering.splits)
qed

section \<open>The list that a state stands for\<close>

text \<open>
  The message that is being written is not there yet, the one that is being read is still there.
\<close>

fun sp_writing :: "'a sp_pc \<Rightarrow> bool" where
  "sp_writing (Snd_Write idx l m) = True"
| "sp_writing (Snd_Store idx l m) = True"
| "sp_writing _ = False"

fun sp_taking :: "'a sp_pc \<Rightarrow> bool" where
  "sp_taking (Rcv_Read idx l) = True"
| "sp_taking (Rcv_Store idx l m) = True"
| "sp_taking _ = False"

definition sp_pub :: "'a sp_sys \<Rightarrow> nat" where
  "sp_pub s = (if \<exists>i. sp_writing (sp_pcs s i) then length (sp_sent s) - 1 else length (sp_sent s))"

definition sp_rel :: "'a sp_sys \<Rightarrow> nat" where
  "sp_rel s = (if \<exists>i. sp_taking (sp_pcs s i) then sp_taken s - 1 else sp_taken s)"

definition sp_abs :: "'a sp_sys \<Rightarrow> 'a list \<times> bool" where
  "sp_abs s = (drop (sp_rel s) (take (sp_pub s) (sp_sent s)), closed_flag (sp_core s))"

text \<open>What was published has its bucket on the reading lap, what was released beyond it.\<close>

definition settled :: "nat \<Rightarrow> 'a sp_sys \<Rightarrow> bool" where
  "settled c s \<longleftrightarrow>
     (\<forall>j < sp_rel s. 2 * (j div c) + 2 \<le> lapn (buffer (sp_core s)) (j mod c)) \<and>
     (\<forall>j < sp_pub s. 2 * (j div c) + 1 \<le> lapn (buffer (sp_core s)) (j mod c))"

definition sp_inv2 :: "nat \<Rightarrow> 'a sp_sys \<Rightarrow> bool" where
  "sp_inv2 c s \<longleftrightarrow> sp_inv c s \<and> settled c s"

lemma sp_writing_sending: "sp_writing pc \<Longrightarrow> sending pc"
  by (cases pc) auto

lemma sp_taking_receiving: "sp_taking pc \<Longrightarrow> receiving pc"
  by (cases pc) auto

lemma writing_by:
  assumes "sp_inv c s" and "sending (sp_pcs s i)"
  shows "(\<exists>j. sp_writing (sp_pcs s j)) \<longleftrightarrow> sp_writing (sp_pcs s i)"
  using sp_invD(5) [OF assms(1)] assms(2) sp_writing_sending by metis

lemma taking_by:
  assumes "sp_inv c s" and "receiving (sp_pcs s i)"
  shows "(\<exists>j. sp_taking (sp_pcs s j)) \<longleftrightarrow> sp_taking (sp_pcs s i)"
  using sp_invD(6) [OF assms(1)] assms(2) sp_taking_receiving by metis

lemma sp_counts:
  assumes I: "sp_inv c s"
  shows "sp_pub s \<le> length (sp_sent s)" and "sp_rel s \<le> sp_taken s" and "sp_pub s \<le> sp_rel s + c"
proof -
  note C = cells_okD [OF sp_invD(1) [OF I]]
  show le: "sp_pub s \<le> length (sp_sent s)" "sp_rel s \<le> sp_taken s" by (simp_all add: sp_pub_def sp_rel_def)
  show "sp_pub s \<le> sp_rel s + c"
  proof (cases "\<exists>i. sp_taking (sp_pcs s i)")
    case True
    then obtain i where "sp_taking (sp_pcs s i)" by blast
    with sp_invD(4) [OF I, of i] obtain j where
      j: "Suc j = sp_taken s" "lapn (buffer (sp_core s)) (j mod c) = 2 * (j div c) + 1"
      by (cases "sp_pcs s i") auto
    have "\<not> j + c < length (sp_sent s)" using C(7) [of j] j(2) by auto
    then show ?thesis using le(1) j(1) True by (simp add: sp_rel_def)
  next
    case False
    then show ?thesis using le(1) C(5) by (simp add: sp_rel_def)
  qed
qed

section \<open>The effect of a step\<close>

lemma ex_upd_same: "P x = P (f i) \<Longrightarrow> (\<exists>j. P ((f(i := x)) j)) \<longleftrightarrow> (\<exists>j. P (f j))"
  by (metis fun_upd_apply)

lemma sp_quiet:
  assumes "sp_pcs s' = (sp_pcs s)(i := pc)" and "sp_writing pc = sp_writing (sp_pcs s i)"
    and "sp_taking pc = sp_taking (sp_pcs s i)" and "sp_sent s' = sp_sent s" and "sp_taken s' = sp_taken s"
  shows "sp_pub s' = sp_pub s" and "sp_rel s' = sp_rel s"
  using ex_upd_same [of sp_writing pc "sp_pcs s" i] ex_upd_same [of sp_taking pc "sp_pcs s" i] assms
  by (simp_all add: sp_pub_def sp_rel_def)

lemma sp_pub_sender:
  assumes "sp_inv c s" and "sending (sp_pcs s i)" and "sp_pcs s' = (sp_pcs s)(i := pc)"
  shows "sp_pub s' = (if sp_writing pc then length (sp_sent s') - 1 else length (sp_sent s'))"
proof -
  have "\<not> sp_writing (sp_pcs s j)" if "j \<noteq> i" for j
    using sp_invD(5) [OF assms(1), of i j] assms(2) that sp_writing_sending by blast
  then have "(\<exists>j. sp_writing (sp_pcs s' j)) \<longleftrightarrow> sp_writing pc" using assms(3) by (metis fun_upd_apply)
  then show ?thesis by (simp add: sp_pub_def)
qed

lemma sp_rel_receiver:
  assumes "sp_inv c s" and "receiving (sp_pcs s i)" and "sp_pcs s' = (sp_pcs s)(i := pc)"
  shows "sp_rel s' = (if sp_taking pc then sp_taken s' - 1 else sp_taken s')"
proof -
  have "\<not> sp_taking (sp_pcs s j)" if "j \<noteq> i" for j
    using sp_invD(6) [OF assms(1), of i j] assms(2) that sp_taking_receiving by blast
  then have "(\<exists>j. sp_taking (sp_pcs s' j)) \<longleftrightarrow> sp_taking pc" using assms(3) by (metis fun_upd_apply)
  then show ?thesis by (simp add: sp_rel_def)
qed

lemma sp_pub_now: "sp_inv c s \<Longrightarrow> sending (sp_pcs s i) \<Longrightarrow>
    sp_pub s = (if sp_writing (sp_pcs s i) then length (sp_sent s) - 1 else length (sp_sent s))"
  by (rule sp_pub_sender [where pc = "sp_pcs s i" and i = i]) (assumption | rule fun_upd_triv [symmetric])+

lemma sp_rel_now: "sp_inv c s \<Longrightarrow> receiving (sp_pcs s i) \<Longrightarrow>
    sp_rel s = (if sp_taking (sp_pcs s i) then sp_taken s - 1 else sp_taken s)"
  by (rule sp_rel_receiver [where pc = "sp_pcs s i" and i = i]) (assumption | rule fun_upd_triv [symmetric])+

lemma sp_rel_sender:
  assumes "sending (sp_pcs s i)" and "sp_pcs s' = (sp_pcs s)(i := pc)" and "sending pc" and "sp_taken s' = sp_taken s"
  shows "sp_rel s' = sp_rel s"
proof -
  have "\<not> sp_taking (sp_pcs s i)" using assms(1) by (cases "sp_pcs s i") auto
  moreover have "\<not> sp_taking pc" using assms(3) by (cases pc) auto
  ultimately show ?thesis
    using ex_upd_same [of sp_taking pc "sp_pcs s" i] assms(2,4) by (simp add: sp_rel_def)
qed

lemma sp_pub_receiver:
  assumes "receiving (sp_pcs s i)" and "sp_pcs s' = (sp_pcs s)(i := pc)" and "receiving pc" and "sp_sent s' = sp_sent s"
  shows "sp_pub s' = sp_pub s"
proof -
  have "\<not> sp_writing (sp_pcs s i)" using assms(1) by (cases "sp_pcs s i") auto
  moreover have "\<not> sp_writing pc" using assms(3) by (cases pc) auto
  ultimately show ?thesis
    using ex_upd_same [of sp_writing pc "sp_pcs s" i] assms(2,4) by (simp add: sp_pub_def)
qed

text \<open>\<^verbatim>\<open>Full\<close> is answered only when the list is full, \<^verbatim>\<open>TryRecvError\<close> only when it is empty.\<close>

lemma sp_abs_length: "sp_inv c s \<Longrightarrow> length (fst (sp_abs s)) = sp_pub s - sp_rel s"
  using sp_counts(1) [of c s] by (simp add: sp_abs_def)

lemma sp_full_exact:
  assumes I: "sp_inv2 c s" and pc: "sp_pcs s i = Snd_Again meta m"
    and L: "meta_lap meta > load_lap (buffer (sp_core s) ! unat (meta_idx meta))"
  shows "length (fst (sp_abs s)) = c"
proof -
  have J: "sp_inv c s" "settled c s" using I by (simp_all add: sp_inv2_def)
  note C = cells_okD [OF sp_invD(1) [OF J(1)]]
  let ?t = "length (sp_sent s)" and ?buf = "buffer (sp_core s)"
  have m: "meta = write_cursor c ?t" using sp_invD(4) [OF J(1), of i] pc by simp
  have t: "lapn ?buf (?t mod c) < 2 * (?t div c)"
    using L m C(1) lap_word(1) [OF C(6)] by (simp add: load_lap_def word_less_nat_alt)
  then have "c \<le> ?t" using C(2) by (metis bot_nat_0.not_eq_extremum div_less mult_0_right not_less_zero linorder_not_less)
  then have j: "(?t - c) mod c = ?t mod c" "Suc ((?t - c) div c) = ?t div c"
    using div_minus [OF C(2)] by (simp_all add: le_mod_geq [symmetric])
  have "\<not> ?t - c < sp_rel s" using J(2) j t unfolding settled_def by fastforce
  moreover have "sp_pub s = ?t" using sp_pub_now [OF J(1), of i] pc by simp
  ultimately show ?thesis using sp_counts(3) [OF J(1)] sp_abs_length [OF J(1)] \<open>c \<le> ?t\<close> by linarith
qed

lemma sp_empty_exact:
  assumes I: "sp_inv2 c s" and pc: "sp_pcs s i = Rcv_Again meta"
    and L: "meta_lap meta > load_lap (buffer (sp_core s) ! unat (meta_idx meta))"
  shows "fst (sp_abs s) = []"
proof -
  have J: "sp_inv c s" "settled c s" using I by (simp_all add: sp_inv2_def)
  note C = cells_okD [OF sp_invD(1) [OF J(1)]]
  let ?h = "sp_taken s" and ?buf = "buffer (sp_core s)"
  have m: "meta = read_cursor c ?h" using sp_invD(4) [OF J(1), of i] pc by simp
  have "in_budget c ?h" by (rule cells_budget [OF sp_invD(1) [OF J(1)] C(4)])
  then have t: "lapn ?buf (?h mod c) < 2 * (?h div c) + 1"
    using L m C(1) lap_word(2) [of c ?h] by (simp add: load_lap_def word_less_nat_alt)
  then have "\<not> ?h < sp_pub s" using J(2) unfolding settled_def by fastforce
  moreover have "sp_rel s = ?h" using sp_rel_now [OF J(1), of i] pc by simp
  ultimately show ?thesis using sp_abs_length [OF J(1)] by simp
qed

text \<open>A step that moves no cursor and gives no bucket away changes nothing.\<close>

definition sp_effect :: "nat \<Rightarrow> 'a moment list \<Rightarrow> 'a sp_sys \<Rightarrow> 'a sp_sys \<Rightarrow> bool" where
  "sp_effect c xs s s' \<longleftrightarrow>
     serve_run (serve True False c) (points (map (Pair 0) xs)) (sp_abs s) = Some (sp_abs s') \<and> settled c s'"

lemma settled_later:
  assumes "settled c s" and "sp_pub s' = sp_pub s" and "sp_rel s' = sp_rel s"
    and "buf_later x (buffer (sp_core s)) (buffer (sp_core s'))"
  shows "settled c s'"
proof -
  have up: "n \<le> lapn (buffer (sp_core s)) k \<Longrightarrow> n \<le> lapn (buffer (sp_core s')) k" for n k
    using assms(4) unfolding buf_later_def by (meson le_trans)
  show ?thesis using assms(1) up unfolding settled_def assms(2,3) by blast
qed

lemma sp_effect_quiet:
  assumes I: "sp_inv2 c s" and P: "sp_pcs s' = (sp_pcs s)(i := pc)"
    and F: "sp_writing pc = sp_writing (sp_pcs s i)" "sp_taking pc = sp_taking (sp_pcs s i)"
    and S: "sp_sent s' = sp_sent s" "sp_taken s' = sp_taken s" "closed_flag (sp_core s') = closed_flag (sp_core s)"
    and B: "buf_later x (buffer (sp_core s)) (buffer (sp_core s'))"
    and M: "serve_run (serve True False c) (points (map (Pair 0) xs)) (sp_abs s) = Some (sp_abs s)"
  shows "sp_effect c xs s s'"
proof -
  note Q = sp_quiet [OF P F S(1,2)]
  have "sp_abs s' = sp_abs s" using Q S by (simp add: sp_abs_def)
  moreover have "settled c s'" by (rule settled_later [OF _ Q B]) (use I in \<open>simp add: sp_inv2_def\<close>)
  ultimately show ?thesis using M by (simp add: sp_effect_def)
qed

lemma sp_effect_goto:
  assumes "sp_inv2 c s" and "s' = sp_goto i pc s"
    and "sp_writing pc = sp_writing (sp_pcs s i)" "sp_taking pc = sp_taking (sp_pcs s i)"
    and "serve_run (serve True False c) (points (map (Pair 0) xs)) (sp_abs s) = Some (sp_abs s)"
  shows "sp_effect c xs s s'"
  by (rule sp_effect_quiet [OF assms(1), where i = i and pc = pc and x = None])
    (use assms in \<open>simp_all add: sp_goto_def\<close>)

text \<open>The sender.\<close>

lemma sp_effect_claim:
  assumes I: "sp_inv2 c s" and pc: "sp_pcs s i = Snd_Move meta l m"
    and A: "sp_send_next i (Snd_Move meta l m) s = Some s'"
  shows "sp_effect c [] s s'"
proof -
  have J: "sp_inv c s" "settled c s" using I by (simp_all add: sp_inv2_def)
  have s': "sp_pcs s' = (sp_pcs s)(i := Snd_Write (unat (meta_idx meta)) l m)" "sp_sent s' = sp_sent s @ [m]"
    "sp_taken s' = sp_taken s" "buffer (sp_core s') = buffer (sp_core s)"
    "closed_flag (sp_core s') = closed_flag (sp_core s)"
    using A by (auto simp: sp_goto_def on_sp_core_def split: if_splits)
  have snd: "sending (sp_pcs s i)" using pc by simp
  have p: "sp_pub s' = length (sp_sent s)" "sp_pub s = length (sp_sent s)"
    using sp_pub_sender [OF J(1) snd s'(1)] sp_pub_now [OF J(1) snd] s'(2) pc by simp_all
  have r: "sp_rel s' = sp_rel s" by (rule sp_rel_sender [OF snd s'(1) _ s'(3)]) simp
  have "settled c s'"
    by (rule settled_later [OF J(2), where x = None]) (use p r s'(4) in simp_all)
  then show ?thesis using p r s' by (simp add: sp_effect_def sp_abs_def)
qed

lemma drop_take_snoc: "r \<le> j \<Longrightarrow> j < length xs \<Longrightarrow> drop r (take (Suc j) xs) = drop r (take j xs) @ [xs ! j]"
  by (simp add: take_Suc_conv_app_nth)

lemma sp_effect_publish:
  assumes I: "sp_inv2 c s" and pc: "sp_pcs s i = Snd_Store idx l m"
    and A: "sp_send_next i (Snd_Store idx l m) s = Some s'"
  shows "sp_effect c [Point (Try_Send m) (Sent (Ok ()))] s s'"
proof -
  have J: "sp_inv c s" "settled c s" using I by (simp_all add: sp_inv2_def)
  note D = sp_invD [OF J(1)] and C = cells_okD [OF sp_invD(1) [OF J(1)]]
  let ?buf = "buffer (sp_core s)"
  obtain j where j: "Suc j = length (sp_sent s)" "idx = j mod c" "l = tkt_lap c j" "lapn ?buf idx = 2 * (j div c)"
    "m = sp_sent s ! j" using D(4) [of i] pc by auto
  have idx: "idx < length ?buf" using j(2) C(2,3) by simp
  have s': "sp_pcs s' = (sp_pcs s)(i := Snd_Wake)" "sp_sent s' = sp_sent s" "sp_taken s' = sp_taken s"
    "buffer (sp_core s') = ?buf[idx := (?buf ! idx)\<lparr>lap := l + 1\<rparr>]"
    "closed_flag (sp_core s') = closed_flag (sp_core s)"
    using A by (auto simp: sp_goto_def on_sp_core_def upd_elem_def)
  have snd: "sending (sp_pcs s i)" using pc by simp
  have p: "sp_pub s' = Suc j" "sp_pub s = j"
    using sp_pub_sender [OF J(1) snd s'(1)] sp_pub_now [OF J(1) snd] s'(2) j(1) pc by simp_all
  have r: "sp_rel s' = sp_rel s" by (rule sp_rel_sender [OF snd s'(1)]) (use s'(3) in simp_all)
  have "in_budget c j" by (rule cells_budget [OF D(1)]) (use j(1) in simp)
  note L = lap_word(2) [OF this]
  have lap: "lapn (buffer (sp_core s')) k = (if k = idx then 2 * (j div c) + 1 else lapn ?buf k)" for k
    using s'(4) idx L j(3) by simp
  have up: "lapn ?buf k \<le> lapn (buffer (sp_core s')) k" for k using lap [of k] j(4) by simp
  have "settled c s'"
    unfolding settled_def p(1) r
  proof (intro conjI allI impI)
    show "2 * (k div c) + 2 \<le> lapn (buffer (sp_core s')) (k mod c)" if "k < sp_rel s" for k
      using J(2) that up [of "k mod c"] unfolding settled_def by (meson le_trans)
    show "2 * (k div c) + 1 \<le> lapn (buffer (sp_core s')) (k mod c)" if k: "k < Suc j" for k
    proof (cases "k = j")
      case True
      then show ?thesis using lap [of idx] j(2) by simp
    next
      case False
      then have "2 * (k div c) + 1 \<le> lapn ?buf (k mod c)" using J(2) k p(2) by (simp add: settled_def)
      then show ?thesis using up [of "k mod c"] by (rule le_trans)
    qed
  qed
  moreover have room: "j < sp_rel s + c"
  proof (rule ccontr)
    assume "\<not> j < sp_rel s + c"
    then have e: "j = sp_rel s + c" using sp_counts(3) [OF J(1)] p(2) by simp
    have o: "lapn ?buf (sp_rel s mod c) = 2 * (sp_rel s div c) + 2" using e j(2,4) C(2) by (simp add: div_add_self2)
    show False
    proof (cases "\<exists>k. sp_taking (sp_pcs s k)")
      case True
      then obtain k where k: "sp_taking (sp_pcs s k)" by blast
      with D(4) [of k] obtain n where "Suc n = sp_taken s" "lapn ?buf (n mod c) = 2 * (n div c) + 1"
        by (cases "sp_pcs s k") auto
      moreover from this k have "sp_rel s = n" by (auto simp: sp_rel_def)
      ultimately show False using o by simp
    next
      case False
      then have "sp_taken s \<le> sp_rel s" by (simp add: sp_rel_def)
      then show False using C(9) [of "sp_rel s"] o by simp
    qed
  qed
  moreover have "sp_rel s \<le> j"
  proof (rule ccontr)
    assume "\<not> sp_rel s \<le> j"
    then have "2 * (j div c) + 2 \<le> lapn ?buf (j mod c)" using J(2) by (simp add: settled_def)
    then show False using j(2,4) by simp
  qed
  ultimately have len: "length (drop (sp_rel s) (take j (sp_sent s))) < c"
    and e: "drop (sp_rel s) (take (Suc j) (sp_sent s)) = drop (sp_rel s) (take j (sp_sent s)) @ [m]"
    using j(1,5) drop_take_snoc [of "sp_rel s" j "sp_sent s"] by simp_all
  show ?thesis
    using len \<open>settled c s'\<close> unfolding sp_effect_def sp_abs_def p r s'(2,5) e by simp
qed

lemma sp_effect_send:
  assumes I: "sp_inv2 c s" and I': "sp_inv c s'" and S: "sending (sp_pcs s i)"
    and A: "sp_send_next i (sp_pcs s i) s = Some s'"
  shows "sp_effect c (sp_moment (sp_pcs s i) (sp_pcs s' i)) s s'"
proof (cases "sp_pcs s i")
  case (Snd_Load m)
  then show ?thesis using A by (auto intro!: sp_effect_goto [OF I])
next
  case (Snd_Flag meta m)
  then show ?thesis
    using A by (cases "closed_flag (sp_core s)")
      (auto simp: sp_abs_def sp_goto_def intro!: sp_effect_goto [OF I, unfolded sp_goto_def])
next
  case (Snd_Top meta m)
  then show ?thesis
    using A I' by (auto simp: sp_outcome_def intro!: sp_effect_goto [OF I] split: outcome.splits ordering.splits
        dest: sp_invD(4) [where i = i])
next
  case (Snd_Again meta m)
  have J: "sp_inv c s" using I by (simp add: sp_inv2_def)
  have e: "get_unchecked (buffer (sp_core s)) (unat (meta_idx meta)) = Ret (buffer (sp_core s) ! unat (meta_idx meta))"
    using sp_invD(4) [OF J, of i] Snd_Again sp_idx(1) [OF J] by (simp add: get_unchecked_def)
  show ?thesis
  proof (cases "meta_lap meta > load_lap (buffer (sp_core s) ! unat (meta_idx meta))")
    case True
    then have s': "s' = sp_goto i (Snd_End (Err (Full m))) s" using A Snd_Again e by (simp add: sp_outcome_def)
    have "length (fst (sp_abs s)) = c" by (rule sp_full_exact [OF I Snd_Again True])
    then have "serve_run (serve True False c) [(Try_Send m, Sent (Err (Full m)))] (sp_abs s) = Some (sp_abs s)"
      by (cases "sp_abs s") simp
    then show ?thesis using Snd_Again s' by (auto simp: sp_goto_def intro!: sp_effect_goto [OF I, unfolded sp_goto_def])
  next
    case False
    then have s': "s' = sp_goto i (Snd_Flag meta m) s" using A Snd_Again e by (simp add: sp_outcome_def)
    then show ?thesis using Snd_Again by (auto simp: sp_goto_def intro!: sp_effect_goto [OF I, unfolded sp_goto_def])
  qed
next
  case (Snd_Move meta l m)
  then show ?thesis using A sp_effect_claim [OF I] by (simp del: sp_send_next.simps)
next
  case (Snd_Write idx l m)
  have later: "buf_later (Some idx) buf (buf[idx := (buf ! idx)\<lparr>msg := Some m\<rparr>])" for buf :: "'a elem list"
    by (rule buf_later_update) simp
  show ?thesis
    by (rule sp_effect_quiet [OF I, where i = i and pc = "Snd_Store idx l m" and x = "Some idx"])
      (use A Snd_Write later in \<open>auto simp: sp_goto_def on_sp_core_def upd_elem_def\<close>)
next
  case (Snd_Store idx l m)
  then show ?thesis using A sp_effect_publish [OF I] by (simp del: sp_send_next.simps)
next
  case Snd_Wake
  then have "s' = sp_goto i (Snd_End (Ok ())) s"
    using A sp_wake_nobody(1) [OF sp_invD(2) [of c s]] I by (simp add: sp_inv2_def)
  then show ?thesis using Snd_Wake by (auto simp: sp_goto_def intro!: sp_effect_goto [OF I, unfolded sp_goto_def])
next
  case (Snd_End r)
  then show ?thesis using A by (auto intro!: sp_effect_goto [OF I])
qed (use S in simp_all)

text \<open>The receiver.\<close>

lemma sp_effect_take:
  assumes I: "sp_inv2 c s" and pc: "sp_pcs s i = Rcv_Move meta l"
    and A: "sp_recv_next i (Rcv_Move meta l) s = Some s'"
  shows "sp_effect c [] s s'"
proof -
  have J: "sp_inv c s" "settled c s" using I by (simp_all add: sp_inv2_def)
  have s': "sp_pcs s' = (sp_pcs s)(i := Rcv_Read (unat (meta_idx meta)) l)" "sp_sent s' = sp_sent s"
    "sp_taken s' = Suc (sp_taken s)" "buffer (sp_core s') = buffer (sp_core s)"
    "closed_flag (sp_core s') = closed_flag (sp_core s)"
    using A by (auto simp: sp_goto_def on_sp_core_def split: if_splits)
  have rcv: "receiving (sp_pcs s i)" using pc by simp
  have r: "sp_rel s' = sp_rel s"
    using sp_rel_receiver [OF J(1) rcv s'(1)] sp_rel_now [OF J(1) rcv] s'(3) pc by simp
  have p: "sp_pub s' = sp_pub s" by (rule sp_pub_receiver [OF rcv s'(1) _ s'(2)]) simp
  have "settled c s'" by (rule settled_later [OF J(2) p r, where x = None]) (simp add: s'(4))
  then show ?thesis using p r s' by (simp add: sp_effect_def sp_abs_def)
qed

lemma sp_effect_release:
  assumes I: "sp_inv2 c s" and pc: "sp_pcs s i = Rcv_Store idx l m"
    and A: "sp_recv_next i (Rcv_Store idx l m) s = Some s'"
  shows "sp_effect c [Point Try_Recv (Received (Ok m))] s s'"
proof -
  have J: "sp_inv c s" "settled c s" using I by (simp_all add: sp_inv2_def)
  note D = sp_invD [OF J(1)] and C = cells_okD [OF sp_invD(1) [OF J(1)]]
  let ?buf = "buffer (sp_core s)"
  obtain j where j: "Suc j = sp_taken s" "idx = j mod c" "l = tkt_lap c j + 1" "lapn ?buf idx = 2 * (j div c) + 1"
    "m = sp_sent s ! j" using D(4) [of i] pc by auto
  have idx: "idx < length ?buf" using j(2) C(2,3) by simp
  have js: "j < length (sp_sent s)" using j(1) C(4) by simp
  have s': "sp_pcs s' = (sp_pcs s)(i := Rcv_Wake m)" "sp_sent s' = sp_sent s" "sp_taken s' = sp_taken s"
    "buffer (sp_core s') = ?buf[idx := (?buf ! idx)\<lparr>lap := l + 1\<rparr>]"
    "closed_flag (sp_core s') = closed_flag (sp_core s)"
    using A by (auto simp: sp_goto_def on_sp_core_def upd_elem_def)
  have rcv: "receiving (sp_pcs s i)" using pc by simp
  have r: "sp_rel s' = Suc j" "sp_rel s = j"
    using sp_rel_receiver [OF J(1) rcv s'(1)] sp_rel_now [OF J(1) rcv] s'(3) j(1) pc by simp_all
  have p: "sp_pub s' = sp_pub s" by (rule sp_pub_receiver [OF rcv s'(1) _ s'(2)]) simp
  have "in_budget c j" by (rule cells_budget [OF D(1)]) (use js in simp)
  note L = lap_word(3) [OF this]
  have lap: "lapn (buffer (sp_core s')) k = (if k = idx then 2 * (j div c) + 2 else lapn ?buf k)" for k
    using s'(4) idx L j(3) by simp
  have up: "lapn ?buf k \<le> lapn (buffer (sp_core s')) k" for k using lap [of k] j(4) by simp
  have "settled c s'"
    unfolding settled_def p r(1)
  proof (intro conjI allI impI)
    show "2 * (k div c) + 2 \<le> lapn (buffer (sp_core s')) (k mod c)" if k: "k < Suc j" for k
    proof (cases "k = j")
      case True
      then show ?thesis using lap [of idx] j(2) by simp
    next
      case False
      then have "2 * (k div c) + 2 \<le> lapn ?buf (k mod c)" using J(2) k r(2) by (simp add: settled_def)
      then show ?thesis using up [of "k mod c"] by (rule le_trans)
    qed
    show "2 * (k div c) + 1 \<le> lapn (buffer (sp_core s')) (k mod c)" if "k < sp_pub s" for k
    proof -
      have "2 * (k div c) + 1 \<le> lapn ?buf (k mod c)" using J(2) that by (simp add: settled_def)
      then show ?thesis using up [of "k mod c"] by (rule le_trans)
    qed
  qed
  moreover have there: "j < sp_pub s"
  proof (rule ccontr)
    assume "\<not> j < sp_pub s"
    then have w: "\<exists>k. sp_writing (sp_pcs s k)" "Suc j = length (sp_sent s)"
      using js by (auto simp: sp_pub_def split: if_splits)
    then obtain k where "sp_writing (sp_pcs s k)" by blast
    with D(4) [of k] obtain n where n: "Suc n = length (sp_sent s)" "lapn ?buf (n mod c) = 2 * (n div c)"
      by (cases "sp_pcs s k") auto
    then have "n = j" using w(2) by simp
    then show False using n(2) j(2,4) by simp
  qed
  then have "drop j (take (sp_pub s) (sp_sent s)) = m # drop (Suc j) (take (sp_pub s) (sp_sent s))"
    using js j(5) by (simp add: Cons_nth_drop_Suc [symmetric])
  ultimately show ?thesis using p r s' by (simp add: sp_effect_def sp_abs_def)
qed

lemma sp_effect_recv:
  assumes I: "sp_inv2 c s" and I': "sp_inv c s'" and S: "receiving (sp_pcs s i)"
    and A: "sp_recv_next i (sp_pcs s i) s = Some s'"
  shows "sp_effect c (sp_moment (sp_pcs s i) (sp_pcs s' i)) s s'"
proof (cases "sp_pcs s i")
  case Rcv_Load
  then show ?thesis using A by (auto intro!: sp_effect_goto [OF I])
next
  case (Rcv_Top meta)
  then show ?thesis
    using A by (auto simp: sp_outcome_def intro!: sp_effect_goto [OF I] split: outcome.splits ordering.splits)
next
  case (Rcv_Again meta)
  have J: "sp_inv c s" using I by (simp add: sp_inv2_def)
  have e: "get_unchecked (buffer (sp_core s)) (unat (meta_idx meta)) = Ret (buffer (sp_core s) ! unat (meta_idx meta))"
    using sp_invD(4) [OF J, of i] Rcv_Again sp_idx(2) [OF J] by (simp add: get_unchecked_def)
  show ?thesis
  proof (cases "meta_lap meta > load_lap (buffer (sp_core s) ! unat (meta_idx meta))")
    case True
    then have s': "s' = sp_goto i (Rcv_End (Err TryRecvError)) s" using A Rcv_Again e by (simp add: sp_outcome_def)
    have "fst (sp_abs s) = []" by (rule sp_empty_exact [OF I Rcv_Again True])
    then have "serve_run (serve True False c) [(Try_Recv, Received (Err TryRecvError))] (sp_abs s) = Some (sp_abs s)"
      by (cases "sp_abs s") simp
    then show ?thesis using Rcv_Again s' by (auto simp: sp_goto_def intro!: sp_effect_goto [OF I, unfolded sp_goto_def])
  next
    case False
    then have s': "s' = sp_goto i (Rcv_Top meta) s" using A Rcv_Again e by (simp add: sp_outcome_def)
    then show ?thesis using Rcv_Again by (auto simp: sp_goto_def intro!: sp_effect_goto [OF I, unfolded sp_goto_def])
  qed
next
  case (Rcv_Move meta l)
  then show ?thesis using A sp_effect_take [OF I] by (simp del: sp_recv_next.simps)
next
  case (Rcv_Read idx l)
  moreover have "sp_pcs s' i \<noteq> Stuck" using sp_invD(4) [OF I', of i] by auto
  ultimately show ?thesis
    using A by (auto simp: sp_goto_def intro!: sp_effect_quiet [OF I, where i = i and x = None] split: option.splits)
next
  case (Rcv_Store idx l m)
  then show ?thesis using A sp_effect_release [OF I] by (simp del: sp_recv_next.simps)
next
  case (Rcv_Wake m)
  then have "s' = sp_goto i (Rcv_End (Ok m)) s"
    using A sp_wake_nobody(2) [OF sp_invD(2) [of c s]] I by (simp add: sp_inv2_def)
  then show ?thesis using Rcv_Wake by (auto simp: sp_goto_def intro!: sp_effect_goto [OF I, unfolded sp_goto_def])
next
  case (Rcv_End r)
  then show ?thesis using A by (auto intro!: sp_effect_goto [OF I])
qed (use S in simp_all)

text \<open>\<^verbatim>\<open>close\<close>.\<close>

lemma sp_effect_close:
  assumes I: "sp_inv2 c s" and A: "sp_close_next i (sp_pcs s i) s = Some s'"
  shows "sp_effect c (sp_moment (sp_pcs s i) (sp_pcs s' i)) s s'"
proof (cases "sp_pcs s i")
  case Cls_Flag
  then have s': "sp_pcs s' = (sp_pcs s)(i := Cls_Wake)" "sp_sent s' = sp_sent s" "sp_taken s' = sp_taken s"
    "buffer (sp_core s') = buffer (sp_core s)" "closed_flag (sp_core s')"
    using A by (auto simp: sp_goto_def on_sp_core_def)
  have Q: "sp_pub s' = sp_pub s" "sp_rel s' = sp_rel s" by (rule sp_quiet [OF s'(1)]; simp add: Cls_Flag s')+
  have "settled c s'" by (rule settled_later [OF _ Q, where x = None]) (use I s' in \<open>simp_all add: sp_inv2_def\<close>)
  then show ?thesis using Q s' Cls_Flag by (simp add: sp_effect_def sp_abs_def)
next
  case Cls_Wake
  then show ?thesis
    using A by (auto simp: sp_goto_def on_sp_core_def intro!: sp_effect_quiet [OF I, where i = i and x = None] split: if_splits)
next
  case Cls_End
  then show ?thesis using A by (auto intro!: sp_effect_goto [OF I])
qed (use A in simp_all)

lemma sp_effect_act:
  assumes I: "sp_inv2 c s" and O: "one_each a s" and A: "sp_act i a s = Some s'"
  shows "sp_inv2 c s' \<and> sp_effect c (sp_moments i a s s') s s'"
proof -
  have I': "sp_inv c s'" using sp_inv_act [OF _ O A] I by (simp add: sp_inv2_def)
  have "sp_effect c (sp_moments i a s s') s s'"
  proof (cases a)
    case Do_Step
    then show ?thesis
      using A sp_effect_send [OF I I'] sp_effect_recv [OF I I'] sp_effect_close [OF I]
      by (auto simp: sp_next_def split: if_splits)
  qed (use A in \<open>auto intro!: sp_effect_goto [OF I] split: if_splits\<close>)
  then show ?thesis using I' by (simp add: sp_inv2_def sp_effect_def)
qed

interpretation spsc_points: point_machine sp_act one_each sp_moments "sp_inv2 c" sp_abs
  "\<lambda>s i. sp_phase (sp_pcs s i)" "serve True False c" for c
proof unfold_locales
  fix s s' :: "'a sp_sys" and a i j
  assume A: "sp_inv2 c s" "one_each a s" "sp_act i a s = Some s'"
  note E = sp_effect_act [OF A]
  show "sp_inv2 c s'" using E by blast
  then show "run_phases (sp_phase (sp_pcs s i)) (sp_moments i a s s') = Some (sp_phase (sp_pcs s' i))"
    using sp_own_phase [of c, OF _ A(3)] by (simp add: sp_inv2_def)
  show "j \<noteq> i \<Longrightarrow> sp_phase (sp_pcs s' j) = sp_phase (sp_pcs s j)" using sp_act_pcs [OF A(3)] by auto
  show "serve_run (serve True False c) (points (map (Pair i) (sp_moments i a s s'))) (sp_abs s) = Some (sp_abs s')"
    using E by (subst points_thread [of i _ 0]) (simp add: sp_effect_def)
qed

lemma sp_inv2_new:
  assumes "spsc_bounded_new n = Ret q"
  shows "sp_inv2 (unat (if n > 0 then n else 1)) (sp_sys_new q)" and "sp_abs (sp_sys_new q) = ([], False)"
proof -
  have c: "\<not> closed_flag q" using assms by (auto simp: spsc_bounded_new_def Let_def split: if_splits)
  have "sp_pub (sp_sys_new q) = 0" "sp_rel (sp_sys_new q) = 0" by (simp_all add: sp_pub_def sp_rel_def sp_sys_new_def)
  then show "sp_inv2 (unat (if n > 0 then n else 1)) (sp_sys_new q)" "sp_abs (sp_sys_new q) = ([], False)"
    using sp_inv_new [OF assms] c by (simp_all add: sp_inv2_def settled_def sp_abs_def) (simp add: sp_sys_new_def)
qed

end
