(* ===== verification/Mpmc_Linear.thy ===== *)
theory Mpmc_Linear
  imports Mpmc_Progress Linear
begin

text \<open>
  The moments at which the calls of \<^verbatim>\<open>MpmcBounded\<close> take effect, for any number of threads: a send
  and a receive when they move their cursor. In the order of these moments the queue is a list
  whose calls may also fail without a reason.
\<close>

section \<open>The moments\<close>

text \<open>\<^term>\<open>v\<close> is the message whose turn it is to be received.\<close>

fun mp_moment :: "'a \<Rightarrow> 'a mp_pc \<Rightarrow> 'a mp_pc \<Rightarrow> 'a moment list" where
  "mp_moment v (S_Top meta m) pc = (case pc of S_End r \<Rightarrow> [Point (Try_Send m) (Sent r)] | _ \<Rightarrow> [])"
| "mp_moment v (S_Again meta l m) pc = (case pc of S_End r \<Rightarrow> [Point (Try_Send m) (Sent r)] | _ \<Rightarrow> [])"
| "mp_moment v (S_Cas meta l m) pc = (case pc of S_Write _ _ _ \<Rightarrow> [Point (Try_Send m) (Sent (Ok ()))] | _ \<Rightarrow> [])"
| "mp_moment v (S_End r) pc = [Return (Sent r)]"
| "mp_moment v (R_Again meta l) pc = (case pc of R_End r \<Rightarrow> [Point Try_Recv (Received r)] | _ \<Rightarrow> [])"
| "mp_moment v (R_Cas meta l) pc = (case pc of R_Read _ _ \<Rightarrow> [Point Try_Recv (Received (Ok v))] | _ \<Rightarrow> [])"
| "mp_moment v (R_End r) pc = [Return (Received r)]"
| "mp_moment v K_Load pc = (case pc of K_End \<Rightarrow> [Point Close_Queue Closed_Queue] | _ \<Rightarrow> [])"
| "mp_moment v (K_Cas meta) pc = (case pc of K_Wake \<Rightarrow> [Point Close_Queue Closed_Queue] | _ \<Rightarrow> [])"
| "mp_moment v K_End pc = [Return Closed_Queue]"
| "mp_moment v _ pc = []"

fun mp_moments :: "nat \<Rightarrow> 'a mp_action \<Rightarrow> 'a mp_sys \<Rightarrow> 'a mp_sys \<Rightarrow> 'a moment list" where
  "mp_moments i (Call_Send m) s s' = [Call (Try_Send m)]"
| "mp_moments i Call_Recv s s' = [Call Try_Recv]"
| "mp_moments i Call_Close s s' = [Call Close_Queue]"
| "mp_moments i (Step sp) s s' = mp_moment (sent s ! taken s) (mp_pcs s i) (mp_pcs s' i)"

fun mp_phase :: "'a mpmc_bounded \<Rightarrow> 'a list \<Rightarrow> 'a mp_pc \<Rightarrow> 'a phase" where
  "mp_phase q ms Out = Between"
| "mp_phase q ms (S_Load m) = Called (Try_Send m)"
| "mp_phase q ms (S_Top meta m) = Called (Try_Send m)"
| "mp_phase q ms (S_Again meta l m) = Called (Try_Send m)"
| "mp_phase q ms (S_Cas meta l m) = Called (Try_Send m)"
| "mp_phase q ms (S_Write idx l m) = Done (Sent (Ok ()))"
| "mp_phase q ms (S_Store idx l m) = Done (Sent (Ok ()))"
| "mp_phase q ms S_Wake = Done (Sent (Ok ()))"
| "mp_phase q ms (S_End r) = Done (Sent r)"
| "mp_phase q ms R_Load = Called Try_Recv"
| "mp_phase q ms (R_Top meta) = Called Try_Recv"
| "mp_phase q ms (R_Again meta l) = Called Try_Recv"
| "mp_phase q ms (R_Cas meta l) = Called Try_Recv"
| "mp_phase q ms (R_Read idx l) = Done (Received (Ok (ms ! ticket q idx l)))"
| "mp_phase q ms (R_Store idx l m) = Done (Received (Ok m))"
| "mp_phase q ms (R_Wake m) = Done (Received (Ok m))"
| "mp_phase q ms (R_End r) = Done (Received r)"
| "mp_phase q ms K_Load = Called Close_Queue"
| "mp_phase q ms (K_Cas meta) = Called Close_Queue"
| "mp_phase q ms K_Wake = Done Closed_Queue"
| "mp_phase q ms K_End = Done Closed_Queue"
| "mp_phase q ms Dead = Between"

definition mp_abs :: "'a mp_sys \<Rightarrow> 'a list \<times> bool" where
  "mp_abs s = (drop (taken s) (sent s), mp_closed s)"

definition mp_inv2 :: "nat \<Rightarrow> 'a mp_sys \<Rightarrow> bool" where
  "mp_inv2 c s \<longleftrightarrow> mp_inv c s \<and> seen_ok s"

section \<open>The effect of a step\<close>

text \<open>What a step leaves as it is.\<close>

lemma capacity_upd_elem [simp]: "capacity (upd_elem idx f q) = capacity q"
  by (simp add: upd_elem_def)

lemma mp_next_frame:
  assumes I: "mp_inv c s" and A: "mp_next i sp (mp_pcs s i) s = Some s'"
  shows "\<exists>pc. mp_pcs s' = (mp_pcs s)(i := pc)" and "capacity (core s') = capacity (core s)"
    and "\<exists>xs. sent s' = sent s @ xs"
  using A wake_nobody [OF mp_invD(2) [OF I]]
  by (cases "mp_pcs s i"; auto simp: mp_goto_def on_core_def split: if_splits option.splits)+

lemma mp_act_frame:
  assumes I: "mp_inv c s" and A: "mp_act i a s = Some s'"
  shows "\<exists>pc. mp_pcs s' = (mp_pcs s)(i := pc)" and "capacity (core s') = capacity (core s)"
    and "\<exists>xs. sent s' = sent s @ xs"
  using A mp_next_frame [OF I, of i _ s'] by (cases a; auto simp: mp_goto_def split: if_splits)+

lemma read_ticket_bound:
  assumes I: "mp_inv c s" and pc: "mp_pcs s i = R_Read idx l"
  shows "ticket (core s) idx l < length (sent s)"
    and "msg (buffer (core s) ! idx) = Some (sent s ! ticket (core s) idx l)"
proof -
  obtain j where j: "j < taken s" "idx = j mod c" "l = tkt_lap c j + 1" "lapn (buffer (core s)) idx = 2 * (j div c) + 1"
    using mp_invD(4) [OF I, of i] pc by auto
  have js: "j < length (sent s)" using j(1) cells_okD(4) [OF mp_invD(1) [OF I]] by simp
  have "ticket (core s) idx l = j" using ticket_word(2) [OF I js] j(2,3) by simp
  then show "ticket (core s) idx l < length (sent s)"
    and "msg (buffer (core s) ! idx) = Some (sent s ! ticket (core s) idx l)"
    using js j cells_okD(11) [OF mp_invD(1) [OF I] js] by simp_all
qed

lemma mp_phase_frame:
  assumes I: "mp_inv c s" and C: "capacity (core s') = capacity (core s)" and S: "sent s' = sent s @ xs"
  shows "mp_phase (core s') (sent s') (mp_pcs s j) = mp_phase (core s) (sent s) (mp_pcs s j)"
proof (cases "mp_pcs s j")
  case (R_Read idx l)
  then show ?thesis
    using read_ticket_bound(1) [OF I R_Read] C S by (simp add: ticket_def nth_append)
qed simp_all

lemma mp_read_claim:
  assumes I: "mp_inv c s" and pc: "mp_pcs s i = R_Cas meta l" and M: "mp_read_meta (core s) = meta"
  shows "ticket (core s) (unat (meta_idx meta)) l = taken s" and "taken s < length (sent s)"
proof -
  note D = mp_invD [OF I] and C = cells_okD [OF mp_invD(1) [OF I]]
  obtain t where t: "t \<le> taken s" "meta = read_cursor c t" "l = tkt_lap c t + 1"
      "2 * (t div c) + 1 \<le> lapn (buffer (core s)) (t mod c)" using D(4) [of i] pc by auto
  have B: "in_budget c t" "in_budget c (taken s)"
    using cells_budget [OF D(1)] read_bound [OF D(1)] t(1) by simp_all
  have "t = taken s" using M core_okD(2) [OF D(2)] t(2) read_cursor_inject [OF C(1) B] by simp
  with t show "taken s < length (sent s)" using cells_read_claim(2) [OF D(1)] by simp
  then show "ticket (core s) (unat (meta_idx meta)) l = taken s"
    using ticket_word(2) [OF I] t \<open>t = taken s\<close> C(1) by simp
qed

lemma mp_write_claim:
  assumes I: "mp_inv c s" and pc: "mp_pcs s i = S_Cas meta l m" and M: "mp_write_meta (core s) = meta"
    and A: "mp_next i False (S_Cas meta l m) s = Some s'"
  shows "\<not> mp_closed s" and "\<not> mp_closed s'" and "length (sent s) < taken s + c"
proof -
  note D = mp_invD [OF I] and C = cells_okD [OF mp_invD(1) [OF I]] and K = core_okD [OF mp_invD(2) [OF I]]
  obtain t where t: "t \<le> length (sent s)" "meta = write_cursor c t" using D(4) [of i] pc by auto
  have B: "in_budget c t" by (rule cells_budget [OF D(1) t(1)])
  then have nb: "\<not> bit meta 63" using t(2) write_cursor_in_budget by simp
  then show "\<not> mp_closed s" using M by (simp add: mp_closed_bit)
  have "mp_write_meta (core s) = write_cursor c (length (sent s))" using K(3) M nb by auto
  then have tt: "t = length (sent s)" using M t(2) write_cursor_inject [OF C(1) B C(6)] by simp
  have c: "unat (capacity (core s)) = c" using K(1) cap_okD [OF C(1)] by (simp add: unat_of_nat)
  have bud: "in_budget c (Suc t)" and w: "mp_write_meta (core s') = next_meta (capacity (core s)) meta"
    and I': "sent s' = sent s @ [m]" "taken s' = taken s"
    using A M c tt by (auto simp: mp_goto_def on_core_def split: if_splits)
  have "mp_write_meta (core s') = write_cursor c (Suc t)"
    using w t(2) K(1) next_meta_cursor(1) [OF C(1)] by simp
  then show "\<not> mp_closed s'" using write_cursor_in_budget [OF bud] by (simp add: mp_closed_bit)
  have "mp_next i False (mp_pcs s i) s = Some s'" using A pc by (simp del: mp_send_next.simps)
  then show "length (sent s) < taken s + c"
    using cells_okD(5) [OF mp_invD(1) [OF mp_inv_next [OF I]]] I' by fastforce
qed

text \<open>Every step but the moves of the cursors and \<^verbatim>\<open>close\<close> leaves the list as it is.\<close>

lemma mp_abs_same:
  assumes "sent s' = sent s" and "taken s' = taken s" and "mp_closed s' = mp_closed s"
  shows "mp_abs s' = mp_abs s"
  using assms by (simp add: mp_abs_def)

definition mp_effect :: "nat \<Rightarrow> 'a moment list \<Rightarrow> 'a mp_sys \<Rightarrow> 'a mp_sys \<Rightarrow> bool" where
  "mp_effect c xs s s' \<longleftrightarrow>
     serve_run (serve False True c) (points (map (Pair 0) xs)) (mp_abs s) = Some (mp_abs s')"

lemma mp_effect_goto:
  assumes "serve_run (serve False True c) (points (map (Pair 0) xs)) (mp_abs s) = Some (mp_abs s)"
  shows "mp_effect c xs s (mp_goto i pc s)"
  using assms by (simp add: mp_effect_def mp_abs_def)

lemma mp_effect_send:
  assumes I: "mp_inv2 c s" and A: "mp_next i sp (mp_pcs s i) s = Some s'"
    and S: "\<exists>m meta l. mp_pcs s i = S_Top meta m \<or> mp_pcs s i = S_Again meta l m \<or> mp_pcs s i = S_Cas meta l m"
    and N: "mp_pcs s' i \<noteq> Dead"
  shows "mp_effect c (mp_moment v (mp_pcs s i) (mp_pcs s' i)) s s'"
proof -
  have J: "mp_inv c s" "seen_ok s" using I by (simp_all add: mp_inv2_def)
  obtain m meta l where "mp_pcs s i = S_Top meta m \<or> mp_pcs s i = S_Again meta l m \<or> mp_pcs s i = S_Cas meta l m"
    using S by blast
  then consider "mp_pcs s i = S_Top meta m" | "mp_pcs s i = S_Again meta l m" | "mp_pcs s i = S_Cas meta l m" by blast
  then show ?thesis
  proof cases
    case 1
    then have s': "s' = mp_goto i (mp_pcs s' i) s" using A by auto
    show ?thesis
    proof (cases "mp_pcs s' i = S_End (Err (Disconnected m))")
      case True
      then have "mp_closed s"
        using answer_disconnected [OF A True] J(2) 1 by (auto simp: seen_ok_def)
      then have "mp_effect c (mp_moment v (mp_pcs s i) (mp_pcs s' i)) s (mp_goto i (mp_pcs s' i) s)"
        using 1 True by (intro mp_effect_goto) (simp add: mp_abs_def)
      then show ?thesis using s' by simp
    next
      case False
      then have "mp_moment v (mp_pcs s i) (mp_pcs s' i) = []"
        using A 1 by (auto simp: outcome_pc_def split: outcome.splits ordering.splits if_splits)
      then show ?thesis using s' mp_effect_goto [of c "[]" s i "mp_pcs s' i"] by simp
    qed
  next
    case 2
    then have s': "s' = mp_goto i (mp_pcs s' i) s" using A by auto
    have "mp_pcs s' i = S_End (Err (Full m)) \<or> mp_moment v (mp_pcs s i) (mp_pcs s' i) = []"
      using A 2 by (auto simp: outcome_pc_def split: outcome.splits if_splits)
    then have "serve_run (serve False True c) (points (map (Pair 0) (mp_moment v (mp_pcs s i) (mp_pcs s' i)))) (mp_abs s) = Some (mp_abs s)"
      using 2 by (auto simp: mp_abs_def)
    then show ?thesis using s' mp_effect_goto by metis
  next
    case 3
    show ?thesis
    proof (cases "mp_write_meta (core s) = meta \<and> \<not> sp")
      case True
      then have A': "mp_next i False (S_Cas meta l m) s = Some s'" using A 3 by simp
      note W = mp_write_claim [OF J(1) 3 conjunct1 [OF True] A']
      have "sent s' = sent s @ [m]" "taken s' = taken s" "\<exists>x y z. mp_pcs s' i = S_Write x y z"
        using A' True by (auto simp: mp_goto_def on_core_def split: if_splits)
      then show ?thesis
        using W 3 cells_okD(4) [OF mp_invD(1) [OF J(1)]] by (auto simp: mp_effect_def mp_abs_def)
    next
      case False
      then have "s' = mp_goto i (S_Top (mp_write_meta (core s)) m) s" using A 3 by auto
      then show ?thesis using 3 by (auto intro!: mp_effect_goto)
    qed
  qed
qed

lemma mp_effect_recv:
  assumes I: "mp_inv2 c s" and A: "mp_next i sp (mp_pcs s i) s = Some s'"
    and S: "mp_pcs s i = R_Again meta l \<or> mp_pcs s i = R_Cas meta l"
  shows "mp_effect c (mp_moment (sent s ! taken s) (mp_pcs s i) (mp_pcs s' i)) s s'"
  using S
proof
  assume pc: "mp_pcs s i = R_Again meta l"
  then have s': "s' = mp_goto i (mp_pcs s' i) s" using A by auto
  have "mp_pcs s' i = R_End (Err TryRecvError) \<or> mp_moment (sent s ! taken s) (mp_pcs s i) (mp_pcs s' i) = []"
    using A pc by (auto simp: outcome_pc_def split: outcome.splits if_splits)
  then have "serve_run (serve False True c)
      (points (map (Pair 0) (mp_moment (sent s ! taken s) (mp_pcs s i) (mp_pcs s' i)))) (mp_abs s) = Some (mp_abs s)"
    using pc by (auto simp: mp_abs_def)
  then show ?thesis using s' mp_effect_goto by metis
next
  assume pc: "mp_pcs s i = R_Cas meta l"
  have J: "mp_inv c s" using I by (simp add: mp_inv2_def)
  show ?thesis
  proof (cases "mp_read_meta (core s) = meta \<and> \<not> sp")
    case True
    have n: "taken s < length (sent s)" by (rule mp_read_claim(2) [OF J pc conjunct1 [OF True]])
    have s': "sent s' = sent s" "taken s' = Suc (taken s)" "\<exists>x y. mp_pcs s' i = R_Read x y" "mp_closed s' = mp_closed s"
      using A pc True by (auto simp: mp_goto_def on_core_def mp_closed_def)
    then show ?thesis
      using pc n by (auto simp: mp_effect_def mp_abs_def Cons_nth_drop_Suc [symmetric])
  next
    case False
    then have "s' = mp_goto i (R_Top (mp_read_meta (core s))) s" using A pc by auto
    then show ?thesis using pc by (auto intro!: mp_effect_goto)
  qed
qed

lemma mp_effect_close:
  assumes A: "mp_next i sp (mp_pcs s i) s = Some s'" and S: "mp_pcs s i = K_Load \<or> mp_pcs s i = K_Cas meta"
  shows "mp_effect c (mp_moment v (mp_pcs s i) (mp_pcs s' i)) s s'"
  using S
proof
  assume pc: "mp_pcs s i = K_Load"
  show ?thesis
  proof (cases "mp_closed s")
    case True
    then have "s' = mp_goto i K_End s" using A pc by (simp add: mp_closed_def)
    then show ?thesis using pc True by (auto simp: mp_abs_def intro!: mp_effect_goto)
  next
    case False
    then have "s' = mp_goto i (K_Cas (mp_write_meta (core s))) s" using A pc by (simp add: mp_closed_def)
    then show ?thesis using pc by (auto intro!: mp_effect_goto)
  qed
next
  assume pc: "mp_pcs s i = K_Cas meta"
  show ?thesis
  proof (cases "mp_write_meta (core s) = meta \<and> \<not> sp")
    case True
    then have s': "mp_pcs s' i = K_Wake" "sent s' = sent s" "taken s' = taken s"
      "mp_write_meta (core s') = meta OR MPMC_MASK_64"
      using A pc by (auto simp: mp_goto_def on_core_def)
    have "bit (MPMC_MASK_64 :: u64) 63" by (simp add: MPMC_MASK_64_def bit_push_bit_iff)
    then have "mp_closed s'" using s'(4) by (simp add: mp_closed_bit bit_or_iff)
    then show ?thesis using pc s' by (simp add: mp_effect_def mp_abs_def)
  next
    case False
    then have "s' = mp_goto i (K_Cas (mp_write_meta (core s))) s" using A pc by auto
    then show ?thesis using pc by (auto intro!: mp_effect_goto)
  qed
qed

text \<open>The other steps.\<close>

lemma mp_effect_rest:
  assumes I: "mp_inv2 c s" and A: "mp_next i sp (mp_pcs s i) s = Some s'" and E: "mp_moment v (mp_pcs s i) (mp_pcs s' i) = xs"
    and S: "\<And>meta m. mp_pcs s i \<noteq> S_Top meta m" "\<And>meta l m. mp_pcs s i \<noteq> S_Again meta l m"
      "\<And>meta l m. mp_pcs s i \<noteq> S_Cas meta l m" "\<And>meta l. mp_pcs s i \<noteq> R_Again meta l"
      "\<And>meta l. mp_pcs s i \<noteq> R_Cas meta l" "mp_pcs s i \<noteq> K_Load" "\<And>meta. mp_pcs s i \<noteq> K_Cas meta"
  shows "mp_effect c xs s s'"
proof -
  have J: "mp_inv c s" using I by (simp add: mp_inv2_def)
  have "sent s' = sent s \<and> taken s' = taken s \<and> mp_closed s' = mp_closed s"
    using A S wake_nobody [OF mp_invD(2) [OF J]]
    by (cases "mp_pcs s i") (auto simp: mp_goto_def on_core_def mp_closed_def split: if_splits option.splits)
  then have "mp_abs s' = mp_abs s" by (intro mp_abs_same) simp_all
  moreover have "points (map (Pair 0) xs) = []" using E S by (cases "mp_pcs s i") auto
  ultimately show ?thesis by (simp add: mp_effect_def)
qed

lemma mp_effect_next:
  assumes I: "mp_inv2 c s" and A: "mp_next i sp (mp_pcs s i) s = Some s'"
  shows "mp_effect c (mp_moment (sent s ! taken s) (mp_pcs s i) (mp_pcs s' i)) s s'"
proof -
  have J: "mp_inv c s" using I by (simp add: mp_inv2_def)
  have N: "mp_pcs s' i \<noteq> Dead" using mp_invD(4) [OF mp_inv_next [OF J A], of i] by auto
  consider "\<exists>m meta l. mp_pcs s i = S_Top meta m \<or> mp_pcs s i = S_Again meta l m \<or> mp_pcs s i = S_Cas meta l m"
    | meta l where "mp_pcs s i = R_Again meta l \<or> mp_pcs s i = R_Cas meta l"
    | meta where "mp_pcs s i = K_Load \<or> mp_pcs s i = K_Cas meta"
    | "\<nexists>m meta l. mp_pcs s i = S_Top meta m \<or> mp_pcs s i = S_Again meta l m \<or> mp_pcs s i = S_Cas meta l m"
      "\<nexists>meta l. mp_pcs s i = R_Again meta l \<or> mp_pcs s i = R_Cas meta l"
      "\<nexists>meta. mp_pcs s i = K_Load \<or> mp_pcs s i = K_Cas meta" by blast
  then show ?thesis
  proof cases
    case 1
    then show ?thesis by (rule mp_effect_send [OF I A _ N])
  next
    case 2
    then show ?thesis by (rule mp_effect_recv [OF I A])
  next
    case 3
    then show ?thesis by (rule mp_effect_close [OF A])
  next
    case 4
    then show ?thesis by (intro mp_effect_rest [OF I A refl]) blast+
  qed
qed

lemma mp_effect_act:
  assumes I: "mp_inv2 c s" and A: "mp_act i a s = Some s'"
  shows "mp_inv2 c s' \<and> mp_effect c (mp_moments i a s s') s s'"
proof -
  have J: "mp_inv c s" "seen_ok s" using I by (simp_all add: mp_inv2_def)
  show ?thesis
  proof (cases a)
    case (Step sp)
    then have N: "mp_next i sp (mp_pcs s i) s = Some s'" using A by simp
    show ?thesis
      using Step mp_effect_next [OF I N] mp_inv_next [OF J(1) N] seen_next [OF J(1) N J(2)]
      by (simp add: mp_inv2_def)
  qed (use A J in \<open>auto simp: mp_inv2_def intro!: mp_effect_goto mp_inv_move seen_goto split: if_splits\<close>)
qed

section \<open>The phases\<close>

lemma mp_own_phase:
  assumes I: "mp_inv c s" "mp_inv c s'" and A: "mp_act i a s = Some s'"
  shows "run_phases (mp_phase (core s) (sent s) (mp_pcs s i)) (mp_moments i a s s') =
    Some (mp_phase (core s') (sent s') (mp_pcs s' i))"
proof -
  have N: "mp_pcs s' i \<noteq> Dead" using mp_invD(4) [OF I(2), of i] by auto
  show ?thesis
  proof (cases a)
    case (Step sp)
    then have A': "mp_next i sp (mp_pcs s i) s = Some s'" using A by simp
    show ?thesis
    proof (cases "mp_pcs s i")
      case (R_Cas meta l)
      show ?thesis
      proof (cases "mp_read_meta (core s) = meta \<and> \<not> sp")
        case True
        note R = mp_read_claim [OF I(1) R_Cas conjunct1 [OF True]]
        have "mp_pcs s' i = R_Read (unat (meta_idx meta)) l" "sent s' = sent s" "capacity (core s') = capacity (core s)"
          using A' R_Cas True by (auto simp: mp_goto_def on_core_def)
        then show ?thesis using Step R_Cas R by (simp add: ticket_def)
      next
        case False
        then show ?thesis using A' Step R_Cas by (auto simp: mp_goto_def)
      qed
    next
      case (R_Read idx l)
      then show ?thesis
        using A' Step read_ticket_bound(2) [OF I(1) R_Read] by (auto simp: mp_goto_def)
    qed (use A' Step N wake_nobody [OF mp_invD(2) [OF I(1)]] in \<open>auto simp: mp_goto_def on_core_def outcome_pc_def
        split: if_splits option.splits outcome.splits ordering.splits\<close>)
  qed (use A in \<open>auto split: if_splits\<close>)
qed

interpretation mpmc_points: point_machine mp_act "\<lambda>_ _. True" mp_moments "mp_inv2 c" mp_abs
  "\<lambda>s i. mp_phase (core s) (sent s) (mp_pcs s i)" "serve False True c" for c
proof unfold_locales
  fix s s' :: "'a mp_sys" and a i j
  assume I: "mp_inv2 c s" and A: "mp_act i a s = Some s'"
  note E = mp_effect_act [OF I A]
  have J: "mp_inv c s" "mp_inv c s'" using I E by (simp_all add: mp_inv2_def)
  note F = mp_act_frame [OF J(1) A]
  show "mp_inv2 c s'" using E by blast
  show "run_phases (mp_phase (core s) (sent s) (mp_pcs s i)) (mp_moments i a s s') =
      Some (mp_phase (core s') (sent s') (mp_pcs s' i))"
    by (rule mp_own_phase [OF J A])
  show "mp_phase (core s') (sent s') (mp_pcs s' j) = mp_phase (core s) (sent s) (mp_pcs s j)" if "j \<noteq> i"
  proof -
    have "mp_pcs s' j = mp_pcs s j" using F(1) that by auto
    then show ?thesis using F(3) mp_phase_frame [OF J(1) F(2)] by auto
  qed
  show "serve_run (serve False True c) (points (map (Pair i) (mp_moments i a s s'))) (mp_abs s) = Some (mp_abs s')"
    using E by (subst points_thread [of i _ 0]) (simp add: mp_effect_def)
qed

lemma mp_inv2_new:
  assumes "mpmc_bounded_new n = Ret q"
  shows "mp_inv2 (cap_of n) (mp_sys_new q)" and "mp_abs (mp_sys_new q) = ([], False)"
proof -
  have R: "mp_reach n (mp_sys_new q)" by (rule mp_reach.start [OF assms])
  have "mp_write_meta q = 0" using assms by (auto simp: mpmc_bounded_new_def Let_def split: if_splits)
  then show "mp_inv2 (cap_of n) (mp_sys_new q)" "mp_abs (mp_sys_new q) = ([], False)"
    using mp_inv_reach [OF R] seen_reach [OF R] by (simp_all add: mp_inv2_def) (simp add: mp_abs_def mp_sys_new_def mp_closed_def)
qed

end
