(* ===== verification/Linear_Properties.thy ===== *)
theory Linear_Properties
  imports Steps_Properties Spsc_Linear Mpmc_Linear
begin

text \<open>
  Concurrent calls of the bounded queues as calls made one at a time: the SPSC queue is linearizable,
  the MPMC queue is up to calls that fail without a reason, and only up to them.
\<close>

section \<open>Moments and calls\<close>

lemma point_called: "run_phases ph xs \<noteq> None \<Longrightarrow> Point x a \<in> set xs \<Longrightarrow> Call x \<in> set xs \<or> ph = Called x"
proof (induction xs arbitrary: ph)
  case (Cons y ys)
  then obtain ph' where p: "phase_next ph y = Some ph'" "run_phases ph' ys \<noteq> None" by (auto split: option.splits)
  then show ?case
    using Cons by (cases "(ph, y)" rule: phase_next.cases) (auto split: if_splits)
qed simp

lemma of_thread_set: "x \<in> set (of_thread i H) \<longleftrightarrow> (i, x) \<in> set H"
  by (force simp: of_thread_def)

lemma points_set: "(x, a) \<in> set (points H) \<longleftrightarrow> (\<exists>i. (i, Point x a) \<in> set H)"
  by (induction H rule: points.induct) auto

lemma visible_set: "(i, x) \<in> set (visible H) \<longleftrightarrow> (i, x) \<in> set H \<and> \<not> is_point x"
  by (auto simp: visible_def)

lemma history_point_called:
  assumes "\<forall>i. run_phases Between (of_thread i L) \<noteq> None" and "(i, Point x a) \<in> set L"
  shows "(i, Call x) \<in> set (visible L)"
  using point_called [of Between "of_thread i L" x a] assms by (simp add: of_thread_set visible_set)

text \<open>Without \<^verbatim>\<open>close\<close> there are no late sends.\<close>

lemma linearizable_open:
  assumes "linearizable (serve late weak c) H" and "\<forall>i. (i, Call Close_Queue) \<notin> set H"
  shows "linearizable (serve False weak c) H"
proof -
  obtain L where L: "visible L = H" "\<forall>i. run_phases Between (of_thread i L) \<noteq> None"
      "serve_run (serve late weak c) (points L) ([], False) \<noteq> None"
    using assms(1) unfolding linearizable_def by blast
  have "Close_Queue \<notin> fst ` set (points L)"
    using history_point_called [OF L(2)] assms(2) L(1) by (force simp: points_set)
  then show ?thesis using serve_run_late [of late weak c "points L" "[]"] L unfolding linearizable_def by blast
qed

section \<open>The SPSC queue\<close>

text \<open>
  C6: the SPSC queue is linearizable while one thread at a time sends and one receives: however the
  accesses of \<^verbatim>\<open>try_send\<close>, \<^verbatim>\<open>try_recv\<close> and \<^verbatim>\<open>close\<close> interleave, every call takes effect at
  one moment between its invocation and its return, and in the order of these moments the answers,
  the refusals included, are those of a list of at most \<open>c\<close> messages; a send that was under way
  when the queue was closed may still be served. If nobody closes the queue the answers are exactly
  those of \<^term>\<open>fifo_step\<close>.
\<close>

theorem spsc_linearizable:
  assumes "spsc_bounded_new n = Ret q"
    and "moments_run sp_act one_each sp_moments as (sp_sys_new q) = Some (s, H)"
  shows "linearizable (serve True False (unat (if n > 0 then n else 1))) (visible H) \<and>
    ((\<forall>i. (i, Call Close_Queue) \<notin> set (visible H)) \<longrightarrow>
      linearizable (serve False False (unat (if n > 0 then n else 1))) (visible H))"
proof -
  have "linearizable (serve True False (unat (if n > 0 then n else 1))) (visible H)"
    by (rule spsc_points.moments_linearizable [OF assms(2) sp_inv2_new [OF assms(1)]]) (simp add: sp_sys_new_def)
  then show ?thesis using linearizable_open by blast
qed

text \<open>The receiver finds the queue empty while the sender has claimed its bucket, and calls again.\<close>

definition spsc_overlap :: "(nat \<times> nat sp_action) list" where
  "spsc_overlap = [(0, Do_Send 7), on 0, on 0, on 0, on 0, (1, Do_Recv), on 1, on 1, on 1, on 1, on 0, on 0, on 0, on 0,
     (1, Do_Recv), on 1, on 1, on 1, on 1, on 1, on 1, on 1]"

definition spsc_core :: "nat spsc_bounded" where
  "spsc_core = \<lparr>stack = Map.empty, woken = [], buffer = [elem_default, elem_default], capacity = 2,
     read_waker = waker_default, write_waker = waker_default, read_meta = push_bit 32 1, write_meta = 0,
     closed_flag = False\<rparr>"

lemma spsc_overlap_run:
  "\<exists>s H. moments_run sp_act one_each sp_moments spsc_overlap (sp_sys_new spsc_core) = Some (s, H) \<and>
    visible H = [(0, Call (Try_Send 7)), (1, Call Try_Recv), (1, Return (Received (Err TryRecvError))),
      (0, Return (Sent (Ok ()))), (1, Call Try_Recv), (1, Return (Received (Ok 7)))]"
  unfolding spsc_overlap_def spsc_core_def by (simp add: spsc_eval visible_def)

theorem spsc_linearizable_witness:
  "\<exists>s H. moments_run sp_act one_each sp_moments spsc_overlap (sp_sys_new spsc_core) = Some (s, H) \<and>
    linearizable (serve False False 2) (visible H) \<and> (1, Return (Received (Err TryRecvError))) \<in> set (visible H)"
proof -
  have two: "replicate 2 e = [e, e]" for e :: "nat elem" by (simp add: numeral_2_eq_2)
  have q: "spsc_bounded_new 2 = Ret spsc_core" by (simp add: spsc_bounded_new_def spsc_core_def two)
  obtain s H where r: "moments_run sp_act one_each sp_moments spsc_overlap (sp_sys_new spsc_core) = Some (s, H)"
    and v: "visible H = [(0, Call (Try_Send 7)), (1, Call Try_Recv), (1, Return (Received (Err TryRecvError))),
      (0, Return (Sent (Ok ()))), (1, Call Try_Recv), (1, Return (Received (Ok 7)))]"
    using spsc_overlap_run by blast
  have "\<forall>i. (i, Call Close_Queue) \<notin> set (visible H)" by (simp add: v)
  then have "linearizable (serve False False (unat (2 :: u32))) (visible H)"
    using spsc_linearizable [OF q r] by simp
  then show ?thesis using r v by auto
qed

section \<open>The MPMC queue\<close>

text \<open>
  C5: in every interleaving of the accesses of any number of threads the calls of the MPMC queue
  take effect one at a time, between their invocation and their return, as calls of a list of at
  most \<open>c\<close> messages, except that \<^verbatim>\<open>Full\<close> and \<^verbatim>\<open>TryRecvError\<close> may be answered without a
  reason: messages that are sent are received in the order in which they were sent, no send
  succeeds without room or after \<^verbatim>\<open>close\<close>, and none is refused as disconnected before it.
\<close>

theorem mpmc_linearizable:
  assumes "mpmc_bounded_new n = Ret q"
    and "moments_run mp_act (\<lambda>_ _. True) mp_moments as (mp_sys_new q) = Some (s, H)"
  shows "linearizable (serve False True (unat (if n > 0 then n else 1))) (visible H)"
  by (rule mpmc_points.moments_linearizable [OF assms(2) mp_inv2_new [OF assms(1)]]) (simp add: mp_sys_new_def)

text \<open>
  A sender stops after it has claimed the first bucket; another thread sends, and then receives.
\<close>

definition mpmc_stalled :: "(nat \<times> nat mp_action) list" where
  "mpmc_stalled = [(0, Call_Send 7), go 0, go 0, go 0, (1, Call_Send 8), go 1, go 1, go 1, go 1, go 1, go 1, go 1,
     (1, Call_Recv), go 1, go 1, go 1, go 1]"

definition mpmc_core :: "nat mpmc_bounded" where
  "mpmc_core = \<lparr>stack = Map.empty, woken = [], buffer = [elem_default, elem_default], capacity = 2,
     read_waker = waker_default, write_waker = waker_default, mp_read_meta = push_bit 32 1, mp_write_meta = 0\<rparr>"

definition stalled_history :: "nat history" where
  "stalled_history = [(0, Call (Try_Send 7)), (1, Call (Try_Send 8)), (1, Return (Sent (Ok ()))),
     (1, Call Try_Recv), (1, Return (Received (Err TryRecvError)))]"

lemma mpmc_core_new: "mpmc_bounded_new 2 = Ret mpmc_core"
proof -
  have two: "replicate 2 e = [e, e]" for e :: "nat elem" by (simp add: numeral_2_eq_2)
  show ?thesis by (simp add: mpmc_bounded_new_def mpmc_core_def two)
qed

lemma mpmc_stalled_run:
  "\<exists>s H. moments_run mp_act (\<lambda>_ _. True) mp_moments mpmc_stalled (mp_sys_new mpmc_core) = Some (s, H) \<and>
    visible H = stalled_history"
  unfolding mpmc_stalled_def mpmc_core_def stalled_history_def by (simp add: demo_eval visible_def)

theorem mpmc_linearizable_witness:
  "\<exists>s H. moments_run mp_act (\<lambda>_ _. True) mp_moments mpmc_stalled (mp_sys_new mpmc_core) = Some (s, H) \<and>
    visible H = stalled_history \<and> linearizable (serve False True 2) (visible H)"
proof -
  obtain s H where r: "moments_run mp_act (\<lambda>_ _. True) mp_moments mpmc_stalled (mp_sys_new mpmc_core) = Some (s, H)"
    and v: "visible H = stalled_history" using mpmc_stalled_run by blast
  have "linearizable (serve False True (unat (2 :: u32))) (visible H)"
    using mpmc_linearizable [OF mpmc_core_new r] by simp
  then show ?thesis using r v by auto
qed

section \<open>A history that no list explains\<close>

definition outside :: "'a moment list \<Rightarrow> 'a moment list" where
  "outside xs = filter (\<lambda>x. \<not> is_point x) xs"

lemma outside_thread: "outside (of_thread i L) = of_thread i (visible L)"
  by (simp add: outside_def of_thread_def visible_def filter_map comp_def conj_commute)

text \<open>A call that has returned has taken effect in between, with the answer that it returned.\<close>

lemma outside_none: "outside xs = [] \<Longrightarrow> run_phases Between xs \<noteq> None \<Longrightarrow> xs = []"
  by (cases xs rule: list.exhaust; cases "hd xs") (auto simp: outside_def)

lemma outside_call:
  assumes "outside xs = Call x # Return a # ys" and "run_phases Between xs \<noteq> None"
  shows "\<exists>zs. xs = Call x # Point x a # Return a # zs \<and> outside zs = ys \<and> run_phases Between zs \<noteq> None"
proof -
  obtain u us where 1: "xs = u # us" using assms(1) by (cases xs) (simp_all add: outside_def)
  then have u: "u = Call x" "run_phases (Called x) us \<noteq> None" "outside us = Return a # ys"
    using assms by (cases u; auto simp: outside_def)+
  obtain v vs where 2: "us = v # vs" using u(3) by (cases us) (simp_all add: outside_def)
  then obtain b where v: "v = Point x b" "run_phases (Done b) vs \<noteq> None" "outside vs = Return a # ys"
    using u(2,3) by (cases v) (auto simp: outside_def split: if_splits)
  obtain w ws where 3: "vs = w # ws" using v(3) by (cases vs) (simp_all add: outside_def)
  then have "w = Return a" "b = a" "run_phases Between ws \<noteq> None" "outside ws = ys"
    using v(2,3) by (cases w; auto simp: outside_def split: if_splits)+
  then show ?thesis using 1 2 3 u(1) v(1) by blast
qed

lemma of_thread_split:
  assumes "of_thread i L = x # xs"
  shows "\<exists>as bs. L = as @ (i, x) # bs \<and> (\<forall>y \<in> set as. fst y \<noteq> i) \<and> of_thread i bs = xs"
proof -
  obtain z zs where z: "filter (\<lambda>y. fst y = i) L = z # zs" "x = snd z" "xs = map snd zs"
    using assms by (auto simp: of_thread_def map_eq_Cons_conv)
  then obtain as bs where "L = as @ z # bs" "\<forall>y \<in> set as. fst y \<noteq> i" "fst z = i" "zs = filter (\<lambda>y. fst y = i) bs"
    by (auto simp: filter_eq_Cons_iff)
  then show ?thesis using z(2,3) by (intro exI [of _ as] exI [of _ bs]) (auto simp: of_thread_def)
qed

text \<open>A list that has served a send is not empty before something is received.\<close>

lemma serve_run_grows:
  assumes "serve_run (serve late False c) xs (ms, b) = Some (ms', b')" and "ms \<noteq> []"
    and "\<forall>(x, a) \<in> set xs. x \<noteq> Try_Recv"
  shows "ms' \<noteq> []"
  using assms
proof (induction xs arbitrary: ms b)
  case (Cons y ys)
  obtain x a where y: "y = (x, a)" by fastforce
  obtain ms1 b1 where 1: "serve late False c x a (ms, b) = Some (ms1, b1)"
      "serve_run (serve late False c) ys (ms1, b1) = Some (ms', b')"
    using Cons.prems(1) y by (auto split: option.splits)
  have "x \<noteq> Try_Recv" using Cons.prems(3) y by simp
  then have "ms1 \<noteq> []"
    using 1(1) Cons.prems(2)
    by (cases "(late, False, c, x, a, (ms, b))" rule: serve.cases) (auto split: if_splits)
  then show ?case using Cons.IH [OF 1(2)] Cons.prems(3) by simp
qed simp

lemma no_empty_after_send:
  assumes "\<forall>(x, a) \<in> set ys. x \<noteq> Try_Recv"
  shows "serve_run (serve late False c)
    (xs @ (Try_Send m, Sent (Ok u)) # ys @ (Try_Recv, Received (Err e)) # zs) st = None"
proof (rule ccontr)
  assume "\<not> ?thesis"
  then obtain ms b ms1 b1 where
    1: "serve late False c (Try_Send m) (Sent (Ok u)) (ms, b) = Some (ms1, b1)" and
    2: "serve_run (serve late False c) (ys @ (Try_Recv, Received (Err e)) # zs) (ms1, b1) \<noteq> None"
    by (auto simp: serve_run_append split: option.splits if_splits)
  from 2 obtain ms2 b2 where 3: "serve_run (serve late False c) ys (ms1, b1) = Some (ms2, b2)"
      "serve late False c Try_Recv (Received (Err e)) (ms2, b2) \<noteq> None"
    by (fastforce simp: serve_run_append split: option.splits)
  have "ms1 \<noteq> []" using 1 by (auto split: if_splits)
  then have "ms2 \<noteq> []" by (rule serve_run_grows [OF 3(1) _ assms])
  then show False using 3(2) by simp
qed

lemma stalled_not_linearizable: "\<not> linearizable (serve late False c) stalled_history"
proof
  assume "linearizable (serve late False c) stalled_history"
  then obtain L where L: "visible L = stalled_history" "\<forall>i. run_phases Between (of_thread i L) \<noteq> None"
      "serve_run (serve late False c) (points L) ([], False) \<noteq> None"
    unfolding linearizable_def by blast
  let ?s = "Try_Send (8 :: nat)" and ?ok = "Sent (Ok ())" and ?no = "Received (Err TryRecvError) :: nat answer"
  have o: "outside (of_thread 1 L) = [Call ?s, Return ?ok, Call Try_Recv, Return ?no]"
    unfolding outside_thread L(1) by (simp add: stalled_history_def of_thread_def)
  from outside_call [OF o] L(2) obtain zs where z: "of_thread 1 L = Call ?s # Point ?s ?ok # Return ?ok # zs"
      "outside zs = [Call Try_Recv, Return ?no]" "run_phases Between zs \<noteq> None" by blast
  from outside_call [OF z(2,3)] obtain ws where w: "zs = Call Try_Recv # Point Try_Recv ?no # Return ?no # ws"
    by blast
  from of_thread_split [OF z(1)] obtain a1 r1 where 1: "L = a1 @ (1, Call ?s) # r1"
      "of_thread 1 r1 = Point ?s ?ok # Return ?ok # zs" by blast
  from of_thread_split [OF 1(2)] obtain a2 r2 where 2: "r1 = a2 @ (1, Point ?s ?ok) # r2"
      "of_thread 1 r2 = Return ?ok # zs" by blast
  from of_thread_split [OF 2(2)] obtain a3 r3 where 3: "r2 = a3 @ (1, Return ?ok) # r3"
      "\<forall>y \<in> set a3. fst y \<noteq> 1" "of_thread 1 r3 = Call Try_Recv # Point Try_Recv ?no # Return ?no # ws"
    unfolding w by blast
  from of_thread_split [OF 3(3)] obtain a4 r4 where 4: "r3 = a4 @ (1, Call Try_Recv) # r4"
      "\<forall>y \<in> set a4. fst y \<noteq> 1" "of_thread 1 r4 = Point Try_Recv ?no # Return ?no # ws" by blast
  from of_thread_split [OF 4(3)] obtain a5 r5 where 5: "r4 = a5 @ (1, Point Try_Recv ?no) # r5"
      "\<forall>y \<in> set a5. fst y \<noteq> 1" by blast
  have own: "x \<noteq> Try_Recv" if "(i, Point x a) \<in> set L" "i \<noteq> 1" for i x a
    using history_point_called [OF L(2) that(1)] that(2) unfolding L(1) by (auto simp: stalled_history_def)
  let ?B = "points (a3 @ a4 @ a5)"
  have "\<forall>(x, a) \<in> set ?B. x \<noteq> Try_Recv"
  proof (intro ballI, clarify)
    fix x a assume "(Try_Recv, a) \<in> set ?B"
    then obtain i where i: "(i, Point Try_Recv a) \<in> set (a3 @ a4 @ a5)" by (auto simp: points_set)
    then have "i \<noteq> 1" using 3(2) 4(2) 5(2) by auto
    moreover have "(i, Point Try_Recv a) \<in> set L" using i by (auto simp: 1(1) 2(1) 3(1) 4(1) 5(1))
    ultimately show False using own by blast
  qed
  then have "serve_run (serve late False c)
      (points (a1 @ a2) @ (?s, ?ok) # ?B @ (Try_Recv, ?no) # points r5) ([], False) = None"
    by (rule no_empty_after_send)
  moreover have "points L = points (a1 @ a2) @ (?s, ?ok) # ?B @ (Try_Recv, ?no) # points r5"
    by (simp add: 1(1) 2(1) 3(1) 4(1) 5(1) points_append)
  ultimately show False using L(3) by simp
qed

text \<open>
  C25: the MPMC queue is not linearizable without that tolerance, although nobody closes it and
  nothing else is received: a thread sends a message, is answered \<^verbatim>\<open>Ok\<close>, calls \<^verbatim>\<open>try_recv\<close> and is
  told that the queue is empty, because another sender stopped between its claim of the bucket
  before and its store.
\<close>

theorem mpmc_not_linearizable:
  "\<exists>q s H. mpmc_bounded_new 2 = Ret q \<and>
    moments_run mp_act (\<lambda>_ _. True) mp_moments mpmc_stalled (mp_sys_new q) = Some (s, H) \<and>
    of_thread 1 (visible H) = [Call (Try_Send 8), Return (Sent (Ok ())), Call Try_Recv, Return (Received (Err TryRecvError))] \<and>
    (\<forall>late c. \<not> linearizable (serve late False c) (visible H))"
proof -
  obtain s H where r: "moments_run mp_act (\<lambda>_ _. True) mp_moments mpmc_stalled (mp_sys_new mpmc_core) = Some (s, H)"
    and v: "visible H = stalled_history" using mpmc_stalled_run by blast
  have "of_thread 1 (visible H) = [Call (Try_Send 8), Return (Sent (Ok ())), Call Try_Recv, Return (Received (Err TryRecvError))]"
    by (simp add: v stalled_history_def of_thread_def)
  then show ?thesis using mpmc_core_new r v stalled_not_linearizable by metis
qed

end
