(* ===== verification/Unbounded_Properties.thy ===== *)
theory Unbounded_Properties
  imports Channel
begin

text \<open>
  The properties of the unbounded queues, over the public constructors and methods. They rest on
  the facts of the contract \<^verbatim>\<open>unbounded_contract\<close> and of the chains of nodes.
\<close>

section \<open>A list without a bound\<close>

lemma spsc_usender_eta: "spsc_usender_send triv = spsc_unb_send triv" "spsc_ureceiver_recv triv = spsc_unb_recv triv"
  by (simp_all add: fun_eq_iff spsc_channel_defs)

lemma mpmc_usender_eta: "mpmc_usender_send triv = mpmc_unb_send triv" "mpmc_ureceiver_recv triv = mpmc_unb_recv triv"
  by (simp_all add: fun_eq_iff mpmc_channel_defs)

lemma spsc_unb_run_new:
  assumes "length xs < 2 ^ 40" and "live rt 0" and "\<And>k. \<not> spurious rt k"
  shows "\<exists>u. spsc_unbounded_channel = Ret u \<and>
    (case list_run [] xs of
       None \<Rightarrow> diverges (unb_run (spsc_usender_send triv) (spsc_ureceiver_recv triv) rt w (0, u) xs)
     | Some (ms, as) \<Rightarrow>
         \<exists>k' u'. unb_run (spsc_usender_send triv) (spsc_ureceiver_recv triv) rt w (0, u) xs = ret ((k', u'), as))"
proof -
  obtain u :: "'a spsc_unbounded" where u: "spsc_unbounded_default = Ret u" "unb_rel (spsc_cur ()) 0 [] u"
    using spsc_unbounded_default_ok by blast
  have B: "in_budget 1024 (0 + length xs)" using assms(1) by (simp add: in_budget_iff)
  have q: "quiet rt \<and> (\<forall>k. \<not> spurious rt k)"
    using assms(2,3) unfolding live_def quiet_def by blast
  from spsc_unbounded.unb_run_refines [OF u(2) B q assms(2), of triv w 0] u(1) show ?thesis
    unfolding spsc_usender_eta by (fastforce simp: spsc_channel_defs split: option.splits)
qed

text \<open>
  C4: a new unbounded SPSC queue, used by one thread at a time and with an exchange that does not
  fail spuriously, answers every sequence of fewer than \<open>2^40\<close> sends and receives as a list does:
  every send succeeds, the messages come out in order across the nodes, and a receive on the empty
  queue waits for ever; with or without a destructor of the message type.
\<close>

theorem spsc_unbounded_fifo:
  assumes "length xs < 2 ^ 40" and "live rt 0" and "\<And>k. \<not> spurious rt k"
  shows "\<exists>u. spsc_unbounded_channel = Ret u \<and>
    (case list_run [] xs of
       None \<Rightarrow> diverges (unb_run (spsc_usender_send triv) (spsc_ureceiver_recv triv) rt w (0, u) xs)
     | Some (ms, as) \<Rightarrow>
         \<exists>k' u'. unb_run (spsc_usender_send triv) (spsc_ureceiver_recv triv) rt w (0, u) xs = ret ((k', u'), as))"
  by (rule spsc_unb_run_new [OF assms])

theorem spsc_unbounded_fifo_witness:
  "\<exists>u k u'. spsc_unbounded_channel = Ret u \<and>
     unb_run (spsc_usender_send False) (spsc_ureceiver_recv False) solo 0 (0, u)
       [Send (1 :: nat), Send 2, Recv, Send 3, Recv, Recv] =
     ret ((k, u'), [Sent_To (Ok ()), Sent_To (Ok ()), Received_From (Ok 1), Sent_To (Ok ()),
       Received_From (Ok 2), Received_From (Ok 3)])"
proof -
  have "length [Send (1 :: nat), Send 2, Recv, Send 3, Recv, Recv] < 2 ^ 40" by simp
  from spsc_unbounded_fifo [OF this live_solo, of False 0] show ?thesis by simp
qed

lemma mpmc_unb_run_new:
  assumes "length xs < 2 ^ 40" and "live rt 0"
  shows "\<exists>u. mpmc_unbounded_channel = Ret u \<and>
    (case list_run [] xs of
       None \<Rightarrow> diverges (unb_run (mpmc_usender_send True) (mpmc_ureceiver_recv True) rt w (0, u) xs)
     | Some (ms, as) \<Rightarrow>
         \<exists>k' u'. unb_run (mpmc_usender_send True) (mpmc_ureceiver_recv True) rt w (0, u) xs = ret ((k', u'), as))"
proof -
  obtain u :: "'a mpmc_unbounded" where u: "mpmc_unbounded_default = Ret u" "unb_rel (mpmc_cur ()) 0 [] u"
    using mpmc_unbounded_default_ok by blast
  have B: "in_budget 1024 (0 + length xs)" using assms(1) by (simp add: in_budget_iff)
  have q: "quiet rt"
    using assms(2) unfolding live_def quiet_def by blast
  from mpmc_unbounded.unb_run_refines [OF u(2) B q assms(2), of w 0] u(1) show ?thesis
    unfolding mpmc_usender_eta by (fastforce simp: mpmc_channel_defs split: option.splits)
qed

text \<open>
  C3: a new unbounded MPMC queue whose message type has no destructor, used by one thread at a
  time and with spurious failures of the exchange, answers every sequence of fewer than \<open>2^40\<close> sends
  and receives as a list without a bound does; a receive that the list cannot answer does not return.
\<close>

theorem mpmc_unbounded_fifo:
  assumes "length xs < 2 ^ 40" and "live rt 0"
  shows "\<exists>u. mpmc_unbounded_channel = Ret u \<and>
    (case list_run [] xs of
       None \<Rightarrow> diverges (unb_run (mpmc_usender_send True) (mpmc_ureceiver_recv True) rt w (0, u) xs)
     | Some (ms, as) \<Rightarrow>
         \<exists>k' u'. unb_run (mpmc_usender_send True) (mpmc_ureceiver_recv True) rt w (0, u) xs = ret ((k', u'), as))"
  by (rule mpmc_unb_run_new [OF assms])

theorem mpmc_unbounded_fifo_witness:
  "\<exists>u k u'. mpmc_unbounded_channel = Ret u \<and>
     unb_run (mpmc_usender_send True) (mpmc_ureceiver_recv True) solo 0 (0, u)
       [Send (1 :: nat), Send 2, Recv, Send 3, Recv, Recv] =
     ret ((k, u'), [Sent_To (Ok ()), Sent_To (Ok ()), Received_From (Ok 1), Sent_To (Ok ()),
       Received_From (Ok 2), Received_From (Ok 3)])"
proof -
  have "length [Send (1 :: nat), Send 2, Recv, Send 3, Recv, Recv] < 2 ^ 40" by simp
  from mpmc_unbounded_fifo [OF this live_solo, of 0] show ?thesis by simp
qed

section \<open>Closing\<close>

lemma spsc_unbounded_new:
  obtains u :: "'a spsc_unbounded" where "spsc_unbounded_channel = Ret u" "chain (spsc_cur ()) 0 u [] (0, 0, 0, [])"
  using spsc_unbounded_default_ok unfolding spsc_unbounded_channel_def by blast

lemma mpmc_unbounded_new:
  obtains u :: "'a mpmc_unbounded" where "mpmc_unbounded_channel = Ret u" "chain (mpmc_cur ()) 0 u [] (0, 0, 0, [])"
  using mpmc_unbounded_default_ok unfolding mpmc_unbounded_channel_def by blast

lemma unbounded_budget: "length ms < 2 ^ 40 \<Longrightarrow> in_budget 1024 (length ms)"
  by (simp add: in_budget_iff)

lemma spsc_calm_rt: "live rt 0 \<Longrightarrow> (\<And>k. \<not> spurious rt k) \<Longrightarrow> quiet rt \<and> (\<forall>k. \<not> spurious rt k)"
  unfolding live_def quiet_def by blast

text \<open>
  Messages sent to a new SPSC queue, \<^verbatim>\<open>close\<close>, then \<^term>\<open>j\<close> receives: the receives
  deliver the first 1024 messages in order and then report the closed queue. Of at most 1024
  messages none is lost; of more, all those beyond the first node are.
\<close>

theorem spsc_close_drains:
  assumes "length ms < 2 ^ 40" and "live rt 0" and "\<And>k. \<not> spurious rt k"
  shows "\<exists>u k1 u1 k2 u2 k3 u3. spsc_unbounded_channel = Ret u \<and>
    unb_run (spsc_usender_send triv) (spsc_ureceiver_recv triv) rt w (0, u) (map Send ms) =
      ret ((k1, u1), replicate (length ms) (Sent_To (Ok ()))) \<and>
    spsc_usender_close rt (k1, u1) = ret (k2, u2) \<and>
    unb_run (spsc_usender_send triv) (spsc_ureceiver_recv triv) rt w (k2, u2) (replicate j Recv) =
      ret ((k3, u3), map (Received_From \<circ> Ok) (take j (take 1024 ms)) @
        replicate (j - length (take 1024 ms)) (Received_From (Err RecvError)))"
proof -
  obtain u :: "'a spsc_unbounded" where u: "spsc_unbounded_channel = Ret u" "chain (spsc_cur ()) 0 u [] (0, 0, 0, [])"
    by (rule spsc_unbounded_new)
  from spsc_chain.close_drains_first [OF u(2) unbounded_budget [OF assms(1)]
      spsc_calm_rt [OF assms(2,3)] assms(2), of triv w 0 j] u(1)
  show ?thesis unfolding spsc_usender_eta spsc_usender_close_def by blast
qed

theorem spsc_close_drains_witness:
  "\<exists>u k1 u1 k2 u2 k3 u3. spsc_unbounded_channel = Ret u \<and>
    unb_run (spsc_usender_send False) (spsc_ureceiver_recv False) solo 0 (0, u) (map Send [5, 6 :: nat]) =
      ret ((k1, u1), [Sent_To (Ok ()), Sent_To (Ok ())]) \<and>
    spsc_usender_close solo (k1, u1) = ret (k2, u2) \<and>
    unb_run (spsc_usender_send False) (spsc_ureceiver_recv False) solo 0 (k2, u2) [Recv, Recv, Recv] =
      ret ((k3, u3), [Received_From (Ok 5), Received_From (Ok 6), Received_From (Err RecvError)])"
proof -
  have "length [5, 6 :: nat] < 2 ^ 40" "\<And>k. \<not> spurious solo k" by simp_all
  from spsc_close_drains [OF this(1) live_solo this(2), of False 0 3] show ?thesis
    by (simp add: numeral_3_eq_3 numeral_2_eq_2)
qed



text \<open>
  Once \<^verbatim>\<open>close\<close> has returned, a send is refused if at most 2048 messages were sent to
  the new queue. If more were sent and the last node has room, the send still succeeds: the
  closing reaches the first two nodes only.
\<close>

theorem mpmc_send_after_close:
  assumes "length ms < 2 ^ 40" and "live rt 0"
  shows "\<exists>u k1 u1 k2 u2 k3 u3. mpmc_unbounded_channel = Ret u \<and>
    unb_run (mpmc_usender_send True) (mpmc_ureceiver_recv True) rt w (0, u) (map Send ms) =
      ret ((k1, u1), replicate (length ms) (Sent_To (Ok ()))) \<and>
    mpmc_ureceiver_close rt (k1, u1) = ret (k2, u2) \<and> u_closed u2 \<and>
    (length ms \<le> 2048 \<longrightarrow> mpmc_usender_send True rt m (k2, u2) = ret ((k3, u3), Err (SendError m))) \<and>
    (2048 < length ms \<and> \<not> 1024 dvd length ms \<longrightarrow> mpmc_usender_send True rt m (k2, u2) = ret ((k3, u3), Ok ()))"
proof -
  obtain u :: "'a mpmc_unbounded" where u: "mpmc_unbounded_channel = Ret u" "chain (mpmc_cur ()) 0 u [] (0, 0, 0, [])"
    by (rule mpmc_unbounded_new)
  have "quiet rt" using assms(2) unfolding live_def quiet_def by blast
  from mpmc_chain.send_after_close [OF u(2) unbounded_budget [OF assms(1)] this assms(2), of w 0 m] u(1)
  show ?thesis unfolding mpmc_usender_eta mpmc_ureceiver_close_def by blast
qed

theorem mpmc_send_after_close_witness:
  "\<exists>u k1 u1 k2 u2 k3 u3. mpmc_unbounded_channel = Ret u \<and>
    unb_run (mpmc_usender_send True) (mpmc_ureceiver_recv True) solo 0 (0, u) (map Send (replicate 2049 (7 :: nat))) =
      ret ((k1, u1), replicate 2049 (Sent_To (Ok ()))) \<and>
    mpmc_ureceiver_close solo (k1, u1) = ret (k2, u2) \<and> u_closed u2 \<and>
    mpmc_usender_send True solo 8 (k2, u2) = ret ((k3, u3), Ok ())"
proof -
  have "length (replicate 2049 (7 :: nat)) < 2 ^ 40" "2048 < length (replicate 2049 (7 :: nat))"
    "\<not> 1024 dvd length (replicate 2049 (7 :: nat))" by (simp_all add: dvd_eq_mod_eq_0)
  with mpmc_send_after_close [OF this(1) live_solo, of 0 8] show ?thesis
    unfolding length_replicate by blast
qed

text \<open>
  A second \<^verbatim>\<open>close\<close> (of the other side, or of a clone) never returns: \<^verbatim>\<open>set_close!\<close>
  waits for a last node without successor.
\<close>

theorem unbounded_close_twice:
  assumes "length ms < 2 ^ 40" and "live rt 0"
  shows "\<exists>u k1 u1 k2 u2. mpmc_unbounded_channel = Ret u \<and>
    unb_run (mpmc_usender_send True) (mpmc_ureceiver_recv True) rt w (0, u) (map Send ms) =
      ret ((k1, u1), replicate (length ms) (Sent_To (Ok ()))) \<and>
    mpmc_usender_close rt (k1, u1) = ret (k2, u2) \<and> diverges (mpmc_ureceiver_close rt (k2, u2))"
proof -
  obtain u :: "'a mpmc_unbounded" where u: "mpmc_unbounded_channel = Ret u" "chain (mpmc_cur ()) 0 u [] (0, 0, 0, [])"
    by (rule mpmc_unbounded_new)
  have "quiet rt" using assms(2) unfolding live_def quiet_def by blast
  from mpmc_chain.close_twice [OF u(2) unbounded_budget [OF assms(1)] this assms(2), of w 0] u(1)
  show ?thesis unfolding mpmc_usender_eta mpmc_ureceiver_close_def mpmc_usender_close_def by blast
qed

theorem unbounded_close_twice_witness:
  "\<exists>u k2 u2. mpmc_unbounded_channel = Ret (u :: nat mpmc_unbounded) \<and>
    mpmc_usender_close solo (0, u) = ret (k2, u2) \<and> diverges (mpmc_ureceiver_close solo (k2, u2))"
proof -
  have "length ([] :: nat list) < 2 ^ 40" by simp
  from unbounded_close_twice [OF this live_solo, of 0] show ?thesis by simp
qed

section \<open>Full nodes\<close>

text \<open>
  An exchange that fails spuriously, as the standard library allows, when the SPSC sender
  finds the last node full: a message type with a destructor leads to undefined behaviour at once
  (the new node is dropped unwritten); otherwise the send reports a closed queue, though nobody
  closed it, and the next send follows a null pointer.
\<close>

theorem spsc_spurious_send:
  assumes "length ms = 1024" and "live rt 0" and "\<And>k. \<not> spurious rt k"
  shows "\<exists>u k1 u1. spsc_unbounded_channel = Ret u \<and>
    unb_run (spsc_usender_send triv) (spsc_ureceiver_recv triv) rt w (0, u) (map Send ms) =
      ret ((k1, u1), replicate 1024 (Sent_To (Ok ()))) \<and>
    (\<forall>rt' m m'. spurious rt' k1 \<longrightarrow>
      (if triv
       then \<exists>u2. spsc_usender_send triv rt' m (k1, u1) = ret ((k1, u2), Err (SendError m)) \<and>
         spsc_usender_send triv rt' m' (k1, u2) = Some Undef
       else spsc_usender_send triv rt' m (k1, u1) = Some Undef))"
proof -
  obtain u :: "'a spsc_unbounded" where u: "spsc_unbounded_channel = Ret u" "chain (spsc_cur ()) 0 u [] (0, 0, 0, [])"
    by (rule spsc_unbounded_new)
  have B: "in_budget 1024 (length ms)" using assms(1) by (simp add: in_budget_iff)
  have "sent_chain [] [] (0, 0, 0, [] :: 'a list)" by (simp add: sent_chain_def contents_def)
  from spsc_chain.send_all [OF u(2) this _ spsc_calm_rt [OF assms(2,3)] assms(2), of ms triv w 0] B
  obtain k1 u1 xs y where
    1: "unb_run (spsc_unb_send triv) (spsc_unb_recv triv) rt w (0, u) (map Send ms) =
        ret ((k1, u1), replicate 1024 (Sent_To (Ok ())))"
      "chain (spsc_cur ()) (length ms) u1 xs y" "sent_chain ms xs y"
    unfolding add_0 append_Nil assms(1) by blast
  obtain p h t ls where y: "y = (p, h, t, ls)" by (metis prod.exhaust)
  have "xs = []" using sent_chain_nodes [OF 1(3)] assms(1) by simp
  with 1(3) y assms(1) have "h = 0" "length ls = 1024" by (auto simp: sent_chain_def contents_def)
  moreover have "length ls = t - h" using node_at_length [OF chainD(2) [OF 1(2) [unfolded y]]] .
  ultimately have "t = h + 1024" by simp
  from spsc_unb_send_spurious [OF 1(2) [unfolded y] this B]
  have S: "if triv then \<exists>u2. spsc_unb_send triv rt' m (k1, u1) = ret ((k1, u2), Err (SendError m)) \<and> u_tail u2 = None
    else spsc_unb_send triv rt' m (k1, u1) = Some Undef" if "spurious rt' k1" for rt' m
    using that .
  show ?thesis
    using u(1) 1(1) S spsc_unb_send_null unfolding spsc_usender_eta by (metis (full_types))
qed

theorem spsc_spurious_send_witness:
  "\<exists>u k1 u1 u2. spsc_unbounded_channel = Ret u \<and>
    unb_run (spsc_usender_send True) (spsc_ureceiver_recv True) solo 0 (0, u) (map Send (replicate 1024 (7 :: nat))) =
      ret ((k1, u1), replicate 1024 (Sent_To (Ok ()))) \<and>
    spsc_usender_send True (solo\<lparr>spurious := (\<lambda>_. True)\<rparr>) 8 (k1, u1) = ret ((k1, u2), Err (SendError 8))"
proof -
  have "length (replicate 1024 (7 :: nat)) = 1024" "\<And>k. \<not> spurious solo k"
    "\<And>k. spurious (solo\<lparr>spurious := (\<lambda>_. True)\<rparr>) k" by simp_all
  with spsc_spurious_send [OF this(1) live_solo this(2), of True 0] show ?thesis by metis
qed

lemma mpmc_fill:
  assumes "chain (mpmc_cur ()) n u [] (p, 0, t, ls)" and "t + length ms \<le> 1024"
    and "in_budget 1024 (n + length ms)" and L: "live rt 0"
  shows "\<exists>k' u'. unb_run (mpmc_unb_send triv) rcv rt w (k, u) (map Send ms) =
      ret ((k', u'), replicate (length ms) (Sent_To (Ok ()))) \<and>
    chain (mpmc_cur ()) (n + length ms) u' [] (p, 0, t + length ms, ls @ ms)"
  using assms(1-3)
proof (induction ms arbitrary: n k u t ls)
  case Nil
  then show ?case by simp
next
  case (Cons m ms)
  have "in_budget 1024 n" "t < 0 + 1024" using Cons.prems(2,3) by (auto intro: in_budget_mono)
  from mpmc_unb_send_open [OF Cons.prems(1) this(2,1) live_later [OF L], of k triv m] obtain k1 u1 where
    1: "mpmc_unb_send triv rt m (k, u) = ret ((k1, u1), Ok ())"
      "chain (mpmc_cur ()) (Suc n) u1 [] (p, 0, Suc t, ls @ [m])" by auto
  from Cons.IH [OF 1(2), of k1] Cons.prems(2,3) 1(1) show ?case by fastforce
qed

text \<open>
  With a message type that has a destructor the MPMC sender that finds a node full, the
  1025th of a new queue, has undefined behaviour: the temporary node that claims the link is
  dropped with a bucket that was never written.
\<close>

theorem mpmc_unbounded_drop:
  assumes "length ms = 1024" and "live rt 0"
  shows "\<exists>u k1 u1. mpmc_unbounded_channel = Ret u \<and>
    unb_run (mpmc_usender_send False) (mpmc_ureceiver_recv False) rt w (0, u) (map Send ms) =
      ret ((k1, u1), replicate 1024 (Sent_To (Ok ()))) \<and>
    mpmc_usender_send False rt m (k1, u1) = Some Undef"
proof -
  obtain u :: "'a mpmc_unbounded" where u: "mpmc_unbounded_channel = Ret u" "chain (mpmc_cur ()) 0 u [] (0, 0, 0, [])"
    by (rule mpmc_unbounded_new)
  have B: "in_budget 1024 (0 + length ms)" "0 + length ms \<le> 1024" using assms(1) by (simp_all add: in_budget_iff)
  from mpmc_fill [OF u(2) B(2,1) assms(2), of False "mpmc_unb_recv False" w 0] assms(1) obtain k1 u1 where
    1: "unb_run (mpmc_unb_send False) (mpmc_unb_recv False) rt w (0, u) (map Send ms) =
        ret ((k1, u1), replicate 1024 (Sent_To (Ok ())))"
      "chain (mpmc_cur ()) 1024 u1 [] (0, 0, 1024, ms)" by auto
  have "in_budget 1024 1024" by (simp add: in_budget_iff)
  from mpmc_unb_send_full_drop [OF 1(2) _ this assms(2), of m k1] u(1) 1(1) show ?thesis
    unfolding mpmc_usender_eta by auto
qed

theorem mpmc_unbounded_drop_witness:
  "\<exists>u k1 u1. mpmc_unbounded_channel = Ret u \<and>
    unb_run (mpmc_usender_send False) (mpmc_ureceiver_recv False) solo 0 (0, u) (map Send (replicate 1024 (7 :: nat))) =
      ret ((k1, u1), replicate 1024 (Sent_To (Ok ()))) \<and>
    mpmc_usender_send False solo 8 (k1, u1) = Some Undef"
  by (rule mpmc_unbounded_drop) simp_all

end
