(* ===== verification/Schedules.thy ===== *)
theory Schedules
  imports Prelude
begin

text \<open>
  Runs of a step function under a schedule, the rule for invariants, and the composition of
  schedules that lead from one set of states to another.
\<close>

fun run_steps :: "('b \<Rightarrow> 's \<Rightarrow> 's option) \<Rightarrow> 'b list \<Rightarrow> 's \<Rightarrow> 's option" where
  "run_steps f [] s = Some s"
| "run_steps f (b # bs) s = (case f b s of Some s' \<Rightarrow> run_steps f bs s' | None \<Rightarrow> None)"

lemma run_steps_append:
  "run_steps f (as @ bs) s = (case run_steps f as s of Some s' \<Rightarrow> run_steps f bs s' | None \<Rightarrow> None)"
  by (induction f as s rule: run_steps.induct) (auto split: option.splits)

lemma run_steps_inv:
  assumes step: "\<And>b s s'. I s \<Longrightarrow> ok b \<Longrightarrow> f b s = Some s' \<Longrightarrow> I s'"
    and "run_steps f bs s = Some s'" and "list_all ok bs" and "I s"
  shows "I s'"
  using assms(2-4)
proof (induction bs arbitrary: s)
  case (Cons b bs)
  then show ?case using step [of s b] by (auto split: option.splits)
qed simp

text \<open>From every state with \<^term>\<open>P\<close> a schedule with \<^term>\<open>ok\<close> steps leads to one with \<^term>\<open>Q\<close>.\<close>

definition leads :: "('b \<Rightarrow> 's \<Rightarrow> 's option) \<Rightarrow> ('b \<Rightarrow> bool) \<Rightarrow> ('s \<Rightarrow> bool) \<Rightarrow> ('s \<Rightarrow> bool) \<Rightarrow> bool" where
  "leads f ok P Q \<longleftrightarrow> (\<forall>s. P s \<longrightarrow> (\<exists>bs s'. run_steps f bs s = Some s' \<and> list_all ok bs \<and> Q s'))"

lemma leadsI:
  assumes "\<And>s. P s \<Longrightarrow> \<exists>s'. run_steps f bs s = Some s' \<and> Q s'" and "list_all ok bs"
  shows "leads f ok P Q"
  using assms unfolding leads_def by blast

lemma leads_mono: "(\<And>b. ok b \<Longrightarrow> ok' b) \<Longrightarrow> leads f ok P Q \<Longrightarrow> leads f ok' P Q"
  unfolding leads_def by (metis list_all_iff)

lemma leads_refl: "leads f ok P P"
  by (rule leadsI [of _ _ "[]"]) simp_all

lemma leads_trans:
  assumes "leads f ok P Q" and "leads f ok Q R"
  shows "leads f ok P R"
  unfolding leads_def
proof (intro allI impI)
  fix s
  assume "P s"
  then obtain as s1 where 1: "run_steps f as s = Some s1" "list_all ok as" "Q s1"
    using assms(1) unfolding leads_def by blast
  then obtain bs s2 where 2: "run_steps f bs s1 = Some s2" "list_all ok bs" "R s2"
    using assms(2) unfolding leads_def by blast
  have "run_steps f (as @ bs) s = Some s2" using 1(1) 2(1) by (simp add: run_steps_append)
  then show "\<exists>bs s'. run_steps f bs s = Some s' \<and> list_all ok bs \<and> R s'"
    using 1(2) 2(2,3) by (metis list_all_append)
qed

lemma leads_fill:
  assumes "\<And>x xs. length xs < k \<Longrightarrow> leads f ok (P xs) (P (xs @ [x]))"
  shows "length xs \<le> k \<Longrightarrow> leads f ok (P []) (P xs)"
proof (induction xs rule: rev_induct)
  case (snoc x xs)
  then show ?case using leads_trans [OF _ assms [of xs x]] by simp
qed (rule leads_refl)

lemma leads_drain:
  assumes "\<And>x xs. leads f ok (P (x # xs)) (P xs)"
  shows "leads f ok (P xs) (P [])"
  by (induction xs) (auto intro: leads_refl leads_trans [OF assms])

end
