(* ===== verification/Spsc_Unbounded_Steps.thy ===== *)
theory Spsc_Unbounded_Steps
  imports Spsc_Unbounded Schedules
begin

text \<open>
  The memory of \<^verbatim>\<open>SpscUnbounded\<close> (\<^verbatim>\<open>src/src/queue/unbounded.rs\<close>) while one thread sends
  and one receives. A call on the bounded queue of a node is one step here, answered as the list
  of \<^verbatim>\<open>Fifo\<close> answers it; the accesses to the pointers of the nodes and of the queue are steps of
  their own, and following a pointer to a node that was freed is undefined behaviour. No exchange
  fails spuriously. The invariant is that of a queue that nobody closes.
\<close>

section \<open>The steps\<close>

record 'a un_node =
  un_ms :: "'a list"
  un_closed :: bool
  un_next :: "nat option"

text \<open>
  A sender before the load of the tail; before \<^verbatim>\<open>try_send\<close> on the node; before it closes the full
  node; before it links a new node; before it sends into the new node; before the store of the tail.
  A receiver before the read of the head; in \<^verbatim>\<open>recv\<close> on the node; before the load of the closed
  flag; at the loads of the successor; before the write of the head; before it frees the drained
  node; in \<^verbatim>\<open>recv\<close> on the successor.
  A closer before it makes its node; in the loop of \<^verbatim>\<open>set_close\<close>, at the load of the tail and at
  the exchange; before it sets the closed flag; before the read of the head; in the loop of
  \<^verbatim>\<open>close_current_node\<close>, before it closes the node, loads the successor and closes that one.
\<close>

datatype 'a un_pc =
    Resting
  | T_Load 'a | T_Try nat 'a | T_Close nat 'a | T_Link nat 'a | T_Put nat 'a | T_Tail nat
  | T_End "(unit, 'a send_error) result"
  | H_Load | H_Recv nat | H_Flag nat | H_Next nat | H_Head nat nat | H_Free nat nat | H_Again nat
  | H_End "('a, recv_error) result"
  | C_New | C_Load nat | C_Link nat nat | C_Flag | C_Head
  | C_Node "nat option" | C_Next nat | C_Second nat | C_End
  | Wild

text \<open>\<^term>\<open>un_sent\<close> and \<^term>\<open>un_got\<close> are history: the messages that were queued and those received.\<close>

record 'a un_sys =
  un_heap :: "nat \<rightharpoonup> 'a un_node"
  un_brk :: nat
  un_head :: nat
  un_tail :: nat
  un_flag :: bool
  un_pcs :: "nat \<Rightarrow> 'a un_pc"
  un_sent :: "'a list"
  un_got :: "'a list"

datatype 'a un_action = Begin_Send 'a | Begin_Recv | Begin_Close | Un_Step

definition un_goto :: "nat \<Rightarrow> 'a un_pc \<Rightarrow> 'a un_sys \<Rightarrow> 'a un_sys" where
  "un_goto i pc s = s\<lparr>un_pcs := (un_pcs s)(i := pc)\<rparr>"

definition un_put :: "nat \<Rightarrow> 'a un_node \<Rightarrow> 'a un_sys \<Rightarrow> 'a un_sys" where
  "un_put a n s = s\<lparr>un_heap := (un_heap s)(a \<mapsto> n)\<rparr>"

text \<open>A step that reads the node at \<^term>\<open>a\<close>.\<close>

definition un_at :: "nat \<Rightarrow> nat \<Rightarrow> 'a un_sys \<Rightarrow> ('a un_node \<Rightarrow> 'a un_sys option) \<Rightarrow> 'a un_sys option" where
  "un_at i a s f = (case un_heap s a of None \<Rightarrow> Some (un_goto i Wild s) | Some n \<Rightarrow> f n)"

text \<open>\<^term>\<open>K\<close> is the capacity of a node.\<close>

fun un_send_next :: "nat \<Rightarrow> nat \<Rightarrow> 'a un_pc \<Rightarrow> 'a un_sys \<Rightarrow> 'a un_sys option" where
  "un_send_next K i (T_Load m) s = Some (un_goto i (T_Try (un_tail s) m) s)"
| "un_send_next K i (T_Try a m) s = un_at i a s (\<lambda>n.
     case fifo_step K (un_ms n, un_closed n) (Try_Send m) of
       ((ms, b), Sent (Ok _)) \<Rightarrow>
         Some (un_goto i (T_End (Ok ())) (un_put a (n\<lparr>un_ms := ms\<rparr>) (s\<lparr>un_sent := un_sent s @ [m]\<rparr>)))
     | (_, Sent (Err (Disconnected m))) \<Rightarrow> Some (un_goto i (T_End (Err (SendError m))) s)
     | (_, Sent (Err (Full m))) \<Rightarrow> Some (un_goto i (T_Close a m) s)
     | _ \<Rightarrow> None)"
| "un_send_next K i (T_Close a m) s = un_at i a s (\<lambda>n.
     Some (un_goto i (T_Link a m) (un_put a (n\<lparr>un_closed := True\<rparr>) s)))"
| "un_send_next K i (T_Link a m) s = un_at i a s (\<lambda>n.
     case un_next n of
       None \<Rightarrow> Some (un_goto i (T_Put (un_brk s) m)
         (un_put a (n\<lparr>un_next := Some (un_brk s)\<rparr>)
           (un_put (un_brk s) \<lparr>un_ms = [], un_closed = False, un_next = None\<rparr> (s\<lparr>un_brk := Suc (un_brk s)\<rparr>))))
     | Some v \<Rightarrow> Some (un_goto i (T_End (Err (SendError m))) (s\<lparr>un_brk := Suc (un_brk s), un_tail := v\<rparr>)))"
| "un_send_next K i (T_Put b m) s = un_at i b s (\<lambda>n.
     case fifo_step K (un_ms n, un_closed n) (Try_Send m) of
       ((ms, _), Sent (Ok _)) \<Rightarrow>
         Some (un_goto i (T_Tail b) (un_put b (n\<lparr>un_ms := ms\<rparr>) (s\<lparr>un_sent := un_sent s @ [m]\<rparr>)))
     | _ \<Rightarrow> Some (un_goto i (T_Tail b) s))"
| "un_send_next K i (T_Tail b) s = Some (un_goto i (T_End (Ok ())) (s\<lparr>un_tail := b\<rparr>))"
| "un_send_next K i (T_End r) s = Some (un_goto i Resting s)"
| "un_send_next K i _ s = None"

text \<open>
  \<^verbatim>\<open>recv\<close> on a node: the first message; an error if the node is closed and empty; otherwise the
  thread waits.
\<close>

definition un_recv :: "nat \<Rightarrow> nat \<Rightarrow> 'a un_pc \<Rightarrow> 'a un_sys \<Rightarrow> 'a un_sys option" where
  "un_recv i a err s = un_at i a s (\<lambda>n.
     case un_ms n of
       m # ms \<Rightarrow> Some (un_goto i (H_End (Ok m)) (un_put a (n\<lparr>un_ms := ms\<rparr>) (s\<lparr>un_got := un_got s @ [m]\<rparr>)))
     | [] \<Rightarrow> if un_closed n then Some (un_goto i err s) else None)"

fun un_recv_next :: "nat \<Rightarrow> 'a un_pc \<Rightarrow> 'a un_sys \<Rightarrow> 'a un_sys option" where
  "un_recv_next i H_Load s = Some (un_goto i (H_Recv (un_head s)) s)"
| "un_recv_next i (H_Recv a) s = un_recv i a (H_Flag a) s"
| "un_recv_next i (H_Flag a) s =
     Some (un_goto i (if un_flag s then H_End (Err RecvError) else H_Next a) s)"
| "un_recv_next i (H_Next a) s = un_at i a s (\<lambda>n.
     Some (un_goto i (case un_next n of None \<Rightarrow> H_Next a | Some b \<Rightarrow> H_Head a b) s))"
| "un_recv_next i (H_Head a b) s = Some (un_goto i (H_Free a b) (s\<lparr>un_head := b\<rparr>))"
| "un_recv_next i (H_Free a b) s = un_at i a s (\<lambda>n.
     Some (un_goto i (H_Again b) (s\<lparr>un_heap := (un_heap s)(a := None)\<rparr>)))"
| "un_recv_next i (H_Again b) s = un_recv i b (H_End (Err RecvError)) s"
| "un_recv_next i (H_End r) s = Some (un_goto i Resting s)"
| "un_recv_next i _ s = None"

text \<open>\<^verbatim>\<open>close\<close>: the node it links has one bucket and is closed.\<close>

fun un_close_next :: "nat \<Rightarrow> 'a un_pc \<Rightarrow> 'a un_sys \<Rightarrow> 'a un_sys option" where
  "un_close_next i C_New s =
     Some (un_goto i (C_Load (un_brk s))
       (un_put (un_brk s) \<lparr>un_ms = [], un_closed = True, un_next = None\<rparr> (s\<lparr>un_brk := Suc (un_brk s)\<rparr>)))"
| "un_close_next i (C_Load b) s = Some (un_goto i (C_Link (un_tail s) b) s)"
| "un_close_next i (C_Link a b) s = un_at i a s (\<lambda>n.
     Some (case un_next n of
         None \<Rightarrow> un_goto i C_Flag (un_put a (n\<lparr>un_next := Some b\<rparr>) s)
       | Some _ \<Rightarrow> un_goto i (C_Load b) s))"
| "un_close_next i C_Flag s = Some (un_goto i C_Head (s\<lparr>un_flag := True\<rparr>))"
| "un_close_next i C_Head s = Some (un_goto i (C_Node (Some (un_head s))) s)"
| "un_close_next i (C_Node None) s = Some (un_goto i Wild s)"
| "un_close_next i (C_Node (Some h)) s = un_at i h s (\<lambda>n.
     Some (un_goto i (C_Next h) (un_put h (n\<lparr>un_closed := True\<rparr>) s)))"
| "un_close_next i (C_Next h) s = un_at i h s (\<lambda>n.
     Some (un_goto i (case un_next n of None \<Rightarrow> C_Node None | Some v \<Rightarrow> C_Second v) s))"
| "un_close_next i (C_Second v) s = un_at i v s (\<lambda>n.
     Some (un_goto i C_End (un_put v (n\<lparr>un_closed := True\<rparr>) s)))"
| "un_close_next i C_End s = Some (un_goto i Resting s)"
| "un_close_next i _ s = None"

fun un_sending :: "'a un_pc \<Rightarrow> bool" where
  "un_sending (T_Load m) = True"
| "un_sending (T_Try a m) = True"
| "un_sending (T_Close a m) = True"
| "un_sending (T_Link a m) = True"
| "un_sending (T_Put b m) = True"
| "un_sending (T_Tail b) = True"
| "un_sending (T_End r) = True"
| "un_sending _ = False"

fun un_receiving :: "'a un_pc \<Rightarrow> bool" where
  "un_receiving H_Load = True"
| "un_receiving (H_Recv a) = True"
| "un_receiving (H_Flag a) = True"
| "un_receiving (H_Next a) = True"
| "un_receiving (H_Head a b) = True"
| "un_receiving (H_Free a b) = True"
| "un_receiving (H_Again b) = True"
| "un_receiving (H_End r) = True"
| "un_receiving _ = False"

fun un_act :: "nat \<Rightarrow> nat \<Rightarrow> 'a un_action \<Rightarrow> 'a un_sys \<Rightarrow> 'a un_sys option" where
  "un_act K i (Begin_Send m) s = (if un_pcs s i = Resting then Some (un_goto i (T_Load m) s) else None)"
| "un_act K i Begin_Recv s = (if un_pcs s i = Resting then Some (un_goto i H_Load s) else None)"
| "un_act K i Begin_Close s = (if un_pcs s i = Resting then Some (un_goto i C_New s) else None)"
| "un_act K i Un_Step s =
     (if un_sending (un_pcs s i) then un_send_next K i (un_pcs s i) s
      else if un_receiving (un_pcs s i) then un_recv_next i (un_pcs s i) s
      else un_close_next i (un_pcs s i) s)"

definition un_new :: "'a un_sys" where
  "un_new = \<lparr>un_heap = [0 \<mapsto> \<lparr>un_ms = [], un_closed = False, un_next = None\<rparr>], un_brk = 1, un_head = 0, un_tail = 0,
     un_flag = False, un_pcs = (\<lambda>_. Resting), un_sent = [], un_got = []\<rparr>"

definition un_run :: "nat \<Rightarrow> (nat \<times> 'a un_action) list \<Rightarrow> 'a un_sys \<Rightarrow> 'a un_sys option" where
  "un_run K = run_steps (\<lambda>(i, a). un_act K i a)"

text \<open>Thread 0 sends and thread 1 receives; nobody closes.\<close>

fun sender_and_receiver :: "nat \<times> 'a un_action \<Rightarrow> bool" where
  "sender_and_receiver (i, Begin_Send m) = (i = 0)"
| "sender_and_receiver (i, Begin_Recv) = (i = 1)"
| "sender_and_receiver (i, Begin_Close) = False"
| "sender_and_receiver (i, Un_Step) = True"

section \<open>The invariant\<close>

text \<open>
  The nodes are the addresses from \<^term>\<open>lo\<close> to \<^term>\<open>hi\<close>, each linked to the next one. Every node
  but the last is closed; a closed node beyond the one the receiver works on is full.
\<close>

definition nodes_ok :: "nat \<Rightarrow> nat \<Rightarrow> nat \<Rightarrow> (nat \<rightharpoonup> 'a un_node) \<Rightarrow> bool" where
  "nodes_ok K lo hi hp \<longleftrightarrow> lo \<le> hi \<and> dom hp = {lo..hi} \<and>
     (\<forall>a n. hp a = Some n \<longrightarrow>
        un_next n = (if a < hi then Some (Suc a) else None) \<and> (a < hi \<longrightarrow> un_closed n) \<and>
        (lo < a \<longrightarrow> un_closed n \<longrightarrow> length (un_ms n) = K) \<and> length (un_ms n) \<le> K)"

definition un_part :: "(nat \<rightharpoonup> 'a un_node) \<Rightarrow> nat list \<Rightarrow> 'a list" where
  "un_part hp as = concat (map (\<lambda>a. un_ms (the (hp a))) as)"

definition un_queued :: "nat \<Rightarrow> nat \<Rightarrow> (nat \<rightharpoonup> 'a un_node) \<Rightarrow> 'a list" where
  "un_queued lo hi hp = un_part hp [lo..<Suc hi]"

text \<open>What the sender knows of the last node, and the receiver of the first one.\<close>

fun sender_ok :: "nat \<Rightarrow> nat \<Rightarrow> (nat \<rightharpoonup> 'a un_node) \<Rightarrow> 'a un_pc \<Rightarrow> bool" where
  "sender_ok hi t hp (T_Try a m) = (a = hi \<and> t = hi \<and> \<not> un_closed (the (hp hi)))"
| "sender_ok hi t hp (T_Close a m) = (a = hi \<and> t = hi \<and> \<not> un_closed (the (hp hi)))"
| "sender_ok hi t hp (T_Link a m) = (a = hi \<and> t = hi \<and> un_closed (the (hp hi)))"
| "sender_ok hi t hp (T_Put b m) = (b = hi \<and> \<not> un_closed (the (hp hi)) \<and> un_ms (the (hp hi)) = [])"
| "sender_ok hi t hp (T_Tail b) = (b = hi \<and> \<not> un_closed (the (hp hi)))"
| "sender_ok hi t hp (T_End r) = (t = hi \<and> \<not> un_closed (the (hp hi)) \<and> r = Ok ())"
| "sender_ok hi t hp (T_Load m) = (t = hi \<and> \<not> un_closed (the (hp hi)))"
| "sender_ok hi t hp Resting = (t = hi \<and> \<not> un_closed (the (hp hi)))"
| "sender_ok hi t hp _ = False"

fun receiver_ok :: "nat \<Rightarrow> nat \<Rightarrow> nat \<Rightarrow> nat \<Rightarrow> (nat \<rightharpoonup> 'a un_node) \<Rightarrow> 'a un_pc \<Rightarrow> bool" where
  "receiver_ok K lo hi d hp Resting = (d = lo)"
| "receiver_ok K lo hi d hp H_Load = (d = lo)"
| "receiver_ok K lo hi d hp (H_Recv a) = (a = lo \<and> d = lo)"
| "receiver_ok K lo hi d hp (H_Flag a) = (a = lo \<and> d = lo \<and> un_ms (the (hp lo)) = [] \<and> un_closed (the (hp lo)))"
| "receiver_ok K lo hi d hp (H_Next a) = (a = lo \<and> d = lo \<and> un_ms (the (hp lo)) = [] \<and> un_closed (the (hp lo)))"
| "receiver_ok K lo hi d hp (H_Head a b) =
     (a = lo \<and> d = lo \<and> b = Suc lo \<and> lo < hi \<and> un_ms (the (hp lo)) = [])"
| "receiver_ok K lo hi d hp (H_Free a b) = (a = lo \<and> d = Suc lo \<and> b = Suc lo \<and> lo < hi \<and> un_ms (the (hp lo)) = [])"
| "receiver_ok K lo hi d hp (H_Again b) =
     (b = lo \<and> d = lo \<and> (un_closed (the (hp lo)) \<longrightarrow> length (un_ms (the (hp lo))) = K))"
| "receiver_ok K lo hi d hp (H_End r) = (d = lo \<and> (\<exists>m. r = Ok m))"
| "receiver_ok K lo hi d hp _ = False"

text \<open>
  The sender that found the node full before it closes it: the node is still full unless the
  receiver has taken messages out of it.
\<close>

definition un_inv_at :: "nat \<Rightarrow> nat \<Rightarrow> nat \<Rightarrow> 'a un_sys \<Rightarrow> bool" where
  "un_inv_at K lo hi s \<longleftrightarrow>
     nodes_ok K lo hi (un_heap s) \<and> un_brk s = Suc hi \<and> \<not> un_flag s \<and>
     un_sent s = un_got s @ un_queued lo hi (un_heap s) \<and>
     sender_ok hi (un_tail s) (un_heap s) (un_pcs s 0) \<and>
     receiver_ok K lo hi (un_head s) (un_heap s) (un_pcs s 1) \<and>
     (\<forall>a m. un_pcs s 0 = T_Close a m \<longrightarrow> lo < hi \<or> un_pcs s 1 = H_Again hi \<longrightarrow> length (un_ms (the (un_heap s hi))) = K) \<and>
     (\<forall>i. i \<noteq> 0 \<longrightarrow> i \<noteq> 1 \<longrightarrow> un_pcs s i = Resting)"

lemma un_inv_atD:
  assumes "un_inv_at K lo hi s"
  shows "nodes_ok K lo hi (un_heap s)" and "un_brk s = Suc hi" and "\<not> un_flag s"
    and "un_sent s = un_got s @ un_queued lo hi (un_heap s)"
    and "sender_ok hi (un_tail s) (un_heap s) (un_pcs s 0)"
    and "receiver_ok K lo hi (un_head s) (un_heap s) (un_pcs s 1)"
    and "un_pcs s 0 = T_Close a m \<Longrightarrow> lo < hi \<or> un_pcs s 1 = H_Again hi \<Longrightarrow> length (un_ms (the (un_heap s hi))) = K"
    and "i \<noteq> 0 \<Longrightarrow> i \<noteq> 1 \<Longrightarrow> un_pcs s i = Resting"
  using assms unfolding un_inv_at_def by blast+

lemma nodes_okD:
  assumes "nodes_ok K lo hi hp"
  shows "lo \<le> hi" and "lo \<le> a \<Longrightarrow> a \<le> hi \<Longrightarrow> \<exists>n. hp a = Some n"
    and "hp a = Some n \<Longrightarrow> lo \<le> a \<and> a \<le> hi"
    and "hp a = Some n \<Longrightarrow> un_next n = (if a < hi then Some (Suc a) else None)"
    and "hp a = Some n \<Longrightarrow> a < hi \<Longrightarrow> un_closed n"
    and "hp a = Some n \<Longrightarrow> lo < a \<Longrightarrow> un_closed n \<Longrightarrow> length (un_ms n) = K"
    and "hp a = Some n \<Longrightarrow> length (un_ms n) \<le> K"
proof -
  note N = assms [unfolded nodes_ok_def]
  then have D: "dom hp = {lo..hi}" by blast
  show "lo \<le> a \<Longrightarrow> a \<le> hi \<Longrightarrow> \<exists>n. hp a = Some n" using D by (metis atLeastAtMost_iff domD)
  show "hp a = Some n \<Longrightarrow> lo \<le> a \<and> a \<le> hi" using D by (metis atLeastAtMost_iff domI)
qed (use assms in \<open>unfold nodes_ok_def, blast+\<close>)

lemma un_part_simps [simp]:
  "un_part hp [] = []" "un_part hp (a # as) = un_ms (the (hp a)) @ un_part hp as"
  "un_part hp (as @ bs) = un_part hp as @ un_part hp bs"
  by (simp_all add: un_part_def)

lemma un_part_upd [simp]: "a \<notin> set as \<Longrightarrow> un_part (hp(a := v)) as = un_part hp as"
  by (induction as) auto

lemma un_part_same: "un_ms n = un_ms (the (hp a)) \<Longrightarrow> un_part (hp(a \<mapsto> n)) as = un_part hp as"
  by (induction as) auto

lemma un_queued_last: "lo \<le> hi \<Longrightarrow> un_queued lo hi hp = un_part hp [lo..<hi] @ un_ms (the (hp hi))"
  by (simp add: un_queued_def)

lemma un_queued_first: "lo \<le> hi \<Longrightarrow> un_queued lo hi hp = un_ms (the (hp lo)) @ un_part hp [Suc lo..<Suc hi]"
  by (simp add: un_queued_def upt_rec [of lo "Suc hi"] del: upt_Suc)

lemma un_queued_send:
  assumes "lo \<le> hi" and "un_ms n = un_ms (the (hp hi)) @ [m]"
  shows "un_queued lo hi (hp(hi \<mapsto> n)) = un_queued lo hi hp @ [m]"
  unfolding un_queued_last [OF assms(1)] using assms(2) by simp

lemma un_queued_recv:
  assumes "lo \<le> hi" and "un_ms (the (hp lo)) = m # un_ms n"
  shows "un_queued lo hi hp = m # un_queued lo hi (hp(lo \<mapsto> n))"
  unfolding un_queued_first [OF assms(1)] using assms(2) by (simp del: upt_Suc)

lemma un_queued_same:
  "un_ms n = un_ms (the (hp a)) \<Longrightarrow> un_queued lo hi (hp(a \<mapsto> n)) = un_queued lo hi hp"
  unfolding un_queued_def by (rule un_part_same)

lemma un_queued_link:
  assumes "lo \<le> hi" and "un_ms n = []"
  shows "un_queued lo (Suc hi) (hp(Suc hi \<mapsto> n)) = un_queued lo hi hp"
  using assms by (simp add: un_queued_last [of lo "Suc hi"]) (simp add: un_queued_def)

lemma un_queued_free:
  assumes "lo < hi" and "un_ms (the (hp lo)) = []"
  shows "un_queued (Suc lo) hi (hp(lo := None)) = un_queued lo hi hp"
  using assms by (simp add: un_queued_first [of lo] del: upt_Suc) (simp add: un_queued_def del: upt_Suc)

lemma nodes_ok_put:
  assumes N: "nodes_ok K lo hi hp" and a: "hp a = Some n" and "un_next n' = un_next n" and "un_closed n \<longrightarrow> un_closed n'"
    and "lo < a \<Longrightarrow> un_closed n' \<Longrightarrow> length (un_ms n') = K" and "length (un_ms n') \<le> K"
  shows "nodes_ok K lo hi (hp(a \<mapsto> n'))"
proof -
  have "dom (hp(a \<mapsto> n')) = {lo..hi}" using N a by (auto simp: nodes_ok_def)
  then show ?thesis using N a assms(3-6) unfolding nodes_ok_def by simp
qed

lemma nodes_ok_link:
  assumes N: "nodes_ok K lo hi hp" and a: "hp hi = Some n" and "un_closed n"
    and e: "e = \<lparr>un_ms = [], un_closed = False, un_next = None\<rparr>"
  shows "nodes_ok K lo (Suc hi) (hp(Suc hi \<mapsto> e, hi \<mapsto> n\<lparr>un_next := Some (Suc hi)\<rparr>))"
proof -
  note D = nodes_okD [OF N]
  have d: "dom (hp(Suc hi \<mapsto> e, hi \<mapsto> n\<lparr>un_next := Some (Suc hi)\<rparr>)) = {lo..Suc hi}"
    using N D(1) by (auto simp: nodes_ok_def)
  show ?thesis
    unfolding nodes_ok_def
  proof (intro conjI allI impI)
    show "dom (hp(Suc hi \<mapsto> e, hi \<mapsto> n\<lparr>un_next := Some (Suc hi)\<rparr>)) = {lo..Suc hi}" by (rule d)
  qed (use D assms(3) a e in \<open>auto simp: less_Suc_eq dest: D(3) split: if_splits\<close>)
qed

lemma nodes_ok_free:
  assumes N: "nodes_ok K lo hi hp" and "lo < hi"
  shows "nodes_ok K (Suc lo) hi (hp(lo := None))"
proof -
  have "dom (hp(lo := None)) = {Suc lo..hi}" using N by (auto simp: nodes_ok_def)
  then show ?thesis using N assms(2) unfolding nodes_ok_def by simp
qed

text \<open>
  The sender changes only the last node, and only while it is open; what the receiver knows stays
  true.
\<close>

lemma receiver_ok_later:
  assumes R: "receiver_ok K lo hi d hp pc" and "hi \<le> hi'" and "lo \<le> hi"
    and same: "lo < hi \<or> un_closed (the (hp lo)) \<Longrightarrow> un_ms (the (hp' lo)) = un_ms (the (hp lo)) \<and> un_closed (the (hp' lo)) = un_closed (the (hp lo))"
    and full: "pc = H_Again lo \<Longrightarrow> lo = hi \<Longrightarrow> \<not> un_closed (the (hp lo)) \<Longrightarrow> un_closed (the (hp' lo)) \<Longrightarrow> length (un_ms (the (hp' lo))) = K"
  shows "receiver_ok K lo hi' d hp' pc"
proof (cases pc)
  case (H_Again b)
  then show ?thesis using assms by (cases "lo < hi \<or> un_closed (the (hp lo))") auto
qed (use assms in auto)

lemma un_inv_send_move:
  assumes I: "un_inv_at K lo hi s" and "sender_ok hi t (un_heap s) pc" and "\<And>a m. pc \<noteq> T_Close a m"
  shows "un_inv_at K lo hi (un_goto 0 pc (s\<lparr>un_tail := t\<rparr>))"
  using assms unfolding un_inv_at_def un_goto_def by simp

lemma un_inv_send_stay:
  assumes "un_inv_at K lo hi s" and "sender_ok hi (un_tail s) (un_heap s) pc" and "\<And>a m. pc \<noteq> T_Close a m"
  shows "un_inv_at K lo hi (un_goto 0 pc s)"
  using un_inv_send_move [OF assms] by simp

lemma un_inv_queue:
  assumes I: "un_inv_at K lo hi s" and n: "un_heap s hi = Some n" "\<not> un_closed n" "length (un_ms n) < K"
    and pc: "un_sending (un_pcs s 0)"
    and S: "sender_ok hi (un_tail s) ((un_heap s)(hi \<mapsto> n\<lparr>un_ms := un_ms n @ [m]\<rparr>)) pc" "\<And>a m. pc \<noteq> T_Close a m"
  shows "un_inv_at K lo hi (un_goto 0 pc (un_put hi (n\<lparr>un_ms := un_ms n @ [m]\<rparr>) (s\<lparr>un_sent := un_sent s @ [m]\<rparr>)))"
proof -
  note D = un_inv_atD [OF I]
  let ?hp = "(un_heap s)(hi \<mapsto> n\<lparr>un_ms := un_ms n @ [m]\<rparr>)"
  have "nodes_ok K lo hi ?hp"
    by (rule nodes_ok_put [OF D(1) n(1)]) (use n(2,3) in simp_all)
  moreover have "un_queued lo hi ?hp = un_queued lo hi (un_heap s) @ [m]"
    by (rule un_queued_send [OF nodes_okD(1) [OF D(1)]]) (simp add: n(1))
  moreover have "receiver_ok K lo hi (un_head s) ?hp (un_pcs s 1)"
    by (rule receiver_ok_later [OF D(6) _ nodes_okD(1) [OF D(1)]]) (use n in auto)
  ultimately show ?thesis
    using I S unfolding un_inv_at_def by (simp add: un_goto_def un_put_def)
qed

lemma un_inv_send:
  assumes I: "un_inv_at K lo hi s" and K: "0 < K" and A: "un_send_next K 0 (un_pcs s 0) s = Some s'"
  shows "\<exists>hi. un_inv_at K lo hi s'"
proof -
  note D = un_inv_atD [OF I] and N = nodes_okD [OF un_inv_atD(1) [OF I]]
  obtain n where n: "un_heap s hi = Some n" using N(1,2) by blast
  have len: "length (un_ms n) \<le> K" by (rule N(7) [OF n])
  show ?thesis
  proof (cases "un_pcs s 0")
    case (T_Load m)
    then have "s' = un_goto 0 (T_Try hi m) s" using A D(5) by simp
    moreover have "un_inv_at K lo hi (un_goto 0 (T_Try hi m) s)"
      by (rule un_inv_send_stay [OF I]) (use D(5) T_Load in simp_all)
    ultimately show ?thesis by blast
  next
    case (T_Try a m)
    then have a: "a = hi" "un_tail s = hi" "\<not> un_closed n" using D(5) n by simp_all
    show ?thesis
    proof (cases "length (un_ms n) < K")
      case True
      then have s': "s' = un_goto 0 (T_End (Ok ())) (un_put hi (n\<lparr>un_ms := un_ms n @ [m]\<rparr>) (s\<lparr>un_sent := un_sent s @ [m]\<rparr>))"
        using A T_Try a n by (simp add: un_at_def)
      have "un_inv_at K lo hi s'"
        unfolding s' by (rule un_inv_queue [OF I n a(3) True]) (use a T_Try in simp_all)
      then show ?thesis ..
    next
      case False
      then have s': "s' = un_goto 0 (T_Close hi m) s" using A T_Try a n by (simp add: un_at_def)
      have "un_inv_at K lo hi s'"
        using I False len a n unfolding un_inv_at_def s' by (simp add: un_goto_def)
      then show ?thesis ..
    qed
  next
    case (T_Close a m)
    then have a: "a = hi" "un_tail s = hi" "\<not> un_closed n" using D(5) n by simp_all
    let ?n = "n\<lparr>un_closed := True\<rparr>"
    let ?hp = "(un_heap s)(hi \<mapsto> ?n)"
    have s': "s' = un_goto 0 (T_Link hi m) (un_put hi ?n s)" using A T_Close a n by (simp add: un_at_def)
    have "nodes_ok K lo hi ?hp"
      by (rule nodes_ok_put [OF D(1) n]) (use D(7) [OF T_Close] n len in simp_all)
    moreover have "receiver_ok K lo hi (un_head s) ?hp (un_pcs s 1)"
      by (rule receiver_ok_later [OF D(6) _ N(1)]) (use D(7) [OF T_Close] n a in auto)
    moreover have "un_queued lo hi ?hp = un_queued lo hi (un_heap s)" by (rule un_queued_same) (simp add: n)
    ultimately have "un_inv_at K lo hi s'"
      using I a unfolding un_inv_at_def s' by (simp add: un_goto_def un_put_def)
    then show ?thesis ..
  next
    case (T_Link a m)
    then have a: "a = hi" "un_tail s = hi" "un_closed n" using D(5) n by simp_all
    let ?e = "\<lparr>un_ms = [], un_closed = False, un_next = None\<rparr> :: 'a un_node"
    let ?n = "n\<lparr>un_next := Some (Suc hi)\<rparr>"
    let ?hp = "(un_heap s)(Suc hi \<mapsto> ?e, hi \<mapsto> ?n)"
    have s': "s' = un_goto 0 (T_Put (Suc hi) m) (un_put hi ?n (un_put (Suc hi) ?e (s\<lparr>un_brk := Suc (Suc hi)\<rparr>)))"
      using A T_Link a n N(4) [OF n] D(2) by (simp add: un_at_def)
    have "nodes_ok K lo (Suc hi) ?hp" by (rule nodes_ok_link [OF D(1) n a(3)]) simp
    moreover have "un_queued lo (Suc hi) ?hp = un_queued lo hi (un_heap s)"
    proof -
      have "un_queued lo (Suc hi) ?hp = un_queued lo (Suc hi) ((un_heap s)(Suc hi \<mapsto> ?e))"
        by (rule un_queued_same) (simp add: n)
      also have "\<dots> = un_queued lo hi (un_heap s)" by (rule un_queued_link) (use N(1) in simp_all)
      finally show ?thesis .
    qed
    moreover have "receiver_ok K lo (Suc hi) (un_head s) ?hp (un_pcs s 1)"
      by (rule receiver_ok_later [OF D(6) _ N(1)]) (use n a N(1) in auto)
    ultimately have "un_inv_at K lo (Suc hi) s'"
      using I a unfolding un_inv_at_def s' by (simp add: un_goto_def un_put_def)
    then show ?thesis ..
  next
    case (T_Put b m)
    then have b: "b = hi" "\<not> un_closed n" "un_ms n = []" using D(5) n by simp_all
    have s': "s' = un_goto 0 (T_Tail hi) (un_put hi (n\<lparr>un_ms := un_ms n @ [m]\<rparr>) (s\<lparr>un_sent := un_sent s @ [m]\<rparr>))"
      using A T_Put b n K by (simp add: un_at_def)
    have "un_inv_at K lo hi s'"
      unfolding s' by (rule un_inv_queue [OF I n b(2)]) (use b K T_Put in simp_all)
    then show ?thesis ..
  next
    case (T_Tail b)
    then have "s' = un_goto 0 (T_End (Ok ())) (s\<lparr>un_tail := hi\<rparr>)" using A D(5) by simp
    moreover have "un_inv_at K lo hi (un_goto 0 (T_End (Ok ())) (s\<lparr>un_tail := hi\<rparr>))"
      by (rule un_inv_send_move [OF I]) (use D(5) T_Tail in simp_all)
    ultimately show ?thesis by blast
  next
    case (T_End r)
    then have "s' = un_goto 0 Resting s" using A by simp
    moreover have "un_inv_at K lo hi (un_goto 0 Resting s)"
      by (rule un_inv_send_stay [OF I]) (use D(5) T_End in simp_all)
    ultimately show ?thesis by blast
  qed (use A in simp_all)
qed

text \<open>The receiver changes only the first node.\<close>

lemma sender_ok_first:
  assumes "sender_ok hi t hp pc" and "lo < hi"
  shows "sender_ok hi t (hp(lo := v)) pc"
  using assms by (cases pc) auto

lemma sender_ok_taken:
  assumes S: "sender_ok hi t hp pc" and "hp lo = Some n" and "un_ms n = m # ms"
  shows "sender_ok hi t (hp(lo \<mapsto> n\<lparr>un_ms := ms\<rparr>)) pc"
  using assms by (cases pc; cases "lo = hi") auto

lemma un_inv_recv_move:
  assumes I: "un_inv_at K lo hi s" and "receiver_ok K lo hi d (un_heap s) pc" and "\<And>b. pc \<noteq> H_Again b"
  shows "un_inv_at K lo hi (un_goto 1 pc (s\<lparr>un_head := d\<rparr>))"
  using assms unfolding un_inv_at_def un_goto_def by auto

lemma un_inv_recv_stay:
  assumes "un_inv_at K lo hi s" and "receiver_ok K lo hi (un_head s) (un_heap s) pc" and "\<And>b. pc \<noteq> H_Again b"
  shows "un_inv_at K lo hi (un_goto 1 pc s)"
  using un_inv_recv_move [OF assms] by simp

lemma un_inv_take:
  assumes I: "un_inv_at K lo hi s" and n: "un_heap s lo = Some n" "un_ms n = m # ms" and d: "un_head s = lo"
  shows "un_inv_at K lo hi (un_goto 1 (H_End (Ok m)) (un_put lo (n\<lparr>un_ms := ms\<rparr>) (s\<lparr>un_got := un_got s @ [m]\<rparr>)))"
proof -
  note D = un_inv_atD [OF I] and N = nodes_okD [OF un_inv_atD(1) [OF I]]
  let ?hp = "(un_heap s)(lo \<mapsto> n\<lparr>un_ms := ms\<rparr>)"
  have "nodes_ok K lo hi ?hp"
    by (rule nodes_ok_put [OF D(1) n(1)]) (use N(7) [OF n(1)] n(2) in simp_all)
  moreover have "un_queued lo hi (un_heap s) = m # un_queued lo hi ?hp"
    by (rule un_queued_recv [OF N(1)]) (use n in simp)
  moreover have "sender_ok hi (un_tail s) ?hp (un_pcs s 0)"
    by (rule sender_ok_taken [OF D(5) n])
  ultimately show ?thesis
    using I d unfolding un_inv_at_def by (auto simp: un_goto_def un_put_def)
qed

text \<open>A node that the receiver moves to is full if it is closed, so it is not found empty.\<close>

lemma un_inv_recv:
  assumes I: "un_inv_at K lo hi s" and K: "0 < K" and A: "un_recv_next 1 (un_pcs s 1) s = Some s'"
  shows "\<exists>lo. un_inv_at K lo hi s'"
proof -
  note D = un_inv_atD [OF I] and N = nodes_okD [OF un_inv_atD(1) [OF I]]
  obtain n where n: "un_heap s lo = Some n" using N(1,2) by blast
  show ?thesis
  proof (cases "un_pcs s 1")
    case H_Load
    then have "s' = un_goto 1 (H_Recv lo) s" using A D(6) by simp
    moreover have "un_inv_at K lo hi (un_goto 1 (H_Recv lo) s)"
      by (rule un_inv_recv_stay [OF I]) (use D(6) H_Load in simp_all)
    ultimately show ?thesis by blast
  next
    case (H_Recv a)
    then have a: "a = lo" "un_head s = lo" using D(6) by simp_all
    show ?thesis
    proof (cases "un_ms n")
      case (Cons m ms)
      then have "s' = un_goto 1 (H_End (Ok m)) (un_put lo (n\<lparr>un_ms := ms\<rparr>) (s\<lparr>un_got := un_got s @ [m]\<rparr>))"
        using A H_Recv a n by (simp add: un_recv_def un_at_def)
      then show ?thesis using un_inv_take [OF I n Cons a(2)] by blast
    next
      case Nil
      then have "s' = un_goto 1 (H_Flag lo) s" "un_closed n"
        using A H_Recv a n by (simp_all add: un_recv_def un_at_def split: if_splits)
      moreover have "un_inv_at K lo hi (un_goto 1 (H_Flag lo) s)"
        by (rule un_inv_recv_stay [OF I]) (use a n Nil calculation in simp_all)
      ultimately show ?thesis by blast
    qed
  next
    case (H_Flag a)
    then have "s' = un_goto 1 (H_Next lo) s" using A D(3,6) by simp
    moreover have "un_inv_at K lo hi (un_goto 1 (H_Next lo) s)"
      by (rule un_inv_recv_stay [OF I]) (use D(6) H_Flag in simp_all)
    ultimately show ?thesis by blast
  next
    case (H_Next a)
    then have s': "s' = un_goto 1 (if lo < hi then H_Head lo (Suc lo) else H_Next lo) s"
      using A D(6) n N(4) [OF n] by (simp add: un_at_def split: if_splits)
    have "un_inv_at K lo hi s'"
      unfolding s' by (rule un_inv_recv_stay [OF I]) (use D(6) H_Next in simp_all)
    then show ?thesis ..
  next
    case (H_Head a b)
    then have "s' = un_goto 1 (H_Free lo (Suc lo)) (s\<lparr>un_head := Suc lo\<rparr>)" using A D(6) by simp
    moreover have "un_inv_at K lo hi (un_goto 1 (H_Free lo (Suc lo)) (s\<lparr>un_head := Suc lo\<rparr>))"
      by (rule un_inv_recv_move [OF I]) (use D(6) H_Head in simp_all)
    ultimately show ?thesis by blast
  next
    case (H_Free a b)
    then have R: "a = lo" "un_head s = Suc lo" "b = Suc lo" "lo < hi" "un_ms n = []" using D(6) n by simp_all
    let ?hp = "(un_heap s)(lo := None)"
    have s': "s' = un_goto 1 (H_Again (Suc lo)) (s\<lparr>un_heap := ?hp\<rparr>)"
      using A H_Free R n by (simp add: un_at_def)
    obtain n' where n': "un_heap s (Suc lo) = Some n'" using N(2) [of "Suc lo"] R(4) by auto
    have "nodes_ok K (Suc lo) hi ?hp" by (rule nodes_ok_free [OF D(1) R(4)])
    moreover have "un_queued (Suc lo) hi ?hp = un_queued lo hi (un_heap s)"
      by (rule un_queued_free [OF R(4)]) (use n R(5) in simp)
    moreover have "sender_ok hi (un_tail s) ?hp (un_pcs s 0)" by (rule sender_ok_first [OF D(5) R(4)])
    ultimately have "un_inv_at K (Suc lo) hi s'"
      using I R(2,4) n' N(6) [OF n'] unfolding un_inv_at_def s' by (auto simp: un_goto_def)
    then show ?thesis ..
  next
    case (H_Again b)
    then have R: "b = lo" "un_head s = lo" "un_closed n \<Longrightarrow> length (un_ms n) = K" using D(6) n by simp_all
    obtain m ms where ms: "un_ms n = m # ms"
      using A H_Again R n K by (cases "un_ms n") (auto simp: un_recv_def un_at_def split: if_splits)
    then have "s' = un_goto 1 (H_End (Ok m)) (un_put lo (n\<lparr>un_ms := ms\<rparr>) (s\<lparr>un_got := un_got s @ [m]\<rparr>))"
      using A H_Again R n by (simp add: un_recv_def un_at_def)
    then show ?thesis using un_inv_take [OF I n ms R(2)] by blast
  next
    case (H_End r)
    then have "s' = un_goto 1 Resting s" using A by simp
    moreover have "un_inv_at K lo hi (un_goto 1 Resting s)"
      by (rule un_inv_recv_stay [OF I]) (use D(6) H_End in simp_all)
    ultimately show ?thesis by blast
  qed (use A in simp_all)
qed

section \<open>Every schedule\<close>

lemma un_inv_start: "un_inv_at K 0 0 un_new"
proof -
  have "nodes_ok K 0 0 (un_heap un_new)" by (auto simp: nodes_ok_def un_new_def split: if_splits)
  then show ?thesis by (simp add: un_inv_at_def) (simp add: un_new_def un_queued_def)
qed

lemma sender_ok_kind: "sender_ok hi t hp pc \<Longrightarrow> un_sending pc \<or> pc = Resting"
  by (cases pc) auto

lemma receiver_ok_kind: "receiver_ok K lo hi d hp pc \<Longrightarrow> un_receiving pc \<or> pc = Resting"
  by (cases pc) auto

lemma un_receiving_not: "un_receiving pc \<Longrightarrow> \<not> un_sending pc"
  by (cases pc) auto

lemma un_inv_act:
  assumes I: "un_inv_at K lo hi s" and K: "0 < K" and "sender_and_receiver (i, a)" and A: "un_act K i a s = Some s'"
  shows "\<exists>lo hi. un_inv_at K lo hi s'"
proof (cases a)
  case (Begin_Send m)
  then have "i = 0" "s' = un_goto 0 (T_Load m) s" "un_pcs s 0 = Resting" using assms by (auto split: if_splits)
  then show ?thesis using un_inv_send_stay [OF I, of "T_Load m"] un_inv_atD(5) [OF I] by auto
next
  case Begin_Recv
  then have "i = 1" "s' = un_goto 1 H_Load s" "un_pcs s 1 = Resting" using assms by (auto split: if_splits)
  then show ?thesis using un_inv_recv_stay [OF I, of H_Load] un_inv_atD(6) [OF I] by auto
next
  case Begin_Close
  then show ?thesis using assms by simp
next
  case Un_Step
  note D = un_inv_atD(5,6,8) [OF I]
  consider "i = 0" | "i = 1" | "i \<noteq> 0" "i \<noteq> 1" by blast
  then show ?thesis
  proof cases
    case 1
    then have "un_send_next K 0 (un_pcs s 0) s = Some s'"
      using A Un_Step sender_ok_kind [OF D(1)] by auto
    then show ?thesis using un_inv_send [OF I K] by blast
  next
    case 2
    then have "un_recv_next 1 (un_pcs s 1) s = Some s'"
      using A Un_Step receiver_ok_kind [OF D(2)] un_receiving_not [of "un_pcs s 1"] by auto
    then show ?thesis using un_inv_recv [OF I K] by blast
  next
    case 3
    then show ?thesis using A Un_Step D(3) by simp
  qed
qed

lemma un_inv_run:
  assumes "un_run K as un_new = Some s" and "list_all sender_and_receiver as" and "0 < K"
  shows "\<exists>lo hi. un_inv_at K lo hi s"
proof (rule run_steps_inv [OF _ assms(1) [unfolded un_run_def] assms(2)])
  show "\<exists>lo hi. un_inv_at K lo hi un_new" using un_inv_start by blast
qed (use un_inv_act [OF _ assms(3)] in fastforce)

text \<open>All nodes but the first and the last are full.\<close>

lemma nodes_ok_size:
  assumes N: "nodes_ok K lo hi hp"
  shows "card (dom hp) * K \<le> length (un_queued lo hi hp) + 2 * K"
proof -
  note D = nodes_okD [OF N]
  have full: "length (un_ms (the (hp a))) = K" if "lo < a" "a < hi" for a
    using D(2) [of a] D(5,6) [of a] that by fastforce
  have part: "lo < k \<Longrightarrow> l \<le> hi \<Longrightarrow> length (un_part hp [k..<l]) = (l - k) * K" for k l
  proof (induction l)
    case (Suc l)
    then show ?case using full [of l] by (cases "k \<le> l") (auto simp: Suc_diff_le)
  qed simp
  show ?thesis
  proof (cases "lo = hi")
    case True
    then show ?thesis using N by (simp add: nodes_ok_def)
  next
    case False
    then have lt: "lo < hi" using D(1) by simp
    then have "[lo..<Suc hi] = lo # [Suc lo..<hi] @ [hi]" by (simp add: upt_conv_Cons)
    then have "length (un_queued lo hi hp) \<ge> (hi - Suc lo) * K"
      using part [of "Suc lo" hi] by (simp add: un_queued_def)
    moreover have "card (dom hp) = Suc (Suc (hi - Suc lo))" using N lt by (simp add: nodes_ok_def)
    ultimately show ?thesis by simp
  qed
qed

text \<open>A call under way that cannot move is a receiver on an empty queue.\<close>

lemma un_send_moves:
  assumes I: "un_inv_at K lo hi s" and "un_sending (un_pcs s 0)"
  shows "un_send_next K 0 (un_pcs s 0) s \<noteq> None"
proof -
  note D = un_inv_atD [OF I] and N = nodes_okD [OF un_inv_atD(1) [OF I]]
  obtain n where n: "un_heap s hi = Some n" using N(1,2) by blast
  then show ?thesis
    using assms(2) D(5) by (cases "un_pcs s 0") (auto simp: un_at_def split: option.splits)
qed

lemma un_recv_moves:
  assumes I: "un_inv_at K lo hi s" and K: "0 < K" and "un_receiving (un_pcs s 1)" and N: "un_recv_next 1 (un_pcs s 1) s = None"
  shows "un_got s = un_sent s"
proof -
  note D = un_inv_atD [OF I] and N' = nodes_okD [OF un_inv_atD(1) [OF I]]
  obtain n where n: "un_heap s lo = Some n" using N'(1,2) by blast
  have "un_ms n = [] \<and> \<not> un_closed n"
  proof (cases "un_pcs s 1")
    case (H_Recv a)
    then show ?thesis using N D(6) n by (auto simp: un_recv_def un_at_def split: list.splits if_splits)
  next
    case (H_Again a)
    then show ?thesis using N D(6) n by (auto simp: un_recv_def un_at_def split: list.splits if_splits)
  qed (use assms D(6) n in \<open>auto simp: un_at_def\<close>)
  moreover from this have "lo = hi" using N'(1) N'(5) [OF n] by fastforce
  ultimately show ?thesis using D(4) n by (simp add: un_queued_def)
qed

lemma un_blocked:
  assumes I: "un_inv_at K lo hi s" and K: "0 < K" and "un_pcs s i \<noteq> Resting" and N: "un_act K i Un_Step s = None"
  shows "i = 1 \<and> un_got s = un_sent s"
proof -
  note D = un_inv_atD(5,6,8) [OF I]
  have "i \<noteq> 0" using un_send_moves [OF I] sender_ok_kind [OF D(1)] assms(3) N by (cases "i = 0") auto
  then have i: "i = 1" using D(3) assms(3) by blast
  then have "un_receiving (un_pcs s 1)" using receiver_ok_kind [OF D(2)] assms(3) by auto
  then show ?thesis using un_recv_moves [OF I K] un_receiving_not [of "un_pcs s 1"] N i by simp
qed

section \<open>Closing while a sender moves to a new node\<close>

text \<open>Thread 0 sends; thread 1 receives and closes.\<close>

fun two_threads :: "nat \<times> 'a un_action \<Rightarrow> bool" where
  "two_threads (i, Begin_Send m) = (i = 0)"
| "two_threads (i, Begin_Recv) = (i = 1)"
| "two_threads (i, Begin_Close) = (i = 1)"
| "two_threads (i, Un_Step) = True"

text \<open>Thread \<^term>\<open>i\<close> runs alone for \<^term>\<open>k\<close> steps.\<close>

definition steps_of :: "nat \<Rightarrow> nat \<Rightarrow> (nat \<times> 'a un_action) list" where
  "steps_of i k = replicate k (i, Un_Step)"

lemma steps_of_two [simp]: "list_all two_threads (steps_of i k)"
  by (simp add: steps_of_def list_all_iff)

abbreviation un_leads :: "nat \<Rightarrow> ('a un_sys \<Rightarrow> bool) \<Rightarrow> ('a un_sys \<Rightarrow> bool) \<Rightarrow> bool" where
  "un_leads K \<equiv> leads (\<lambda>(i, a). un_act K i a) two_threads"

text \<open>The first node holds the messages \<^term>\<open>ms\<close>.\<close>

definition un_filled :: "'a list \<Rightarrow> 'a un_sys \<Rightarrow> bool" where
  "un_filled ms s \<longleftrightarrow> un_heap s = [0 \<mapsto> \<lparr>un_ms = ms, un_closed = False, un_next = None\<rparr>] \<and>
     un_brk s = 1 \<and> un_head s = 0 \<and> un_tail s = 0 \<and> \<not> un_flag s \<and> un_pcs s 0 = Resting \<and> un_pcs s 1 = Resting"

text \<open>The sender has linked the second node and not moved the tail.\<close>

definition un_lagging :: "'a list \<Rightarrow> 'a \<Rightarrow> 'a un_sys \<Rightarrow> bool" where
  "un_lagging ms m s \<longleftrightarrow> un_heap s = [0 \<mapsto> \<lparr>un_ms = ms, un_closed = True, un_next = Some 1\<rparr>,
        1 \<mapsto> \<lparr>un_ms = [m], un_closed = False, un_next = None\<rparr>] \<and>
     un_brk s = 2 \<and> un_head s = 0 \<and> un_tail s = 0 \<and> \<not> un_flag s \<and> un_pcs s 0 = T_Tail 1 \<and> un_pcs s 1 = Resting"

lemmas un_eval = un_goto_def un_at_def un_put_def un_recv_def un_filled_def un_lagging_def
  steps_of_def eval_nat_numeral

lemma un_fill: "length ms < K \<Longrightarrow> un_leads K (un_filled ms) (un_filled (ms @ [m]))"
  by (rule leadsI [of _ _ "(0, Begin_Send m) # steps_of 0 3"]) (simp_all add: un_eval)

lemma un_overfill: "length ms = K \<Longrightarrow> 0 < K \<Longrightarrow> un_leads K (un_filled ms) (un_lagging ms m)"
  by (rule leadsI [of _ _ "(0, Begin_Send m) # steps_of 0 5"]) (auto simp: un_eval)

lemma un_drain: "un_leads K (\<lambda>s. un_lagging (x # ms) m s) (un_lagging ms m)"
  by (rule leadsI [of _ _ "(1, Begin_Recv) # steps_of 1 3"]) (auto simp: un_eval)

lemma un_dangle: "un_leads K (un_lagging [] m) (\<lambda>s. un_pcs s 1 = Wild)"
  by (rule leadsI [of _ _ "(1, Begin_Recv) # steps_of 1 8 @ (1, Begin_Close) # steps_of 1 3"])
    (simp_all add: un_eval)

lemma un_leads_dangling:
  assumes "0 < K"
  shows "un_leads K (\<lambda>s :: 'a un_sys. s = un_new) (\<lambda>s. un_pcs s 1 = Wild)"
proof -
  fix m :: 'a
  let ?ms = "replicate K m"
  have a: "un_leads K (\<lambda>s. s = un_new) (un_filled [])"
    by (rule leadsI [of _ _ "[]"]) (simp_all add: un_filled_def un_new_def)
  have b: "un_leads K (un_filled []) (un_filled ?ms)" by (rule leads_fill [where k = K, OF un_fill]) simp_all
  have c: "un_leads K (un_filled ?ms) (un_lagging ?ms m)" by (rule un_overfill) (use assms in simp_all)
  have d: "un_leads K (un_lagging ?ms m) (un_lagging [] m)"
    by (rule leads_drain [where P = "\<lambda>ms. un_lagging ms m", OF un_drain])
  show ?thesis
    by (rule leads_trans [OF a leads_trans [OF b leads_trans [OF c leads_trans [OF d un_dangle]]]])
qed

end
