(* ===== verification/Mpmc_Unbounded_Steps.thy ===== *)
theory Mpmc_Unbounded_Steps
  imports Mpmc_Unbounded Schedules
begin

text \<open>
  The memory of \<^verbatim>\<open>MpmcUnbounded\<close> (\<^verbatim>\<open>src/src/queue/unbounded.rs\<close>) used by any number of
  threads, for messages without a destructor. A call on the bounded queue of a node is one step,
  answered as the list of \<^verbatim>\<open>Fifo\<close> answers it; the accesses to the pointers of the nodes and of
  the queue are steps of their own, and following a pointer to a node that was freed is undefined
  behaviour. An exchange may fail spuriously.
\<close>

section \<open>The steps\<close>

record 'a mn_node =
  mn_cap :: nat
  mn_ms :: "'a list"
  mn_closed :: bool
  mn_next :: "nat option"

text \<open>
  A sender before the load of the tail; before \<^verbatim>\<open>try_send\<close> on the node; before the load of the
  closed flag; before it makes the temporary node; before the exchange of the link; before it
  frees the temporary node of a failed exchange; before it closes the full node; before it makes
  the new node; before it frees the temporary node; before it sends into the new node; before it
  stores the link; before it stores the tail. A receiver before the load of the head; in
  \<^verbatim>\<open>recv\<close> on the node; before the load of the closed flag; before the load of the successor;
  before \<^verbatim>\<open>get_cap\<close> on it; before the exchange of the head; before it frees the drained node.
  A closer as in \<^verbatim>\<open>SpscUnbounded\<close>.
\<close>

datatype 'a mn_pc =
    Mn_Rest
  | S_Load 'a | S_Try nat 'a | S_Flag 'a | S_Temp nat 'a | S_Link nat nat 'a | S_Drop nat 'a
  | S_Close nat nat 'a | S_Node nat nat 'a | S_Free nat nat nat 'a | S_Put nat nat 'a
  | S_Store nat nat | S_Tail nat | S_End "(unit, 'a send_error) result"
  | D_Load | D_Recv nat | D_Flag nat | D_Next nat | D_Cap nat nat | D_Head nat nat | D_Free nat
  | D_End "('a, recv_error) result"
  | X_New | X_Load nat | X_Link nat nat | X_Flag | X_Head
  | X_Node "nat option" | X_Next nat | X_Second nat | X_End
  | Mn_Wild

text \<open>
  History: the number of sends that were begun, the messages that were queued, and those received.
\<close>

record 'a mn_sys =
  mn_heap :: "nat \<rightharpoonup> 'a mn_node"
  mn_brk :: nat
  mn_head :: nat
  mn_tail :: nat
  mn_flag :: bool
  mn_pcs :: "nat \<Rightarrow> 'a mn_pc"
  mn_begun :: nat
  mn_sent :: "'a list"
  mn_got :: "'a list"

text \<open>A step carries whether an exchange that is made in it fails spuriously.\<close>

datatype 'a mn_action = Mn_Send 'a | Mn_Recv | Mn_Close | Mn_Step bool

definition mn_goto :: "nat \<Rightarrow> 'a mn_pc \<Rightarrow> 'a mn_sys \<Rightarrow> 'a mn_sys" where
  "mn_goto i pc s = s\<lparr>mn_pcs := (mn_pcs s)(i := pc)\<rparr>"

definition mn_put :: "nat \<Rightarrow> 'a mn_node \<Rightarrow> 'a mn_sys \<Rightarrow> 'a mn_sys" where
  "mn_put a n s = s\<lparr>mn_heap := (mn_heap s)(a \<mapsto> n)\<rparr>"

definition mn_free :: "nat \<Rightarrow> 'a mn_sys \<Rightarrow> 'a mn_sys" where
  "mn_free a s = s\<lparr>mn_heap := (mn_heap s)(a := None)\<rparr>"

definition mn_alloc :: "nat \<Rightarrow> bool \<Rightarrow> 'a mn_sys \<Rightarrow> 'a mn_sys" where
  "mn_alloc c b s =
     mn_put (mn_brk s) \<lparr>mn_cap = c, mn_ms = [], mn_closed = b, mn_next = None\<rparr> (s\<lparr>mn_brk := Suc (mn_brk s)\<rparr>)"

definition mn_at :: "nat \<Rightarrow> nat \<Rightarrow> 'a mn_sys \<Rightarrow> ('a mn_node \<Rightarrow> 'a mn_sys option) \<Rightarrow> 'a mn_sys option" where
  "mn_at i a s f = (case mn_heap s a of None \<Rightarrow> Some (mn_goto i Mn_Wild s) | Some n \<Rightarrow> f n)"

text \<open>
  \<^term>\<open>K\<close> is \<^verbatim>\<open>SUB_QUEUE_SIZE\<close>, \<^term>\<open>sp\<close> that the exchange fails spuriously.
\<close>

fun mn_send_next :: "nat \<Rightarrow> bool \<Rightarrow> nat \<Rightarrow> 'a mn_pc \<Rightarrow> 'a mn_sys \<Rightarrow> 'a mn_sys option" where
  "mn_send_next K sp i (S_Load m) s = Some (mn_goto i (S_Try (mn_tail s) m) s)"
| "mn_send_next K sp i (S_Try a m) s = mn_at i a s (\<lambda>n.
     case fifo_step (mn_cap n) (mn_ms n, mn_closed n) (Try_Send m) of
       ((ms, b), Sent (Ok _)) \<Rightarrow>
         Some (mn_goto i (S_End (Ok ())) (mn_put a (n\<lparr>mn_ms := ms\<rparr>) (s\<lparr>mn_sent := mn_sent s @ [m]\<rparr>)))
     | (_, Sent (Err (Disconnected m))) \<Rightarrow> Some (mn_goto i (S_Flag m) s)
     | (_, Sent (Err (Full m))) \<Rightarrow> Some (mn_goto i (S_Temp a m) s)
     | _ \<Rightarrow> None)"
| "mn_send_next K sp i (S_Flag m) s =
     Some (mn_goto i (if mn_flag s then S_End (Err (SendError m)) else S_Load m) s)"
| "mn_send_next K sp i (S_Temp a m) s = Some (mn_goto i (S_Link a (mn_brk s) m) (mn_alloc 1 False s))"
| "mn_send_next K sp i (S_Link a t m) s = mn_at i a s (\<lambda>n.
     Some (if mn_next n = None \<and> \<not> sp
           then mn_goto i (S_Close a t m) (mn_put a (n\<lparr>mn_next := Some t\<rparr>) s)
           else mn_goto i (S_Drop t m) s))"
| "mn_send_next K sp i (S_Drop t m) s = mn_at i t s (\<lambda>_. Some (mn_goto i (S_Load m) (mn_free t s)))"
| "mn_send_next K sp i (S_Close a t m) s = mn_at i a s (\<lambda>n.
     Some (mn_goto i (S_Node a t m) (mn_put a (n\<lparr>mn_closed := True\<rparr>) s)))"
| "mn_send_next K sp i (S_Node a t m) s = Some (mn_goto i (S_Free a t (mn_brk s) m) (mn_alloc K False s))"
| "mn_send_next K sp i (S_Free a t b m) s = mn_at i t s (\<lambda>_. Some (mn_goto i (S_Put a b m) (mn_free t s)))"
| "mn_send_next K sp i (S_Put a b m) s = mn_at i b s (\<lambda>n.
     case fifo_step (mn_cap n) (mn_ms n, mn_closed n) (Try_Send m) of
       ((ms, _), Sent (Ok _)) \<Rightarrow>
         Some (mn_goto i (S_Store a b) (mn_put b (n\<lparr>mn_ms := ms\<rparr>) (s\<lparr>mn_sent := mn_sent s @ [m]\<rparr>)))
     | _ \<Rightarrow> Some (mn_goto i (S_Store a b) s))"
| "mn_send_next K sp i (S_Store a b) s = mn_at i a s (\<lambda>n.
     Some (mn_goto i (S_Tail b) (mn_put a (n\<lparr>mn_next := Some b\<rparr>) s)))"
| "mn_send_next K sp i (S_Tail b) s = Some (mn_goto i (S_End (Ok ())) (s\<lparr>mn_tail := b\<rparr>))"
| "mn_send_next K sp i (S_End r) s = Some (mn_goto i Mn_Rest s)"
| "mn_send_next K sp i _ s = None"

fun mn_recv_next :: "nat \<Rightarrow> bool \<Rightarrow> nat \<Rightarrow> 'a mn_pc \<Rightarrow> 'a mn_sys \<Rightarrow> 'a mn_sys option" where
  "mn_recv_next K sp i D_Load s = Some (mn_goto i (D_Recv (mn_head s)) s)"
| "mn_recv_next K sp i (D_Recv a) s = mn_at i a s (\<lambda>n.
     case mn_ms n of
       m # ms \<Rightarrow> Some (mn_goto i (D_End (Ok m)) (mn_put a (n\<lparr>mn_ms := ms\<rparr>) (s\<lparr>mn_got := mn_got s @ [m]\<rparr>)))
     | [] \<Rightarrow> if mn_closed n then Some (mn_goto i (D_Flag a) s) else None)"
| "mn_recv_next K sp i (D_Flag a) s =
     Some (mn_goto i (if mn_flag s then D_End (Err RecvError) else D_Next a) s)"
| "mn_recv_next K sp i (D_Next a) s = mn_at i a s (\<lambda>n.
     Some (mn_goto i (case mn_next n of None \<Rightarrow> D_Next a | Some b \<Rightarrow> D_Cap a b) s))"
| "mn_recv_next K sp i (D_Cap a b) s = mn_at i b s (\<lambda>n.
     Some (mn_goto i (if mn_cap n \<noteq> K then D_Next a else D_Head a b) s))"
| "mn_recv_next K sp i (D_Head a b) s =
     Some (if mn_head s = a \<and> \<not> sp then mn_goto i (D_Free a) (s\<lparr>mn_head := b\<rparr>) else mn_goto i D_Load s)"
| "mn_recv_next K sp i (D_Free a) s = mn_at i a s (\<lambda>_. Some (mn_goto i D_Load (mn_free a s)))"
| "mn_recv_next K sp i (D_End r) s = Some (mn_goto i Mn_Rest s)"
| "mn_recv_next K sp i _ s = None"

fun mn_close_next :: "bool \<Rightarrow> nat \<Rightarrow> 'a mn_pc \<Rightarrow> 'a mn_sys \<Rightarrow> 'a mn_sys option" where
  "mn_close_next sp i X_New s = Some (mn_goto i (X_Load (mn_brk s)) (mn_alloc 1 True s))"
| "mn_close_next sp i (X_Load b) s = Some (mn_goto i (X_Link (mn_tail s) b) s)"
| "mn_close_next sp i (X_Link a b) s = mn_at i a s (\<lambda>n.
     Some (if mn_next n = None \<and> \<not> sp then mn_goto i X_Flag (mn_put a (n\<lparr>mn_next := Some b\<rparr>) s)
           else mn_goto i (X_Load b) s))"
| "mn_close_next sp i X_Flag s = Some (mn_goto i X_Head (s\<lparr>mn_flag := True\<rparr>))"
| "mn_close_next sp i X_Head s = Some (mn_goto i (X_Node (Some (mn_head s))) s)"
| "mn_close_next sp i (X_Node None) s = Some (mn_goto i Mn_Wild s)"
| "mn_close_next sp i (X_Node (Some h)) s = mn_at i h s (\<lambda>n.
     Some (mn_goto i (X_Next h) (mn_put h (n\<lparr>mn_closed := True\<rparr>) s)))"
| "mn_close_next sp i (X_Next h) s = mn_at i h s (\<lambda>n.
     Some (mn_goto i (case mn_next n of None \<Rightarrow> X_Node None | Some v \<Rightarrow> X_Second v) s))"
| "mn_close_next sp i (X_Second v) s = mn_at i v s (\<lambda>n.
     Some (mn_goto i X_End (mn_put v (n\<lparr>mn_closed := True\<rparr>) s)))"
| "mn_close_next sp i X_End s = Some (mn_goto i Mn_Rest s)"
| "mn_close_next sp i _ s = None"

fun mn_sending :: "'a mn_pc \<Rightarrow> bool" where
  "mn_sending (S_Load m) = True"
| "mn_sending (S_Try a m) = True"
| "mn_sending (S_Flag m) = True"
| "mn_sending (S_Temp a m) = True"
| "mn_sending (S_Link a t m) = True"
| "mn_sending (S_Drop t m) = True"
| "mn_sending (S_Close a t m) = True"
| "mn_sending (S_Node a t m) = True"
| "mn_sending (S_Free a t b m) = True"
| "mn_sending (S_Put a b m) = True"
| "mn_sending (S_Store a b) = True"
| "mn_sending (S_Tail b) = True"
| "mn_sending (S_End r) = True"
| "mn_sending _ = False"

fun mn_receiving :: "'a mn_pc \<Rightarrow> bool" where
  "mn_receiving D_Load = True"
| "mn_receiving (D_Recv a) = True"
| "mn_receiving (D_Flag a) = True"
| "mn_receiving (D_Next a) = True"
| "mn_receiving (D_Cap a b) = True"
| "mn_receiving (D_Head a b) = True"
| "mn_receiving (D_Free a) = True"
| "mn_receiving (D_End r) = True"
| "mn_receiving _ = False"

definition mn_begin :: "nat \<Rightarrow> 'a mn_pc \<Rightarrow> 'a mn_sys \<Rightarrow> 'a mn_sys option" where
  "mn_begin i pc s = (if mn_pcs s i = Mn_Rest then Some (mn_goto i pc s) else None)"

fun mn_act :: "nat \<Rightarrow> nat \<Rightarrow> 'a mn_action \<Rightarrow> 'a mn_sys \<Rightarrow> 'a mn_sys option" where
  "mn_act K i (Mn_Send m) s = mn_begin i (S_Load m) (s\<lparr>mn_begun := Suc (mn_begun s)\<rparr>)"
| "mn_act K i Mn_Recv s = mn_begin i D_Load s"
| "mn_act K i Mn_Close s = mn_begin i X_New s"
| "mn_act K i (Mn_Step sp) s =
     (if mn_sending (mn_pcs s i) then mn_send_next K sp i (mn_pcs s i) s
      else if mn_receiving (mn_pcs s i) then mn_recv_next K sp i (mn_pcs s i) s
      else mn_close_next sp i (mn_pcs s i) s)"

definition mn_new :: "nat \<Rightarrow> 'a mn_sys" where
  "mn_new K = \<lparr>mn_heap = [0 \<mapsto> \<lparr>mn_cap = K, mn_ms = [], mn_closed = False, mn_next = None\<rparr>], mn_brk = 1,
     mn_head = 0, mn_tail = 0, mn_flag = False, mn_pcs = (\<lambda>_. Mn_Rest), mn_begun = 0, mn_sent = [], mn_got = []\<rparr>"

definition mn_run :: "nat \<Rightarrow> (nat \<times> 'a mn_action) list \<Rightarrow> 'a mn_sys \<Rightarrow> 'a mn_sys option" where
  "mn_run K = run_steps (\<lambda>(i, a). mn_act K i a)"

section \<open>The first node\<close>

text \<open>
  While no more than \<^term>\<open>K\<close> sends have begun the first node is never full, so it is the only one.
\<close>

fun mn_first :: "'a mn_pc \<Rightarrow> bool" where
  "mn_first Mn_Rest = True"
| "mn_first (S_Load m) = True"
| "mn_first (S_Try a m) = (a = 0)"
| "mn_first (S_End r) = (r = Ok ())"
| "mn_first D_Load = True"
| "mn_first (D_Recv a) = (a = 0)"
| "mn_first (D_End r) = (\<exists>m. r = Ok m)"
| "mn_first _ = False"

fun mn_pending :: "'a mn_pc \<Rightarrow> bool" where
  "mn_pending (S_Load m) = True"
| "mn_pending (S_Try a m) = True"
| "mn_pending _ = False"

definition mn_inv :: "nat \<Rightarrow> 'a mn_sys \<Rightarrow> bool" where
  "mn_inv K s \<longleftrightarrow>
     (\<exists>ms. mn_heap s = [0 \<mapsto> \<lparr>mn_cap = K, mn_ms = ms, mn_closed = False, mn_next = None\<rparr>] \<and>
       mn_sent s = mn_got s @ ms) \<and>
     mn_head s = 0 \<and> mn_tail s = 0 \<and> \<not> mn_flag s \<and> (\<forall>i. mn_first (mn_pcs s i)) \<and>
     finite {i. mn_pending (mn_pcs s i)} \<and>
     length (mn_sent s) + card {i. mn_pending (mn_pcs s i)} \<le> mn_begun s"

text \<open>Any number of threads send and receive; nobody closes.\<close>

fun mn_open :: "nat \<times> 'a mn_action \<Rightarrow> bool" where
  "mn_open (i, a) = (a \<noteq> Mn_Close)"

lemma pending_upd:
  "{j. P ((f(i := x)) j)} = (if P x then insert i {j. P (f j)} else {j. P (f j)} - {i})"
  by auto

lemma mn_inv_move:
  assumes "mn_inv K s" and "mn_first pc" and "mn_pending pc = mn_pending (mn_pcs s i)"
  shows "mn_inv K (mn_goto i pc s)"
proof -
  have "{j. mn_pending (((mn_pcs s)(i := pc)) j)} = {j. mn_pending (mn_pcs s j)}" using assms(3) by auto
  then show ?thesis using assms(1,2) unfolding mn_inv_def mn_goto_def by simp
qed

lemma mn_inv_begun: "mn_begun s \<le> k \<Longrightarrow> mn_inv K s \<Longrightarrow> mn_inv K (s\<lparr>mn_begun := k\<rparr>)"
  unfolding mn_inv_def by simp

lemma mn_inv_begin:
  assumes "mn_inv K s" and "mn_pcs s i = Mn_Rest"
  shows "mn_inv K (mn_goto i (S_Load m) (s\<lparr>mn_begun := Suc (mn_begun s)\<rparr>))"
proof -
  have "{j. mn_pending (((mn_pcs s)(i := S_Load m)) j)} = insert i {j. mn_pending (mn_pcs s j)}" by auto
  then show ?thesis using assms unfolding mn_inv_def mn_goto_def by (simp add: card_insert_if)
qed

lemma mn_inv_heap:
  assumes "mn_inv K s"
  obtains ms where "mn_heap s = [0 \<mapsto> \<lparr>mn_cap = K, mn_ms = ms, mn_closed = False, mn_next = None\<rparr>]"
    and "mn_sent s = mn_got s @ ms"
  using assms unfolding mn_inv_def by blast

lemma mn_inv_queue:
  assumes I: "mn_inv K s" and pc: "mn_pending (mn_pcs s i)"
    and h: "mn_heap s = [0 \<mapsto> \<lparr>mn_cap = K, mn_ms = ms, mn_closed = False, mn_next = None\<rparr>]"
      "mn_sent s = mn_got s @ ms"
  shows "mn_inv K (mn_goto i (S_End (Ok ())) (mn_put 0 \<lparr>mn_cap = K, mn_ms = ms @ [m], mn_closed = False, mn_next = None\<rparr>
    (s\<lparr>mn_sent := mn_sent s @ [m]\<rparr>)))"
proof -
  let ?P = "{j. mn_pending (mn_pcs s j)}"
  have "{j. mn_pending (((mn_pcs s)(i := S_End (Ok ()))) j)} = ?P - {i}" by auto
  moreover have "card (?P - {i}) < card ?P" using I pc by (intro psubset_card_mono) (auto simp: mn_inv_def)
  ultimately show ?thesis using I h unfolding mn_inv_def mn_goto_def mn_put_def by simp
qed

lemma mn_inv_take:
  assumes I: "mn_inv K s" and pc: "\<not> mn_pending (mn_pcs s i)"
    and h: "mn_heap s = [0 \<mapsto> \<lparr>mn_cap = K, mn_ms = m # ms, mn_closed = False, mn_next = None\<rparr>]"
      "mn_sent s = mn_got s @ m # ms"
  shows "mn_inv K (mn_goto i (D_End (Ok m)) (mn_put 0 \<lparr>mn_cap = K, mn_ms = ms, mn_closed = False, mn_next = None\<rparr>
    (s\<lparr>mn_got := mn_got s @ [m]\<rparr>)))"
proof -
  have "{j. mn_pending (((mn_pcs s)(i := D_End (Ok m))) j)} = {j. mn_pending (mn_pcs s j)}" using pc by auto
  then show ?thesis using I h unfolding mn_inv_def mn_goto_def mn_put_def by simp
qed

lemma mn_inv_room:
  assumes "mn_inv K s" and "mn_begun s \<le> K" and "mn_pending (mn_pcs s i)"
  shows "length (mn_sent s) < K"
proof -
  have "{j. mn_pending (mn_pcs s j)} \<noteq> {}" "finite {j. mn_pending (mn_pcs s j)}"
    using assms unfolding mn_inv_def by blast+
  then have "0 < card {j. mn_pending (mn_pcs s j)}" by (simp add: card_gt_0_iff)
  then show ?thesis using assms(1,2) unfolding mn_inv_def by linarith
qed

lemma mn_inv_step:
  assumes I: "mn_inv K s" and B: "mn_begun s \<le> K" and A: "mn_act K i (Mn_Step sp) s = Some s'"
  shows "mn_inv K s'"
proof -
  obtain ms where h: "mn_heap s = [0 \<mapsto> \<lparr>mn_cap = K, mn_ms = ms, mn_closed = False, mn_next = None\<rparr>]"
      "mn_sent s = mn_got s @ ms"
    by (rule mn_inv_heap [OF I])
  have F: "mn_first (mn_pcs s i)" and T: "mn_tail s = 0" "mn_head s = 0" using I by (simp_all add: mn_inv_def)
  note move = mn_inv_move [OF I, of _ i]
  show ?thesis
  proof (cases "mn_pcs s i")
    case (S_Load m)
    then have "s' = mn_goto i (S_Try 0 m) s" using A T by simp
    then show ?thesis using move [of "S_Try 0 m"] S_Load by simp
  next
    case (S_Try a m)
    have "length ms < K" using mn_inv_room [OF I B, of i] S_Try h by simp
    then have "s' = mn_goto i (S_End (Ok ())) (mn_put 0 \<lparr>mn_cap = K, mn_ms = ms @ [m], mn_closed = False, mn_next = None\<rparr>
        (s\<lparr>mn_sent := mn_sent s @ [m]\<rparr>))"
      using A S_Try F h(1) by (simp add: mn_at_def)
    then show ?thesis using mn_inv_queue [OF I _ h, of i m] S_Try by simp
  next
    case (S_End r)
    then have "s' = mn_goto i Mn_Rest s" using A by simp
    then show ?thesis using move [of Mn_Rest] S_End by simp
  next
    case D_Load
    then have "s' = mn_goto i (D_Recv 0) s" using A T by simp
    then show ?thesis using move [of "D_Recv 0"] D_Load by simp
  next
    case (D_Recv a)
    then obtain m ms' where ms: "ms = m # ms'" using A F h(1) by (cases ms) (simp_all add: mn_at_def)
    then have "s' = mn_goto i (D_End (Ok m)) (mn_put 0 \<lparr>mn_cap = K, mn_ms = ms', mn_closed = False, mn_next = None\<rparr>
        (s\<lparr>mn_got := mn_got s @ [m]\<rparr>))"
      using A D_Recv F h(1) by (simp add: mn_at_def)
    then show ?thesis using mn_inv_take [OF I _ h [unfolded ms], of i] D_Recv by simp
  next
    case (D_End r)
    then have "s' = mn_goto i Mn_Rest s" using A by simp
    then show ?thesis using move [of Mn_Rest] D_End by simp
  qed (use A F in simp_all)
qed

lemmas mn_defs = mn_goto_def mn_put_def mn_alloc_def mn_free_def mn_at_def

lemma mn_begun_send: "mn_send_next K sp i pc s = Some s' \<Longrightarrow> mn_begun s' = mn_begun s"
  by (cases pc) (auto simp: mn_defs split: if_splits option.splits)

lemma mn_begun_recv: "mn_recv_next K sp i pc s = Some s' \<Longrightarrow> mn_begun s' = mn_begun s"
  by (cases pc) (auto simp: mn_defs split: if_splits option.splits list.splits)

lemma mn_begun_close: "mn_close_next sp i pc s = Some s' \<Longrightarrow> mn_begun s' = mn_begun s"
  by (cases "(sp, i, pc, s)" rule: mn_close_next.cases) (auto simp: mn_defs split: if_splits option.splits)

lemma mn_begun_act: "mn_act K i a s = Some s' \<Longrightarrow> mn_begun s \<le> mn_begun s'"
  by (cases a) (auto simp: mn_begin_def mn_goto_def dest: mn_begun_send mn_begun_recv mn_begun_close split: if_splits)

lemma mn_inv_act:
  assumes I: "mn_begun s \<le> K \<Longrightarrow> mn_inv K s" and ok: "mn_open (i, a)" and A: "mn_act K i a s = Some s'"
    and B: "mn_begun s' \<le> K"
  shows "mn_inv K s'"
proof -
  have b: "mn_begun s \<le> K" using mn_begun_act [OF A] B by simp
  show ?thesis
  proof (cases a)
    case (Mn_Send m)
    then show ?thesis using A mn_inv_begin [OF I [OF b], of i m] by (auto simp: mn_begin_def split: if_splits)
  next
    case Mn_Recv
    then show ?thesis using A mn_inv_move [OF I [OF b], of D_Load i] by (auto simp: mn_begin_def split: if_splits)
  next
    case Mn_Close
    then show ?thesis using ok by simp
  next
    case (Mn_Step sp)
    then show ?thesis using mn_inv_step [OF I [OF b] b] A by blast
  qed
qed

lemma mn_inv_run:
  assumes "mn_run K as (mn_new K) = Some s" and "list_all mn_open as" and "mn_begun s \<le> K"
  shows "mn_inv K s"
proof -
  have "mn_begun s \<le> K \<longrightarrow> mn_inv K s"
  proof (rule run_steps_inv [OF _ assms(1) [unfolded mn_run_def] assms(2)])
    show "mn_begun (mn_new K) \<le> K \<longrightarrow> mn_inv K (mn_new K)" by (simp add: mn_inv_def mn_new_def)
  qed (use mn_inv_act in fastforce)
  then show ?thesis using assms(3) by blast
qed

lemma mn_inv_blocked:
  assumes I: "mn_inv K s" and B: "mn_begun s \<le> K" and "mn_pcs s i \<noteq> Mn_Rest"
    and N: "mn_act K i (Mn_Step sp) s = None"
  shows "mn_got s = mn_sent s"
proof -
  obtain ms where h: "mn_heap s = [0 \<mapsto> \<lparr>mn_cap = K, mn_ms = ms, mn_closed = False, mn_next = None\<rparr>]"
      "mn_sent s = mn_got s @ ms"
    by (rule mn_inv_heap [OF I])
  have F: "mn_first (mn_pcs s i)" using I by (simp add: mn_inv_def)
  have "ms = []"
  proof (cases "mn_pcs s i")
    case (S_Try a m)
    then show ?thesis using N F h mn_inv_room [OF I B, of i] by (simp add: mn_at_def)
  next
    case (D_Recv a)
    then show ?thesis using N F h by (cases ms) (simp_all add: mn_at_def)
  qed (use assms(3) N F in simp_all)
  then show ?thesis using h by simp
qed

section \<open>Nodes that are freed while another thread reads them\<close>

text \<open>Thread 0 sends and thread 1 receives.\<close>

fun mn_two :: "nat \<times> 'a mn_action \<Rightarrow> bool" where
  "mn_two (i, Mn_Send m) = (i = 0)"
| "mn_two (i, Mn_Recv) = (i = 1)"
| "mn_two (i, Mn_Close) = False"
| "mn_two (i, Mn_Step sp) = (\<not> sp)"

definition mn_steps :: "nat \<Rightarrow> nat \<Rightarrow> (nat \<times> 'a mn_action) list" where
  "mn_steps i k = replicate k (i, Mn_Step False)"

lemma mn_steps_two [simp]: "list_all mn_two (mn_steps i k)"
  by (simp add: mn_steps_def list_all_iff)

abbreviation mn_leads :: "nat \<Rightarrow> ('a mn_sys \<Rightarrow> bool) \<Rightarrow> ('a mn_sys \<Rightarrow> bool) \<Rightarrow> bool" where
  "mn_leads K \<equiv> leads (\<lambda>(i, a). mn_act K i a) mn_two"

text \<open>The first node holds the messages \<^term>\<open>ms\<close>; thread 2 is at \<^term>\<open>pc\<close>.\<close>

definition mn_filled :: "nat \<Rightarrow> 'a mn_pc \<Rightarrow> 'a list \<Rightarrow> 'a mn_sys \<Rightarrow> bool" where
  "mn_filled K pc ms s \<longleftrightarrow> mn_heap s = [0 \<mapsto> \<lparr>mn_cap = K, mn_ms = ms, mn_closed = False, mn_next = None\<rparr>] \<and>
     mn_brk s = 1 \<and> mn_head s = 0 \<and> mn_tail s = 0 \<and> \<not> mn_flag s \<and> mn_pcs s 0 = Mn_Rest \<and> mn_pcs s 1 = Mn_Rest \<and> mn_pcs s 2 = pc"

text \<open>The sender has closed the full node, linked to the temporary node, and made the new one.\<close>

definition mn_linking :: "nat \<Rightarrow> 'a mn_pc \<Rightarrow> 'a \<Rightarrow> 'a list \<Rightarrow> 'a mn_sys \<Rightarrow> bool" where
  "mn_linking K pc m ms s \<longleftrightarrow> mn_heap s = [0 \<mapsto> \<lparr>mn_cap = K, mn_ms = ms, mn_closed = True, mn_next = Some 1\<rparr>,
        1 \<mapsto> \<lparr>mn_cap = 1, mn_ms = [], mn_closed = False, mn_next = None\<rparr>,
        2 \<mapsto> \<lparr>mn_cap = K, mn_ms = [], mn_closed = False, mn_next = None\<rparr>] \<and>
     mn_head s = 0 \<and> \<not> mn_flag s \<and> mn_pcs s 0 = S_Free 0 1 2 m \<and> mn_pcs s 1 = Mn_Rest \<and> mn_pcs s 2 = pc"

lemmas mn_eval = mn_defs mn_begin_def mn_filled_def mn_linking_def mn_steps_def eval_nat_numeral

lemma mn_fill: "length ms < K \<Longrightarrow> mn_leads K (mn_filled K pc ms) (mn_filled K pc (ms @ [m]))"
  by (rule leadsI [of _ _ "(0, Mn_Send m) # mn_steps 0 3"]) (simp_all add: mn_eval)

lemma mn_overfill: "length ms = K \<Longrightarrow> mn_leads K (mn_filled K pc ms) (mn_linking K pc m ms)"
  by (rule leadsI [of _ _ "(0, Mn_Send m) # mn_steps 0 6"]) (auto simp: mn_eval)

lemma mn_drain: "mn_leads K (mn_linking K pc m (x # ms)) (mn_linking K pc m ms)"
  by (rule leadsI [of _ _ "(1, Mn_Recv) # mn_steps 1 3"]) (auto simp: mn_eval)

lemma mn_dangle: "mn_leads K (mn_linking K pc m []) (\<lambda>s. mn_pcs s 1 = Mn_Wild)"
  by (rule leadsI [of _ _ "(1, Mn_Recv) # mn_steps 1 4 @ mn_steps 0 1 @ mn_steps 1 1"]) (simp_all add: mn_eval)

lemma mn_leads_linking:
  fixes m :: 'a
  shows "mn_leads K (mn_filled K pc []) (mn_linking K pc m [])"
proof -
  let ?ms = "replicate K m"
  have a: "mn_leads K (mn_filled K pc []) (mn_filled K pc ?ms)" by (rule leads_fill [where k = K, OF mn_fill]) simp_all
  have b: "mn_leads K (mn_filled K pc ?ms) (mn_linking K pc m ?ms)" by (rule mn_overfill) simp
  have c: "mn_leads K (mn_linking K pc m ?ms) (mn_linking K pc m [])" by (rule leads_drain [OF mn_drain])
  show ?thesis by (rule leads_trans [OF a leads_trans [OF b c]])
qed

lemma mn_leads_dangling: "mn_leads K (\<lambda>s :: 'a mn_sys. s = mn_new K) (\<lambda>s. mn_pcs s 1 = Mn_Wild)"
proof -
  have "mn_leads K (\<lambda>s. s = mn_new K) (mn_filled K Mn_Rest [])"
    by (rule leadsI [of _ _ "[]"]) (simp_all add: mn_filled_def mn_new_def)
  then show ?thesis by (rule leads_trans [OF _ leads_trans [OF mn_leads_linking mn_dangle]])
qed

text \<open>Thread 2 sends too: it loads the tail and is overtaken.\<close>

fun mn_three :: "nat \<times> 'a mn_action \<Rightarrow> bool" where
  "mn_three (i, Mn_Send m) = (i = 0 \<or> i = 2)"
| "mn_three (i, Mn_Recv) = (i = 1)"
| "mn_three (i, Mn_Close) = False"
| "mn_three (i, Mn_Step sp) = (\<not> sp)"

lemma mn_three_two: "mn_two b \<Longrightarrow> mn_three b"
  by (induction b rule: mn_two.induct) simp_all

lemma mn_steps_three [simp]: "list_all mn_three (mn_steps i k)"
  by (simp add: mn_steps_def list_all_iff)

lemma mn_overtake: "leads (\<lambda>(i, a). mn_act K i a) mn_three (\<lambda>s :: 'a mn_sys. s = mn_new K) (\<lambda>s. mn_pcs s 2 = Mn_Wild)"
proof -
  fix m :: 'a
  have a: "leads (\<lambda>(i, a). mn_act K i a) mn_three (\<lambda>s. s = mn_new K) (mn_filled K (S_Try 0 m) [])"
    by (rule leadsI [of _ _ "(2, Mn_Send m) # mn_steps 2 1"]) (simp_all add: mn_eval mn_new_def)
  have b: "leads (\<lambda>(i, a). mn_act K i a) mn_three (mn_filled K (S_Try 0 m) []) (mn_linking K (S_Try 0 m) m [])"
    by (rule leads_mono [OF mn_three_two mn_leads_linking])
  have c: "leads (\<lambda>(i, a). mn_act K i a) mn_three (mn_linking K (S_Try 0 m) m []) (\<lambda>s. mn_pcs s 2 = Mn_Wild)"
    by (rule leadsI [of _ _ "mn_steps 0 5 @ (1, Mn_Recv) # mn_steps 1 7 @ mn_steps 2 1"])
      (auto simp: mn_eval)
  show ?thesis by (rule leads_trans [OF a leads_trans [OF b c]])
qed

end
