(* ===== verification/Unbounded_Steps_Properties.thy ===== *)
theory Unbounded_Steps_Properties
  imports Spsc_Unbounded_Steps Mpmc_Unbounded_Steps
begin

text \<open>
  What the unbounded queues promise when their accesses to the linked nodes interleave, and the
  schedules in which a thread follows a pointer to a node that another thread has freed.
\<close>

section \<open>One sender and one receiver\<close>




text \<open>
  A thread that receives from an unbounded SPSC queue and then closes it, while another
  thread sends the 1025th message, can follow a pointer to a freed node: the tail is stored after
  the new node has been linked, and \<^verbatim>\<open>close\<close> follows the tail.
\<close>

theorem spsc_unbounded_close_race:
  "\<exists>as s. un_run 1024 as (un_new :: 'a un_sys) = Some s \<and> list_all two_threads as \<and> un_pcs s 1 = Wild"
  using un_leads_dangling [of 1024] unfolding leads_def un_run_def by simp

section \<open>Any number of threads\<close>




text \<open>
  C24: with the 1025th message of an unbounded MPMC queue freed nodes are touched. One sender and
  one receiver are enough: the sender frees the temporary node that claims the link while the
  receiver, which has loaded the link, reads its capacity. And a sender that has loaded the tail
  finds the node gone when the others have filled, drained and freed it.
\<close>

theorem mpmc_unbounded_use_after_free:
  "(\<exists>as s. mn_run 1024 as (mn_new 1024 :: 'a mn_sys) = Some s \<and> list_all mn_two as \<and> mn_pcs s 1 = Mn_Wild) \<and>
   (\<exists>as s. mn_run 1024 as (mn_new 1024 :: 'a mn_sys) = Some s \<and> list_all mn_three as \<and> mn_pcs s 2 = Mn_Wild)"
  using mn_leads_dangling [of 1024] mn_overtake [of 1024] unfolding leads_def mn_run_def by simp

end
