(* ===== verification/Waker_Protocol.thy ===== *)
theory Waker_Protocol
  imports Waker
begin

text \<open>
  How the blocking calls use a waker: a thread makes a waiter, registers it, parks and unparks, and
  unregisters it before it is gone; meanwhile other threads wake or close. Every order of these
  steps keeps the invariant of the waker, so that no step ever follows a dangling waiter.
\<close>

inductive waker_use :: "(nat \<rightharpoonup> waiter) \<Rightarrow> waker \<Rightarrow> bool" where
  new: "waker_use Map.empty waker_default"
| push: "waker_use stk wk \<Longrightarrow> p \<notin> dom stk \<Longrightarrow> waker_use (stk(p \<mapsto> w)) wk"
| register: "waker_use stk wk \<Longrightarrow> stk p = Some w \<Longrightarrow> p \<notin> set (waiters (guard wk)) \<Longrightarrow>
    waker_register cur p w wk = (wk', b) \<Longrightarrow> waker_use stk wk'"
| park: "waker_use stk wk \<Longrightarrow> stk p = Some w \<Longrightarrow> waker_use (stk(p \<mapsto> w\<lparr>parked := v\<rparr>)) wk"
| pop: "waker_use stk wk \<Longrightarrow> p \<notin> set (waiters (guard wk)) \<Longrightarrow> waker_use (stk(p := None)) wk"
| unregister: "waker_use stk wk \<Longrightarrow> waker_use (stk(p := None)) (waker_unregister p wk)"
| wake: "waker_use stk wk \<Longrightarrow> waker_wake_one stk wk = Ret (wk', r) \<Longrightarrow> waker_use stk wk'"
| close_round: "waker_use stk wk \<Longrightarrow> md_close stk (guard wk) = Ret (g, r) \<Longrightarrow> waker_use stk (wk\<lparr>guard := g\<rparr>)"
| close_end: "waker_use stk wk \<Longrightarrow> md_is_empty (guard wk) \<Longrightarrow> waker_use stk (wk\<lparr>empty_flag := True\<rparr>)"

lemma md_close_Ret:
  assumes "md_ok stk md"
  shows "md_close stk md = Ret (md\<lparr>md_closed := True\<rparr>, waiters md)"
  using assms by (simp add: md_close_def md_ok_def wake_every_Ret Let_def)

lemma waker_ok_later:
  assumes "waker_ok stk wk" and "set (waiters (guard wk)) \<subseteq> dom stk'"
  shows "waker_ok stk' wk"
  using assms by (simp add: waker_ok_def md_ok_def)

lemma waker_use_ok: "waker_use stk wk \<Longrightarrow> waker_ok stk wk"
proof (induction rule: waker_use.induct)
  case new
  then show ?case by simp
next
  case (push stk wk p w)
  then show ?case by (intro waker_ok_later [OF push.IH]) (auto simp: waker_ok_def md_ok_def)
next
  case (register stk wk p w cur wk' b)
  then show ?case using waker_ok_register by blast
next
  case (park stk wk p w v)
  then show ?case by (intro waker_ok_later [OF park.IH]) (auto simp: waker_ok_def md_ok_def)
next
  case (pop stk wk p)
  then show ?case by (intro waker_ok_later [OF pop.IH]) (auto simp: waker_ok_def md_ok_def)
next
  case (unregister stk wk p)
  then show ?case by (intro waker_ok_unregister)
next
  case (wake stk wk wk' r)
  from waker_ok_wake_one [OF wake.IH] wake.hyps(2) show ?case by auto
next
  case (close_round stk wk g r)
  then have "md_ok stk (guard wk)" by (simp add: waker_ok_def)
  with close_round show ?case by (auto simp: md_close_Ret waker_ok_def md_ok_def)
next
  case (close_end stk wk)
  then show ?case by (simp add: waker_ok_def md_is_empty_def)
qed

lemma waker_wake_one_woken:
  assumes "waker_ok stk wk" and "waker_wake_one stk wk = Ret (wk', r)"
  shows "set r \<subseteq> set (waiters (guard wk))"
    and "waiters (guard wk) = p # ps \<Longrightarrow> map_option parked (stk p) = Some PARKED \<Longrightarrow> hd r = p \<and> r \<noteq> []"
    and "p \<in> set r \<Longrightarrow> map_option parked (stk p) = Some PARKED"
proof -
  have "md_ok stk (guard wk)" using assms(1) by (simp add: waker_ok_def)
  note N = md_notify_Ret [OF this]
  show "set r \<subseteq> set (waiters (guard wk))"
    using assms(2) set_take_subset by (fastforce simp: waker_wake_one_def N split: if_splits)
  show "waiters (guard wk) = p # ps \<Longrightarrow> map_option parked (stk p) = Some PARKED \<Longrightarrow> hd r = p \<and> r \<noteq> []"
    using assms by (auto simp: waker_wake_one_def N waker_ok_def split: if_splits)
  show "p \<in> set r \<Longrightarrow> map_option parked (stk p) = Some PARKED"
    using assms(2) by (auto simp: waker_wake_one_def N split: if_splits)
qed

end
