(* ===== verification/Parking.thy ===== *)
theory Parking
  imports Waker_Protocol
begin

text \<open>
  One thread that blocks on a bucket, cut at its atomic accesses (\<^verbatim>\<open>Waker::register\<close>,
  \<^verbatim>\<open>Waiter::sleep\<close> and \<^verbatim>\<open>Waker::unregister\<close> of \<^verbatim>\<open>src/src/queue/waker.rs\<close>, in the order
  of \<^verbatim>\<open>Bounded::send\<close> and \<^verbatim>\<open>Bounded::recv\<close>), among any number of threads that change the lap
  of the bucket, call \<^verbatim>\<open>wake_one\<close>, or close the queue.
\<close>

section \<open>The steps\<close>

text \<open>
  Where the waiting thread is: before the registration; at the check of the closed flag; at the
  load of the lap; before the store of \<^verbatim>\<open>UN_PARKED\<close> with the answer; before the store of
  \<^verbatim>\<open>PARKED\<close>; before the futex call; in it; before the deregistration; back, with the answer of
  \<^verbatim>\<open>sleep\<close>, or with \<^term>\<open>None\<close> if the registration was refused.
\<close>

datatype pk_pc = Registering | Checking | Loading | Unparking state | Parking | Waiting | Asleep
  | Leaving state | Back "state option"

text \<open>The other threads: between calls; in \<^verbatim>\<open>wake_one\<close> before the load of the flag and before the
  lock; in \<^verbatim>\<open>close\<close> before the lock.\<close>

datatype pk_other = Elsewhere | At_Flag | At_Lock | At_Close | Broken

text \<open>
  \<^term>\<open>in_window\<close> is history: a thread has run \<^verbatim>\<open>notify\<close> while the waiter was between the
  load of the lap and the futex call.
\<close>

record pk_sys =
  pk_lap :: u32
  pk_closed :: bool
  pk_waiter :: waiter
  pk_wk :: waker
  pk_pc :: pk_pc
  others :: "nat \<Rightarrow> pk_other"
  in_window :: bool

datatype pk_action = Waiter | Spurious | Publish nat u32 | Wake nat | Close nat | Other nat

text \<open>The waiter is at address 0.\<close>

abbreviation pk_stack :: "pk_sys \<Rightarrow> nat \<rightharpoonup> waiter" where
  "pk_stack s \<equiv> [0 \<mapsto> pk_waiter s]"

definition pk_parked :: "u32 \<Rightarrow> pk_sys \<Rightarrow> pk_sys" where
  "pk_parked v s = s\<lparr>pk_waiter := (pk_waiter s)\<lparr>parked := v\<rparr>\<rparr>"

fun pk_own :: "pk_pc \<Rightarrow> pk_sys \<Rightarrow> pk_sys option" where
  "pk_own Registering s =
     (let (wk, b) = waker_register (pk_lap s) 0 (pk_waiter s) (pk_wk s)
      in Some (s\<lparr>pk_wk := wk, pk_pc := if b then Checking else Back None\<rparr>))"
| "pk_own Checking s = Some (s\<lparr>pk_pc := if pk_closed s then Unparking Closed else Loading\<rparr>)"
| "pk_own Loading s =
     Some (s\<lparr>pk_pc := if pk_lap s \<noteq> expected (pk_waiter s) then Unparking Success else Parking\<rparr>)"
| "pk_own (Unparking st) s = Some ((pk_parked UN_PARKED s)\<lparr>pk_pc := Leaving st\<rparr>)"
| "pk_own Parking s = Some ((pk_parked PARKED s)\<lparr>pk_pc := Waiting\<rparr>)"
| "pk_own Waiting s = Some (s\<lparr>pk_pc := if parked (pk_waiter s) = PARKED then Asleep else Checking\<rparr>)"
| "pk_own Asleep s = None"
| "pk_own (Leaving st) s = Some (s\<lparr>pk_wk := waker_unregister 0 (pk_wk s), pk_pc := Back (Some st)\<rparr>)"
| "pk_own (Back r) s = None"

text \<open>The futex calls of \<^verbatim>\<open>notify\<close> and of \<^verbatim>\<open>close\<close>: only a thread in its futex call wakes up.\<close>

definition pk_wake :: "nat list \<Rightarrow> pk_sys \<Rightarrow> pk_sys" where
  "pk_wake r s = (if 0 \<in> set r \<and> pk_pc s = Asleep then s\<lparr>pk_pc := Checking\<rparr> else s)"

definition pk_set :: "nat \<Rightarrow> pk_other \<Rightarrow> pk_sys \<Rightarrow> pk_sys" where
  "pk_set i pc s = s\<lparr>others := (others s)(i := pc)\<rparr>"

fun pk_step_other :: "nat \<Rightarrow> pk_other \<Rightarrow> pk_sys \<Rightarrow> pk_sys option" where
  "pk_step_other i At_Flag s = Some (pk_set i (if \<not> empty_flag (pk_wk s) then At_Lock else Elsewhere) s)"
| "pk_step_other i At_Lock s =
     (case md_notify (pk_stack s) (guard (pk_wk s)) of
        Ret (g, r) \<Rightarrow> Some (pk_wake r (pk_set i Elsewhere
          (s\<lparr>pk_wk := (pk_wk s)\<lparr>guard := g\<rparr>, in_window := (in_window s \<or> pk_pc s \<in> {Parking, Waiting})\<rparr>)))
      | _ \<Rightarrow> Some (pk_set i Broken s))"
| "pk_step_other i At_Close s =
     (if md_is_empty (guard (pk_wk s))
      then Some (pk_set i Elsewhere (s\<lparr>pk_wk := (pk_wk s)\<lparr>empty_flag := True\<rparr>\<rparr>))
      else case md_close (pk_stack s) (guard (pk_wk s)) of
        Ret (g, r) \<Rightarrow> Some (pk_wake r (s\<lparr>pk_wk := (pk_wk s)\<lparr>guard := g\<rparr>\<rparr>))
      | _ \<Rightarrow> Some (pk_set i Broken s))"
| "pk_step_other i _ s = None"

text \<open>
  \<^term>\<open>Publish\<close> stores a lap, \<^term>\<open>Wake\<close> finishes an access to another bucket; both call
  \<^verbatim>\<open>wake_one\<close>. \<^term>\<open>Close\<close> marks the queue closed and calls \<^verbatim>\<open>Waker::close\<close>.
  \<^term>\<open>Spurious\<close> is a futex call that returns by itself.
\<close>

fun pk_act :: "pk_action \<Rightarrow> pk_sys \<Rightarrow> pk_sys option" where
  "pk_act Waiter s = pk_own (pk_pc s) s"
| "pk_act Spurious s = (if pk_pc s = Asleep then Some (s\<lparr>pk_pc := Checking\<rparr>) else None)"
| "pk_act (Publish i l) s =
     (if others s i = Elsewhere then Some (pk_set i At_Flag (s\<lparr>pk_lap := l\<rparr>)) else None)"
| "pk_act (Wake i) s = (if others s i = Elsewhere then Some (pk_set i At_Flag s) else None)"
| "pk_act (Close i) s =
     (if others s i = Elsewhere then Some (pk_set i At_Close (s\<lparr>pk_closed := True\<rparr>)) else None)"
| "pk_act (Other i) s = pk_step_other i (others s i) s"

definition pk_new :: "u32 \<Rightarrow> pk_sys" where
  "pk_new l = \<lparr>pk_lap = l, pk_closed = False, pk_waiter = waiter_new 0 l, pk_wk = waker_default,
     pk_pc = Registering, others = (\<lambda>_. Elsewhere), in_window = False\<rparr>"

fun pk_run :: "pk_action list \<Rightarrow> pk_sys \<Rightarrow> pk_sys option" where
  "pk_run [] s = Some s"
| "pk_run (a # as) s = (case pk_act a s of Some s' \<Rightarrow> pk_run as s' | None \<Rightarrow> None)"



section \<open>The invariant\<close>

fun pk_listed :: "pk_pc \<Rightarrow> bool" where
  "pk_listed Registering = False"
| "pk_listed (Back r) = False"
| "pk_listed _ = True"

fun in_futex :: "pk_pc \<Rightarrow> bool" where
  "in_futex Waiting = True"
| "in_futex Asleep = True"
| "in_futex _ = False"

fun past_lap :: "pk_pc \<Rightarrow> bool" where
  "past_lap Parking = True"
| "past_lap pc = in_futex pc"

fun past_flag :: "pk_pc \<Rightarrow> bool" where
  "past_flag Loading = True"
| "past_flag pc = past_lap pc"



text \<open>
  The waker lists the waiter while it sleeps; past the check of the lap the bucket is not ready, or
  a wake-up is still to come, or one fell into the window; past the check of the flag the queue is
  open or a thread is still closing it.
\<close>

definition lists_me :: "bool \<Rightarrow> waker \<Rightarrow> bool" where
  "lists_me b wk \<longleftrightarrow> start (guard wk) \<le> length (waiters (guard wk)) \<and> (empty_flag wk \<longleftrightarrow> \<not> b) \<and>
     waiters (guard wk) = (if b then [0] else [])"


lemma lists_me_simps [simp]:
  "lists_me b (wk\<lparr>guard := (guard wk)\<lparr>md_closed := True\<rparr>\<rparr>) = lists_me b wk"
  "waiters (guard wk) = [] \<Longrightarrow> lists_me b wk \<Longrightarrow> lists_me b (wk\<lparr>empty_flag := True\<rparr>)"
  by (auto simp: lists_me_def)


lemma past_lap_flag [simp]: "past_lap pc \<Longrightarrow> past_flag pc" "in_futex pc \<Longrightarrow> past_lap pc"
  by (cases pc; simp)+

lemma past_flag_listed [simp]: "past_flag pc \<Longrightarrow> pk_listed pc"
  by (cases pc) simp_all



lemma pk_wake_sel [simp]:
  "pk_lap (pk_wake r s) = pk_lap s" "pk_closed (pk_wake r s) = pk_closed s" "pk_waiter (pk_wake r s) = pk_waiter s"
  "pk_wk (pk_wake r s) = pk_wk s" "others (pk_wake r s) = others s" "in_window (pk_wake r s) = in_window s"
  "pk_pc (pk_wake r s) = (if 0 \<in> set r \<and> pk_pc s = Asleep then Checking else pk_pc s)"
  by (simp_all add: pk_wake_def)

lemma pk_set_sel [simp]:
  "pk_lap (pk_set i pc s) = pk_lap s" "pk_closed (pk_set i pc s) = pk_closed s" "pk_waiter (pk_set i pc s) = pk_waiter s"
  "pk_wk (pk_set i pc s) = pk_wk s" "in_window (pk_set i pc s) = in_window s" "pk_pc (pk_set i pc s) = pk_pc s"
  "others (pk_set i pc s) = (others s)(i := pc)"
  by (simp_all add: pk_set_def)

lemma due_upd:
  "(\<exists>k. ((f :: nat \<Rightarrow> pk_other)(i := pc)) k = At_Close) \<longleftrightarrow> pc = At_Close \<or> (\<exists>k. k \<noteq> i \<and> f k = At_Close)"
  by auto













text \<open>
  The lost wake-up: the lap is stored and \<^verbatim>\<open>notify\<close> runs after the waiter has loaded the old lap
  and before it has stored \<^verbatim>\<open>PARKED\<close>.
\<close>

definition lost_wakeup :: "u32 \<Rightarrow> pk_action list" where
  "lost_wakeup l = [Waiter, Waiter, Waiter, Publish 1 (l + 1), Other 1, Other 1, Waiter, Waiter]"

section \<open>Properties\<close>

text \<open>
  A wake-up can be lost. The waiter has found its bucket not ready; another thread makes the
  bucket ready and completes \<^verbatim>\<open>wake_one\<close>; the waiter stores \<^verbatim>\<open>PARKED\<close> and enters the futex
  call. It sleeps on a ready bucket of an open queue, the other threads are elsewhere, and no step of
  its own is left.
\<close>

theorem lost_wakeup_sleeps:
  "\<exists>s. pk_run (lost_wakeup l) (pk_new l) = Some s \<and> pk_pc s = Asleep \<and> pk_lap s \<noteq> expected (pk_waiter s) \<and>
     \<not> pk_closed s \<and> (\<forall>i. others s i = Elsewhere) \<and> pk_act Waiter s = None"
  by (simp add: lost_wakeup_def pk_new_def waiter_new_def waker_default_def metadata_new_def waker_register_def
      md_register_def md_notify_def pk_set_def pk_wake_def pk_parked_def PARKED_def UN_PARKED_def Let_def)



end
