(* ===== verification/Wait_Group.thy ===== *)
theory Wait_Group
  imports Errors
begin

text \<open>
  \<^verbatim>\<open>src/src/wg.rs\<close>: the operations of a \<^verbatim>\<open>WaitGroup\<close>, and the same operations cut at
  their atomic accesses, as steps of threads that interleave. The crate's futex is a parameter of
  the second model.
\<close>

record wait_group =
  wg_count :: u32
  wg_flag :: u32

definition wg_new :: "u32 \<Rightarrow> wait_group" where
  "wg_new n = \<lparr>wg_count = n, wg_flag = 0\<rparr>"

definition wg_default :: wait_group where
  "wg_default = wg_new 0"

text \<open>\<^verbatim>\<open>fetch_add\<close> wraps around.\<close>

definition wg_add :: "u32 \<Rightarrow> wait_group \<Rightarrow> wait_group" where
  "wg_add n wg = wg\<lparr>wg_count := wg_count wg + n\<rparr>"

text \<open>
  \<^verbatim>\<open>done\<close>: the counter is decremented before it is tested, so a panic leaves it wrapped. The
  result says whether the sleeping threads were woken.
\<close>

definition wg_done :: "wait_group \<Rightarrow> wait_group \<times> bool outcome" where
  "wg_done wg =
     (let count = wg_count wg; wg = wg\<lparr>wg_count := count - 1\<rparr>
      in if \<not> count \<ge> 1 then (wg, Panic)
         else if count > 1 then (wg, Ret False)
         else (wg\<lparr>wg_flag := 1\<rparr>, Ret True))"

definition wg_should_wait :: "wait_group \<Rightarrow> bool" where
  "wg_should_wait wg \<longleftrightarrow> wg_count wg > 0"

text \<open>
  \<^verbatim>\<open>wait\<close>: each futex wait is one pause. \<^term>\<open>get\<close> and \<^term>\<open>upd\<close> select the group in
  the state.
\<close>

partial_function (option) wg_wait ::
  "('q \<Rightarrow> wait_group) \<Rightarrow> ((wait_group \<Rightarrow> wait_group) \<Rightarrow> 'q \<Rightarrow> 'q) \<Rightarrow> 'q runtime \<Rightarrow>
    'q clocked \<Rightarrow> 'q clocked run" where
  "wg_wait get upd rt s =
     (if wg_should_wait (get (snd s)) then wg_wait get upd rt (pause rt s)
      else ret (fst s, upd (\<lambda>wg. wg\<lparr>wg_flag := 0\<rparr>) (snd s)))"

section \<open>Sequential behaviour\<close>

lemma u32_ge_1_iff: "(x :: u32) \<ge> 1 \<longleftrightarrow> x \<noteq> 0"
  by (metis linorder_not_less word_less_1)

lemma wg_done_cases:
  "wg_count wg = 0 \<Longrightarrow> wg_done wg = (wg\<lparr>wg_count := - 1\<rparr>, Panic)"
  "wg_count wg = 1 \<Longrightarrow> wg_done wg = (wg\<lparr>wg_count := 0, wg_flag := 1\<rparr>, Ret True)"
  "wg_count wg > 1 \<Longrightarrow> wg_done wg = (wg\<lparr>wg_count := wg_count wg - 1\<rparr>, Ret False)"
  by (auto simp: wg_done_def Let_def u32_ge_1_iff)

lemma wg_wait_zero:
  "wg_count (get q) = 0 \<Longrightarrow>
     wg_wait get upd rt (k, q) = ret (k, upd (\<lambda>wg. wg\<lparr>wg_flag := 0\<rparr>) q)"
  by (subst wg_wait.simps) (simp add: wg_should_wait_def)

text \<open>Whatever the other threads do, a wait that returns has found the counter at zero.\<close>

lemma wg_wait_returns:
  assumes "wg_wait get upd rt s = Some r"
  shows "\<exists>k q. r = Ret (k, upd (\<lambda>wg. wg\<lparr>wg_flag := 0\<rparr>) q) \<and> wg_count (get q) = 0"
  by (rule wg_wait.raw_induct [OF _ assms, where P = "\<lambda>get upd rt s r.
        \<exists>k q. r = Ret (k, upd (\<lambda>wg. wg\<lparr>wg_flag := 0\<rparr>) q) \<and> wg_count (get q) = 0"])
    (auto simp: wg_should_wait_def word_gt_0 split: if_splits)

text \<open>It returns in the pause in which the counter reaches zero.\<close>

lemma wg_wait_until:
  assumes "k \<le> n" and "\<And>j. k \<le> j \<Longrightarrow> j < n \<Longrightarrow> env rt j q = q" and "wg_count (get q) \<noteq> 0"
    and "wg_count (get (env rt n q)) = 0"
  shows "wg_wait get upd rt (k, q) = ret (Suc n, upd (\<lambda>wg. wg\<lparr>wg_flag := 0\<rparr>) (env rt n q))"
  using assms(1,2)
proof (induction "n - k" arbitrary: k)
  case 0
  then have "k = n" by simp
  with assms(3,4) show ?case
    by (subst wg_wait.simps) (simp add: wg_should_wait_def word_gt_0 wg_wait_zero)
next
  case (Suc d)
  then have "env rt k q = q" by simp
  with assms(3) have "wg_wait get upd rt (k, q) = wg_wait get upd rt (Suc k, q)"
    by (subst wg_wait.simps) (simp add: wg_should_wait_def word_gt_0)
  with Suc show ?case by simp
qed

lemma wg_wait_diverges:
  assumes "quiet rt" and "wg_count (get q) \<noteq> 0"
  shows "diverges (wg_wait get upd rt (k, q))"
proof (rule ccontr)
  assume "wg_wait get upd rt (k, q) \<noteq> None"
  then obtain r where "wg_wait get upd rt (k, q) = Some r" by blast
  then have "\<not> (quiet rt \<and> wg_count (get (snd (k, q))) \<noteq> 0)"
    by (rule wg_wait.raw_induct [where
          P = "\<lambda>get upd rt s r. \<not> (quiet rt \<and> wg_count (get (snd s)) \<noteq> 0)", rotated])
      (auto simp: wg_should_wait_def word_gt_0 pause_def split: if_splits)
  with assms show False by simp
qed

text \<open>\<^term>\<open>n\<close> calls of \<^verbatim>\<open>done\<close> in a row.\<close>

fun wg_dones :: "nat \<Rightarrow> wait_group \<Rightarrow> wait_group \<times> bool outcome list" where
  "wg_dones 0 wg = (wg, [])"
| "wg_dones (Suc n) wg =
     (let (wg, r) = wg_done wg; (wg, rs) = wg_dones n wg in (wg, r # rs))"

lemma wg_dones_all:
  "unat (wg_count wg) = Suc n \<Longrightarrow>
     wg_dones (Suc n) wg = (wg\<lparr>wg_count := 0, wg_flag := 1\<rparr>, replicate n (Ret False) @ [Ret True])"
proof (induction n arbitrary: wg)
  case 0
  then have "wg_count wg = 1" by (metis One_nat_def unat_1 word_unat_eq_iff)
  then show ?case by (simp add: wg_done_cases)
next
  case (Suc n)
  then have c: "wg_count wg > 1" by (simp add: word_less_nat_alt)
  have "unat (wg_count wg - 1) = Suc n"
    using Suc.prems unat_minus_one [of "wg_count wg"] by (cases "wg_count wg = 0") simp_all
  with Suc.IH [of "wg\<lparr>wg_count := wg_count wg - 1\<rparr>"] c show ?case
    by (simp add: wg_done_cases(3) Let_def del: wg_dones.simps(2))
      (simp add: wg_done_cases(3) Let_def)
qed

section \<open>Interleaved threads\<close>

text \<open>
  Where a thread is: outside every call; before the test of \<^verbatim>\<open>wait\<close>; between the test and the
  futex; asleep in the futex; between the test and the reset of the flag; in \<^verbatim>\<open>done\<close> before the
  store of the flag; before \<^verbatim>\<open>wake_all\<close>; gone by a panic.
\<close>

datatype wg_pc = Idle | Check | Blocking | Sleeping | Leaving | Storing | Waking | Panicked

record wg_sys =
  the_wg :: wait_group
  pcs :: "nat \<Rightarrow> wg_pc"

datatype wg_action = Add u32 | Done | Wait | Next

definition goto :: "nat \<Rightarrow> wg_pc \<Rightarrow> wg_sys \<Rightarrow> wg_sys" where
  "goto i pc s = s\<lparr>pcs := (pcs s)(i := pc)\<rparr>"

definition wake_all :: "wg_sys \<Rightarrow> wg_sys" where
  "wake_all s = s\<lparr>pcs := (\<lambda>j. if pcs s j = Sleeping then Check else pcs s j)\<rparr>"

text \<open>
  \<^term>\<open>wg_act blocks W i a s\<close>: thread \<^term>\<open>i\<close> starts the call \<^term>\<open>a\<close> or, with
  \<^const>\<open>Next\<close>, performs its next atomic access. Only the threads of \<^term>\<open>W\<close> call
  \<^verbatim>\<open>wait\<close>. \<^term>\<open>blocks v e\<close> says whether the futex puts a thread to sleep that expects
  \<^term>\<open>e\<close> where the word holds \<^term>\<open>v\<close>; a sleeping thread may also wake spuriously. An
  addition that would overflow the counter is left out.
\<close>

fun wg_act :: "(u32 \<Rightarrow> u32 \<Rightarrow> bool) \<Rightarrow> (nat \<Rightarrow> bool) \<Rightarrow> nat \<Rightarrow> wg_action \<Rightarrow> wg_sys \<Rightarrow> wg_sys option" where
  "wg_act blocks W i (Add n) s =
     (if pcs s i = Idle \<and> unat (wg_count (the_wg s)) + unat n < 2 ^ 32
      then Some (s\<lparr>the_wg := wg_add n (the_wg s)\<rparr>) else None)"
| "wg_act blocks W i Done s =
     (if pcs s i = Idle then
        let count = wg_count (the_wg s);
            s = s\<lparr>the_wg := (the_wg s)\<lparr>wg_count := count - 1\<rparr>\<rparr>
        in Some (if \<not> count \<ge> 1 then goto i Panicked s
                 else if count > 1 then s
                 else goto i Storing s)
      else None)"
| "wg_act blocks W i Wait s = (if pcs s i = Idle \<and> W i then Some (goto i Check s) else None)"
| "wg_act blocks W i Next s =
     (case pcs s i of
        Check \<Rightarrow> Some (goto i (if wg_should_wait (the_wg s) then Blocking else Leaving) s)
      | Blocking \<Rightarrow> Some (goto i (if blocks (wg_flag (the_wg s)) 0 then Sleeping else Check) s)
      | Sleeping \<Rightarrow> Some (goto i Check s)
      | Leaving \<Rightarrow> Some (goto i Idle (s\<lparr>the_wg := (the_wg s)\<lparr>wg_flag := 0\<rparr>\<rparr>))
      | Storing \<Rightarrow> Some (goto i Waking (s\<lparr>the_wg := (the_wg s)\<lparr>wg_flag := 1\<rparr>\<rparr>))
      | Waking \<Rightarrow> Some (wake_all (goto i Idle s))
      | _ \<Rightarrow> None)"

definition wg_sys_new :: "u32 \<Rightarrow> wg_sys" where
  "wg_sys_new n = \<lparr>the_wg = wg_new n, pcs = (\<lambda>_. Idle)\<rparr>"

inductive wg_reach :: "(u32 \<Rightarrow> u32 \<Rightarrow> bool) \<Rightarrow> (nat \<Rightarrow> bool) \<Rightarrow> wg_sys \<Rightarrow> bool"
  for blocks W where
  start: "wg_reach blocks W (wg_sys_new n)"
| step: "wg_reach blocks W s \<Longrightarrow> wg_act blocks W i a s = Some s' \<Longrightarrow> wg_reach blocks W s'"

fun wg_schedule :: "(u32 \<Rightarrow> u32 \<Rightarrow> bool) \<Rightarrow> (nat \<Rightarrow> bool) \<Rightarrow> (nat \<times> wg_action) list \<Rightarrow> wg_sys \<Rightarrow>
    wg_sys option" where
  "wg_schedule blocks W [] s = Some s"
| "wg_schedule blocks W ((i, a) # xs) s =
     Option.bind (wg_act blocks W i a s) (wg_schedule blocks W xs)"

lemma wg_schedule_reach:
  "wg_reach blocks W s \<Longrightarrow> wg_schedule blocks W xs s = Some s' \<Longrightarrow> wg_reach blocks W s'"
proof (induction xs arbitrary: s)
  case Nil
  then show ?case by simp
next
  case (Cons x xs)
  obtain i a where "x = (i, a)" by (cases x)
  with Cons show ?case
    by (auto split: Option.bind_splits intro: wg_reach.step)
qed

text \<open>The futex sleeps only where the word holds what is expected.\<close>

definition futex_ok :: "(u32 \<Rightarrow> u32 \<Rightarrow> bool) \<Rightarrow> bool" where
  "futex_ok blocks \<longleftrightarrow> (\<forall>v e. blocks v e \<longrightarrow> v = e)"

text \<open>
  With one waiting thread: when the counter is zero, a sleeping waiter is about to be woken, and
  a waiter on its way to the futex will not sleep for good.
\<close>

fun working :: "wg_pc \<Rightarrow> bool" where
  "working Idle = True" | "working Storing = True" | "working Waking = True"
| "working Panicked = True" | "working _ = False"

definition wake_due :: "nat \<Rightarrow> wg_sys \<Rightarrow> bool" where
  "wake_due w s \<longleftrightarrow>
     (\<forall>i. i \<noteq> w \<longrightarrow> working (pcs s i)) \<and>
     (wg_count (the_wg s) = 0 \<longrightarrow>
       (pcs s w = Sleeping \<longrightarrow> (\<exists>i. pcs s i = Storing \<or> pcs s i = Waking)) \<and>
       (pcs s w = Blocking \<longrightarrow> wg_flag (the_wg s) = 1 \<or> (\<exists>i. pcs s i = Storing)))"

lemma goto_sel [simp]:
  "the_wg (goto i pc s) = the_wg s" "pcs (goto i pc s) = (pcs s)(i := pc)"
  "the_wg (wake_all s) = the_wg s"
  by (simp_all add: goto_def wake_all_def)

lemma wake_due_act:
  assumes f: "futex_ok blocks" and I: "wake_due w s" and A: "wg_act blocks ((=) w) i a s = Some s'"
  shows "wake_due w s'"
proof (cases a)
  case (Add n)
  from A Add have s': "s' = s\<lparr>the_wg := wg_add n (the_wg s)\<rparr>"
    and b: "unat (wg_count (the_wg s)) + unat n < 2 ^ 32" by (auto split: if_splits)
  have "wg_count (the_wg s) = 0" if "wg_count (the_wg s) + n = 0"
  proof -
    have "unat (wg_count (the_wg s) + n) = unat (wg_count (the_wg s)) + unat n"
      using b by (simp add: unat_word_ariths)
    with that have "unat (wg_count (the_wg s)) = unat (0 :: u32)" by simp
    then show ?thesis by (simp only: word_unat_eq_iff)
  qed
  with I s' show ?thesis by (simp add: wake_due_def wg_add_def)
next
  case Done
  with A I show ?thesis
    by (fastforce simp: wake_due_def Let_def split: if_splits)
next
  case Wait
  with A I show ?thesis
    by (auto simp: wake_due_def split: if_splits)
next
  case Next
  note I' = I [unfolded wake_due_def]
  show ?thesis
  proof (cases "pcs s i")
    case Idle
    then show ?thesis using A Next by simp
  next
    case Check
    then have "i = w" using I' by force
    with Check A Next I' show ?thesis
      by (auto simp: wake_due_def wg_should_wait_def)
  next
    case Blocking
    then have "i = w" using I' by force
    have st: "j \<noteq> w" if "pcs s j = Storing" for j using that Blocking \<open>i = w\<close> by auto
    show ?thesis
    proof (cases "blocks (wg_flag (the_wg s)) 0")
      case True
      with f have "wg_flag (the_wg s) = 0" by (simp add: futex_ok_def)
      moreover have "s' = goto w Sleeping s" using Blocking A Next \<open>i = w\<close> True by simp
      ultimately show ?thesis using I' Blocking \<open>i = w\<close> st by (auto simp: wake_due_def)
    next
      case False
      then have "s' = goto w Check s" using Blocking A Next \<open>i = w\<close> by simp
      then show ?thesis using I' by (auto simp: wake_due_def)
    qed
  next
    case Sleeping
    then have "i = w" using I' by force
    with Sleeping A Next I' show ?thesis
      by (auto simp: wake_due_def)
  next
    case Leaving
    then have "i = w" using I' by force
    with Leaving A Next I' show ?thesis
      by (auto simp: wake_due_def)
  next
    case Storing
    with A Next I' show ?thesis
      by (auto simp: wake_due_def)
  next
    case Waking
    have P: "pcs s' j = (if j = i then Idle else if pcs s j = Sleeping then Check else pcs s j)" for j
      using Waking A Next by (auto simp: wake_all_def)
    have g: "the_wg s' = the_wg s" using Waking A Next by auto
    have st: "pcs s' j = Storing" if "pcs s j = Storing" for j using Waking that P [of j] by auto
    have "working (pcs s' j)" if "j \<noteq> w" for j
      using I' that P [of j] by (cases "pcs s j") (auto dest: spec [of _ j])
    moreover have "pcs s' w \<noteq> Sleeping" using P [of w] by auto
    moreover have "pcs s w = Blocking" if "pcs s' w = Blocking"
      using P [of w] that by (auto split: if_splits)
    ultimately show ?thesis
      using I' st unfolding wake_due_def g by blast
  next
    case Panicked
    then show ?thesis using A Next by simp
  qed
qed

lemma wake_due_reach:
  assumes "futex_ok blocks" and "wg_reach blocks ((=) w) s"
  shows "wake_due w s"
  using assms(2)
proof induction
  case (start n)
  then show ?case by (simp add: wake_due_def wg_sys_new_def)
next
  case (step s i a s')
  then show ?case using wake_due_act [OF assms(1)] by blast
qed

text \<open>
  Nothing but the waiter's own steps is needed to bring it home once the counter is zero and the
  other threads are done.
\<close>

lemma waiter_returns:
  assumes "wake_due w s" and "wg_count (the_wg s) = 0" and "futex_ok blocks"
    and "\<And>i. i \<noteq> w \<Longrightarrow> pcs s i = Idle \<or> pcs s i = Panicked"
    and "pcs s w \<in> {Check, Blocking, Sleeping, Leaving}"
  shows "\<exists>xs s'. set xs \<subseteq> {(w, Next)} \<and> length xs \<le> 3 \<and>
    wg_schedule blocks ((=) w) xs s = Some s' \<and> pcs s' w = Idle"
proof -
  have nost: "pcs s i \<noteq> Storing \<and> pcs s i \<noteq> Waking" for i
    using assms(4) [of i] assms(5) by (cases "i = w") auto
  let ?run = "\<lambda>n. wg_schedule blocks ((=) w) (replicate n (w, Next)) s"
  have sz: "\<not> wg_should_wait (the_wg s)" using assms(2) by (simp add: wg_should_wait_def)
  have "\<exists>n\<le>3. \<exists>s'. ?run n = Some s' \<and> pcs s' w = Idle"
  proof (cases "pcs s w")
    case Check
    then show ?thesis using sz by (intro exI [of _ 2]) (simp add: numeral_2_eq_2)
  next
    case Blocking
    then have "wg_flag (the_wg s) = 1" using assms(1,2) nost by (auto simp: wake_due_def)
    then have "\<not> blocks (wg_flag (the_wg s)) 0"
      using assms(3) unfolding futex_ok_def by (metis zero_neq_one)
    then show ?thesis using sz Blocking by (intro exI [of _ 3]) (simp add: numeral_3_eq_3)
  next
    case Sleeping
    then show ?thesis using assms(1,2) nost by (auto simp: wake_due_def)
  next
    case Leaving
    then show ?thesis by (intro exI [of _ 1]) simp
  qed (use assms(5) in auto)
  then obtain n s' where "n \<le> 3" "?run n = Some s'" "pcs s' w = Idle" by blast
  then show ?thesis by (intro exI [of _ "replicate n (w, Next)"] exI [of _ s']) auto
qed

text \<open>
  With two waiters a wake-up can get lost: the first to notice resets the flag before the second
  reaches the futex.
\<close>

definition lost_schedule :: "(nat \<times> wg_action) list" where
  "lost_schedule =
     [(1, Wait), (1, Next), (2, Wait), (2, Next), (0, Done), (0, Next), (0, Next),
      (1, Next), (1, Next), (1, Next), (2, Next)]"

lemma lost_wake_up:
  "\<exists>s. wg_schedule (=) (\<lambda>i. i = 1 \<or> i = 2) lost_schedule (wg_sys_new 1) = Some s \<and>
     wg_count (the_wg s) = 0 \<and> pcs s 2 = Sleeping \<and> (\<forall>i. i \<noteq> 2 \<longrightarrow> pcs s i = Idle)"
  by (simp add: lost_schedule_def wg_sys_new_def wg_new_def goto_def wake_all_def wg_should_wait_def
      Let_def)

end
