(* ===== verification/Sync_Properties.thy ===== *)
theory Sync_Properties
  imports Parking Wait_Group
begin

text \<open>
  The properties of the waker, on which blocking rests, and of the wait group.
\<close>

section \<open>Waker\<close>

text \<open>
  C37: in every order of registering, parking, waking, closing and unregistering, the waker keeps
  its invariant: \<^verbatim>\<open>wake_one\<close> and a round of \<^verbatim>\<open>close\<close> return (no dangling waiter, no index
  out of range), \<^verbatim>\<open>wake_one\<close> wakes registered and parked threads only, the one that has waited
  longest among them if it is parked, and a round of \<^verbatim>\<open>close\<close> wakes every registered thread.
\<close>

theorem waker_safe:
  assumes "waker_use stk wk"
  shows "waker_ok stk wk \<and>
    (\<exists>wk' r. waker_wake_one stk wk = Ret (wk', r) \<and> set r \<subseteq> set (waiters (guard wk)) \<and>
      (\<forall>p\<in>set r. map_option parked (stk p) = Some PARKED) \<and>
      (\<forall>p ps. waiters (guard wk) = p # ps \<and> map_option parked (stk p) = Some PARKED \<longrightarrow> r \<noteq> [] \<and> hd r = p)) \<and>
    md_close stk (guard wk) = Ret ((guard wk)\<lparr>md_closed := True\<rparr>, waiters (guard wk))"
proof -
  have ok: "waker_ok stk wk" by (rule waker_use_ok [OF assms])
  then have "md_ok stk (guard wk)" by (simp add: waker_ok_def)
  note close = md_close_Ret [OF this]
  obtain wk' r where w: "waker_wake_one stk wk = Ret (wk', r)" using waker_ok_wake_one [OF ok] by metis
  from waker_wake_one_woken [OF ok this] show ?thesis using ok close w by blast
qed

theorem waker_safe_witness:
  "\<exists>stk wk wk' r. waker_use stk wk \<and> waiters (guard wk) = [3] \<and>
     waker_wake_one stk wk = Ret (wk', r) \<and> r \<noteq> [] \<and> hd r = 3"
proof -
  let ?w = "waiter_new 0 7" and ?stk = "[3 \<mapsto> waiter_new 0 7]"
  obtain wk where wk: "waker_register 7 3 ?w waker_default = (wk, True)" "waiters (guard wk) = [3]"
    by (simp add: waker_register_def waker_default_def metadata_new_def md_register_def)
  have "waker_use ?stk waker_default" using waker_use.push [OF waker_use.new, of 3 ?w] by simp
  then have "waker_use ?stk wk"
    by (rule waker_use.register [where p = 3 and w = ?w and cur = 7 and b = True]) (use wk in simp_all)
  then have U: "waker_use (?stk(3 \<mapsto> ?w\<lparr>parked := PARKED\<rparr>)) wk"
    by (rule waker_use.park) simp
  from waker_safe [OF this] wk(2) U show ?thesis by fastforce
qed

section \<open>Wait group\<close>



text \<open>
  A \<^verbatim>\<open>done\<close> too many panics, but the counter has already wrapped around: a wait on the
  group then never returns.
\<close>

theorem wg_done_underflow:
  assumes "wg_count wg = 0" and "quiet rt"
  shows "\<exists>wg'. wg_done wg = (wg', Panic) \<and> wg_count wg' = 4294967295 \<and>
    diverges (wg_wait (\<lambda>q. q) (\<lambda>f. f) rt (k, wg'))"
  using wg_done_cases(1) [OF assms(1)] wg_wait_diverges [OF assms(2)] by simp

theorem wg_done_underflow_witness:
  "\<exists>wg'. wg_done wg_default = (wg', Panic) \<and> wg_count wg' = 4294967295 \<and>
    diverges (wg_wait (\<lambda>q. q) (\<lambda>f. f) solo (0, wg'))"
  by (rule wg_done_underflow) (simp_all add: wg_default_def wg_new_def)



text \<open>
  Two waiters can lose a wake-up. The group is open with one member; both threads find the
  counter at one, the member finishes and wakes the first, which resets the flag on its way out;
  the second then goes to sleep with the counter at zero and nobody left to wake it.
\<close>

theorem wg_two_waiters:
  "\<exists>s. wg_schedule (=) (\<lambda>i. i = 1 \<or> i = 2) lost_schedule (wg_sys_new 1) = Some s \<and>
     wg_count (the_wg s) = 0 \<and> pcs s 2 = Sleeping \<and> (\<forall>i. i = 2 \<or> pcs s i = Idle)"
  using lost_wake_up by blast

end
