(* ===== verification/Source.thy ===== *)
theory Source
  imports Wait_Group
begin

text \<open>
  \<^verbatim>\<open>src/src/single/source.rs\<close>: a group that collects the results of a fixed number of
  functions, each added by some thread.
\<close>

section \<open>User functions and boxed values\<close>

text \<open>
  A \<^verbatim>\<open>Box<dyn Any>\<close> is a value with the identity of its type; \<^verbatim>\<open>downcast_ref::<T>().unwrap()\<close>
  panics when the types differ.
\<close>

record 'v boxed =
  type_id :: nat
  payload :: 'v

datatype 'v response = Response "'v boxed"

fun response_as_ref :: "nat \<Rightarrow> 'v response \<Rightarrow> 'v outcome" where
  "response_as_ref ty (Response b) = (if type_id b = ty then Ret (payload b) else Panic)"

fun response_as_mut :: "nat \<Rightarrow> ('v \<Rightarrow> 'v) \<Rightarrow> 'v response \<Rightarrow> 'v response outcome" where
  "response_as_mut ty f (Response b) =
     (if type_id b = ty then Ret (Response (b\<lparr>payload := f (payload b)\<rparr>)) else Panic)"

text \<open>
  A user's function may return, panic or never return; \<^verbatim>\<open>catch_unwind\<close> turns a panic into an
  error value.
\<close>

type_synonym 'v user_fn = "('v, wrap_error) result run"

fun catch_unwind :: "'v user_fn \<Rightarrow> (('v, wrap_error) result, unit) result run" where
  "catch_unwind (Some (Ret r)) = ret (Ok r)"
| "catch_unwind (Some Panic) = ret (Err ())"
| "catch_unwind (Some Undef) = Some Undef"
| "catch_unwind None = None"

section \<open>The group\<close>

record 'v src_call =
  key :: string
  src_result :: "('v response, wrap_error) result option"

definition src_call_default :: "'v src_call" where
  "src_call_default = \<lparr>key = '''', src_result = None\<rparr>"

record 'v src_group =
  calls :: "'v src_call list"
  index :: u32
  src_wg :: wait_group

definition src_group_new :: "u32 \<Rightarrow> 'v src_group" where
  "src_group_new n =
     \<lparr>calls = replicate (unat n) src_call_default, index = 0, src_wg = wg_new n\<rparr>"

text \<open>\<^verbatim>\<open>add\<close> up to the assertion: a failed assertion leaves the index incremented.\<close>

definition src_claim :: "'v src_group \<Rightarrow> 'v src_group \<times> nat outcome" where
  "src_claim g =
     (let i = index g; g = g\<lparr>index := index g + 1\<rparr>
      in (g, if i < word_of_nat (length (calls g)) then Ret (unat i) else Panic))"

text \<open>The macros \<^verbatim>\<open>set_result!\<close> and \<^verbatim>\<open>set_error!\<close>, and what \<^verbatim>\<open>add\<close> stores.\<close>

fun src_outcome :: "nat \<Rightarrow> (('v, wrap_error) result, unit) result \<Rightarrow> ('v response, wrap_error) result" where
  "src_outcome ty (Inr (Inr data)) = Ok (Response \<lparr>type_id = ty, payload = data\<rparr>)"
| "src_outcome ty (Inr (Inl err)) = Err (WrapError (wrap_error_display err))"
| "src_outcome ty (Inl _) = Err (WrapError ''function of user panic'')"

definition src_store :: "nat \<Rightarrow> string \<Rightarrow> ('v response, wrap_error) result \<Rightarrow> 'v src_group \<Rightarrow>
    'v src_group \<times> bool outcome" where
  "src_store i k r g =
     (let g = g\<lparr>calls := (calls g)[i := \<lparr>key = k, src_result = Some r\<rparr>]\<rparr>;
          (wg, b) = wg_done (src_wg g)
      in (g\<lparr>src_wg := wg\<rparr>, b))"

text \<open>While the user's function runs, other threads do: one pause.\<close>

definition src_add :: "'v src_group runtime \<Rightarrow> nat \<Rightarrow> string \<Rightarrow> 'v user_fn \<Rightarrow> 'v src_group clocked \<Rightarrow>
    'v src_group clocked run" where
  "src_add rt ty k func s =
     (let (g, i) = src_claim (snd s)
      in rbind (Some i) (\<lambda>i.
        rbind (catch_unwind func) (\<lambda>r.
          let (t, g) = pause rt (fst s, g);
              (g, b) = src_store i k (src_outcome ty r) g
          in rbind (Some b) (\<lambda>_. ret (t, g)))))"

fun find_call :: "string \<Rightarrow> 'v src_call list \<Rightarrow> 'v src_call option" where
  "find_call k [] = None"
| "find_call k (c # cs) = (if key c = k then Some c else find_call k cs)"

definition src_get :: "string \<Rightarrow> 'v src_group \<Rightarrow> ('v response, wrap_error) result outcome" where
  "src_get k g =
     (case find_call k (calls g) of
        Some c \<Rightarrow> (case src_result c of None \<Rightarrow> Undef | Some r \<Rightarrow> Ret r)
      | None \<Rightarrow> Ret (Err (WrapError ''key doesn't exist'')))"

definition src_sum :: "'v src_group runtime \<Rightarrow> 'v src_group clocked \<Rightarrow> 'v src_group clocked run" where
  "src_sum rt s = wg_wait src_wg src_wg_update rt s"

definition src_reset :: "u32 \<Rightarrow> 'v src_group \<Rightarrow> 'v src_group" where
  "src_reset n g =
     g\<lparr>calls := replicate (unat n) src_call_default, index := n, src_wg := wg_new n\<rparr>"

section \<open>Threads that add concurrently\<close>

text \<open>
  A thread claims an index, computes its result outside the group, and stores it.
  \<^term>\<open>claims\<close> lists, for the indices claimed within range, the key and the result their
  threads will store; \<^term>\<open>pending\<close> the indices whose results are still to be stored. The
  threads call \<^verbatim>\<open>add\<close> fewer than \<open>2^32\<close> times, so that the index does not wrap around.
\<close>

record 'v src_sys =
  grp :: "'v src_group"
  claims :: "(string \<times> ('v response, wrap_error) result) list"
  pending :: "nat list"

inductive src_step :: "'v src_sys \<Rightarrow> 'v src_sys \<Rightarrow> bool" where
  claim: "src_claim (grp s) = (g, Ret i) \<Longrightarrow>
      src_step s (s\<lparr>grp := g, claims := claims s @ [(k, r)], pending := i # pending s\<rparr>)"
| claim_panics: "src_claim (grp s) = (g, Panic) \<Longrightarrow> unat (index (grp s)) + 1 < 2 ^ 32 \<Longrightarrow>
      src_step s (s\<lparr>grp := g\<rparr>)"
| store: "i \<in> set (pending s) \<Longrightarrow> src_store i (fst (claims s ! i)) (snd (claims s ! i)) (grp s) = (g, b) \<Longrightarrow>
      src_step s (s\<lparr>grp := g, pending := remove1 i (pending s)\<rparr>)"

inductive_cases src_stepE: "src_step s s'"

inductive src_reach :: "u32 \<Rightarrow> 'v src_sys \<Rightarrow> bool" for n where
  start: "src_reach n \<lparr>grp = src_group_new n, claims = [], pending = []\<rparr>"
| step: "src_reach n s \<Longrightarrow> src_step s s' \<Longrightarrow> src_reach n s'"

definition filled :: "string \<times> ('v response, wrap_error) result \<Rightarrow> 'v src_call" where
  "filled c = \<lparr>key = fst c, src_result = Some (snd c)\<rparr>"

text \<open>
  Every index is claimed once; a slot holds its thread's result or is still untouched; the
  counter of the wait group counts the slots that are not filled.
\<close>

definition src_inv :: "u32 \<Rightarrow> 'v src_sys \<Rightarrow> bool" where
  "src_inv n s \<longleftrightarrow>
     length (calls (grp s)) = unat n \<and>
     length (claims s) = min (unat n) (unat (index (grp s))) \<and>
     distinct (pending s) \<and> set (pending s) \<subseteq> {..<length (claims s)} \<and>
     (\<forall>i<unat n. calls (grp s) ! i =
        (if i < length (claims s) \<and> i \<notin> set (pending s) then filled (claims s ! i)
         else src_call_default)) \<and>
     unat (wg_count (src_wg (grp s))) = unat n - length (claims s) + length (pending s)"

lemma src_claim_sel:
  assumes "src_claim g = (g', r)"
  shows "g' = g\<lparr>index := index g + 1\<rparr>"
    and "length (calls g) < 2 ^ 32 \<Longrightarrow>
      r = (if unat (index g) < length (calls g) then Ret (unat (index g)) else Panic)"
proof -
  have "unat (word_of_nat m :: u32) = m" if "m < 2 ^ 32" for m
    using that by (simp add: unsigned_of_nat take_bit_nat_eq_self)
  then show "g' = g\<lparr>index := index g + 1\<rparr>"
    and "length (calls g) < 2 ^ 32 \<Longrightarrow>
      r = (if unat (index g) < length (calls g) then Ret (unat (index g)) else Panic)"
    using assms by (auto simp: src_claim_def Let_def word_less_nat_alt)
qed

lemma src_inv_step:
  assumes I: "src_inv n s" and S: "src_step s s'"
  shows "src_inv n s'"
  using S
proof cases
  case (claim g i k r)
  have l: "length (calls (grp s)) = unat n" using I by (simp add: src_inv_def)
  from src_claim_sel [OF claim(2)] l have g: "g = (grp s)\<lparr>index := index (grp s) + 1\<rparr>"
    and i: "i = unat (index (grp s))" "i < unat n" by (auto split: if_splits)
  have "i + 1 < 2 ^ 32" using i(2) unat_u32_less [of n] by (simp del: unat_u32_less)
  then have "unat (index (grp s) + 1) = i + 1" using i(1) unat_plus_one by simp
  moreover have "length (claims s) = i" using I i by (simp add: src_inv_def)
  moreover have "i \<notin> set (pending s)" using I \<open>length (claims s) = i\<close> by (auto simp: src_inv_def)
  ultimately show ?thesis
    using I i(2) g unfolding claim(1) src_inv_def by (auto simp: nth_append less_Suc_eq)
next
  case (claim_panics g)
  have l: "length (calls (grp s)) = unat n" using I by (simp add: src_inv_def)
  from src_claim_sel [OF claim_panics(2)] l have g: "g = (grp s)\<lparr>index := index (grp s) + 1\<rparr>"
    and i: "unat n \<le> unat (index (grp s))" by (auto split: if_splits)
  then show ?thesis
    using I unat_plus_one [OF claim_panics(3)] unfolding claim_panics(1) src_inv_def by auto
next
  case (store i g b)
  have i: "i < length (claims s)" "i < unat n" "length (claims s) \<le> unat n" "distinct (pending s)"
    and l: "length (calls (grp s)) = unat n"
    using I store(2) by (auto simp: src_inv_def)
  have p: "length (pending s) > 0" using store(2) by (cases "pending s") auto
  have c: "unat (wg_count (src_wg (grp s))) = unat n - length (claims s) + length (pending s)"
    using I by (simp add: src_inv_def)
  with p have nz: "wg_count (src_wg (grp s)) \<noteq> 0" by auto
  have w: "wg_count (fst (wg_done (src_wg (grp s)))) = wg_count (src_wg (grp s)) - 1"
    by (simp add: wg_done_def Let_def)
  have g: "g = (grp s)\<lparr>calls := (calls (grp s))[i := filled (claims s ! i)],
      src_wg := fst (wg_done (src_wg (grp s)))\<rparr>"
    using store(3) by (simp add: src_store_def Let_def filled_def split_beta)
  have "unat (wg_count (src_wg g)) = unat n - length (claims s) + length (remove1 i (pending s))"
  proof -
    have "length (remove1 i (pending s)) = length (pending s) - 1"
      using store(2) by (simp add: length_remove1)
    moreover have "unat (wg_count (src_wg g)) = unat (wg_count (src_wg (grp s))) - 1"
      by (simp add: g w unat_minus_one [OF nz])
    ultimately show ?thesis using c p by linarith
  qed
  moreover have "set (remove1 i (pending s)) = set (pending s) - {i}" using i(4) by simp
  ultimately show ?thesis
    using I i l unfolding store(1) src_inv_def by (auto simp: g nth_list_update)
qed

lemma src_inv_reach: "src_reach n s \<Longrightarrow> src_inv n s"
proof (induction rule: src_reach.induct)
  case start
  then show ?case by (simp add: src_inv_def src_group_new_def wg_new_def)
next
  case (step s s')
  then show ?case using src_inv_step by blast
qed

text \<open>So when the counter is zero, every slot holds what its thread computed.\<close>

lemma src_inv_complete:
  assumes "src_inv n s" and "wg_count (src_wg (grp s)) = 0"
  shows "pending s = []" and "length (claims s) = unat n" and "calls (grp s) = map filled (claims s)"
proof -
  have "unat (wg_count (src_wg (grp s))) = 0" using assms(2) by simp
  then have c: "unat n - length (claims s) + length (pending s) = 0" "length (claims s) \<le> unat n"
    using assms(1) by (auto simp: src_inv_def)
  from c(1) show p: "pending s = []" by simp
  from c show l: "length (claims s) = unat n" by linarith
  show "calls (grp s) = map filled (claims s)"
    using assms(1) p l by (intro nth_equalityI) (simp_all add: src_inv_def)
qed

lemma find_call_map:
  "distinct (map fst cs) \<Longrightarrow> (k, r) \<in> set cs \<Longrightarrow>
     find_call k (map filled cs) = Some (filled (k, r))"
  by (induction cs) (force simp: filled_def)+

lemma find_call_None: "find_call k cs = None \<longleftrightarrow> k \<notin> key ` set cs"
  by (induction cs) auto

section \<open>One thread\<close>

fun src_adds :: "'v src_group runtime \<Rightarrow> (nat \<times> string \<times> 'v user_fn) list \<Rightarrow> 'v src_group clocked \<Rightarrow>
    'v src_group clocked run" where
  "src_adds rt [] s = ret s"
| "src_adds rt ((ty, k, func) # xs) s = rbind (src_add rt ty k func s) (src_adds rt xs)"

lemma src_add_reach:
  assumes "src_reach n s" and "catch_unwind func = ret r" and "quiet rt" and "pending s = []"
    and "unat (index (grp s)) < unat n"
  shows "\<exists>s'. src_add rt ty k func (t, grp s) = ret (Suc t, grp s') \<and> src_reach n s' \<and>
    claims s' = claims s @ [(k, src_outcome ty r)] \<and> pending s' = [] \<and>
    index (grp s') = index (grp s) + 1"
proof -
  note I = src_inv_reach [OF assms(1)]
  obtain g1 i where c: "src_claim (grp s) = (g1, Ret i)"
    using I assms(5) src_claim_sel(2) [of "grp s"] by (cases "src_claim (grp s)") (auto simp: src_inv_def)
  let ?o = "src_outcome ty r"
  let ?s1 = "s\<lparr>grp := g1, claims := claims s @ [(k, ?o)], pending := i # pending s\<rparr>"
  have R1: "src_reach n ?s1" by (rule src_reach.step [OF assms(1) src_step.claim [OF c]])
  have i: "i = length (claims s)"
    using src_claim_sel(2) [OF c] I assms(5) by (simp add: src_inv_def)
  obtain g2 b where st: "src_store i k ?o g1 = (g2, b)" by fastforce
  let ?s2 = "?s1\<lparr>grp := g2, pending := remove1 i (pending ?s1)\<rparr>"
  have R2: "src_reach n ?s2"
    by (rule src_reach.step [OF R1 src_step.store [where i = i and b = b]]) (use st i in simp_all)
  have "unat (wg_count (src_wg g1)) > 0"
    using src_inv_reach [OF R1] by (simp add: src_inv_def)
  then have "wg_count (src_wg g1) \<noteq> 0" by auto
  then obtain b' where "b = Ret b'"
    using st by (auto simp: src_store_def wg_done_def Let_def u32_ge_1_iff split: if_splits)
  moreover have "index g2 = index (grp s) + 1"
    using st src_claim_sel(1) [OF c] by (auto simp: src_store_def Let_def split: prod.splits)
  ultimately show ?thesis
    using c st assms(2-4) R2 by (intro exI [of _ ?s2]) (simp add: src_add_def)
qed

lemma src_adds_reach:
  assumes "src_reach n s" and "quiet rt" and "pending s = []"
    and "unat (index (grp s)) + length xs \<le> unat n"
    and "\<And>x. x \<in> set xs \<Longrightarrow> catch_unwind (snd (snd x)) = ret (f x)"
  shows "\<exists>s'. src_adds rt xs (t, grp s) = ret (t + length xs, grp s') \<and> src_reach n s' \<and>
    claims s' = claims s @ map (\<lambda>x. (fst (snd x), src_outcome (fst x) (f x))) xs \<and> pending s' = []"
  using assms(1,3-5)
proof (induction xs arbitrary: s t)
  case Nil
  then show ?case by auto
next
  case (Cons x xs)
  obtain ty k func where x: "x = (ty, k, func)" by (metis prod.exhaust)
  have lt: "unat (index (grp s)) < unat n" using Cons.prems(3) by simp
  from src_add_reach [OF Cons.prems(1) _ assms(2) Cons.prems(2) lt, of func "f x" ty k t] Cons.prems(4) x
  obtain s1 where
    1: "src_add rt ty k func (t, grp s) = ret (Suc t, grp s1)" "src_reach n s1"
      "claims s1 = claims s @ [(k, src_outcome ty (f x))]" "pending s1 = []"
      "index (grp s1) = index (grp s) + 1" by auto
  have "unat (index (grp s)) + 1 < 2 ^ 32" using lt unat_u32_less [of n] by (simp del: unat_u32_less)
  then have "unat (index (grp s1)) + length xs \<le> unat n"
    using Cons.prems(3) 1(5) unat_plus_one by simp
  from Cons.IH [OF 1(2,4) this, of "Suc t"] Cons.prems(4) 1(1,3) x show ?case by auto
qed

lemma src_add_full:
  assumes "length (calls g) < 2 ^ 32" and "length (calls g) \<le> unat (index g)"
  shows "src_add rt ty k func (t, g) = Some Panic"
  using src_claim_sel(2) [of g] assms by (cases "src_claim g") (auto simp: src_add_def)

end
