(* ===== verification/Flight.thy ===== *)
theory Flight
  imports Source
begin

text \<open>
  \<^verbatim>\<open>src/src/single/flight.rs\<close>: execution of user functions with duplicate suppression. The
  lock that guards the map is the crate's; a read or a write of the map under it is one atomic
  step here, and other threads may run between two of them.
\<close>

text \<open>
  A \<^verbatim>\<open>Call<T>\<close> behind an \<^verbatim>\<open>Rc<dyn Any>\<close> is an object at an address, with the identity of
  \<^verbatim>\<open>T\<close>; it lives as long as somebody refers to it, so objects are never removed.
\<close>

record 'v fl_call =
  fl_type :: nat
  fl_wg :: wait_group
  fl_count :: u32
  fl_result :: "('v, wrap_error) result option"

definition fl_call_default :: "nat \<Rightarrow> 'v fl_call" where
  "fl_call_default ty = \<lparr>fl_type = ty, fl_wg = wg_default, fl_count = 1, fl_result = None\<rparr>"

record 'v fl_group =
  guarded :: "string \<rightharpoonup> nat"
  objs :: "nat \<rightharpoonup> 'v fl_call"
  fresh_addr :: nat

definition fl_group_default :: "'v fl_group" where
  "fl_group_default = \<lparr>guarded = Map.empty, objs = Map.empty, fresh_addr = 0\<rparr>"

definition fl_get :: "string \<Rightarrow> 'v fl_group \<Rightarrow> nat option" where
  "fl_get k g = guarded g k"

definition upd_obj :: "nat \<Rightarrow> ('v fl_call \<Rightarrow> 'v fl_call) \<Rightarrow> 'v fl_group \<Rightarrow> 'v fl_group" where
  "upd_obj a f g = g\<lparr>objs := (objs g)(a := map_option f (objs g a))\<rparr>"

text \<open>A caller that finds a call counts itself in, after the downcast.\<close>

definition fl_join :: "nat \<Rightarrow> nat \<Rightarrow> 'v fl_group \<Rightarrow> 'v fl_group outcome" where
  "fl_join ty a g =
     (case objs g a of None \<Rightarrow> Undef
      | Some c \<Rightarrow> if fl_type c = ty then Ret (upd_obj a (\<lambda>c. c\<lparr>fl_count := fl_count c + 1\<rparr>) g)
                  else Panic)"

text \<open>The macro \<^verbatim>\<open>get_result!\<close> and the load of the count.\<close>

definition fl_collect :: "nat \<Rightarrow> 'v fl_group \<Rightarrow> (('v, wrap_error) result \<times> u32) outcome" where
  "fl_collect a g =
     (case objs g a of None \<Rightarrow> Undef
      | Some c \<Rightarrow> (case fl_result c of None \<Rightarrow> Undef | Some r \<Rightarrow> Ret (r, fl_count c)))"

text \<open>A caller that finds none makes one, with one member in its wait group, and inserts it.\<close>

definition fl_start :: "nat \<Rightarrow> string \<Rightarrow> 'v fl_group \<Rightarrow> nat \<times> 'v fl_group" where
  "fl_start ty k g =
     (let a = fresh_addr g; c = fl_call_default ty; c = c\<lparr>fl_wg := wg_add 1 (fl_wg c)\<rparr>
      in (a, g\<lparr>objs := (objs g)(a \<mapsto> c), fresh_addr := Suc a, guarded := (guarded g)(k \<mapsto> a)\<rparr>))"

fun fl_outcome :: "(('v, wrap_error) result, unit) result \<Rightarrow> ('v, wrap_error) result" where
  "fl_outcome (Inr r) = r"
| "fl_outcome (Inl _) = Err (WrapError ''function of user panic'')"

text \<open>The macro \<^verbatim>\<open>set_result!\<close>, the value to return, and \<^verbatim>\<open>done\<close>.\<close>

definition fl_finish :: "nat \<Rightarrow> ('v, wrap_error) result \<Rightarrow> 'v fl_group \<Rightarrow>
    'v fl_group \<times> (('v, wrap_error) result \<times> u32) outcome" where
  "fl_finish a r g =
     (let g = upd_obj a (\<lambda>c. c\<lparr>fl_result := Some r\<rparr>) g;
          out = fl_collect a g
      in case objs g a of None \<Rightarrow> (g, Undef)
         | Some c \<Rightarrow>
             let (wg, b) = wg_done (fl_wg c)
             in (upd_obj a (\<lambda>c. c\<lparr>fl_wg := wg\<rparr>) g, obind b (\<lambda>_. out)))"

definition obj_wg :: "nat \<Rightarrow> 'v fl_group \<Rightarrow> wait_group" where
  "obj_wg a g = (case objs g a of Some c \<Rightarrow> fl_wg c | None \<Rightarrow> wg_default)"

definition upd_obj_wg :: "nat \<Rightarrow> (wait_group \<Rightarrow> wait_group) \<Rightarrow> 'v fl_group \<Rightarrow> 'v fl_group" where
  "upd_obj_wg a f = upd_obj a (\<lambda>c. c\<lparr>fl_wg := f (fl_wg c)\<rparr>)"

text \<open>
  \<^verbatim>\<open>exec\<close>: other threads may run between the failed lookup and the insertion, and while the
  user's function runs.
\<close>

definition fl_exec :: "'v fl_group runtime \<Rightarrow> nat \<Rightarrow> string \<Rightarrow> 'v user_fn \<Rightarrow> 'v fl_group clocked \<Rightarrow>
    ('v fl_group clocked \<times> ('v, wrap_error) result \<times> u32) run" where
  "fl_exec rt ty k func s =
     (case fl_get k (snd s) of
        Some a \<Rightarrow>
          rbind (Some (fl_join ty a (snd s))) (\<lambda>g.
            rbind (wg_wait (obj_wg a) (upd_obj_wg a) rt (fst s, g)) (\<lambda>s.
              rbind (Some (fl_collect a (snd s))) (\<lambda>out. ret (s, out))))
      | None \<Rightarrow>
          let (t, g) = pause rt s;
              (a, g) = fl_start ty k g
          in rbind (catch_unwind func) (\<lambda>r.
               let (t, g) = pause rt (t, g);
                   (g, out) = fl_finish a (fl_outcome r) g
               in rbind (Some out) (\<lambda>out. ret ((t, g), out))))"

definition fl_forgot :: "string \<Rightarrow> 'v fl_group \<Rightarrow> 'v fl_group \<times> bool" where
  "fl_forgot k g = (g\<lparr>guarded := (guarded g)(k := None)\<rparr>, guarded g k \<noteq> None)"

section \<open>One thread: a table of results\<close>

text \<open>
  The abstract state: for a key the type, the result and the number of callers so far.
\<close>

type_synonym 'v results = "string \<rightharpoonup> nat \<times> ('v, wrap_error) result \<times> u32"

definition finished :: "'v fl_call \<Rightarrow> nat \<times> ('v, wrap_error) result \<times> u32 \<Rightarrow> bool" where
  "finished c e \<longleftrightarrow> fl_type c = fst e \<and> fl_result c = Some (fst (snd e)) \<and>
     fl_count c = snd (snd e) \<and> wg_count (fl_wg c) = 0"

definition fl_rel :: "'v results \<Rightarrow> 'v fl_group \<Rightarrow> bool" where
  "fl_rel m g \<longleftrightarrow>
     dom (guarded g) = dom m \<and> inj_on (guarded g) (dom m) \<and> dom (objs g) \<subseteq> {..<fresh_addr g} \<and>
     (\<forall>k a. guarded g k = Some a \<longrightarrow> (\<exists>c. objs g a = Some c \<and> finished c (the (m k))))"

lemma fl_rel_default: "fl_rel Map.empty fl_group_default"
  by (simp add: fl_rel_def fl_group_default_def)

lemma fl_relD:
  assumes "fl_rel m g" and "m k = Some e"
  obtains a c where "guarded g k = Some a" and "objs g a = Some c" and "finished c e"
  using assms unfolding fl_rel_def by (metis domD domI option.sel)

lemma fl_rel_None: "fl_rel m g \<Longrightarrow> m k = None \<longleftrightarrow> guarded g k = None"
  unfolding fl_rel_def by (metis domIff)

lemma fl_rel_upd:
  assumes R: "fl_rel m g" and a: "guarded g k = Some a" and "finished c e"
  shows "fl_rel (m(k \<mapsto> e)) (g\<lparr>objs := (objs g)(a \<mapsto> c)\<rparr>)"
proof -
  have "k \<in> dom m" using R a by (auto simp: fl_rel_def)
  then have d: "dom (m(k \<mapsto> e)) = dom m" by auto
  have u: "a' \<noteq> a" if "guarded g k' = Some a'" "k' \<noteq> k" for k' a'
  proof
    assume "a' = a"
    then have "guarded g k' = guarded g k" "k' \<in> dom m" using that a R by (auto simp: fl_rel_def)
    with R \<open>k \<in> dom m\<close> that(2) show False by (auto simp: fl_rel_def inj_on_def)
  qed
  have "a \<in> dom (objs g)" using R a unfolding fl_rel_def by blast
  then have "dom ((objs g)(a \<mapsto> c)) \<subseteq> {..<fresh_addr g}" using R by (auto simp: fl_rel_def)
  moreover have "\<exists>c'. ((objs g)(a \<mapsto> c)) a' = Some c' \<and> finished c' (the ((m(k \<mapsto> e)) k'))"
    if "guarded g k' = Some a'" for k' a'
    using that u [OF that] R a assms(3) by (cases "k' = k") (auto simp: fl_rel_def)
  ultimately show ?thesis
    using R unfolding fl_rel_def d by simp
qed

lemma fl_exec_hit:
  assumes R: "fl_rel m g" and m: "m k = Some (ty, r, n)"
  shows "\<exists>g'. fl_exec rt ty k func (t, g) = ret ((t, g'), r, n + 1) \<and>
    fl_rel (m(k \<mapsto> (ty, r, n + 1))) g'"
proof -
  from fl_relD [OF assms] obtain a c where a: "guarded g k = Some a" "objs g a = Some c"
    and c: "finished c (ty, r, n)" .
  let ?c = "c\<lparr>fl_count := n + 1, fl_wg := (fl_wg c)\<lparr>wg_flag := 0\<rparr>\<rparr>"
  let ?g = "g\<lparr>objs := (objs g)(a \<mapsto> ?c)\<rparr>"
  have "fl_exec rt ty k func (t, g) = ret ((t, ?g), r, n + 1)"
    using a c by (simp add: fl_exec_def fl_get_def fl_join_def finished_def wg_wait_zero obj_wg_def
        upd_obj_def upd_obj_wg_def fl_collect_def)
  moreover have "fl_rel (m(k \<mapsto> (ty, r, n + 1))) ?g"
    using c by (intro fl_rel_upd [OF R a(1)]) (simp add: finished_def)
  ultimately show ?thesis by blast
qed

lemma fl_exec_other_type:
  assumes "fl_rel m g" and "m k = Some (ty', r, n)" and "ty' \<noteq> ty"
  shows "fl_exec rt ty k func (t, g) = Some Panic"
proof -
  from fl_relD [OF assms(1,2)] obtain a c where "guarded g k = Some a" "objs g a = Some c"
    "finished c (ty', r, n)" .
  then show ?thesis
    using assms(3) by (auto simp: fl_exec_def fl_get_def fl_join_def finished_def)
qed

lemma fl_exec_miss:
  assumes R: "fl_rel m g" and m: "m k = None" and Q: "quiet rt" and f: "catch_unwind func = ret r"
  shows "\<exists>t' g'. fl_exec rt ty k func (t, g) = ret ((t', g'), fl_outcome r, 1) \<and>
    fl_rel (m(k \<mapsto> (ty, fl_outcome r, 1))) g'"
proof -
  let ?a = "fresh_addr g"
  let ?c = "\<lparr>fl_type = ty, fl_wg = \<lparr>wg_count = 0, wg_flag = 1\<rparr>, fl_count = 1,
    fl_result = Some (fl_outcome r)\<rparr>"
  let ?g = "g\<lparr>fresh_addr := Suc ?a, guarded := (guarded g)(k \<mapsto> ?a), objs := (objs g)(?a \<mapsto> ?c)\<rparr>"
  have gk: "guarded g k = None" using fl_rel_None [OF R] m by blast
  have "fl_exec rt ty k func (t, g) = ret ((Suc (Suc t), ?g), fl_outcome r, 1)"
    using gk Q f by (simp add: fl_exec_def fl_get_def fl_start_def fl_finish_def fl_call_default_def
        Let_def wg_add_def wg_default_def wg_new_def wg_done_def upd_obj_def fl_collect_def)
  moreover have "fl_rel (m(k \<mapsto> (ty, fl_outcome r, 1))) ?g"
  proof -
    have na: "guarded g k' \<noteq> Some ?a" for k'
    proof
      assume "guarded g k' = Some ?a"
      then have "?a \<in> dom (objs g)" using R unfolding fl_rel_def by blast
      then show False using R by (auto simp: fl_rel_def)
    qed
    have "inj_on ((guarded g)(k \<mapsto> ?a)) (dom (m(k \<mapsto> (ty, fl_outcome r, 1))))"
      using R na by (auto simp: fl_rel_def inj_on_def) (metis na)+
    moreover have "a \<noteq> ?a" if "guarded g k' = Some a" for k' a using na that by auto
    ultimately show ?thesis
      using R by (auto simp: fl_rel_def finished_def)
  qed
  ultimately show ?thesis by blast
qed

lemma fl_forgot_rel:
  assumes "fl_rel m g"
  shows "fl_rel (m(k := None)) (fst (fl_forgot k g))" and "snd (fl_forgot k g) \<longleftrightarrow> m k \<noteq> None"
  using assms fl_rel_None [OF assms, of k]
  by (auto simp: fl_forgot_def fl_rel_def inj_on_def split: if_splits)

section \<open>Interleaved threads\<close>

text \<open>
  Where a thread is: outside \<^verbatim>\<open>exec\<close>; between the failed lookup and the insertion; running
  the user's function; waiting for another thread's call; back with an answer of call \<^term>\<open>a\<close>;
  gone by a panic, or by undefined behaviour.
\<close>

datatype 'v fl_pc =
    Outside
  | Missed nat string
  | Running nat
  | Waiting nat
  | Answered nat "('v, wrap_error) result \<times> u32"
  | Gone
  | Crashed

record 'v fl_sys =
  fgrp :: "'v fl_group"
  fpcs :: "nat \<Rightarrow> 'v fl_pc"
  runs :: "string list"

datatype 'v fl_action =
    Lookup nat string
  | Insert
  | Finish "('v, wrap_error) result"
  | Await
  | Forgot string

definition fl_goto :: "nat \<Rightarrow> 'v fl_pc \<Rightarrow> 'v fl_sys \<Rightarrow> 'v fl_sys" where
  "fl_goto i pc s = s\<lparr>fpcs := (fpcs s)(i := pc)\<rparr>"

definition answer_of :: "nat \<Rightarrow> (('v, wrap_error) result \<times> u32) outcome \<Rightarrow> 'v fl_pc" where
  "answer_of a out = (case out of Ret x \<Rightarrow> Answered a x | Panic \<Rightarrow> Gone | Undef \<Rightarrow> Crashed)"

text \<open>
  \<^term>\<open>fl_act i x s\<close>: thread \<^term>\<open>i\<close> performs the part \<^term>\<open>x\<close> of \<^verbatim>\<open>exec\<close>, if it is
  there; \<^const>\<open>Finish\<close> carries the result of the user's function. \<^const>\<open>Await\<close> is the last
  test of \<^verbatim>\<open>wait\<close>, the one that finds the counter at zero. \<^const>\<open>runs\<close> records the keys
  whose function was called.
\<close>

fun fl_act :: "nat \<Rightarrow> 'v fl_action \<Rightarrow> 'v fl_sys \<Rightarrow> 'v fl_sys option" where
  "fl_act i (Lookup ty k) s =
     (if fpcs s i = Outside then
        case fl_get k (fgrp s) of
          None \<Rightarrow> Some (fl_goto i (Missed ty k) s)
        | Some a \<Rightarrow>
            Some (case fl_join ty a (fgrp s) of
                Ret g \<Rightarrow> fl_goto i (Waiting a) (s\<lparr>fgrp := g\<rparr>)
              | Panic \<Rightarrow> fl_goto i Gone s
              | Undef \<Rightarrow> fl_goto i Crashed s)
      else None)"
| "fl_act i Insert s =
     (case fpcs s i of
        Missed ty k \<Rightarrow>
          let (a, g) = fl_start ty k (fgrp s)
          in Some (fl_goto i (Running a) (s\<lparr>fgrp := g, runs := runs s @ [k]\<rparr>))
      | _ \<Rightarrow> None)"
| "fl_act i (Finish r) s =
     (case fpcs s i of
        Running a \<Rightarrow>
          let (g, out) = fl_finish a r (fgrp s)
          in Some (fl_goto i (answer_of a out) (s\<lparr>fgrp := g\<rparr>))
      | _ \<Rightarrow> None)"
| "fl_act i Await s =
     (case fpcs s i of
        Waiting a \<Rightarrow>
          if wg_should_wait (obj_wg a (fgrp s)) then None
          else let g = upd_obj_wg a (\<lambda>wg. wg\<lparr>wg_flag := 0\<rparr>) (fgrp s)
               in Some (fl_goto i (answer_of a (fl_collect a g)) (s\<lparr>fgrp := g\<rparr>))
      | _ \<Rightarrow> None)"
| "fl_act i (Forgot k) s =
     (if fpcs s i = Outside then Some (s\<lparr>fgrp := fst (fl_forgot k (fgrp s))\<rparr>) else None)"

definition fl_sys_new :: "'v fl_sys" where
  "fl_sys_new = \<lparr>fgrp = fl_group_default, fpcs = (\<lambda>_. Outside), runs = []\<rparr>"

inductive fl_reach :: "'v fl_sys \<Rightarrow> bool" where
  start: "fl_reach fl_sys_new"
| step: "fl_reach s \<Longrightarrow> fl_act i x s = Some s' \<Longrightarrow> fl_reach s'"

fun fl_schedule :: "(nat \<times> 'v fl_action) list \<Rightarrow> 'v fl_sys \<Rightarrow> 'v fl_sys option" where
  "fl_schedule [] s = Some s"
| "fl_schedule ((i, x) # xs) s = Option.bind (fl_act i x s) (fl_schedule xs)"

lemma fl_schedule_reach: "fl_reach s \<Longrightarrow> fl_schedule xs s = Some s' \<Longrightarrow> fl_reach s'"
proof (induction xs arbitrary: s)
  case Nil
  then show ?case by simp
next
  case (Cons x xs)
  obtain i a where "x = (i, a)" by (cases x)
  with Cons show ?case
    by (auto split: Option.bind_splits intro: fl_reach.step)
qed

text \<open>
  A call is in flight, with one member in its wait group, one thread running it and no result, or
  it is over, with its result. A thread that waits for a call, or has an answer of it, refers to
  an object; the answers of a call are its result.
\<close>

definition in_flight :: "'v fl_call \<Rightarrow> bool" where
  "in_flight c \<longleftrightarrow> fl_result c = None \<and> wg_count (fl_wg c) = 1"

definition is_over :: "'v fl_call \<Rightarrow> bool" where
  "is_over c \<longleftrightarrow> fl_result c \<noteq> None \<and> wg_count (fl_wg c) = 0"

definition thread_ok :: "'v fl_sys \<Rightarrow> nat \<Rightarrow> bool" where
  "thread_ok s i \<longleftrightarrow>
     (case fpcs s i of
        Running a \<Rightarrow> (\<exists>c. objs (fgrp s) a = Some c \<and> in_flight c)
      | Waiting a \<Rightarrow> objs (fgrp s) a \<noteq> None
      | Answered a x \<Rightarrow> (\<exists>c. objs (fgrp s) a = Some c \<and> is_over c \<and> fl_result c = Some (fst x))
      | Crashed \<Rightarrow> False
      | _ \<Rightarrow> True)"

definition fl_inv :: "'v fl_sys \<Rightarrow> bool" where
  "fl_inv s \<longleftrightarrow>
     (\<forall>i. thread_ok s i) \<and>
     (\<forall>i j a. fpcs s i = Running a \<longrightarrow> fpcs s j = Running a \<longrightarrow> i = j) \<and>
     (\<forall>a c. objs (fgrp s) a = Some c \<longrightarrow> in_flight c \<or> is_over c) \<and>
     dom (objs (fgrp s)) \<subseteq> {..<fresh_addr (fgrp s)} \<and>
     ran (guarded (fgrp s)) \<subseteq> dom (objs (fgrp s))"

text \<open>
  How a step may change the objects: they stay, those in flight may finish, and what is over
  keeps its result.
\<close>

definition objs_grow :: "nat option \<Rightarrow> (nat \<rightharpoonup> 'v fl_call) \<Rightarrow> (nat \<rightharpoonup> 'v fl_call) \<Rightarrow> bool" where
  "objs_grow x o1 o2 \<longleftrightarrow>
     (\<forall>a c. o1 a = Some c \<longrightarrow> (\<exists>c'. o2 a = Some c' \<and>
        (x \<noteq> Some a \<longrightarrow> in_flight c \<longrightarrow> in_flight c') \<and>
        (is_over c \<longrightarrow> is_over c' \<and> fl_result c' = fl_result c)))"

lemma thread_ok_grow:
  assumes "thread_ok s i" and "objs_grow x (objs (fgrp s)) (objs (fgrp s'))"
    and "fpcs s' i = fpcs s i" and "\<And>a. fpcs s i = Running a \<Longrightarrow> x \<noteq> Some a"
  shows "thread_ok s' i"
  using assms by (cases "fpcs s i") (fastforce simp: thread_ok_def objs_grow_def)+

lemma fl_inv_grow:
  assumes I: "fl_inv s" and G: "objs_grow x (objs (fgrp s)) (objs (fgrp s'))"
    and P: "fpcs s' = (fpcs s)(i := pc)" and T: "thread_ok s' i"
    and X: "\<And>a j. x = Some a \<Longrightarrow> fpcs s j = Running a \<Longrightarrow> j = i"
    and U: "\<And>a j. pc = Running a \<Longrightarrow> fpcs s j = Running a \<Longrightarrow> j = i"
    and O: "\<And>a c. objs (fgrp s') a = Some c \<Longrightarrow> in_flight c \<or> is_over c"
    and D: "dom (objs (fgrp s')) \<subseteq> {..<fresh_addr (fgrp s')}"
    and R: "ran (guarded (fgrp s')) \<subseteq> dom (objs (fgrp s'))"
  shows "fl_inv s'"
proof -
  have "thread_ok s' j" for j
  proof (cases "j = i")
    case True
    then show ?thesis using T by simp
  next
    case False
    then show ?thesis
      using I X P by (intro thread_ok_grow [OF _ G]) (auto simp: fl_inv_def)
  qed
  moreover have "j = j'" if "fpcs s' j = Running a" "fpcs s' j' = Running a" for j j' a
    using that U I unfolding P by (auto simp: fl_inv_def split: if_splits)
  ultimately show ?thesis
    using O D R unfolding fl_inv_def by blast
qed

lemma fl_goto_sel [simp]:
  "fgrp (fl_goto i pc s) = fgrp s" "fpcs (fl_goto i pc s) = (fpcs s)(i := pc)"
  by (simp_all add: fl_goto_def)

lemma upd_obj_sel [simp]:
  "objs (upd_obj a f g) = (objs g)(a := map_option f (objs g a))"
  "guarded (upd_obj a f g) = guarded g" "fresh_addr (upd_obj a f g) = fresh_addr g"
  by (simp_all add: upd_obj_def)

lemma objs_grow_refl [simp]: "objs_grow x ob ob"
  by (simp add: objs_grow_def)

text \<open>An update of an object that keeps its result and its counter.\<close>

lemma objs_grow_upd:
  assumes "\<And>c. fl_result (f c) = fl_result c \<and> wg_count (fl_wg (f c)) = wg_count (fl_wg c)"
  shows "objs_grow x ob (ob(a := map_option f (ob a)))"
  using assms by (auto simp: objs_grow_def in_flight_def is_over_def)

lemma fl_inv_upd:
  assumes I: "fl_inv s" and f: "\<And>c. fl_result (f c) = fl_result c \<and> wg_count (fl_wg (f c)) = wg_count (fl_wg c)"
    and g: "fgrp s' = upd_obj a f (fgrp s)" and P: "fpcs s' = (fpcs s)(i := pc)"
    and T: "thread_ok s' i" and U: "\<And>a. pc \<noteq> Running a"
  shows "fl_inv s'"
proof (rule fl_inv_grow [OF I _ P T, where x = None])
  show "objs_grow None (objs (fgrp s)) (objs (fgrp s'))"
    unfolding g upd_obj_sel by (rule objs_grow_upd [OF f])
  show "in_flight c \<or> is_over c" if "objs (fgrp s') b = Some c" for b c
  proof -
    have all: "in_flight d \<or> is_over d" if "objs (fgrp s) b = Some d" for b d
      using that I unfolding fl_inv_def by blast
    have "in_flight (f d) = in_flight d" "is_over (f d) = is_over d" for d
      using f [of d] by (simp_all add: in_flight_def is_over_def)
    then show ?thesis
      using that all by (auto simp: g split: if_splits)
  qed
qed (use I U in \<open>auto simp: g fl_inv_def\<close>)

lemma fl_inv_lookup:
  assumes I: "fl_inv s" and A: "fl_act i (Lookup ty k) s = Some s'"
  shows "fl_inv s'"
proof (cases "fl_get k (fgrp s)")
  case None
  then have "s' = fl_goto i (Missed ty k) s" using A by (simp split: if_splits)
  then show ?thesis
    using I by (intro fl_inv_grow [OF I, where x = None and i = i and pc = "Missed ty k"])
      (auto simp: fl_inv_def thread_ok_def)
next
  case (Some a)
  then have "a \<in> ran (guarded (fgrp s))" by (simp add: fl_get_def ranI)
  then obtain c where c: "objs (fgrp s) a = Some c"
    using I unfolding fl_inv_def by blast
  show ?thesis
  proof (cases "fl_type c = ty")
    case True
    then have s': "s' = fl_goto i (Waiting a) (s\<lparr>fgrp := upd_obj a (\<lambda>c. c\<lparr>fl_count := fl_count c + 1\<rparr>) (fgrp s)\<rparr>)"
      using A Some c by (simp add: fl_join_def split: if_splits)
    show ?thesis
      by (rule fl_inv_upd [OF I, where a = a and i = i and pc = "Waiting a" and
            f = "\<lambda>c. c\<lparr>fl_count := fl_count c + 1\<rparr>"]) (simp_all add: s' thread_ok_def c)
  next
    case False
    then have "s' = fl_goto i Gone s" using A Some c by (simp add: fl_join_def split: if_splits)
    then show ?thesis
      using I by (intro fl_inv_grow [OF I, where x = None and i = i and pc = Gone])
        (auto simp: fl_inv_def thread_ok_def)
  qed
qed

lemma fl_inv_insert:
  assumes I: "fl_inv s" and A: "fl_act i Insert s = Some s'"
  shows "fl_inv s'"
proof -
  obtain ty k where m: "fpcs s i = Missed ty k" using A by (auto split: fl_pc.splits)
  let ?a = "fresh_addr (fgrp s)"
  let ?c = "(fl_call_default ty)\<lparr>fl_wg := wg_add 1 wg_default\<rparr>"
  have P: "fpcs s' = (fpcs s)(i := Running ?a)"
    and g: "fgrp s' = (fgrp s)\<lparr>objs := (objs (fgrp s))(?a \<mapsto> ?c), fresh_addr := Suc ?a,
      guarded := (guarded (fgrp s))(k \<mapsto> ?a)\<rparr>"
    using A m by (auto simp: fl_start_def Let_def fl_call_default_def)
  have c: "in_flight ?c"
    by (simp add: in_flight_def fl_call_default_def wg_add_def wg_default_def wg_new_def)
  have na: "objs (fgrp s) ?a = None" using I by (auto simp: fl_inv_def)
  have nr: "fpcs s j \<noteq> Running ?a" for j
    using I na by (auto simp: fl_inv_def thread_ok_def dest: spec [of _ j])
  show ?thesis
  proof (rule fl_inv_grow [OF I _ P, where x = None])
    show "objs_grow None (objs (fgrp s)) (objs (fgrp s'))"
      using na by (auto simp: g objs_grow_def)
    show "thread_ok s' i" using c P g by (simp add: thread_ok_def)
    show "in_flight d \<or> is_over d" if "objs (fgrp s') a = Some d" for a d
      using that I c by (auto simp: g fl_inv_def split: if_splits)
    show "dom (objs (fgrp s')) \<subseteq> {..<fresh_addr (fgrp s')}"
      using I by (auto simp: g fl_inv_def less_Suc_eq)
    show "ran (guarded (fgrp s')) \<subseteq> dom (objs (fgrp s'))"
      using I by (auto simp: g fl_inv_def ran_def)
  qed (use nr in auto)
qed

lemma fl_inv_finish:
  assumes I: "fl_inv s" and A: "fl_act i (Finish r) s = Some s'"
  shows "fl_inv s'"
proof -
  obtain a where m: "fpcs s i = Running a" using A by (auto split: fl_pc.splits)
  with I obtain c where c: "objs (fgrp s) a = Some c" "in_flight c"
    by (auto simp: fl_inv_def thread_ok_def dest!: spec [of _ i])
  let ?c = "c\<lparr>fl_result := Some r, fl_wg := (fl_wg c)\<lparr>wg_count := 0, wg_flag := 1\<rparr>\<rparr>"
  have w: "wg_done (fl_wg c) = ((fl_wg c)\<lparr>wg_count := 0, wg_flag := 1\<rparr>, Ret True)"
    using c(2) by (simp add: in_flight_def wg_done_cases)
  have P: "fpcs s' = (fpcs s)(i := Answered a (r, fl_count c))"
    and g: "fgrp s' = (fgrp s)\<lparr>objs := (objs (fgrp s))(a \<mapsto> ?c)\<rparr>"
    using A m c w by (auto simp: fl_finish_def Let_def fl_collect_def answer_of_def upd_obj_def)
  have o: "is_over ?c" by (simp add: is_over_def)
  have "j = i" if "fpcs s j = Running a" for j using that m I unfolding fl_inv_def by blast
  then show ?thesis
  proof (intro fl_inv_grow [OF I _ P, where x = "Some a"])
    show "objs_grow (Some a) (objs (fgrp s)) (objs (fgrp s'))"
      using c by (auto simp: g objs_grow_def in_flight_def is_over_def)
    show "thread_ok s' i" using o P g by (simp add: thread_ok_def)
    show "in_flight d \<or> is_over d" if "objs (fgrp s') b = Some d" for b d
      using that I o by (auto simp: g fl_inv_def split: if_splits)
    show "dom (objs (fgrp s')) \<subseteq> {..<fresh_addr (fgrp s')}"
      using I c(1) by (auto simp: g fl_inv_def)
    show "ran (guarded (fgrp s')) \<subseteq> dom (objs (fgrp s'))"
      using I by (auto simp: g fl_inv_def)
  qed auto
qed

lemma fl_inv_await:
  assumes I: "fl_inv s" and A: "fl_act i Await s = Some s'"
  shows "fl_inv s'"
proof -
  obtain a where m: "fpcs s i = Waiting a" using A by (auto split: fl_pc.splits)
  with I obtain c where c: "objs (fgrp s) a = Some c"
    by (auto simp: fl_inv_def thread_ok_def dest!: spec [of _ i])
  have "\<not> wg_should_wait (fl_wg c)" using A m c by (auto simp: obj_wg_def split: if_splits)
  then have "wg_count (fl_wg c) = 0" by (simp add: wg_should_wait_def word_gt_0)
  then have "\<not> in_flight c" by (simp add: in_flight_def)
  then have o: "is_over c" using I c unfolding fl_inv_def by blast
  then obtain r where r: "fl_result c = Some r" "is_over c" by (auto simp: is_over_def)
  let ?f = "\<lambda>c. c\<lparr>fl_wg := (fl_wg c)\<lparr>wg_flag := 0\<rparr>\<rparr>"
  have P: "fpcs s' = (fpcs s)(i := Answered a (r, fl_count c))"
    and g: "fgrp s' = upd_obj a ?f (fgrp s)"
    using A m c r(1) by (auto simp: fl_collect_def answer_of_def upd_obj_wg_def split: if_splits)
  have "thread_ok s' i" using r c P g by (simp add: thread_ok_def is_over_def)
  then show ?thesis
    by (intro fl_inv_upd [OF I _ g P]) simp_all
qed

lemma fl_inv_reach: "fl_reach s \<Longrightarrow> fl_inv s"
proof (induction rule: fl_reach.induct)
  case start
  then show ?case by (simp add: fl_inv_def fl_sys_new_def fl_group_default_def thread_ok_def)
next
  case (step s i x s')
  show ?case
  proof (cases x)
    case (Forgot k)
    then have s': "s' = s\<lparr>fgrp := fst (fl_forgot k (fgrp s))\<rparr>" using step.hyps(2) by (simp split: if_splits)
    have "thread_ok s' j = thread_ok s j" for j
      by (simp add: thread_ok_def s' fl_forgot_def cong: fl_pc.case_cong)
    moreover have "ran ((guarded (fgrp s))(k := None)) \<subseteq> ran (guarded (fgrp s))"
      by (auto simp: ran_def)
    ultimately show ?thesis
      using step.IH by (auto simp: fl_inv_def s' fl_forgot_def)
  qed (use step fl_inv_lookup fl_inv_insert fl_inv_finish fl_inv_await in blast)+
qed

text \<open>Two threads that both miss the key both run their function.\<close>

definition race_schedule :: "(nat \<times> nat fl_action) list" where
  "race_schedule =
     [(1, Lookup 0 ''k''), (2, Lookup 0 ''k''), (1, Insert), (2, Insert),
      (1, Finish (Ok 10)), (2, Finish (Ok 20))]"

lemma race_runs_twice:
  "\<exists>s. fl_schedule race_schedule fl_sys_new = Some s \<and> runs s = [''k'', ''k''] \<and>
     (\<exists>a. fpcs s 1 = Answered a (Ok 10, 1)) \<and> (\<exists>a. fpcs s 2 = Answered a (Ok 20, 1))"
  by (simp add: race_schedule_def fl_sys_new_def fl_group_default_def fl_get_def fl_start_def
      fl_call_default_def Let_def wg_add_def wg_default_def wg_new_def fl_finish_def upd_obj_def
      fl_collect_def wg_done_def fl_goto_def answer_of_def)

end
