(* ===== verification/Single_Properties.thy ===== *)
theory Single_Properties
  imports Flight
begin

text \<open>
  The properties of the two groups of \<^verbatim>\<open>src/src/single\<close>.
\<close>

section \<open>Source\<close>

text \<open>
  C31: with any number of threads adding at the same time, in any order of claims and stores, once
  the wait group's counter is zero all \<^term>\<open>n\<close> results are in: each of the \<^term>\<open>n\<close> claims
  within range is answered by \<^verbatim>\<open>get\<close> with what its thread computed, if the keys differ.
\<close>

theorem source_collects:
  assumes "src_reach n s" and "wg_count (src_wg (grp s)) = 0"
  shows "length (claims s) = unat n \<and>
    (distinct (map fst (claims s)) \<longrightarrow> (\<forall>(k, r)\<in>set (claims s). src_get k (grp s) = Ret r)) \<and>
    (\<forall>k. k \<notin> fst ` set (claims s) \<longrightarrow> src_get k (grp s) = Ret (Err (WrapError ''key doesn't exist'')))"
proof -
  from src_inv_complete [OF src_inv_reach [OF assms(1)] assms(2)]
  have l: "length (claims s) = unat n" and c: "calls (grp s) = map filled (claims s)" by blast+
  have "src_get k (grp s) = Ret r" if "distinct (map fst (claims s))" "(k, r) \<in> set (claims s)" for k r
    using find_call_map [OF that] by (simp add: src_get_def c filled_def)
  moreover have "src_get k (grp s) = Ret (Err (WrapError ''key doesn't exist''))"
    if "k \<notin> fst ` set (claims s)" for k
  proof -
    have "key ` set (calls (grp s)) = fst ` set (claims s)"
      by (simp add: c image_image filled_def)
    then have "find_call k (calls (grp s)) = None" using that find_call_None by metis
    then show ?thesis by (simp add: src_get_def)
  qed
  ultimately show ?thesis using l by blast
qed

theorem source_collects_witness:
  "\<exists>s. src_reach 1 s \<and> wg_count (src_wg (grp s)) = 0 \<and> claims s = [(''k'', Err (WrapError ''e''))] \<and>
     src_get ''k'' (grp s) = Ret (Err (WrapError ''e'') :: (nat response, wrap_error) result)"
proof -
  let ?r = "Err (WrapError ''e'') :: (nat response, wrap_error) result"
  let ?s0 = "\<lparr>grp = src_group_new 1, claims = [], pending = []\<rparr> :: nat src_sys"
  let ?g1 = "(src_group_new 1)\<lparr>index := 1\<rparr> :: nat src_group"
  have c: "src_claim (grp ?s0) = (?g1, Ret 0)" by (simp add: src_claim_def src_group_new_def)
  let ?s1 = "?s0\<lparr>grp := ?g1, claims := claims ?s0 @ [(''k'', ?r)], pending := 0 # pending ?s0\<rparr>"
  have R1: "src_reach 1 ?s1" by (rule src_reach.step [OF src_reach.start src_step.claim [OF c]])
  obtain g b where g: "src_store 0 ''k'' ?r ?g1 = (g, b)" "wg_count (src_wg g) = 0"
    by (simp add: src_store_def src_group_new_def wg_new_def wg_done_def Let_def)
  let ?s2 = "?s1\<lparr>grp := g, pending := remove1 0 (pending ?s1)\<rparr>"
  have R2: "src_reach 1 ?s2"
    by (rule src_reach.step [OF R1 src_step.store [where i = 0 and b = b]]) (use g in simp_all)
  from source_collects [OF this] g(2) R2 show ?thesis by (intro exI [of _ ?s2]) simp
qed

text \<open>
  C32: one thread: \<^term>\<open>n\<close> functions that return or panic, added under different keys to a new
  group; every \<^verbatim>\<open>add\<close> returns, \<^verbatim>\<open>sum\<close> does not wait, and \<^verbatim>\<open>get\<close> answers for each key
  with the function's value, its error prefixed, or the report of its panic. One more \<^verbatim>\<open>add\<close>
  panics.
\<close>

theorem source_round_trip:
  assumes "quiet rt" and "length xs = unat n" and "distinct (map (fst \<circ> snd) xs)"
    and "\<And>x. x \<in> set xs \<Longrightarrow> catch_unwind (snd (snd x)) = ret (f x)"
  shows "\<exists>g. src_adds rt xs (0, src_group_new n) = ret (length xs, g) \<and>
    src_sum rt (length xs, g) = ret (length xs, src_wg_update (\<lambda>wg. wg\<lparr>wg_flag := 0\<rparr>) g) \<and>
    (\<forall>(ty, k, func)\<in>set xs. src_get k g = Ret (src_outcome ty (f (ty, k, func)))) \<and>
    (\<forall>ty k func t. src_add rt ty k func (t, g) = Some Panic)"
proof -
  let ?s0 = "\<lparr>grp = src_group_new n, claims = [], pending = []\<rparr> :: 'a src_sys"
  have i: "unat (index (grp ?s0)) + length xs \<le> unat n" using assms(2) by (simp add: src_group_new_def)
  from src_adds_reach [OF src_reach.start assms(1) _ i assms(4), of 0] obtain s where
    1: "src_adds rt xs (0, src_group_new n) = ret (length xs, grp s)" "src_reach n s"
      "claims s = map (\<lambda>x. (fst (snd x), src_outcome (fst x) (f x))) xs" "pending s = []" by auto
  note I = src_inv_reach [OF 1(2)]
  have "unat (wg_count (src_wg (grp s))) = unat (0 :: u32)" using I 1(3,4) assms(2) by (simp add: src_inv_def)
  then have z: "wg_count (src_wg (grp s)) = 0" by (simp only: word_unat_eq_iff)
  from src_inv_complete [OF I z] have c: "calls (grp s) = map filled (claims s)" by blast
  have d: "distinct (map fst (claims s))" using assms(3) by (simp add: 1(3) o_def)
  have "src_get k (grp s) = Ret (src_outcome ty (f (ty, k, func)))" if "(ty, k, func) \<in> set xs" for ty k func
  proof -
    have "(k, src_outcome ty (f (ty, k, func))) \<in> set (claims s)" using that by (force simp: 1(3))
    from find_call_map [OF d this] show ?thesis by (simp add: src_get_def c filled_def)
  qed
  moreover have "src_add rt ty k func (t, grp s) = Some Panic" for ty k func t
  proof (rule src_add_full)
    have "length (claims s) = min (unat n) (unat (index (grp s)))" "length (calls (grp s)) = unat n"
      using I by (simp_all add: src_inv_def)
    then show "length (calls (grp s)) \<le> unat (index (grp s))" "length (calls (grp s)) < 2 ^ 32"
      using 1(3) assms(2) unat_u32_less [of n] by (simp_all del: unat_u32_less)
  qed
  ultimately show ?thesis using 1(1) wg_wait_zero [of src_wg "grp s"] z by (auto simp: src_sum_def)
qed

theorem source_round_trip_witness:
  "\<exists>g. src_adds solo [(0, ''a'', ret (Ok 5)), (1, ''b'', Some Panic)] (0, src_group_new 2) = ret (2, g) \<and>
     src_get ''a'' g = Ret (Ok (Response \<lparr>type_id = 0, payload = 5 :: nat\<rparr>)) \<and>
     src_get ''b'' g = Ret (Err (WrapError ''function of user panic''))"
proof -
  let ?xs = "[(0, ''a'', ret (Ok (5 :: nat))), (1, ''b'', Some Panic)]"
  let ?f = "\<lambda>x :: nat \<times> string \<times> nat user_fn. if fst (snd x) = ''a'' then Ok (Ok 5) else Err ()"
  have "length ?xs = unat (2 :: u32)" "distinct (map (fst \<circ> snd) ?xs)"
    "\<And>x. x \<in> set ?xs \<Longrightarrow> catch_unwind (snd (snd x)) = ret (?f x)" by auto
  from source_round_trip [OF solo_simps(4) this] show ?thesis by (simp add: numeral_2_eq_2) blast
qed

text \<open>
  \<^verbatim>\<open>reset\<close> leaves a group that cannot be used: it sets the index to the number of calls, so
  every \<^verbatim>\<open>add\<close> panics, \<^verbatim>\<open>sum\<close> never returns, and \<^verbatim>\<open>get\<close> of the empty key reads a
  result that was never written.
\<close>

theorem source_reset_stuck:
  assumes "0 < n" and "quiet rt"
  shows "src_add rt ty k func (t, src_reset n g) = Some Panic \<and>
    diverges (src_sum rt (t, src_reset n g)) \<and> src_get '''' (src_reset n g) = Undef"
proof (intro conjI)
  show "src_add rt ty k func (t, src_reset n g) = Some Panic"
    using unat_u32_less [of n] by (intro src_add_full) (simp_all add: src_reset_def del: unat_u32_less)
  show "diverges (src_sum rt (t, src_reset n g))"
    unfolding src_sum_def using assms
    by (intro wg_wait_diverges) (simp_all add: src_reset_def wg_new_def word_gt_0)
  have "unat n \<noteq> 0" using assms(1) by (simp add: word_less_nat_alt)
  then obtain m where "unat n = Suc m" by (cases "unat n") auto
  then show "src_get '''' (src_reset n g) = Undef"
    by (simp add: src_get_def src_reset_def src_call_default_def)
qed

theorem source_reset_stuck_witness:
  "src_add solo 0 ''k'' (ret (Ok (7 :: nat))) (0, src_reset 2 (src_group_new 2)) = Some Panic"
proof -
  have "(0 :: u32) < 2" by simp
  from source_reset_stuck [OF this solo_simps(4)] show ?thesis by blast
qed

section \<open>Flight\<close>

text \<open>
  C34: used by one thread at a time the group is a table of results: \<^verbatim>\<open>exec\<close> of an unknown key
  runs the function once and stores its outcome; of a known key it returns the stored result and
  counts the callers, without running the function; a caller with another result type panics;
  \<^verbatim>\<open>forgot\<close> deletes the entry.
\<close>

theorem flight_table:
  assumes "fl_rel m g" and "quiet rt"
  shows "(case m k of
      None \<Rightarrow> (\<forall>r. catch_unwind func = ret r \<longrightarrow>
        (\<exists>t' g'. fl_exec rt ty k func (t, g) = ret ((t', g'), fl_outcome r, 1) \<and>
          fl_rel (m(k \<mapsto> (ty, fl_outcome r, 1))) g'))
    | Some (ty', r, n) \<Rightarrow>
        if ty' = ty then \<exists>g'. fl_exec rt ty k func (t, g) = ret ((t, g'), r, n + 1) \<and>
          fl_rel (m(k \<mapsto> (ty, r, n + 1))) g'
        else fl_exec rt ty k func (t, g) = Some Panic) \<and>
    fl_rel (m(k := None)) (fst (fl_forgot k g)) \<and> (snd (fl_forgot k g) \<longleftrightarrow> m k \<noteq> None)"
proof -
  note F = fl_forgot_rel [OF assms(1), of k]
  show ?thesis
  proof (cases "m k")
    case None
    with fl_exec_miss [OF assms(1) None assms(2), of func] F show ?thesis by simp
  next
    case (Some e)
    obtain ty' r n where e: "e = (ty', r, n)" by (metis prod.exhaust)
    show ?thesis
    proof (cases "ty' = ty")
      case True
      with fl_exec_hit [OF assms(1), of k ty r n] Some e F show ?thesis by simp
    next
      case False
      with fl_exec_other_type [OF assms(1), of k ty' r n] Some e F show ?thesis by simp
    qed
  qed
qed

theorem flight_table_witness:
  "\<exists>t g g'. fl_exec solo 0 ''k'' (Some Panic) (0, fl_group_default) =
      ret ((t, g), Err (WrapError ''function of user panic''), 1) \<and>
    fl_exec solo 0 ''k'' (ret (Ok (7 :: nat))) (t, g) = ret ((t, g'), Err (WrapError ''function of user panic''), 2)"
proof -
  let ?e = "Err (WrapError ''function of user panic'') :: (nat, wrap_error) result"
  from flight_table [OF fl_rel_default solo_simps(4), where k = "''k''" and func = "Some Panic" and ty = 0 and t = 0] obtain t g where
    1: "fl_exec solo 0 ''k'' (Some Panic) (0, fl_group_default) = ret ((t, g), ?e, 1)"
      "fl_rel [''k'' \<mapsto> (0, ?e, 1)] g" by auto
  from flight_table [OF 1(2) solo_simps(4), where k = "''k''" and func = "ret (Ok 7)" and ty = 0 and t = t] obtain g' where
    "fl_exec solo 0 ''k'' (ret (Ok 7)) (t, g) = ret ((t, g'), ?e, 1 + 1)" by auto
  with 1(1) show ?thesis by auto
qed



text \<open>
  Duplicate suppression has a gap: two threads that both look a key up before either inserts
  its call both run their function and are answered with different results.
\<close>

theorem flight_race:
  "\<exists>s. fl_schedule race_schedule fl_sys_new = Some s \<and> runs s = [''k'', ''k''] \<and>
     (\<exists>a. fpcs s 1 = Answered a (Ok 10, 1)) \<and> (\<exists>a. fpcs s 2 = Answered a (Ok 20, 1))"
  by (rule race_runs_twice)

end
