(* ===== verification/Channel_Tests.thy ===== *)
theory Channel_Tests
  imports Handles Bounded_Properties Unbounded_Properties
begin

text \<open>
  The unit tests \<^verbatim>\<open>send_recv\<close> and \<^verbatim>\<open>send_shared_recv\<close> of \<^verbatim>\<open>src/src/queue/spsc.rs\<close> and
  \<^verbatim>\<open>src/src/queue/mpmc.rs\<close> as programs over the handles of the two modules, to the end of the
  scope, where the handles are dropped. The tests of the two modules have the same text; a
  \<^verbatim>\<open>channel_module\<close> holds the functions of a module that they call.
\<close>

record ('q, 'u) channel_module =
  bounded_pair :: "u32 \<Rightarrow> ((nat \<times> nat) \<times> 'q arcs) outcome"
  bsender_clone :: "nat \<Rightarrow> 'q arcs \<Rightarrow> (nat \<times> 'q arcs) outcome"
  bsender_try_send :: "'q runtime \<Rightarrow> i32 \<Rightarrow> 'q clocked \<Rightarrow> ('q clocked \<times> (unit, i32 try_send_error) result) run"
  bsender_send :: "'q runtime \<Rightarrow> nat \<Rightarrow> i32 \<Rightarrow> 'q clocked \<Rightarrow> ('q clocked \<times> (unit, i32 send_error) result) run"
  breceiver_try_recv :: "'q runtime \<Rightarrow> 'q clocked \<Rightarrow> ('q clocked \<times> (i32, try_recv_error) result) run"
  breceiver_recv :: "'q runtime \<Rightarrow> nat \<Rightarrow> 'q clocked \<Rightarrow> ('q clocked \<times> (i32, recv_error) result) run"
  bounded_drop :: "'q \<Rightarrow> i32 list outcome"
  unbounded_pair :: "((nat \<times> nat) \<times> 'u arcs) outcome"
  usender_clone :: "nat \<Rightarrow> 'u arcs \<Rightarrow> (nat \<times> 'u arcs) outcome"
  usender_send :: "'u runtime \<Rightarrow> i32 \<Rightarrow> 'u clocked \<Rightarrow> ('u clocked \<times> (unit, i32 send_error) result) run"
  ureceiver_recv :: "'u runtime \<Rightarrow> nat \<Rightarrow> 'u clocked \<Rightarrow> ('u clocked \<times> (i32, recv_error) result) run"

text \<open>Handles are given by their pointers; \<^verbatim>\<open>i32\<close> has no destructor.\<close>

definition spsc_module :: "(i32 spsc_bounded, i32 spsc_unbounded) channel_module" where
  "spsc_module = \<lparr>
     bounded_pair = (\<lambda>n. obind (spsc_bounded_pair n 0 Map.empty)
       (\<lambda>x. case x of ((Spsc_BSender p, Spsc_BReceiver r), A) \<Rightarrow> Ret ((p, r), A))),
     bsender_clone = (\<lambda>p A. obind (spsc_bsender_clone (Spsc_BSender p) A) (\<lambda>x. case x of (Spsc_BSender p, A) \<Rightarrow> Ret (p, A))),
     bsender_try_send = spsc_bsender_try_send, bsender_send = spsc_bsender_send,
     breceiver_try_recv = spsc_breceiver_try_recv, breceiver_recv = spsc_breceiver_recv,
     bounded_drop = ring_drop,
     unbounded_pair = obind (spsc_unbounded_pair 0 Map.empty)
       (\<lambda>x. case x of ((Spsc_USender p, Spsc_UReceiver r), A) \<Rightarrow> Ret ((p, r), A)),
     usender_clone = (\<lambda>p A. obind (spsc_usender_clone (Spsc_USender p) A) (\<lambda>x. case x of (Spsc_USender p, A) \<Rightarrow> Ret (p, A))),
     usender_send = spsc_usender_send True, ureceiver_recv = spsc_ureceiver_recv True\<rparr>"

definition mpmc_module :: "(i32 mpmc_bounded, i32 mpmc_unbounded) channel_module" where
  "mpmc_module = \<lparr>
     bounded_pair = (\<lambda>n. obind (mpmc_bounded_pair n 0 Map.empty)
       (\<lambda>x. case x of ((Mpmc_BSender p, Mpmc_BReceiver r), A) \<Rightarrow> Ret ((p, r), A))),
     bsender_clone = (\<lambda>p A. obind (mpmc_bsender_clone (Mpmc_BSender p) A) (\<lambda>x. case x of (Mpmc_BSender p, A) \<Rightarrow> Ret (p, A))),
     bsender_try_send = mpmc_bsender_try_send, bsender_send = mpmc_bsender_send,
     breceiver_try_recv = mpmc_breceiver_try_recv, breceiver_recv = mpmc_breceiver_recv,
     bounded_drop = ring_drop,
     unbounded_pair = obind (mpmc_unbounded_pair 0 Map.empty)
       (\<lambda>x. case x of ((Mpmc_USender p, Mpmc_UReceiver r), A) \<Rightarrow> Ret ((p, r), A)),
     usender_clone = (\<lambda>p A. obind (mpmc_usender_clone (Mpmc_USender p) A) (\<lambda>x. case x of (Mpmc_USender p, A) \<Rightarrow> Ret (p, A))),
     usender_send = mpmc_usender_send True, ureceiver_recv = mpmc_ureceiver_recv True\<rparr>"

section \<open>The tests\<close>

text \<open>\<^verbatim>\<open>unwrap\<close> and \<^verbatim>\<open>assert_eq!\<close>.\<close>

fun unwrap :: "('a, 'e) result \<Rightarrow> 'a run" where
  "unwrap (Inr x) = ret x"
| "unwrap (Inl _) = Some Panic"

definition assert_eq :: "'a \<Rightarrow> 'a \<Rightarrow> unit run" where
  "assert_eq x y = (if x = y then ret () else Some Panic)"

text \<open>
  A send that succeeds and a receive that gets the same message, through the handles \<^term>\<open>tx\<close>
  and \<^term>\<open>rx\<close>; the statement pairs of which the tests are made.
\<close>

definition send_then_recv ::
  "('q clocked \<Rightarrow> ('q clocked \<times> (unit, 'e) result) run) \<Rightarrow> ('q clocked \<Rightarrow> ('q clocked \<times> (i32, 'f) result) run) \<Rightarrow>
    nat \<Rightarrow> nat \<Rightarrow> i32 \<Rightarrow> nat \<times> 'q arcs \<Rightarrow> (nat \<times> 'q arcs) run" where
  "send_then_recv call_s call_r tx rx v s =
     rbind (arc_call tx call_s s) (\<lambda>(s, r). rbind (unwrap r) (\<lambda>_.
       rbind (arc_call rx call_r s) (\<lambda>(s, r). rbind (unwrap r) (\<lambda>x.
         rbind (assert_eq x v) (\<lambda>_. ret s)))))"

text \<open>The halves of the tests; the result is what is dropped at the end of the scope, in order.\<close>

definition send_recv_bounded :: "('q, 'u) channel_module \<Rightarrow> 'q runtime \<Rightarrow> (nat list \<times> 'q arcs) run" where
  "send_recv_bounded M rt =
     rbind (Some (bounded_pair M 3)) (\<lambda>((tx, rx), A).
       rbind (send_then_recv (bsender_try_send M rt 1) (breceiver_try_recv M rt) tx rx 1 (0, A)) (\<lambda>s.
         ret ([rx, tx], snd s)))"

definition send_recv_unbounded :: "('q, 'u) channel_module \<Rightarrow> 'u runtime \<Rightarrow> (nat list \<times> 'u arcs) run" where
  "send_recv_unbounded M rt =
     rbind (Some (unbounded_pair M)) (\<lambda>((tx, rx), A).
       rbind (send_then_recv (usender_send M rt 1) (ureceiver_recv M rt 0) tx rx 1 (0, A)) (\<lambda>s.
         ret ([rx, tx], snd s)))"

definition send_shared_recv_bounded :: "('q, 'u) channel_module \<Rightarrow> 'q runtime \<Rightarrow> (nat list \<times> 'q arcs) run" where
  "send_shared_recv_bounded M rt =
     rbind (Some (bounded_pair M 4)) (\<lambda>((tx1, rx), A).
       rbind (Some (bsender_clone M tx1 A)) (\<lambda>(tx2, A).
         rbind (send_then_recv (bsender_send M rt 0 1) (breceiver_recv M rt 0) tx1 rx 1 (0, A)) (\<lambda>s.
           rbind (send_then_recv (bsender_send M rt 0 2) (breceiver_recv M rt 0) tx2 rx 2 s) (\<lambda>s.
             ret ([tx2, rx, tx1], snd s)))))"

definition send_shared_recv_unbounded :: "('q, 'u) channel_module \<Rightarrow> 'u runtime \<Rightarrow> (nat list \<times> 'u arcs) run" where
  "send_shared_recv_unbounded M rt =
     rbind (Some (unbounded_pair M)) (\<lambda>((tx1, rx), A).
       rbind (Some (usender_clone M tx1 A)) (\<lambda>(tx2, A).
         rbind (send_then_recv (usender_send M rt 1) (ureceiver_recv M rt 0) tx1 rx 1 (0, A)) (\<lambda>s.
           rbind (send_then_recv (usender_send M rt 2) (ureceiver_recv M rt 0) tx2 rx 2 s) (\<lambda>s.
             ret ([tx2, rx, tx1], snd s)))))"

fun drop_all :: "('q \<Rightarrow> i32 list outcome) \<Rightarrow> nat list \<Rightarrow> 'q arcs \<Rightarrow> unit outcome" where
  "drop_all destroy [] A = Ret ()"
| "drop_all destroy (p # ps) A = obind (arc_drop destroy p A) (\<lambda>(A, _). drop_all destroy ps A)"

text \<open>The unbounded core has no destructor.\<close>

definition whole_test :: "('q, 'u) channel_module \<Rightarrow> (nat list \<times> 'q arcs) run \<Rightarrow> (nat list \<times> 'u arcs) run \<Rightarrow> unit run" where
  "whole_test M bounded unbounded =
     rbind bounded (\<lambda>(ps, A). rbind unbounded (\<lambda>(us, B).
       rbind (Some (drop_all (\<lambda>_. Ret []) us B)) (\<lambda>_. Some (drop_all (bounded_drop M) ps A))))"

definition spsc_send_recv :: "i32 spsc_bounded runtime \<Rightarrow> i32 spsc_unbounded runtime \<Rightarrow> unit run" where
  "spsc_send_recv rt ru = whole_test spsc_module (send_recv_bounded spsc_module rt) (send_recv_unbounded spsc_module ru)"

definition spsc_send_shared_recv :: "i32 spsc_bounded runtime \<Rightarrow> i32 spsc_unbounded runtime \<Rightarrow> unit run" where
  "spsc_send_shared_recv rt ru =
     whole_test spsc_module (send_shared_recv_bounded spsc_module rt) (send_shared_recv_unbounded spsc_module ru)"

definition mpmc_send_recv :: "i32 mpmc_bounded runtime \<Rightarrow> i32 mpmc_unbounded runtime \<Rightarrow> unit run" where
  "mpmc_send_recv rt ru = whole_test mpmc_module (send_recv_bounded mpmc_module rt) (send_recv_unbounded mpmc_module ru)"

definition mpmc_send_shared_recv :: "i32 mpmc_bounded runtime \<Rightarrow> i32 mpmc_unbounded runtime \<Rightarrow> unit run" where
  "mpmc_send_shared_recv rt ru =
     whole_test mpmc_module (send_shared_recv_bounded mpmc_module rt) (send_shared_recv_unbounded mpmc_module ru)"

section \<open>How they end\<close>

text \<open>
  What the tests rely on: \<^term>\<open>rel c t q\<close> says that \<^term>\<open>t\<close> messages have gone through the
  empty queue \<^term>\<open>q\<close> of capacity \<^term>\<open>c\<close>, and \<^term>\<open>urel\<close> the same of an unbounded one.
\<close>

locale tested_module =
  fixes M :: "('q, 'u) channel_module"
    and rel :: "nat \<Rightarrow> nat \<Rightarrow> 'q \<Rightarrow> bool" and urel :: "nat \<Rightarrow> 'u \<Rightarrow> bool" and ok :: "'u runtime \<Rightarrow> bool"
  assumes pair: "cap_ok c \<Longrightarrow> \<exists>q. bounded_pair M (word_of_nat c) = Ret ((0, 0), [0 \<mapsto> \<lparr>strong = 2, content = q\<rparr>]) \<and> rel c 0 q"
    and try_pair: "\<lbrakk>rel c t q; in_budget c (Suc t); live rt 0\<rbrakk> \<Longrightarrow> \<exists>s1 k2 q2.
      bsender_try_send M rt m (k, q) = ret (s1, Ok ()) \<and> breceiver_try_recv M rt s1 = ret ((k2, q2), Ok m) \<and> rel c (Suc t) q2"
    and send_pair: "\<lbrakk>rel c t q; in_budget c (Suc t); live rt 0\<rbrakk> \<Longrightarrow> \<exists>s1 k2 q2.
      bsender_send M rt w m (k, q) = ret (s1, Ok ()) \<and> breceiver_recv M rt w s1 = ret ((k2, q2), Ok m) \<and> rel c (Suc t) q2"
    and clone: "A p = Some a \<Longrightarrow> bsender_clone M p A = Ret (p, A(p \<mapsto> a\<lparr>strong := strong a + 1\<rparr>))"
    and drop: "rel c t q \<Longrightarrow> t < c \<Longrightarrow> bounded_drop M q = Undef"
    and upair: "\<exists>u. unbounded_pair M = Ret ((0, 0), [0 \<mapsto> \<lparr>strong = 2, content = u\<rparr>]) \<and> urel 0 u"
    and usend_pair: "\<lbrakk>urel t u; in_budget 1024 (Suc t); ok ru; live ru 0\<rbrakk> \<Longrightarrow> \<exists>s1 k2 u2.
      usender_send M ru m (k, u) = ret (s1, Ok ()) \<and> ureceiver_recv M ru w s1 = ret ((k2, u2), Ok m) \<and> urel (Suc t) u2"
    and uclone: "B p = Some b \<Longrightarrow> usender_clone M p B = Ret (p, B(p \<mapsto> b\<lparr>strong := strong b + 1\<rparr>))"

lemma send_then_recv_ret:
  assumes "call_s (k, q) = ret (s1, Ok ())" and "call_r s1 = ret ((k2, q2), Ok v)"
  shows "send_then_recv call_s call_r 0 0 v (k, [0 \<mapsto> \<lparr>strong = n, content = q\<rparr>]) =
    ret (k2, [0 \<mapsto> \<lparr>strong = n, content = q2\<rparr>])"
  using assms by (cases s1) (simp add: send_then_recv_def arc_call_def assert_eq_def)

lemma small_budget: "in_budget 3 (Suc 0)" "in_budget 4 (Suc 0)" "in_budget 4 (Suc (Suc 0))"
  "in_budget 1024 (Suc 0)" "in_budget 1024 (Suc (Suc 0))"
  by (simp_all add: in_budget_iff)

lemma cap_ok_3_4: "cap_ok 3" "cap_ok 4"
  by (simp_all add: cap_ok_def)

context tested_module
begin

lemma try_pair_arc:
  assumes "rel c t q" and "in_budget c (Suc t)" and "live rt 0"
  obtains k' q' where "send_then_recv (bsender_try_send M rt m) (breceiver_try_recv M rt) 0 0 m
      (k, [0 \<mapsto> \<lparr>strong = n, content = q\<rparr>]) = ret (k', [0 \<mapsto> \<lparr>strong = n, content = q'\<rparr>])" and "rel c (Suc t) q'"
  using try_pair [OF assms, of m k] send_then_recv_ret by metis

lemma send_pair_arc:
  assumes "rel c t q" and "in_budget c (Suc t)" and "live rt 0"
  obtains k' q' where "send_then_recv (bsender_send M rt w m) (breceiver_recv M rt w) 0 0 m
      (k, [0 \<mapsto> \<lparr>strong = n, content = q\<rparr>]) = ret (k', [0 \<mapsto> \<lparr>strong = n, content = q'\<rparr>])" and "rel c (Suc t) q'"
  using send_pair [OF assms, of w m k] send_then_recv_ret by metis

lemma usend_pair_arc:
  assumes "urel t u" and "in_budget 1024 (Suc t)" and "ok ru" and "live ru 0"
  obtains k' u' where "send_then_recv (usender_send M ru m) (ureceiver_recv M ru w) 0 0 m
      (k, [0 \<mapsto> \<lparr>strong = n, content = u\<rparr>]) = ret (k', [0 \<mapsto> \<lparr>strong = n, content = u'\<rparr>])" and "urel (Suc t) u'"
  using usend_pair [OF assms, of m k w] send_then_recv_ret by metis

lemma send_recv_passes:
  assumes "live rt 0" and "ok ru" and "live ru 0"
  shows "\<exists>q. send_recv_bounded M rt = ret ([0, 0], [0 \<mapsto> \<lparr>strong = 2, content = q\<rparr>]) \<and> rel 3 1 q"
    and "\<exists>u. send_recv_unbounded M ru = ret ([0, 0], [0 \<mapsto> \<lparr>strong = 2, content = u\<rparr>])"
proof -
  from pair [OF cap_ok_3_4(1)] obtain q where
    q: "bounded_pair M 3 = Ret ((0, 0), [0 \<mapsto> \<lparr>strong = 2, content = q\<rparr>])" "rel 3 0 q" by auto
  from try_pair_arc [OF q(2) small_budget(1) assms(1), of 1 0 2] obtain k1 q1 where
    "send_then_recv (bsender_try_send M rt 1) (breceiver_try_recv M rt) 0 0 1
      (0, [0 \<mapsto> \<lparr>strong = 2, content = q\<rparr>]) = ret (k1, [0 \<mapsto> \<lparr>strong = 2, content = q1\<rparr>])" "rel 3 (Suc 0) q1" by auto
  with q(1) show "\<exists>q. send_recv_bounded M rt = ret ([0, 0], [0 \<mapsto> \<lparr>strong = 2, content = q\<rparr>]) \<and> rel 3 1 q"
    by (intro exI [of _ q1]) (simp add: send_recv_bounded_def)
  from upair obtain u where u: "unbounded_pair M = Ret ((0, 0), [0 \<mapsto> \<lparr>strong = 2, content = u\<rparr>])" "urel 0 u" by auto
  from usend_pair_arc [OF u(2) small_budget(4) assms(2,3), of 1 0 0 2] obtain k1 u1 where
    "send_then_recv (usender_send M ru 1) (ureceiver_recv M ru 0) 0 0 1
      (0, [0 \<mapsto> \<lparr>strong = 2, content = u\<rparr>]) = ret (k1, [0 \<mapsto> \<lparr>strong = 2, content = u1\<rparr>])" by metis
  with u(1) show "\<exists>u. send_recv_unbounded M ru = ret ([0, 0], [0 \<mapsto> \<lparr>strong = 2, content = u\<rparr>])"
    by (intro exI [of _ u1]) (simp add: send_recv_unbounded_def)
qed

lemma send_shared_recv_passes:
  assumes "live rt 0" and "ok ru" and "live ru 0"
  shows "\<exists>q. send_shared_recv_bounded M rt = ret ([0, 0, 0], [0 \<mapsto> \<lparr>strong = 3, content = q\<rparr>]) \<and> rel 4 2 q"
    and "\<exists>u. send_shared_recv_unbounded M ru = ret ([0, 0, 0], [0 \<mapsto> \<lparr>strong = 3, content = u\<rparr>])"
proof -
  from pair [OF cap_ok_3_4(2)] obtain q where
    q: "bounded_pair M 4 = Ret ((0, 0), [0 \<mapsto> \<lparr>strong = 2, content = q\<rparr>])" "rel 4 0 q" by auto
  from send_pair_arc [OF q(2) small_budget(2) assms(1), of 0 1 0 3] obtain k1 q1 where
    1: "send_then_recv (bsender_send M rt 0 1) (breceiver_recv M rt 0) 0 0 1
      (0, [0 \<mapsto> \<lparr>strong = 3, content = q\<rparr>]) = ret (k1, [0 \<mapsto> \<lparr>strong = 3, content = q1\<rparr>])" "rel 4 (Suc 0) q1" by auto
  from send_pair_arc [OF 1(2) small_budget(3) assms(1), of 0 2 k1 3] obtain k2 q2 where
    2: "send_then_recv (bsender_send M rt 0 2) (breceiver_recv M rt 0) 0 0 2
      (k1, [0 \<mapsto> \<lparr>strong = 3, content = q1\<rparr>]) = ret (k2, [0 \<mapsto> \<lparr>strong = 3, content = q2\<rparr>])" "rel 4 2 q2"
    by (auto simp: numeral_2_eq_2)
  show "\<exists>q. send_shared_recv_bounded M rt = ret ([0, 0, 0], [0 \<mapsto> \<lparr>strong = 3, content = q\<rparr>]) \<and> rel 4 2 q"
    using q(1) 1(1) 2 clone [of "[0 \<mapsto> \<lparr>strong = 2, content = q\<rparr>]" 0]
    by (intro exI [of _ q2]) (simp add: send_shared_recv_bounded_def)
  from upair obtain u where u: "unbounded_pair M = Ret ((0, 0), [0 \<mapsto> \<lparr>strong = 2, content = u\<rparr>])" "urel 0 u" by auto
  from usend_pair_arc [OF u(2) small_budget(4) assms(2,3), of 1 0 0 3] obtain k1 u1 where
    1: "send_then_recv (usender_send M ru 1) (ureceiver_recv M ru 0) 0 0 1
      (0, [0 \<mapsto> \<lparr>strong = 3, content = u\<rparr>]) = ret (k1, [0 \<mapsto> \<lparr>strong = 3, content = u1\<rparr>])" "urel (Suc 0) u1" by auto
  from usend_pair_arc [OF 1(2) small_budget(5) assms(2,3), of 2 0 k1 3] obtain k2 u2 where
    2: "send_then_recv (usender_send M ru 2) (ureceiver_recv M ru 0) 0 0 2
      (k1, [0 \<mapsto> \<lparr>strong = 3, content = u1\<rparr>]) = ret (k2, [0 \<mapsto> \<lparr>strong = 3, content = u2\<rparr>])" by metis
  show "\<exists>u. send_shared_recv_unbounded M ru = ret ([0, 0, 0], [0 \<mapsto> \<lparr>strong = 3, content = u\<rparr>])"
    using u(1) 1(1) 2 uclone [of "[0 \<mapsto> \<lparr>strong = 2, content = u\<rparr>]" 0]
    by (intro exI [of _ u2]) (simp add: send_shared_recv_unbounded_def)
qed

text \<open>The unbounded half ends well; dropping the last handle of the bounded queue does not.\<close>

lemma tests_end:
  assumes "live rt 0" and "ok ru" and "live ru 0"
  shows "(\<exists>x. send_recv_bounded M rt = ret x) \<and> (\<exists>y. send_recv_unbounded M ru = ret y) \<and>
      whole_test M (send_recv_bounded M rt) (send_recv_unbounded M ru) = Some Undef"
    and "(\<exists>x. send_shared_recv_bounded M rt = ret x) \<and> (\<exists>y. send_shared_recv_unbounded M ru = ret y) \<and>
      whole_test M (send_shared_recv_bounded M rt) (send_shared_recv_unbounded M ru) = Some Undef"
  using send_recv_passes [OF assms] send_shared_recv_passes [OF assms] drop [of 3 1] drop [of 4 2]
  by (auto simp: whole_test_def arc_drop_def)

end

text \<open>Both modules are such modules.\<close>

context bounded_contract
begin

lemma pass_one:
  assumes R: "ring_rel c t t [] q \<and> cur c t t False q" and B: "in_budget c (Suc t)" and L: "live rt 0"
  shows "\<exists>s1 k2 q2. try_send vt rt m (k, q) = ret (s1, Ok ()) \<and> try_recv vt rt s1 = ret ((k2, q2), Ok m) \<and>
      ring_rel c (Suc t) (Suc t) [] q2 \<and> cur c (Suc t) (Suc t) False q2"
    and "\<exists>s1 k2 q2. send vt ck rt p m (k, q) = ret (s1, Ok ()) \<and> recv_loop vt ck rt p st s1 = ret ((k2, q2), Ok m) \<and>
      ring_rel c (Suc t) (Suc t) [] q2 \<and> cur c (Suc t) (Suc t) False q2"
proof -
  have b: "in_budget c t" and c: "t < t + c"
    using in_budget_mono [OF B] ring_relD(5) [OF conjunct1 [OF R]] by (simp_all add: cap_ok_def)
  note L' = live_later [OF L le0]
  from try_send_open [where m = m and k = k, OF conjunct1 [OF R] conjunct2 [OF R] c b L'] obtain k1 q1 where
    1: "try_send vt rt m (k, q) = ret ((k1, q1), Ok ())" "ring_rel c t (Suc t) [m] q1" "cur c t (Suc t) False q1" by auto
  from try_recv_some [where k = k1, OF 1(2,3) lessI L'] 1(1)
  show "\<exists>s1 k2 q2. try_send vt rt m (k, q) = ret (s1, Ok ()) \<and> try_recv vt rt s1 = ret ((k2, q2), Ok m) \<and>
      ring_rel c (Suc t) (Suc t) [] q2 \<and> cur c (Suc t) (Suc t) False q2" by auto
  from send_open [where ck = ck and p = p and m = m and k = k, OF conjunct1 [OF R] conjunct2 [OF R] c b L'] obtain k1 q1 where
    1: "send vt ck rt p m (k, q) = ret ((k1, q1), Ok ())" "ring_rel c t (Suc t) [m] q1" "cur c t (Suc t) False q1" by auto
  from recv_loop_some [where ck = ck and p = p and st = st and k = k1, OF 1(2,3) lessI L'] 1(1)
  show "\<exists>s1 k2 q2. send vt ck rt p m (k, q) = ret (s1, Ok ()) \<and> recv_loop vt ck rt p st s1 = ret ((k2, q2), Ok m) \<and>
      ring_rel c (Suc t) (Suc t) [] q2 \<and> cur c (Suc t) (Suc t) False q2" by auto
qed

end

context unbounded_contract
begin

lemma upass_one:
  assumes "rel n [] u" and B: "in_budget 1024 (Suc n)" and "ok rt" and "live rt 0"
  shows "\<exists>s1 k2 u2. snd_op rt m (k, u) = ret (s1, Ok ()) \<and> rcv_op rt w s1 = ret ((k2, u2), Ok m) \<and> rel (Suc n) [] u2"
proof -
  have b: "in_budget 1024 n" by (rule in_budget_mono [OF B]) simp
  from send_some [OF assms(1) b assms(3,4), of m k] obtain k1 u1 where
    1: "snd_op rt m (k, u) = ret ((k1, u1), Ok ())" "rel (Suc n) [m] u1" by auto
  from recv_some [OF 1(2) B assms(3,4), of w k1] 1(1) show ?thesis by auto
qed

end

lemma ring_drop_unused: "ring_rel c t t [] q \<Longrightarrow> t < c \<Longrightarrow> ring_drop q = Undef"
  using slots_msg_None_iff [of c t t "[]" "buffer q"] by (simp add: ring_rel_def ring_drop_def elems_drop_Undef_iff)

lemma spsc_module_sel:
  "bounded_pair spsc_module n = obind (spsc_bounded_pair n 0 Map.empty)
     (\<lambda>x. case x of ((Spsc_BSender p, Spsc_BReceiver r), A) \<Rightarrow> Ret ((p, r), A))"
  "unbounded_pair spsc_module = obind (spsc_unbounded_pair 0 Map.empty)
     (\<lambda>x. case x of ((Spsc_USender p, Spsc_UReceiver r), A) \<Rightarrow> Ret ((p, r), A))"
  "bsender_try_send spsc_module rt m = try_send spsc_vtable rt m"
  "breceiver_try_recv spsc_module rt = try_recv spsc_vtable rt"
  "bsender_send spsc_module rt w m = send spsc_vtable (v_is_close spsc_vtable) rt w m"
  "breceiver_recv spsc_module rt w = recv_loop spsc_vtable (v_is_close spsc_vtable) rt w Success"
  "usender_send spsc_module = spsc_unb_send True" "ureceiver_recv spsc_module = spsc_unb_recv True"
  "bounded_drop spsc_module = ring_drop"
  by (simp_all add: spsc_module_def spsc_methods spsc_usender_eta)

interpretation spsc_tests: tested_module spsc_module "\<lambda>c t q. ring_rel c t t [] q \<and> spsc_cur () c t t False q"
  "\<lambda>n u. unb_rel (spsc_cur ()) n [] u" "\<lambda>rt. quiet rt \<and> (\<forall>k. \<not> spurious rt k)"
proof
  fix c assume "cap_ok c"
  from channel_new(1) [OF this] obtain q :: "i32 spsc_bounded" where
    "spsc_channel (word_of_nat c) = Ret q" "spsc_rel () c 0 0 [] False q"
    by blast
  then show "\<exists>q. bounded_pair spsc_module (word_of_nat c) = Ret ((0, 0), [0 \<mapsto> \<lparr>strong = 2, content = q\<rparr>]) \<and>
      ring_rel c 0 0 [] q \<and> spsc_cur () c 0 0 False q"
    by (intro exI [of _ q])
      (simp add: spsc_module_sel spsc_bounded_pair_def arc_new_def arc_clone_def spsc_rel_def numeral_2_eq_2)
next
  show "\<exists>u. unbounded_pair spsc_module = Ret ((0, 0), [0 \<mapsto> \<lparr>strong = 2, content = u\<rparr>]) \<and> unb_rel (spsc_cur ()) 0 [] u"
  proof -
    obtain u :: "i32 spsc_unbounded" where u: "spsc_unbounded_default = Ret u" "unb_rel (spsc_cur ()) 0 [] u"
      using spsc_unbounded_default_ok by blast
    then show ?thesis
      by (intro exI [of _ u])
        (simp add: u(1) spsc_module_sel spsc_unbounded_pair_def spsc_unbounded_channel_def arc_new_def arc_clone_def numeral_2_eq_2)
  qed
next
  show "bounded_drop spsc_module q = Undef" if "ring_rel c t t [] q \<and> spsc_cur () c t t False q" "t < c" for c t q
    using that ring_drop_unused [of c t q] by (simp add: spsc_module_sel)
next
  show "\<exists>s1 k2 u2. usender_send spsc_module ru m (k, u) = ret (s1, Ok ()) \<and>
      ureceiver_recv spsc_module ru w s1 = ret ((k2, u2), Ok m) \<and> unb_rel (spsc_cur ()) (Suc t) [] u2"
    if "unb_rel (spsc_cur ()) t [] u" "in_budget 1024 (Suc t)" "quiet ru \<and> (\<forall>k. \<not> spurious ru k)" "live ru 0" for t u ru m k w
    unfolding spsc_module_sel by (rule spsc_unbounded.upass_one [OF that])
qed (simp_all only: spsc_module_sel spsc.pass_one, simp_all add: spsc_module_def arc_clone_def)

lemma mpmc_module_sel:
  "bounded_pair mpmc_module n = obind (mpmc_bounded_pair n 0 Map.empty)
     (\<lambda>x. case x of ((Mpmc_BSender p, Mpmc_BReceiver r), A) \<Rightarrow> Ret ((p, r), A))"
  "unbounded_pair mpmc_module = obind (mpmc_unbounded_pair 0 Map.empty)
     (\<lambda>x. case x of ((Mpmc_USender p, Mpmc_UReceiver r), A) \<Rightarrow> Ret ((p, r), A))"
  "bsender_try_send mpmc_module rt m = try_send mpmc_vtable rt m"
  "breceiver_try_recv mpmc_module rt = try_recv mpmc_vtable rt"
  "bsender_send mpmc_module rt w m = send mpmc_vtable (v_is_close mpmc_vtable) rt w m"
  "breceiver_recv mpmc_module rt w = recv_loop mpmc_vtable (v_is_close mpmc_vtable) rt w Success"
  "usender_send mpmc_module = mpmc_unb_send True" "ureceiver_recv mpmc_module = mpmc_unb_recv True"
  "bounded_drop mpmc_module = ring_drop"
  by (simp_all add: mpmc_module_def mpmc_methods mpmc_usender_eta)

interpretation mpmc_tests: tested_module mpmc_module "\<lambda>c t q. ring_rel c t t [] q \<and> mpmc_cur () c t t False q"
  "\<lambda>n u. unb_rel (mpmc_cur ()) n [] u" "quiet"
proof
  fix c assume "cap_ok c"
  from channel_new(2) [OF this] obtain q :: "i32 mpmc_bounded" where
    "mpmc_channel (word_of_nat c) = Ret q" "mpmc_rel () c 0 0 [] False q"
    by blast
  then show "\<exists>q. bounded_pair mpmc_module (word_of_nat c) = Ret ((0, 0), [0 \<mapsto> \<lparr>strong = 2, content = q\<rparr>]) \<and>
      ring_rel c 0 0 [] q \<and> mpmc_cur () c 0 0 False q"
    by (intro exI [of _ q])
      (simp add: mpmc_module_sel mpmc_bounded_pair_def arc_new_def arc_clone_def mpmc_rel_def numeral_2_eq_2)
next
  show "\<exists>u. unbounded_pair mpmc_module = Ret ((0, 0), [0 \<mapsto> \<lparr>strong = 2, content = u\<rparr>]) \<and> unb_rel (mpmc_cur ()) 0 [] u"
  proof -
    obtain u :: "i32 mpmc_unbounded" where u: "mpmc_unbounded_default = Ret u" "unb_rel (mpmc_cur ()) 0 [] u"
      using mpmc_unbounded_default_ok by blast
    then show ?thesis
      by (intro exI [of _ u])
        (simp add: u(1) mpmc_module_sel mpmc_unbounded_pair_def mpmc_unbounded_channel_def arc_new_def arc_clone_def numeral_2_eq_2)
  qed
next
  show "bounded_drop mpmc_module q = Undef" if "ring_rel c t t [] q \<and> mpmc_cur () c t t False q" "t < c" for c t q
    using that ring_drop_unused [of c t q] by (simp add: mpmc_module_sel)
next
  show "\<exists>s1 k2 u2. usender_send mpmc_module ru m (k, u) = ret (s1, Ok ()) \<and>
      ureceiver_recv mpmc_module ru w s1 = ret ((k2, u2), Ok m) \<and> unb_rel (mpmc_cur ()) (Suc t) [] u2"
    if "unb_rel (mpmc_cur ()) t [] u" "in_budget 1024 (Suc t)" "quiet ru" "live ru 0" for t u ru m k w
    unfolding mpmc_module_sel by (rule mpmc_unbounded.upass_one [OF that])
qed (simp_all only: mpmc_module_sel mpmc.pass_one, simp_all add: mpmc_module_def arc_clone_def)

text \<open>
  C28: the tests \<^verbatim>\<open>send_recv\<close> and \<^verbatim>\<open>send_shared_recv\<close> of both modules: no \<^verbatim>\<open>unwrap\<close>
  panics and every assertion holds in the bounded and in the unbounded half; but at the end of
  each test the last handle of the bounded queue drops its buckets, and those that were never
  written are read uninitialised.
\<close>

theorem channel_tests_end:
  assumes "live rt 0" and "live ru 0" and "\<And>k. \<not> spurious ru k" and "live rt' 0" and "live ru' 0"
  shows "((\<exists>x. send_recv_bounded spsc_module rt = ret x) \<and> (\<exists>y. send_recv_unbounded spsc_module ru = ret y) \<and>
      spsc_send_recv rt ru = Some Undef) \<and>
    ((\<exists>x. send_shared_recv_bounded spsc_module rt = ret x) \<and> (\<exists>y. send_shared_recv_unbounded spsc_module ru = ret y) \<and>
      spsc_send_shared_recv rt ru = Some Undef) \<and>
    ((\<exists>x. send_recv_bounded mpmc_module rt' = ret x) \<and> (\<exists>y. send_recv_unbounded mpmc_module ru' = ret y) \<and>
      mpmc_send_recv rt' ru' = Some Undef) \<and>
    ((\<exists>x. send_shared_recv_bounded mpmc_module rt' = ret x) \<and> (\<exists>y. send_shared_recv_unbounded mpmc_module ru' = ret y) \<and>
      mpmc_send_shared_recv rt' ru' = Some Undef)"
  unfolding spsc_send_recv_def spsc_send_shared_recv_def mpmc_send_recv_def mpmc_send_shared_recv_def
  using spsc_tests.tests_end [OF assms(1) spsc_calm_rt [OF assms(2,3)] assms(2)]
    mpmc_tests.tests_end [OF assms(4) live_quiet [OF assms(5)] assms(5)] by blast

theorem channel_tests_end_witness:
  "spsc_send_recv solo solo = Some Undef \<and> mpmc_send_shared_recv solo solo = Some Undef"
  using channel_tests_end [OF live_solo live_solo _ live_solo live_solo] by simp

end
