(* ===== verification/Group_Tests.thy ===== *)
theory Group_Tests
  imports Wait_Group Flight
begin

text \<open>
  The unit tests of \<^verbatim>\<open>src/src/wg.rs\<close>, \<^verbatim>\<open>src/src/single/source.rs\<close> and
  \<^verbatim>\<open>src/src/single/flight.rs\<close> as programs over the models. A test has a main thread 0 and
  a spawned thread 1; every schedule of their steps is considered, not only the one the test's
  author had in mind.
\<close>

section \<open>Wait group\<close>

text \<open>
  What a thread of a test does: a call of the wait group, an increment of the test's own counter,
  \<^verbatim>\<open>join\<close> of the other thread, and the assertion that the counter is 2.
\<close>

datatype wg_stmt = Method wg_action | Count | Join nat | Assert_Two

record wg_test =
  tsys :: wg_sys
  hits :: u32
  todo :: "nat \<Rightarrow> wg_stmt list"
  failed :: bool

text \<open>\<^term>\<open>rest_of i as s\<close>: thread \<^term>\<open>i\<close> has \<^term>\<open>as\<close> left to do.\<close>

definition rest_of :: "nat \<Rightarrow> wg_stmt list \<Rightarrow> wg_test \<Rightarrow> wg_test" where
  "rest_of i as s = s\<lparr>todo := (todo s)(i := as)\<rparr>"

definition over :: "nat \<Rightarrow> wg_test \<Rightarrow> bool" where
  "over i s \<longleftrightarrow> todo s i = [] \<and> pcs (tsys s) i = Idle"

fun wg_stmt_step :: "(u32 \<Rightarrow> u32 \<Rightarrow> bool) \<Rightarrow> nat \<Rightarrow> wg_stmt list \<Rightarrow> wg_test \<Rightarrow> wg_test option" where
  "wg_stmt_step blocks i [] s = None"
| "wg_stmt_step blocks i (Method a # as) s =
     map_option (\<lambda>w. (rest_of i as s)\<lparr>tsys := w\<rparr>) (wg_act blocks (\<lambda>_. True) i a (tsys s))"
| "wg_stmt_step blocks i (Count # as) s = Some ((rest_of i as s)\<lparr>hits := hits s + 1\<rparr>)"
| "wg_stmt_step blocks i (Join j # as) s = (if over j s then Some (rest_of i as s) else None)"
| "wg_stmt_step blocks i (Assert_Two # as) s =
     Some ((rest_of i as s)\<lparr>failed := (failed s \<or> hits s \<noteq> 2)\<rparr>)"

text \<open>A thread that is inside a call of the wait group goes on with it.\<close>

definition wg_test_step :: "(u32 \<Rightarrow> u32 \<Rightarrow> bool) \<Rightarrow> nat \<Rightarrow> wg_test \<Rightarrow> wg_test option" where
  "wg_test_step blocks i s =
     (if pcs (tsys s) i = Idle then wg_stmt_step blocks i (todo s i) s
      else map_option (\<lambda>w. s\<lparr>tsys := w\<rparr>) (wg_act blocks (\<lambda>_. True) i Next (tsys s)))"

fun wg_test_run :: "(u32 \<Rightarrow> u32 \<Rightarrow> bool) \<Rightarrow> nat list \<Rightarrow> wg_test \<Rightarrow> wg_test option" where
  "wg_test_run blocks [] s = Some s"
| "wg_test_run blocks (i # is) s = Option.bind (wg_test_step blocks i s) (wg_test_run blocks is)"

definition spawned :: "wg_stmt list \<Rightarrow> wg_stmt list \<Rightarrow> nat \<Rightarrow> wg_stmt list" where
  "spawned as bs = (\<lambda>_. [])(0 := as, 1 := bs)"

definition wg_test_new :: "u32 \<Rightarrow> (nat \<Rightarrow> wg_stmt list) \<Rightarrow> wg_test" where
  "wg_test_new n p = \<lparr>tsys = wg_sys_new n, hits = 0, todo = p, failed = False\<rparr>"

definition test_wait_on_one :: wg_test where
  "test_wait_on_one = wg_test_new 1 (spawned
     [Count, Method Done, Method Wait, Join 1, Assert_Two]
     [Method (Add 1), Count, Method Done])"

definition test_wait_on_gt_one :: wg_test where
  "test_wait_on_gt_one = wg_test_new 1 (spawned
     [Count, Method Done, Method Wait, Join 1, Assert_Two]
     [Method (Add 1), Count, Method Done, Method Wait, Assert_Two])"

text \<open>\<^verbatim>\<open>catch_unwind\<close> and the assertion that it caught a panic.\<close>

definition test_done_without_size :: "unit outcome" where
  "test_done_without_size = (case snd (wg_done wg_default) of Panic \<Rightarrow> Ret () | _ \<Rightarrow> Panic)"

text \<open>
  Where the two threads are: main has done \<^term>\<open>m\<close> of its statements and the spawned thread
  \<^term>\<open>t\<close> of the first \<^term>\<open>n\<close> of its own; the two tests differ in \<^term>\<open>n\<close> only.
\<close>

definition main_code :: "wg_stmt list" where
  "main_code = [Count, Method Done, Method Wait, Join 1, Assert_Two]"

definition thread_code :: "wg_stmt list" where
  "thread_code = [Method (Add 1), Count, Method Done, Method Wait, Assert_Two]"

fun main_at :: "nat \<Rightarrow> wg_pc \<Rightarrow> bool" where
  "main_at m Idle = True"
| "main_at m Panicked = False"
| "main_at m Storing = (m = 2)"
| "main_at m Waking = (m = 2)"
| "main_at m _ = (m = 3)"

fun thread_at :: "nat \<Rightarrow> nat \<Rightarrow> wg_pc \<Rightarrow> bool" where
  "thread_at m t Idle = (4 \<le> t \<longrightarrow> 2 \<le> m)"
| "thread_at m t Panicked = False"
| "thread_at m t Storing = (t = 3)"
| "thread_at m t Waking = (t = 3)"
| "thread_at m t Leaving = (t = 4 \<and> 2 \<le> m)"
| "thread_at m t _ = (t = 4)"

definition wg_test_at :: "nat \<Rightarrow> nat \<Rightarrow> nat \<Rightarrow> wg_test \<Rightarrow> bool" where
  "wg_test_at n m t s \<longleftrightarrow> m \<le> 5 \<and> t \<le> n \<and> \<not> failed s \<and>
     todo s = spawned (drop m main_code) (drop t (take n thread_code)) \<and>
     hits s = (if 0 < m then 1 else 0) + (if 1 < t then 1 else 0) \<and>
     wg_count (the_wg (tsys s)) = (if m < 2 then 1 else 0) + (if 0 < t \<and> t < 3 then 1 else 0) \<and>
     main_at m (pcs (tsys s) 0) \<and> thread_at m t (pcs (tsys s) 1) \<and>
     (\<forall>i>1. pcs (tsys s) i = Idle) \<and> (3 < m \<longrightarrow> t = n \<and> pcs (tsys s) 1 = Idle)"

lemma wg_test_at_new:
  "wg_test_at 3 0 0 test_wait_on_one" "wg_test_at 5 0 0 test_wait_on_gt_one"
  by (simp_all add: wg_test_at_def test_wait_on_one_def test_wait_on_gt_one_def
      wg_test_new_def main_code_def thread_code_def wg_sys_new_def wg_new_def eval_nat_numeral)

lemma spawned_sel [simp]: "spawned as bs 0 = as" "spawned as bs (Suc 0) = bs" "1 < i \<Longrightarrow> spawned as bs i = []"
  "(spawned as bs)(0 := cs) = spawned cs bs" "(spawned as bs)(Suc 0 := cs) = spawned as cs"
  by (auto simp: spawned_def fun_eq_iff)

lemma main_left:
  assumes "m \<le> 5"
  obtains "m = 0" "drop m main_code = [Count, Method Done, Method Wait, Join 1, Assert_Two]"
  | "m = 1" "drop m main_code = [Method Done, Method Wait, Join 1, Assert_Two]"
  | "m = 2" "drop m main_code = [Method Wait, Join 1, Assert_Two]"
  | "m = 3" "drop m main_code = [Join 1, Assert_Two]"
  | "m = 4" "drop m main_code = [Assert_Two]"
  | "m = 5" "drop m main_code = []"
proof -
  have "m = 0 \<or> m = 1 \<or> m = 2 \<or> m = 3 \<or> m = 4 \<or> m = 5" using assms by linarith
  then show thesis using that by (elim disjE) (simp_all add: main_code_def)
qed

lemma main_drop:
  "drop (Suc 0) main_code = [Method Done, Method Wait, Join 1, Assert_Two]"
  "drop 2 main_code = [Method Wait, Join 1, Assert_Two]"
  "drop 3 main_code = [Join 1, Assert_Two]" "drop 4 main_code = [Assert_Two]" "drop 5 main_code = []"
  by (simp_all add: main_code_def)

lemma thread_not_over:
  "n \<in> {3, 5} \<Longrightarrow> t \<le> n \<Longrightarrow> drop t (take n thread_code) = [] \<longleftrightarrow> t = n"
  by (auto simp: thread_code_def)

lemma at_mono: "thread_at m t pc \<Longrightarrow> thread_at (Suc m) t pc"
  by (cases pc) auto

lemma wg_test_main_step:
  assumes I: "wg_test_at n m t s" and n: "n \<in> {3, 5}" and S: "wg_test_step blocks 0 s = Some s'"
    and idle: "pcs (tsys s) 0 = Idle"
  shows "wg_test_at n (Suc m) t s'"
proof -
  have m: "m \<le> 5" and t: "t \<le> n" and A: "thread_at (Suc m) t (pcs (tsys s) (Suc 0))"
    and T: "todo s 0 = drop m main_code"
    using I at_mono by (simp_all add: wg_test_at_def)
  have S': "wg_stmt_step blocks 0 (drop m main_code) s = Some s'"
    using S idle T by (simp add: wg_test_step_def)
  note D = I [unfolded wg_test_at_def]
  show ?thesis
    using m
  proof (cases m rule: main_left)
    case 1
    from 1(1) have "s' = (rest_of 0 (drop 1 main_code) s)\<lparr>hits := hits s + 1\<rparr>"
      using S' by (simp add: main_code_def)
    then show ?thesis
      using D A 1(1) idle by (simp add: wg_test_at_def rest_of_def add.commute split del: if_split)
  next
    case 2
    let ?w = "(tsys s)\<lparr>the_wg := (the_wg (tsys s))\<lparr>wg_count := wg_count (the_wg (tsys s)) - 1\<rparr>\<rparr>"
    show ?thesis
    proof (cases "0 < t \<and> t < 3")
      case True
      then have "wg_count (the_wg (tsys s)) = 2" using D 2(1) by simp
      then have "s' = (rest_of 0 (drop 2 main_code) s)\<lparr>tsys := ?w\<rparr>"
        using S' 2 idle by (simp add: main_drop Let_def)
      then show ?thesis
        using D A 2(1) idle by (simp only: if_P [OF True] wg_test_at_def) (simp add: rest_of_def numeral_2_eq_2 split del: if_split)
    next
      case False
      then have "wg_count (the_wg (tsys s)) = 1" using D 2(1) by simp
      then have "s' = (rest_of 0 (drop 2 main_code) s)\<lparr>tsys := goto 0 Storing ?w\<rparr>"
        using S' 2 idle by (simp add: main_drop Let_def)
      then show ?thesis
        using D A 2(1) idle by (simp only: if_not_P [OF False] wg_test_at_def) (simp add: rest_of_def numeral_2_eq_2 split del: if_split)
    qed
  next
    case 3
    then have "s' = (rest_of 0 (drop 3 main_code) s)\<lparr>tsys := goto 0 Check (tsys s)\<rparr>"
      using S' idle by (simp add: main_drop)
    then show ?thesis
      using D A 3 idle by (simp add: wg_test_at_def rest_of_def split del: if_split)
  next
    case 4
    then have "s' = rest_of 0 (drop 4 main_code) s" "over 1 s"
      using S' by (simp_all add: main_drop split: if_splits)
    then show ?thesis
      using D A 4 idle thread_not_over [OF n t] by (simp add: wg_test_at_def rest_of_def over_def split del: if_split)
  next
    case 5
    then have "s' = (rest_of 0 (drop 5 main_code) s)\<lparr>failed := (failed s \<or> hits s \<noteq> 2)\<rparr>"
      using S' by (simp add: main_drop)
    then show ?thesis
      using D A 5 idle n by (auto simp: wg_test_at_def rest_of_def)
  next
    case 6
    then show ?thesis using S' by simp
  qed
qed

lemma thread_left:
  assumes "t \<le> n" and "n \<in> {3, 5}"
  obtains "t = 0" "drop t (take n thread_code) = Method (Add 1) # drop 1 (take n thread_code)"
  | "t = 1" "drop t (take n thread_code) = Count # drop 2 (take n thread_code)"
  | "t = 2" "drop t (take n thread_code) = Method Done # drop 3 (take n thread_code)"
  | "t = 3" "n = 5" "drop t (take n thread_code) = Method Wait # drop 4 (take n thread_code)"
  | "t = 4" "n = 5" "drop t (take n thread_code) = Assert_Two # drop 5 (take n thread_code)"
  | "t = n" "drop t (take n thread_code) = []"
proof -
  have "t = 0 \<or> t = 1 \<or> t = 2 \<or> t = 3 \<and> n = 5 \<or> t = 4 \<and> n = 5 \<or> t = n" using assms by auto
  then show thesis using that assms(2) by (elim disjE) (auto simp: thread_code_def)
qed

lemma wg_test_thread_step:
  assumes I: "wg_test_at n m t s" and n: "n \<in> {3, 5}" and S: "wg_test_step blocks 1 s = Some s'"
    and idle: "pcs (tsys s) 1 = Idle"
  shows "wg_test_at n m (Suc t) s'"
proof -
  have m: "m \<le> 5" and t: "t \<le> n" and T: "todo s (Suc 0) = drop t (take n thread_code)"
    using I by (simp_all add: wg_test_at_def)
  have S': "wg_stmt_step blocks 1 (drop t (take n thread_code)) s = Some s'"
    using S idle T by (simp add: wg_test_step_def)
  have tn: "t < n" using S' t by (cases "t = n") auto
  note D = I [unfolded wg_test_at_def]
  show ?thesis
    using t n
  proof (cases t rule: thread_left)
    case 1
    have "s' = (rest_of 1 (drop 1 (take n thread_code)) s)\<lparr>tsys := (tsys s)\<lparr>the_wg := wg_add 1 (the_wg (tsys s))\<rparr>\<rparr>"
      using S' unfolding 1(2) by (auto split: if_splits)
    then show ?thesis
      using D 1(1) idle tn by (simp add: wg_test_at_def rest_of_def wg_add_def split del: if_split)
  next
    case 2
    then have "s' = (rest_of 1 (drop 2 (take n thread_code)) s)\<lparr>hits := hits s + 1\<rparr>"
      using S' by simp
    then show ?thesis
      using D 2(1) idle tn by (simp add: wg_test_at_def rest_of_def numeral_2_eq_2 split del: if_split)
  next
    case 3
    let ?w = "(tsys s)\<lparr>the_wg := (the_wg (tsys s))\<lparr>wg_count := wg_count (the_wg (tsys s)) - 1\<rparr>\<rparr>"
    show ?thesis
    proof (cases "m < 2")
      case True
      then have "wg_count (the_wg (tsys s)) = 2" using D 3(1) by simp
      then have "s' = (rest_of 1 (drop 3 (take n thread_code)) s)\<lparr>tsys := ?w\<rparr>"
        using S' 3 idle by (simp add: Let_def)
      then show ?thesis
        using D 3(1) idle tn True by (simp add: wg_test_at_def rest_of_def numeral_3_eq_3 split del: if_split)
    next
      case False
      then have "wg_count (the_wg (tsys s)) = 1" using D 3(1) by simp
      then have "s' = (rest_of 1 (drop 3 (take n thread_code)) s)\<lparr>tsys := goto 1 Storing ?w\<rparr>"
        using S' 3 idle by (simp add: Let_def)
      then show ?thesis
        using D 3(1) idle tn False by (simp add: wg_test_at_def rest_of_def numeral_3_eq_3 split del: if_split)
    qed
  next
    case 4
    then have "s' = (rest_of 1 (drop 4 (take n thread_code)) s)\<lparr>tsys := goto 1 Check (tsys s)\<rparr>"
      using S' idle by simp
    then show ?thesis
      using D 4(1) idle tn by (simp add: wg_test_at_def rest_of_def split del: if_split)
  next
    case 5
    then have "s' = (rest_of 1 (drop 5 (take n thread_code)) s)\<lparr>failed := (failed s \<or> hits s \<noteq> 2)\<rparr>"
      using S' by simp
    then show ?thesis
      using D 5(1,2) idle by (simp add: wg_test_at_def rest_of_def)
  next
    case 6
    then show ?thesis using tn by simp
  qed
qed

text \<open>Inside a call of the wait group.\<close>

lemma at_wake:
  "main_at m pc \<Longrightarrow> main_at m (if pc = Sleeping then Check else pc)"
  "thread_at m t pc \<Longrightarrow> thread_at m t (if pc = Sleeping then Check else pc)"
  by (cases pc; simp)+

lemma wg_test_call_step:
  assumes I: "wg_test_at n m t s" and n: "n \<in> {3, 5}"
    and W: "wg_act blocks (\<lambda>_. True) i Next (tsys s) = Some w"
  shows "wg_test_at n m t (s\<lparr>tsys := w\<rparr>)"
proof -
  note D = I [unfolded wg_test_at_def]
  have i: "i = 0 \<or> i = 1" using D W by (cases "i \<le> 1") auto
  let ?c = "wg_count (the_wg (tsys s))"
  have zero: "2 \<le> m \<and> (t = 0 \<or> 3 \<le> t)" if "?c = 0"
    using that D by (auto split: if_splits)
  have count: "wg_count (the_wg w) = ?c"
    using W by (auto split: wg_pc.splits)
  have pc: "main_at m (pcs w 0)" "thread_at m t (pcs w 1)" "\<forall>i>1. pcs w i = Idle"
    "3 < m \<longrightarrow> pcs w 1 = Idle"
    using i
  proof (atomize (full), elim disjE, goal_cases)
    case 1
    then show ?case
      using D W by (cases "pcs (tsys s) 0") (auto simp: wake_all_def elim!: at_wake split: if_splits)
  next
    case 2
    then show ?case
      using D W zero by (cases "pcs (tsys s) 1") (auto simp: wake_all_def wg_should_wait_def word_gt_0 elim!: at_wake split: if_splits)
  qed
  show ?thesis using D pc count by (simp add: wg_test_at_def)
qed

lemma wg_test_at_step:
  assumes "wg_test_at n m t s" and n: "n \<in> {3, 5}" and S: "wg_test_step blocks i s = Some s'"
  shows "\<exists>m t. wg_test_at n m t s'"
proof (cases "pcs (tsys s) i = Idle")
  case True
  then have "wg_stmt_step blocks i (todo s i) s = Some s'" using S by (simp add: wg_test_step_def)
  then have "todo s i \<noteq> []" by auto
  then have "i = 0 \<or> i = 1" using assms(1) by (cases "i \<le> 1") (auto simp: wg_test_at_def)
  then show ?thesis
    using wg_test_main_step [OF assms(1,2)] wg_test_thread_step [OF assms(1,2)] S True by blast
next
  case False
  then obtain w where "wg_act blocks (\<lambda>_. True) i Next (tsys s) = Some w" "s' = s\<lparr>tsys := w\<rparr>"
    using S unfolding wg_test_step_def by auto
  with wg_test_call_step [OF assms(1,2)] show ?thesis by blast
qed

lemma wg_test_at_run:
  "wg_test_run blocks is s = Some s' \<Longrightarrow> wg_test_at n m t s \<Longrightarrow> n \<in> {3, 5} \<Longrightarrow> \<exists>m t. wg_test_at n m t s'"
proof (induction "is" arbitrary: s m t)
  case Nil
  then show ?case by auto
next
  case (Cons i "is")
  then obtain s1 where "wg_test_step blocks i s = Some s1" "wg_test_run blocks is s1 = Some s'"
    by (auto split: Option.bind_splits)
  with Cons.IH wg_test_at_step [OF Cons.prems(2,3)] Cons.prems(3) show ?case by blast
qed

text \<open>Main is through: so is the spawned thread, and the assertions have held.\<close>

lemma wg_test_over:
  assumes "wg_test_at n m t s" and "n \<in> {3, 5}" and "over 0 s"
  shows "over 1 s \<and> hits s = 2 \<and> wg_count (the_wg (tsys s)) = 0"
proof -
  have "m \<le> 5" using assms(1) by (simp add: wg_test_at_def)
  moreover have "drop m main_code = []" using assms(1,3) by (simp add: wg_test_at_def over_def)
  ultimately have "m = 5" by (simp add: main_code_def)
  with assms(1,2) show ?thesis
    by (auto simp: wg_test_at_def over_def thread_code_def spawned_def)
qed

text \<open>In the first test only main waits, so no wake-up is lost.\<close>

lemma wg_test_one_act:
  assumes "wg_test_at 3 m t s" and "wg_test_step blocks i s = Some s'"
  shows "tsys s' = tsys s \<or> (\<exists>a. wg_act blocks ((=) 0) i a (tsys s) = Some (tsys s'))"
proof (cases "pcs (tsys s) i = Idle")
  case False
  then obtain w where w: "wg_act blocks (\<lambda>_. True) i Next (tsys s) = Some w" "s' = s\<lparr>tsys := w\<rparr>"
    using assms(2) unfolding wg_test_step_def by auto
  then have "wg_act blocks ((=) 0) i Next (tsys s) = Some (tsys s')" by simp
  then show ?thesis by blast
next
  case True
  have no_wait: "i = 0 \<or> Method Wait \<notin> set (todo s i)"
    using assms(1) by (auto simp: wg_test_at_def spawned_def thread_code_def dest!: in_set_dropD)
  have step: "wg_stmt_step blocks i (todo s i) s = Some s'" using assms(2) True by (simp add: wg_test_step_def)
  show ?thesis
  proof (cases "\<exists>a as. todo s i = Method a # as")
    case True
    then obtain a as where a: "todo s i = Method a # as" by blast
    then obtain w where "wg_act blocks (\<lambda>_. True) i a (tsys s) = Some w" "tsys s' = w"
      using step by auto
    moreover have "i = 0 \<or> a \<noteq> Wait" using no_wait a by auto
    ultimately have "wg_act blocks ((=) 0) i a (tsys s) = Some (tsys s')"
      by (cases a) (auto split: if_splits)
    then show ?thesis by blast
  next
    case False
    then show ?thesis
      using step by (cases "(blocks, i, todo s i, s)" rule: wg_stmt_step.cases) (auto simp: rest_of_def split: if_splits)
  qed
qed

lemma wg_test_one_run:
  assumes f: "futex_ok blocks"
  shows "wg_test_run blocks is s = Some s' \<Longrightarrow> wg_test_at 3 m t s \<Longrightarrow> wake_due 0 (tsys s) \<Longrightarrow> wake_due 0 (tsys s')"
proof (induction "is" arbitrary: s m t)
  case Nil
  then show ?case by auto
next
  case (Cons i "is")
  then obtain s1 where s1: "wg_test_step blocks i s = Some s1" "wg_test_run blocks is s1 = Some s'"
    by (auto split: Option.bind_splits)
  have "wake_due 0 (tsys s1)"
    using wg_test_one_act [OF Cons.prems(2) s1(1)] wake_due_act [OF f Cons.prems(3)] Cons.prems(3) by auto
  with Cons.IH [OF s1(2)] wg_test_at_step [OF Cons.prems(2) _ s1(1)] show ?case by auto
qed

lemma wg_test_one_goes_on:
  assumes A: "wg_test_at 3 m t s" and due: "wake_due 0 (tsys s)" and running: "\<not> over 0 s"
  shows "\<exists>i s'. wg_test_step blocks i s = Some s' \<and> pcs (tsys s) i \<noteq> Sleeping"
proof -
  note D = A [unfolded wg_test_at_def]
  have t: "t \<le> 3" and m: "m \<le> 5" using D by blast+
  consider "pcs (tsys s) 1 \<noteq> Idle" | "pcs (tsys s) 1 = Idle" "t < 3" | "pcs (tsys s) 1 = Idle" "t = 3"
    using t by linarith
  then show ?thesis
  proof cases
    case 1
    then show ?thesis
      using D t by (intro exI [of _ 1]) (cases "pcs (tsys s) 1"; simp add: wg_test_step_def)
  next
    case 2
    have "\<exists>s'. wg_stmt_step blocks 1 (drop t (take 3 thread_code)) s = Some s'"
    proof -
      have "t = 0 \<or> t = 1 \<or> t = 2" using 2 by linarith
      then show ?thesis using 2 D by (elim disjE) (auto simp: thread_code_def)
    qed
    then show ?thesis using 2 D by (intro exI [of _ 1]) (auto simp: wg_test_step_def)
  next
    case 3
    have o1: "over 1 s" using D 3 by (simp add: over_def thread_code_def)
    show ?thesis
    proof (cases "pcs (tsys s) 0 = Idle")
      case True
      have "\<exists>s'. wg_stmt_step blocks 0 (drop m main_code) s = Some s'"
        using m by (cases m rule: main_left) (use True running o1 D in \<open>auto simp: over_def main_code_def\<close>)
      then show ?thesis using True D by (intro exI [of _ 0]) (auto simp: wg_test_step_def)
    next
      case False
      have "pcs (tsys s) 0 \<noteq> Sleeping"
      proof
        assume sl: "pcs (tsys s) 0 = Sleeping"
        then have "wg_count (the_wg (tsys s)) = 0" using D 3 by simp
        then obtain i where "pcs (tsys s) i = Storing \<or> pcs (tsys s) i = Waking"
          using due sl by (auto simp: wake_due_def)
        moreover have "i = 0 \<or> i = 1 \<or> pcs (tsys s) i = Idle" using D by (cases "i \<le> 1") auto
        ultimately show False using sl 3 by auto
      qed
      then show ?thesis
        using False D by (intro exI [of _ 0]) (cases "pcs (tsys s) 0"; simp add: wg_test_step_def)
    qed
  qed
qed

text \<open>
  A schedule of the second test: the spawned thread adds, counts, finishes, and in \<^verbatim>\<open>wait\<close>
  finds the counter at one; main counts, finishes, wakes nobody, waits, and on its way out of
  \<^verbatim>\<open>wait\<close> resets the flag; the spawned thread goes to sleep.
\<close>

definition hang_schedule :: "nat list" where
  "hang_schedule = [1, 1, 1, 1, 1, 0, 0, 0, 0, 0, 0, 0, 1]"

lemma hang_run:
  assumes "blocks 0 0"
  shows "\<exists>s. wg_test_run blocks hang_schedule test_wait_on_gt_one = Some s \<and>
    wg_count (the_wg (tsys s)) = 0 \<and> pcs (tsys s) = (\<lambda>_. Idle)(1 := Sleeping) \<and>
    todo s = spawned [Join 1, Assert_Two] [Assert_Two]"
  using assms
  by (simp add: hang_schedule_def test_wait_on_gt_one_def wg_test_new_def wg_sys_new_def wg_new_def
      wg_test_step_def rest_of_def wg_add_def Let_def wg_should_wait_def wake_all_def fun_eq_iff)

section \<open>Exploring two threads\<close>

text \<open>
  The tests of the two groups are short enough to be explored: \<^term>\<open>explored n P step s\<close> says
  that every run of threads 0 and 1 from \<^term>\<open>s\<close> ends within \<^term>\<open>n\<close> steps and meets
  \<^term>\<open>P\<close> in every state.
\<close>

fun explored :: "nat \<Rightarrow> ('s \<Rightarrow> bool) \<Rightarrow> (nat \<Rightarrow> 's \<Rightarrow> 's option) \<Rightarrow> 's \<Rightarrow> bool" where
  "explored 0 P step s \<longleftrightarrow> P s \<and> step 0 s = None \<and> step 1 s = None"
| "explored (Suc n) P step s \<longleftrightarrow> P s \<and>
     (case step 0 s of None \<Rightarrow> True | Some s' \<Rightarrow> explored n P step s') \<and>
     (case step 1 s of None \<Rightarrow> True | Some s' \<Rightarrow> explored n P step s')"

fun threads_run :: "(nat \<Rightarrow> 's \<Rightarrow> 's option) \<Rightarrow> nat list \<Rightarrow> 's \<Rightarrow> 's option" where
  "threads_run step [] s = Some s"
| "threads_run step (i # is) s = Option.bind (step i s) (threads_run step is)"

lemma explored_runs:
  assumes "\<And>i s. 1 < i \<Longrightarrow> step i s = None"
  shows "explored n P step s \<Longrightarrow> threads_run step is s = Some s' \<Longrightarrow> P s'"
proof (induction "is" arbitrary: n s)
  case Nil
  then show ?case by (cases n) auto
next
  case (Cons i "is")
  then obtain s1 where s1: "step i s = Some s1" "threads_run step is s1 = Some s'"
    by (auto split: Option.bind_splits)
  then have "i = 0 \<or> i = 1" using assms [of i s] by (cases "1 < i") auto
  with s1(1) Cons.prems(1) obtain n' where "explored n' P step s1" by (cases n) auto
  with Cons.IH s1(2) show ?case by blast
qed

section \<open>Source group\<close>

text \<open>The identity of the type \<^verbatim>\<open>i32\<close>.\<close>

definition I32 :: nat where "I32 = 0"

text \<open>
  Where a thread of the test is: before \<^verbatim>\<open>add\<close>; in it, after the claim of an index; before
  \<^verbatim>\<open>sum\<close>; before \<^verbatim>\<open>join\<close>; before the assertions; through; failed.
\<close>

datatype src_at = To_Add string i32 | To_Store nat string i32 | To_Sum | To_Join | To_Get | Passed | Broken

record src_test =
  tgrp :: "i32 src_group"
  at :: "nat \<Rightarrow> src_at"

definition src_goto :: "nat \<Rightarrow> src_at \<Rightarrow> i32 src_group \<Rightarrow> src_test \<Rightarrow> src_test" where
  "src_goto i a g s = s\<lparr>tgrp := g, at := (at s)(i := a)\<rparr>"

definition src_holds :: "string \<Rightarrow> i32 \<Rightarrow> i32 src_group \<Rightarrow> bool" where
  "src_holds k v g =
     (case src_get k g of Ret (Inr r) \<Rightarrow> response_as_ref I32 r = Ret v | _ \<Rightarrow> False)"

text \<open>Thread 1 is over after its \<^verbatim>\<open>add\<close>; main goes on to \<^verbatim>\<open>sum\<close>.\<close>

definition src_test_step :: "nat \<Rightarrow> src_test \<Rightarrow> src_test option" where
  "src_test_step i s =
     (if 1 < i then None else case at s i of
        To_Add k v \<Rightarrow>
          let (g, j) = src_claim (tgrp s)
          in Some (src_goto i (case j of Ret j \<Rightarrow> To_Store j k v | _ \<Rightarrow> Broken) g s)
      | To_Store j k v \<Rightarrow>
          let (g, b) = src_store j k (src_outcome I32 (Ok (Ok v))) (tgrp s)
          in Some (src_goto i (case b of Ret _ \<Rightarrow> if i = 0 then To_Sum else Passed | _ \<Rightarrow> Broken) g s)
      | To_Sum \<Rightarrow>
          if wg_should_wait (src_wg (tgrp s)) then None
          else Some (src_goto i To_Join (src_wg_update (\<lambda>wg. wg\<lparr>wg_flag := 0\<rparr>) (tgrp s)) s)
      | To_Join \<Rightarrow> if at s 1 = Passed then Some (src_goto i To_Get (tgrp s) s) else None
      | To_Get \<Rightarrow>
          Some (src_goto i (if src_holds ''source-1'' 1 (tgrp s) \<and> src_holds ''source-2'' 2 (tgrp s)
            then Passed else Broken) (tgrp s) s)
      | _ \<Rightarrow> None)"

definition source_test :: src_test where
  "source_test = \<lparr>tgrp = src_group_new 2,
     at = (\<lambda>_. Passed)(0 := To_Add ''source-2'' 2, 1 := To_Add ''source-1'' 1)\<rparr>"

definition source_test_over_times :: "i32 src_group runtime \<Rightarrow> unit run" where
  "source_test_over_times rt =
     (case rbind (src_add rt I32 ''source-1'' (ret (Ok 2)) (0, src_group_new 1)) (\<lambda>s.
           rbind (src_add rt I32 ''source-2'' (ret (Ok 2)) s) (\<lambda>s. src_sum rt s)) of
        Some (Ret _) \<Rightarrow> Some Panic
      | Some Panic \<Rightarrow> ret ()
      | Some Undef \<Rightarrow> Some Undef
      | None \<Rightarrow> None)"

text \<open>No thread fails, and they do not stop before they are through.\<close>

definition src_test_ok :: "src_test \<Rightarrow> bool" where
  "src_test_ok s \<longleftrightarrow> at s 0 \<noteq> Broken \<and> at s 1 \<noteq> Broken \<and>
     (src_test_step 0 s = None \<and> src_test_step 1 s = None \<longrightarrow> at s 0 = Passed \<and> at s 1 = Passed)"

lemma source_test_eq: "source_test = \<lparr>tgrp = \<lparr>calls = [src_call_default, src_call_default], index = 0, src_wg = wg_new 2\<rparr>,
     at = (\<lambda>_. Passed)(0 := To_Add ''source-2'' 2, 1 := To_Add ''source-1'' 1)\<rparr>"
proof -
  have "unat (2 :: u32) = Suc (Suc 0)" by simp
  then show ?thesis by (simp only: source_test_def src_group_new_def replicate.simps)
qed

lemma source_test_explored: "explored (Suc (Suc (Suc (Suc (Suc (Suc (Suc 0))))))) src_test_ok src_test_step source_test"
  by (simp add: src_test_ok_def src_test_step_def source_test_eq src_goto_def src_claim_def src_store_def
      src_call_default_def Let_def wg_new_def wg_done_def wg_should_wait_def src_holds_def src_get_def I32_def)

section \<open>Flight group\<close>

text \<open>
  Each of the two threads calls \<^verbatim>\<open>exec\<close> once, with a function that returns 1; main asserts the
  value and that the call had two callers.
\<close>

definition flight_test_step :: "nat \<Rightarrow> i32 fl_sys \<Rightarrow> i32 fl_sys option" where
  "flight_test_step i s =
     (if 1 < i then None
      else case fpcs s i of
        Outside \<Rightarrow> fl_act i (Lookup I32 ''google'') s
      | Missed _ _ \<Rightarrow> fl_act i Insert s
      | Running _ \<Rightarrow> fl_act i (Finish (fl_outcome (Ok (Ok 1)))) s
      | Waiting _ \<Rightarrow> fl_act i Await s
      | _ \<Rightarrow> None)"

definition flight_answer :: "nat \<Rightarrow> i32 fl_sys \<Rightarrow> ((i32, wrap_error) result \<times> u32) option" where
  "flight_answer i s = (case fpcs s i of Answered a x \<Rightarrow> Some x | _ \<Rightarrow> None)"

definition flight_test_ok :: "i32 fl_sys \<Rightarrow> bool" where
  "flight_test_ok s \<longleftrightarrow>
     (flight_test_step 0 s = None \<and> flight_test_step 1 s = None \<longrightarrow>
       map_option fst (flight_answer 1 s) = Some (Ok 1) \<and>
       (flight_answer 0 s = Some (Ok 1, 1) \<or> flight_answer 0 s = Some (Ok 1, 2)))"

lemmas flight_eval = flight_test_step_def flight_answer_def fl_sys_new_def fl_group_default_def fl_get_def fl_start_def
  fl_call_default_def Let_def wg_add_def wg_default_def wg_new_def fl_finish_def upd_obj_def
  fl_collect_def wg_done_def fl_goto_def answer_of_def fl_join_def obj_wg_def upd_obj_wg_def wg_should_wait_def

lemma flight_test_explored: "explored (Suc (Suc (Suc (Suc (Suc (Suc 0)))))) flight_test_ok flight_test_step fl_sys_new"
  by (simp add: flight_test_ok_def flight_eval)

section \<open>What the tests show\<close>

text \<open>
  C27: the tests of the wait group pass in every schedule: no assertion fails in any state, main
  gets through only when the spawned thread has, with both increments counted, and the group of
  size zero panics on \<^verbatim>\<open>done\<close>. In \<^verbatim>\<open>test_wait_on_one\<close>, where one thread waits, there is
  always a thread that can go on without a spurious wake-up until main is through.
\<close>

theorem wg_tests_pass:
  assumes "futex_ok blocks"
  shows "(wg_test_run blocks is test_wait_on_one = Some s \<longrightarrow>
      \<not> failed s \<and> (over 0 s \<longrightarrow> over 1 s \<and> hits s = 2) \<and>
      (\<not> over 0 s \<longrightarrow> (\<exists>i s'. wg_test_step blocks i s = Some s' \<and> pcs (tsys s) i \<noteq> Sleeping))) \<and>
    (wg_test_run blocks is test_wait_on_gt_one = Some s \<longrightarrow>
      \<not> failed s \<and> (over 0 s \<longrightarrow> over 1 s \<and> hits s = 2)) \<and>
    test_done_without_size = Ret ()"
proof -
  have "\<not> failed s \<and> (over 0 s \<longrightarrow> over 1 s \<and> hits s = 2) \<and>
      (\<not> over 0 s \<longrightarrow> (\<exists>i s'. wg_test_step blocks i s = Some s' \<and> pcs (tsys s) i \<noteq> Sleeping))"
    if R: "wg_test_run blocks is test_wait_on_one = Some s"
  proof -
    obtain m t where A: "wg_test_at 3 m t s" using wg_test_at_run [OF R wg_test_at_new(1)] by auto
    have "wake_due 0 (tsys test_wait_on_one)"
      by (simp add: wake_due_def test_wait_on_one_def wg_test_new_def wg_sys_new_def)
    from wg_test_one_goes_on [OF A wg_test_one_run [OF assms R wg_test_at_new(1) this]] wg_test_over [OF A] A
    show ?thesis by (simp add: wg_test_at_def)
  qed
  moreover have "\<not> failed s \<and> (over 0 s \<longrightarrow> over 1 s \<and> hits s = 2)"
    if R: "wg_test_run blocks is test_wait_on_gt_one = Some s"
  proof -
    obtain m t where A: "wg_test_at 5 m t s" using wg_test_at_run [OF R wg_test_at_new(2)] by auto
    from wg_test_over [OF A] A show ?thesis by (simp add: wg_test_at_def)
  qed
  moreover have "test_done_without_size = Ret ()"
    by (simp add: test_done_without_size_def wg_done_def wg_default_def wg_new_def)
  ultimately show ?thesis by blast
qed

theorem wg_tests_pass_witness:
  "\<exists>s. wg_test_run (=) [0, 0, 0, 0, 0, 0, 0, 1, 1, 1, 1, 1, 0, 0] test_wait_on_one = Some s \<and>
     over 0 s \<and> \<not> failed s \<and> over 1 s \<and> hits s = 2"
proof -
  obtain s where s: "wg_test_run (=) [0, 0, 0, 0, 0, 0, 0, 1, 1, 1, 1, 1, 0, 0] test_wait_on_one = Some s" "over 0 s"
    by (simp add: test_wait_on_one_def wg_test_new_def wg_sys_new_def wg_new_def over_def wake_all_def
        wg_test_step_def rest_of_def wg_add_def Let_def wg_should_wait_def)
  have "futex_ok (=)" by (simp add: futex_ok_def)
  from wg_tests_pass [OF this, of "[0, 0, 0, 0, 0, 0, 0, 1, 1, 1, 1, 1, 0, 0]" s] s show ?thesis by blast
qed

text \<open>
  C26: \<^verbatim>\<open>test_wait_on_gt_one\<close> can hang: there is a schedule after which the spawned thread
  sleeps in \<^verbatim>\<open>wait\<close> although the counter is zero, main waits for it in \<^verbatim>\<open>join\<close>, and no
  step is left but a spurious wake-up.
\<close>

theorem wg_test_can_hang:
  assumes "blocks 0 0"
  shows "\<exists>s. wg_test_run blocks hang_schedule test_wait_on_gt_one = Some s \<and>
    wg_count (the_wg (tsys s)) = 0 \<and> \<not> over 0 s \<and> \<not> over 1 s \<and>
    (\<forall>i s'. wg_test_step blocks i s = Some s' \<longrightarrow> i = 1 \<and> pcs (tsys s) i = Sleeping)"
proof -
  obtain s where s: "wg_test_run blocks hang_schedule test_wait_on_gt_one = Some s"
    "wg_count (the_wg (tsys s)) = 0" "pcs (tsys s) = (\<lambda>_. Idle)(1 := Sleeping)"
    "todo s = spawned [Join 1, Assert_Two] [Assert_Two]"
    using hang_run [of blocks] assms by blast
  moreover have "i = 1 \<and> pcs (tsys s) i = Sleeping" if "wg_test_step blocks i s = Some s'" for i s'
    using that s(3,4) by (auto simp: wg_test_step_def spawned_def over_def split: if_splits)
  moreover have "\<not> over 0 s" "\<not> over 1 s" using s(4) by (simp_all add: over_def spawned_def)
  ultimately show ?thesis by blast
qed

theorem wg_test_can_hang_witness:
  "\<exists>s. wg_test_run (=) hang_schedule test_wait_on_gt_one = Some s \<and> wg_count (the_wg (tsys s)) = 0 \<and>
     (\<forall>i s'. wg_test_step (=) i s = Some s' \<longrightarrow> i = 1 \<and> pcs (tsys s) i = Sleeping)"
  using wg_test_can_hang [of "(=)"] by blast

text \<open>
  The tests of the source group pass: in every schedule of the two threads neither panics,
  their assertions hold and they stop only when both are through; and the \<^verbatim>\<open>add\<close> to a full
  group panics.
\<close>

theorem source_tests_pass:
  assumes "quiet rt"
  shows "source_test_over_times rt = ret () \<and>
    (threads_run src_test_step is source_test = Some s \<longrightarrow>
      at s 0 \<noteq> Broken \<and> at s 1 \<noteq> Broken \<and>
      ((\<forall>i. src_test_step i s = None) \<longrightarrow> at s 0 = Passed \<and> at s 1 = Passed))"
proof (intro conjI impI)
  have "(0 :: u32) < word_of_nat (Suc 0)" by simp
  with assms show "source_test_over_times rt = ret ()"
    by (simp add: source_test_over_times_def src_add_def src_claim_def src_store_def src_group_new_def
        wg_new_def wg_done_def Let_def)
next
  assume R: "threads_run src_test_step is source_test = Some s"
  have "src_test_ok s"
    by (rule explored_runs [OF _ source_test_explored R]) (simp add: src_test_step_def)
  then show "at s 0 \<noteq> Broken" "at s 1 \<noteq> Broken"
    "(\<forall>i. src_test_step i s = None) \<Longrightarrow> at s 0 = Passed" "(\<forall>i. src_test_step i s = None) \<Longrightarrow> at s 1 = Passed"
    by (simp_all add: src_test_ok_def)
qed

theorem source_tests_pass_witness:
  "\<exists>s. threads_run src_test_step [1, 0, 0, 1, 0, 0, 0] source_test = Some s \<and> at s 0 = Passed \<and> at s 1 = Passed"
proof -
  obtain s where s: "threads_run src_test_step [1, 0, 0, 1, 0, 0, 0] source_test = Some s" "\<forall>i. src_test_step i s = None"
    by (simp add: src_test_step_def source_test_eq src_goto_def src_claim_def src_store_def src_call_default_def
        Let_def wg_new_def wg_done_def wg_should_wait_def src_holds_def src_get_def I32_def)
  from source_tests_pass [OF solo_simps(4)] s show ?thesis by blast
qed

text \<open>
  The test of the flight group asserts what the code does not promise: in every schedule both
  callers are answered with 1, but the number of callers that main reads is 1 or 2. If the other
  thread comes in while main's function runs it is 2, if it comes later it is 1 and the test fails.
\<close>

theorem flight_test_unreliable:
  "(threads_run flight_test_step is fl_sys_new = Some s \<and> (\<forall>i. flight_test_step i s = None) \<longrightarrow>
      map_option fst (flight_answer 1 s) = Some (Ok 1) \<and>
      (flight_answer 0 s = Some (Ok 1, 1) \<or> flight_answer 0 s = Some (Ok 1, 2))) \<and>
    (\<exists>s. threads_run flight_test_step [0, 0, 1, 0, 1] fl_sys_new = Some s \<and> flight_answer 0 s = Some (Ok 1, 2)) \<and>
    (\<exists>s. threads_run flight_test_step [0, 0, 0, 1, 1] fl_sys_new = Some s \<and> flight_answer 0 s = Some (Ok 1, 1))"
proof (intro conjI impI)
  assume R: "threads_run flight_test_step is fl_sys_new = Some s \<and> (\<forall>i. flight_test_step i s = None)"
  have "flight_test_ok s"
    by (rule explored_runs [OF _ flight_test_explored conjunct1 [OF R]]) (simp add: flight_test_step_def)
  with R show "map_option fst (flight_answer 1 s) = Some (Ok 1)"
    "flight_answer 0 s = Some (Ok 1, 1) \<or> flight_answer 0 s = Some (Ok 1, 2)"
    by (simp_all add: flight_test_ok_def)
next
  show "\<exists>s. threads_run flight_test_step [0, 0, 1, 0, 1] fl_sys_new = Some s \<and> flight_answer 0 s = Some (Ok 1, 2)"
    by (simp add: flight_eval)
  show "\<exists>s. threads_run flight_test_step [0, 0, 0, 1, 1] fl_sys_new = Some s \<and> flight_answer 0 s = Some (Ok 1, 1)"
    by (simp add: flight_eval)
qed

theorem flight_test_unreliable_witness:
  "\<exists>s. threads_run flight_test_step [0, 1, 0, 1, 0, 1] fl_sys_new = Some s \<and>
     map_option fst (flight_answer 1 s) = Some (Ok 1) \<and>
     (flight_answer 0 s = Some (Ok 1, 1) \<or> flight_answer 0 s = Some (Ok 1, 2))"
proof -
  obtain s where s: "threads_run flight_test_step [0, 1, 0, 1, 0, 1] fl_sys_new = Some s"
    "\<forall>i. flight_test_step i s = None"
    by (simp add: flight_eval)
  with flight_test_unreliable [of "[0, 1, 0, 1, 0, 1]" s] show ?thesis by blast
qed

end
