(* ===== verification/Blocking_Steps.thy ===== *)
theory Blocking_Steps
  imports Mpmc_Progress Waker_Protocol Schedules
begin

text \<open>
  All calls of \<^verbatim>\<open>MpmcBounded\<close>, the blocking ones included, cut at their atomic accesses:
  \<^verbatim>\<open>send\<close> and \<^verbatim>\<open>recv\<close> of the trait \<^verbatim>\<open>Bounded\<close> in \<^verbatim>\<open>src/src/queue/bounded.rs\<close> with
  \<^verbatim>\<open>Waiter::retry\<close>, \<^verbatim>\<open>Waiter::sleep\<close>, \<^verbatim>\<open>Waker::register\<close>, \<^verbatim>\<open>unregister\<close>,
  \<^verbatim>\<open>wake_one\<close> and \<^verbatim>\<open>close\<close> of \<^verbatim>\<open>src/src/queue/waker.rs\<close>, as steps of any number of threads.
  The selection of a bucket and the access to it are the steps of \<^verbatim>\<open>Mpmc_Steps\<close>; a critical
  section under the lock of a waker is one step.
\<close>

section \<open>The steps\<close>

text \<open>A blocking call; \<^verbatim>\<open>recv\<close> has a local variable with the last state.\<close>

datatype 'a blocking = Sending 'a | Receiving state

datatype 'a bk_answer = Send_Answer "(unit, 'a send_error) result" | Recv_Answer "('a, recv_error) result"

text \<open>
  Where a thread is: in no blocking call (outside, or in a call of \<^verbatim>\<open>Mpmc_Steps\<close>); in the
  selection of a bucket or the access to it; before the lock in \<^verbatim>\<open>wake_one\<close>, called from a
  blocking call or not; in \<^verbatim>\<open>close\<close>, at the waker of the readers; in \<^verbatim>\<open>retry\<close> before the test
  of the closed mark, before the load of the lap, and before \<^verbatim>\<open>snooze_completed\<close>, with the
  rounds that are left; before \<^verbatim>\<open>register\<close>; in \<^verbatim>\<open>sleep\<close> before the test of the closed mark,
  before the load of the lap, before the store of \<^verbatim>\<open>UN_PARKED\<close> with the answer, before the
  store of \<^verbatim>\<open>PARKED\<close>, before the futex call and in it; before \<^verbatim>\<open>unregister\<close>; back, with the
  answer of the call; lost to a panic or to undefined behaviour in a waker.
\<close>

datatype 'a bk_phase =
    B_Plain
  | B_Select "'a blocking"
  | B_Lock "'a blocking option"
  | B_Close_Readers
  | B_Retry "'a blocking" nat | B_Retry_Lap "'a blocking" nat | B_Snooze "'a blocking" nat
  | B_Register "'a blocking"
  | B_Check "'a blocking" | B_Load "'a blocking" | B_Unpark "'a blocking" state
  | B_Park "'a blocking" | B_Futex "'a blocking" | B_Asleep "'a blocking"
  | B_Unregister "'a blocking" state
  | B_Done "'a bk_answer"
  | B_Broken

text \<open>
  The cursors and buckets of the queue are those of \<^term>\<open>base\<close>; its two wakers, to which
  threads register here, are held beside it, and with them the waiter on the stack of each thread.
\<close>

record 'a bk_sys =
  base :: "'a mp_sys"
  readers :: waker
  writers :: waker
  frames :: "nat \<rightharpoonup> waiter"
  phase :: "nat \<Rightarrow> 'a bk_phase"

datatype 'a bk_action = B_Try_Send 'a | B_Try_Recv | B_Close | B_Send 'a | B_Recv | B_Step bool | B_Spurious

definition bk_goto :: "nat \<Rightarrow> 'a bk_phase \<Rightarrow> 'a bk_sys \<Rightarrow> 'a bk_sys" where
  "bk_goto i ph s = s\<lparr>phase := (phase s)(i := ph)\<rparr>"

text \<open>One step of \<^verbatim>\<open>Mpmc_Steps\<close>.\<close>

definition bk_mp :: "nat \<Rightarrow> bool \<Rightarrow> 'a bk_sys \<Rightarrow> 'a bk_sys option" where
  "bk_mp i sp s = map_option (\<lambda>b. s\<lparr>base := b\<rparr>) (mp_next i sp (mp_pcs (base s) i) (base s))"

fun start_pc :: "'a blocking \<Rightarrow> 'a mp_pc" where
  "start_pc (Sending m) = S_Load m"
| "start_pc (Receiving st) = R_Load"

fun with_state :: "state \<Rightarrow> 'a blocking \<Rightarrow> 'a blocking" where
  "with_state st (Sending m) = Sending m"
| "with_state st (Receiving _) = Receiving st"

text \<open>The top of the loop, the end of the call, and a failed selection: the waiter is made.\<close>

definition bk_select :: "nat \<Rightarrow> 'a blocking \<Rightarrow> 'a bk_sys \<Rightarrow> 'a bk_sys" where
  "bk_select i c s =
     s\<lparr>base := mp_goto i (start_pc c) (base s), frames := (frames s)(i := None), phase := (phase s)(i := B_Select c)\<rparr>"

definition bk_return :: "nat \<Rightarrow> 'a bk_answer \<Rightarrow> 'a bk_sys \<Rightarrow> 'a bk_sys" where
  "bk_return i a s =
     s\<lparr>base := mp_goto i Out (base s), frames := (frames s)(i := None), phase := (phase s)(i := B_Done a)\<rparr>"

definition bk_wait :: "nat \<Rightarrow> 'a blocking \<Rightarrow> nat \<Rightarrow> u32 \<Rightarrow> 'a bk_sys \<Rightarrow> 'a bk_sys" where
  "bk_wait i c idx l s =
     s\<lparr>base := mp_goto i Out (base s), frames := (frames s)(i \<mapsto> waiter_new idx l),
       phase := (phase s)(i := B_Retry c RETRIES)\<rparr>"

text \<open>What a blocking call does with the state that \<^verbatim>\<open>retry\<close> or \<^verbatim>\<open>sleep\<close> answers.\<close>

fun bk_continue :: "nat \<Rightarrow> 'a blocking \<Rightarrow> state \<Rightarrow> 'a bk_sys \<Rightarrow> 'a bk_sys" where
  "bk_continue i (Sending m) Closed s = bk_return i (Send_Answer (Err (SendError m))) s"
| "bk_continue i c st s = bk_select i (with_state st c) s"

definition bk_closed :: "'a bk_sys \<Rightarrow> bool" where
  "bk_closed s \<longleftrightarrow> mpmc_is_close (core (base s))"

text \<open>The waiter of thread \<^term>\<open>i\<close>, and whether the lap of its bucket has changed.\<close>

definition lap_changed :: "nat \<Rightarrow> 'a bk_sys \<Rightarrow> bool" where
  "lap_changed i s \<longleftrightarrow> (let w = the (frames s i) in atom_load (core (base s)) (atom w) \<noteq> expected w)"

definition bk_parked :: "nat \<Rightarrow> u32 \<Rightarrow> 'a bk_sys \<Rightarrow> 'a bk_sys" where
  "bk_parked i v s = s\<lparr>frames := (frames s)(i := map_option (\<lambda>w. w\<lparr>parked := v\<rparr>) (frames s i))\<rparr>"

text \<open>The futex wakes the threads that are in the futex call.\<close>

fun rouse :: "'a bk_phase \<Rightarrow> 'a bk_phase" where
  "rouse (B_Asleep c) = B_Check c"
| "rouse ph = ph"

definition bk_wake :: "nat list \<Rightarrow> 'a bk_sys \<Rightarrow> 'a bk_sys" where
  "bk_wake r s = s\<lparr>phase := (\<lambda>j. if j \<in> set r then rouse (phase s j) else phase s j)\<rparr>"

text \<open>A \<^verbatim>\<open>send\<close> waits among the writers and wakes a reader, a \<^verbatim>\<open>recv\<close> the other way round.\<close>

definition side :: "bool \<Rightarrow> 'a bk_sys \<Rightarrow> waker" where
  "side rd s = (if rd then readers s else writers s)"

definition upd_side :: "bool \<Rightarrow> (waker \<Rightarrow> waker) \<Rightarrow> 'a bk_sys \<Rightarrow> 'a bk_sys" where
  "upd_side rd f s = (if rd then s\<lparr>readers := f (readers s)\<rparr> else s\<lparr>writers := f (writers s)\<rparr>)"

fun reads_side :: "'a blocking \<Rightarrow> bool" where
  "reads_side (Sending m) = False"
| "reads_side (Receiving st) = True"

fun wakes :: "'a mp_pc \<Rightarrow> bool option" where
  "wakes S_Wake = Some True"
| "wakes (R_Wake m) = Some False"
| "wakes _ = None"

text \<open>
  A blocking call in the selection of a bucket or the access to it. A refusal of the selection,
  which is the end of a non-blocking call, makes the waiter, or ends \<^verbatim>\<open>recv\<close> once the queue was
  seen closed. \<^verbatim>\<open>wake_one\<close> loads the flag, and takes the lock if somebody is registered.
\<close>

definition bk_flag :: "nat \<Rightarrow> bool \<Rightarrow> 'a blocking option \<Rightarrow> 'a bk_sys \<Rightarrow> 'a bk_sys option" where
  "bk_flag i rd k s = (if empty_flag (side rd s) then bk_mp i False s else Some (bk_goto i (B_Lock k) s))"

definition bk_refused :: "nat \<Rightarrow> 'a blocking \<Rightarrow> nat \<Rightarrow> u32 \<Rightarrow> 'a bk_sys \<Rightarrow> 'a bk_sys" where
  "bk_refused i c idx l s =
     (case mp_pcs (base s) i of
        S_End (Err (Full m)) \<Rightarrow> bk_wait i c idx l s
      | R_End (Err TryRecvError) \<Rightarrow>
          if c = Receiving Closed then bk_return i (Recv_Answer (Err RecvError)) s else bk_wait i c idx l s
      | _ \<Rightarrow> s)"

fun bk_result :: "'a mp_pc \<Rightarrow> 'a bk_answer option" where
  "bk_result (S_End (Ok u)) = Some (Send_Answer (Ok u))"
| "bk_result (S_End (Err (Disconnected m))) = Some (Send_Answer (Err (SendError m)))"
| "bk_result (R_End (Ok m)) = Some (Recv_Answer (Ok m))"
| "bk_result _ = None"

definition bk_selecting :: "nat \<Rightarrow> bool \<Rightarrow> 'a blocking \<Rightarrow> 'a bk_sys \<Rightarrow> 'a bk_sys option" where
  "bk_selecting i sp c s =
     (case bk_result (mp_pcs (base s) i) of Some a \<Rightarrow> Some (bk_return i a s)
      | None \<Rightarrow> (case wakes (mp_pcs (base s) i) of Some rd \<Rightarrow> bk_flag i rd (Some c) s
        | None \<Rightarrow> (case mp_pcs (base s) i of
             S_Again meta l m \<Rightarrow> map_option (bk_refused i c (unat (meta_idx meta)) l) (bk_mp i sp s)
           | R_Again meta l \<Rightarrow> map_option (bk_refused i c (unat (meta_idx meta)) l) (bk_mp i sp s)
           | _ \<Rightarrow> bk_mp i sp s)))"

text \<open>The critical section of \<^verbatim>\<open>wake_one\<close>, and one round of \<^verbatim>\<open>close\<close>.\<close>

definition bk_lock :: "nat \<Rightarrow> 'a blocking option \<Rightarrow> 'a bk_sys \<Rightarrow> 'a bk_sys option" where
  "bk_lock i k s =
     (case wakes (mp_pcs (base s) i) of None \<Rightarrow> None
      | Some rd \<Rightarrow> (case md_notify (frames s) (guard (side rd s)) of
            Ret (g, r) \<Rightarrow> bk_mp i False (bk_goto i (case k of None \<Rightarrow> B_Plain | Some c \<Rightarrow> B_Select c)
              (bk_wake r (upd_side rd (\<lambda>wk. wk\<lparr>guard := g\<rparr>) s)))
          | _ \<Rightarrow> Some (bk_goto i B_Broken s)))"

definition bk_close_round :: "nat \<Rightarrow> bool \<Rightarrow> 'a bk_sys \<Rightarrow> 'a bk_sys" where
  "bk_close_round i rd s =
     (case md_close (frames s) (guard (side rd s)) of
        Ret (g, r) \<Rightarrow> bk_wake r (upd_side rd (\<lambda>wk. wk\<lparr>guard := g\<rparr>) s)
      | _ \<Rightarrow> bk_goto i B_Broken s)"

definition bk_plain :: "nat \<Rightarrow> bool \<Rightarrow> 'a bk_sys \<Rightarrow> 'a bk_sys option" where
  "bk_plain i sp s =
     (case wakes (mp_pcs (base s) i) of Some rd \<Rightarrow> bk_flag i rd None s
      | None \<Rightarrow> (case mp_pcs (base s) i of
           K_Wake \<Rightarrow> Some (if md_is_empty (guard (side False s))
             then bk_goto i B_Close_Readers (upd_side False (\<lambda>wk. wk\<lparr>empty_flag := True\<rparr>) s)
             else bk_close_round i False s)
         | _ \<Rightarrow> bk_mp i sp s))"

definition bk_close_readers :: "nat \<Rightarrow> 'a bk_sys \<Rightarrow> 'a bk_sys option" where
  "bk_close_readers i s =
     (if md_is_empty (guard (side True s))
      then bk_mp i False (bk_goto i B_Plain (upd_side True (\<lambda>wk. wk\<lparr>empty_flag := True\<rparr>) s))
      else Some (bk_close_round i True s))"

text \<open>\<^verbatim>\<open>register\<close> and \<^verbatim>\<open>unregister\<close>, under the lock of the waker.\<close>

definition bk_register :: "nat \<Rightarrow> 'a blocking \<Rightarrow> 'a bk_sys \<Rightarrow> 'a bk_sys" where
  "bk_register i c s =
     (let w = the (frames s i);
          r = waker_register (atom_load (core (base s)) (atom w)) i w (side (reads_side c) s);
          s = upd_side (reads_side c) (\<lambda>_. fst r) s
      in if snd r then bk_goto i (B_Check c) s else bk_select i c s)"

definition bk_unregister :: "nat \<Rightarrow> 'a blocking \<Rightarrow> state \<Rightarrow> 'a bk_sys \<Rightarrow> 'a bk_sys" where
  "bk_unregister i c st s = bk_continue i c st (upd_side (reads_side c) (waker_unregister i) s)"

text \<open>
  \<^verbatim>\<open>retry\<close> and \<^verbatim>\<open>sleep\<close>; \<^term>\<open>b\<close> is the answer of \<^verbatim>\<open>snooze_completed\<close>. The futex call
  blocks the thread if the word is still \<^verbatim>\<open>PARKED\<close>.
\<close>

definition bk_waiting :: "nat \<Rightarrow> bool \<Rightarrow> 'a bk_phase \<Rightarrow> 'a bk_sys \<Rightarrow> 'a bk_sys option" where
  "bk_waiting i b ph s =
     (case ph of
        B_Retry c 0 \<Rightarrow> Some (bk_goto i (B_Register (with_state Failed c)) s)
      | B_Retry c n \<Rightarrow> Some (if bk_closed s then bk_continue i c Closed s else bk_goto i (B_Retry_Lap c n) s)
      | B_Retry_Lap c n \<Rightarrow>
          Some (if lap_changed i s then bk_continue i c Success s else bk_goto i (B_Snooze c n) s)
      | B_Snooze c n \<Rightarrow> Some (bk_goto i (B_Retry c (if b then n - 1 else n)) s)
      | B_Register c \<Rightarrow> Some (bk_register i c s)
      | B_Check c \<Rightarrow> Some (bk_goto i (if bk_closed s then B_Unpark c Closed else B_Load c) s)
      | B_Load c \<Rightarrow> Some (bk_goto i (if lap_changed i s then B_Unpark c Success else B_Park c) s)
      | B_Unpark c st \<Rightarrow> Some (bk_goto i (B_Unregister c st) (bk_parked i UN_PARKED s))
      | B_Park c \<Rightarrow> Some (bk_goto i (B_Futex c) (bk_parked i PARKED s))
      | B_Futex c \<Rightarrow> Some (bk_goto i (if parked (the (frames s i)) = PARKED then B_Asleep c else B_Check c) s)
      | B_Unregister c st \<Rightarrow> Some (bk_unregister i c st s)
      | _ \<Rightarrow> None)"

definition bk_next :: "nat \<Rightarrow> bool \<Rightarrow> 'a bk_sys \<Rightarrow> 'a bk_sys option" where
  "bk_next i b s =
     (case phase s i of
        B_Plain \<Rightarrow> bk_plain i b s
      | B_Select c \<Rightarrow> bk_selecting i b c s
      | B_Lock k \<Rightarrow> bk_lock i k s
      | B_Close_Readers \<Rightarrow> bk_close_readers i s
      | B_Done a \<Rightarrow> Some (bk_goto i B_Plain s)
      | ph \<Rightarrow> bk_waiting i b ph s)"

text \<open>A call begins; a thread makes a step; a futex call returns without a wake-up.\<close>

definition bk_begin :: "nat \<Rightarrow> 'a mp_action \<Rightarrow> 'a bk_phase \<Rightarrow> 'a bk_sys \<Rightarrow> 'a bk_sys option" where
  "bk_begin i a ph s =
     (if phase s i = B_Plain then map_option (\<lambda>b. bk_goto i ph (s\<lparr>base := b\<rparr>)) (mp_act i a (base s)) else None)"

fun bk_act :: "nat \<Rightarrow> 'a bk_action \<Rightarrow> 'a bk_sys \<Rightarrow> 'a bk_sys option" where
  "bk_act i (B_Try_Send m) s = bk_begin i (Call_Send m) B_Plain s"
| "bk_act i B_Try_Recv s = bk_begin i Call_Recv B_Plain s"
| "bk_act i B_Close s = bk_begin i Call_Close B_Plain s"
| "bk_act i (B_Send m) s = bk_begin i (Call_Send m) (B_Select (Sending m)) s"
| "bk_act i B_Recv s = bk_begin i Call_Recv (B_Select (Receiving Success)) s"
| "bk_act i (B_Step b) s = bk_next i b s"
| "bk_act i B_Spurious s = (case phase s i of B_Asleep c \<Rightarrow> Some (bk_goto i (B_Check c) s) | _ \<Rightarrow> None)"

definition bk_sys_new :: "'a mpmc_bounded \<Rightarrow> 'a bk_sys" where
  "bk_sys_new q = \<lparr>base = mp_sys_new q, readers = read_waker q, writers = write_waker q,
     frames = Map.empty, phase = (\<lambda>_. B_Plain)\<rparr>"

inductive bk_reach :: "u32 \<Rightarrow> 'a bk_sys \<Rightarrow> bool" for n where
  start: "mpmc_bounded_new n = Ret q \<Longrightarrow> bk_reach n (bk_sys_new q)"
| step: "bk_reach n s \<Longrightarrow> bk_act i a s = Some s' \<Longrightarrow> bk_reach n s'"

abbreviation bk_run :: "(nat \<times> 'a bk_action) list \<Rightarrow> 'a bk_sys \<Rightarrow> 'a bk_sys option" where
  "bk_run \<equiv> run_steps (\<lambda>(i, a). bk_act i a)"

end
