(* ===== verification/Blocking_Invariant.thy ===== *)
theory Blocking_Invariant
  imports Blocking_Steps
begin

text \<open>
  The invariant of the steps of \<^verbatim>\<open>Blocking_Steps\<close>: the queue below moves as in
  \<^verbatim>\<open>Mpmc_Steps\<close>, the wakers list exactly the threads between \<^verbatim>\<open>register\<close> and
  \<^verbatim>\<open>unregister\<close>, and whoever may sleep in a closed queue is still to be woken by \<^verbatim>\<open>close\<close>.
\<close>

section \<open>What a step changes\<close>

lemma bk_goto_sel [simp]:
  "base (bk_goto i ph s) = base s" "side rd (bk_goto i ph s) = side rd s" "frames (bk_goto i ph s) = frames s"
  "phase (bk_goto i ph s) = (phase s)(i := ph)" "bk_closed (bk_goto i ph s) = bk_closed s"
  by (simp_all add: bk_goto_def side_def bk_closed_def)

lemma upd_side_sel [simp]:
  "base (upd_side rd f s) = base s" "frames (upd_side rd f s) = frames s" "phase (upd_side rd f s) = phase s"
  "side rd' (upd_side rd f s) = (if rd' = rd then f (side rd s) else side rd' s)"
  "bk_closed (upd_side rd f s) = bk_closed s"
  by (auto simp: upd_side_def side_def bk_closed_def)

lemma bk_wake_sel [simp]:
  "base (bk_wake r s) = base s" "side rd (bk_wake r s) = side rd s" "frames (bk_wake r s) = frames s"
  "phase (bk_wake r s) j = (if j \<in> set r then rouse (phase s j) else phase s j)" "bk_closed (bk_wake r s) = bk_closed s"
  by (simp_all add: bk_wake_def side_def bk_closed_def)

lemma bk_parked_sel [simp]:
  "base (bk_parked i v s) = base s" "side rd (bk_parked i v s) = side rd s" "phase (bk_parked i v s) = phase s"
  "frames (bk_parked i v s) = (frames s)(i := map_option (\<lambda>w. w\<lparr>parked := v\<rparr>) (frames s i))"
  "bk_closed (bk_parked i v s) = bk_closed s"
  by (simp_all add: bk_parked_def side_def bk_closed_def)

lemma bk_base_sel [simp]:
  "side rd (s\<lparr>base := b\<rparr>) = side rd s"
  by (simp add: side_def)

lemma bk_closed_base: "bk_closed s \<longleftrightarrow> mp_closed (base s)"
  by (simp add: bk_closed_def mpmc_is_close_def mp_closed_def)

lemma bk_ends_sel [simp]:
  "base (bk_select i c s) = mp_goto i (start_pc c) (base s)" "base (bk_return i a s) = mp_goto i Out (base s)"
  "base (bk_wait i c idx l s) = mp_goto i Out (base s)"
  "side rd (bk_select i c s) = side rd s" "side rd (bk_return i a s) = side rd s" "side rd (bk_wait i c idx l s) = side rd s"
  "frames (bk_select i c s) = (frames s)(i := None)" "frames (bk_return i a s) = (frames s)(i := None)"
  "frames (bk_wait i c idx l s) = (frames s)(i \<mapsto> waiter_new idx l)"
  "phase (bk_select i c s) = (phase s)(i := B_Select c)" "phase (bk_return i a s) = (phase s)(i := B_Done a)"
  "phase (bk_wait i c idx l s) = (phase s)(i := B_Retry c RETRIES)"
  "bk_closed (bk_select i c s) = bk_closed s" "bk_closed (bk_return i a s) = bk_closed s"
  "bk_closed (bk_wait i c idx l s) = bk_closed s"
  by (simp_all add: bk_select_def bk_return_def bk_wait_def side_def bk_closed_def)

section \<open>The invariant\<close>

definition hist :: "'a mp_sys \<Rightarrow> ('a + 'a) set" where
  "hist b = Inl ` Range (set (reads b)) \<union> Inr ` set (sent b)"

lemma hist_iff [simp]: "Inl m \<in> hist b \<longleftrightarrow> (\<exists>k. (k, m) \<in> set (reads b))" "Inr m \<in> hist b \<longleftrightarrow> m \<in> set (sent b)"
  by (auto simp: hist_def)

lemma hist_goto [simp]: "hist (mp_goto i pc b) = hist b" "hist (on_core f b) = hist b" "hist (b\<lparr>core := q\<rparr>) = hist b"
  by (simp_all add: hist_def mp_goto_def on_core_def)

text \<open>
  What a thread in a blocking call may do in the selection and the access; \<^term>\<open>cl\<close> says that
  the queue is closed, \<^term>\<open>hs\<close> are the messages that were read and those that were sent.
\<close>

fun sel_pc :: "bool \<Rightarrow> ('a + 'a) set \<Rightarrow> 'a blocking \<Rightarrow> 'a mp_pc \<Rightarrow> bool" where
  "sel_pc cl hs (Sending m) pc =
     (case pc of S_Load x \<Rightarrow> x = m | S_Top meta x \<Rightarrow> x = m | S_Again meta l x \<Rightarrow> x = m | S_Cas meta l x \<Rightarrow> x = m
      | S_Write idx l x \<Rightarrow> x = m \<and> Inr m \<in> hs | S_Store idx l x \<Rightarrow> x = m \<and> Inr m \<in> hs | S_Wake \<Rightarrow> Inr m \<in> hs
      | S_End r \<Rightarrow> (case r of Ok u \<Rightarrow> Inr m \<in> hs | Err e \<Rightarrow> (case e of Disconnected x \<Rightarrow> cl \<and> x = m | Full x \<Rightarrow> False))
      | _ \<Rightarrow> False)"
| "sel_pc cl hs (Receiving st) pc =
     ((st = Closed \<longrightarrow> cl) \<and>
      (case pc of R_Load \<Rightarrow> True | R_Top meta \<Rightarrow> True | R_Again meta l \<Rightarrow> True | R_Cas meta l \<Rightarrow> True
       | R_Read idx l \<Rightarrow> True | R_Store idx l x \<Rightarrow> Inl x \<in> hs | R_Wake x \<Rightarrow> Inl x \<in> hs
       | R_End r \<Rightarrow> (case r of Ok x \<Rightarrow> Inl x \<in> hs | Err e \<Rightarrow> False)
       | _ \<Rightarrow> False))"

text \<open>The call of a thread that waits, the waker that lists it, and whether it may be in the futex.\<close>

fun waits :: "'a bk_phase \<Rightarrow> 'a blocking option" where
  "waits (B_Retry c n) = Some c" | "waits (B_Retry_Lap c n) = Some c" | "waits (B_Snooze c n) = Some c"
| "waits (B_Register c) = Some c" | "waits (B_Check c) = Some c" | "waits (B_Load c) = Some c"
| "waits (B_Unpark c st) = Some c" | "waits (B_Park c) = Some c" | "waits (B_Futex c) = Some c"
| "waits (B_Asleep c) = Some c" | "waits (B_Unregister c st) = Some c" | "waits _ = None"

fun listed_at :: "'a bk_phase \<Rightarrow> bool option" where
  "listed_at (B_Check c) = Some (reads_side c)" | "listed_at (B_Load c) = Some (reads_side c)"
| "listed_at (B_Unpark c st) = Some (reads_side c)" | "listed_at (B_Park c) = Some (reads_side c)"
| "listed_at (B_Futex c) = Some (reads_side c)" | "listed_at (B_Asleep c) = Some (reads_side c)"
| "listed_at (B_Unregister c st) = Some (reads_side c)" | "listed_at _ = None"

fun dozing :: "'a bk_phase \<Rightarrow> bool option" where
  "dozing (B_Load c) = Some (reads_side c)" | "dozing (B_Park c) = Some (reads_side c)"
| "dozing (B_Futex c) = Some (reads_side c)" | "dozing (B_Asleep c) = Some (reads_side c)"
| "dozing _ = None"

fun answer_ok :: "bool \<Rightarrow> ('a + 'a) set \<Rightarrow> 'a bk_answer \<Rightarrow> bool" where
  "answer_ok cl hs (Send_Answer r) = (case r of Ok u \<Rightarrow> True | Err e \<Rightarrow> cl)"
| "answer_ok cl hs (Recv_Answer r) = (case r of Ok x \<Rightarrow> Inl x \<in> hs | Err e \<Rightarrow> cl)"

fun told_closed :: "'a bk_phase \<Rightarrow> bool" where
  "told_closed (B_Unpark c st) = (st = Closed)" | "told_closed (B_Unregister c st) = (st = Closed)"
| "told_closed _ = False"

fun in_futex :: "'a bk_phase \<Rightarrow> bool" where
  "in_futex (B_Futex c) = True" | "in_futex (B_Asleep c) = True" | "in_futex _ = False"

fun awake_ok :: "bool \<Rightarrow> ('a + 'a) set \<Rightarrow> 'a mp_pc \<Rightarrow> 'a bk_phase \<Rightarrow> bool" where
  "awake_ok cl hs pc B_Plain = True"
| "awake_ok cl hs pc (B_Select c) = sel_pc cl hs c pc"
| "awake_ok cl hs pc (B_Lock k) = (wakes pc \<noteq> None \<and> (case k of Some c \<Rightarrow> sel_pc cl hs c pc | None \<Rightarrow> True))"
| "awake_ok cl hs pc B_Close_Readers = (pc = K_Wake)"
| "awake_ok cl hs pc (B_Done a) = (pc = Out \<and> answer_ok cl hs a)"
| "awake_ok cl hs pc ph = False"

definition thread_ok :: "bool \<Rightarrow> nat \<Rightarrow> ('a + 'a) set \<Rightarrow> 'a mp_pc \<Rightarrow> waiter option \<Rightarrow> 'a bk_phase \<Rightarrow> bool" where
  "thread_ok cl k hs pc fr ph \<longleftrightarrow>
     (case waits ph of None \<Rightarrow> fr = None \<and> awake_ok cl hs pc ph
      | Some c \<Rightarrow> pc = Out \<and> (c = Receiving Closed \<longrightarrow> cl) \<and> (told_closed ph \<longrightarrow> cl) \<and>
          (\<exists>w. fr = Some w \<and> atom w < k \<and> (in_futex ph \<longrightarrow> parked w = PARKED)))"

definition threads_ok :: "'a bk_sys \<Rightarrow> bool" where
  "threads_ok s \<longleftrightarrow> (\<forall>i. thread_ok (bk_closed s) (length (buffer (core (base s)))) (hist (base s))
     (mp_pcs (base s) i) (frames s i) (phase s i))"

definition wakers_ok :: "'a bk_sys \<Rightarrow> bool" where
  "wakers_ok s \<longleftrightarrow> (\<forall>rd. waker_ok (frames s) (side rd s) \<and>
     (\<forall>i. i \<in> set (waiters (guard (side rd s))) \<longleftrightarrow> listed_at (phase s i) = Some rd))"

text \<open>A thread that may sleep in a closed queue is still to be woken by a thread in \<^verbatim>\<open>close\<close>.\<close>

definition closer_at :: "bool \<Rightarrow> nat \<Rightarrow> 'a bk_sys \<Rightarrow> bool" where
  "closer_at rd i s \<longleftrightarrow> mp_pcs (base s) i = K_Wake \<and> (phase s i = B_Plain \<or> rd \<and> phase s i = B_Close_Readers)"

definition doze_ok :: "'a bk_sys \<Rightarrow> bool" where
  "doze_ok s \<longleftrightarrow> (bk_closed s \<longrightarrow> (\<forall>j rd. dozing (phase s j) = Some rd \<longrightarrow> (\<exists>i. closer_at rd i s)))"

definition bk_inv :: "u32 \<Rightarrow> 'a bk_sys \<Rightarrow> bool" where
  "bk_inv n s \<longleftrightarrow> mp_reach n (base s) \<and> threads_ok s \<and> wakers_ok s \<and> doze_ok s"

lemma bk_invD:
  assumes "bk_inv n s"
  shows "mp_reach n (base s)" and "threads_ok s" and "wakers_ok s" and "doze_ok s"
  using assms by (simp_all add: bk_inv_def)

lemma thread_okD:
  assumes "bk_inv n s"
  shows "thread_ok (bk_closed s) (length (buffer (core (base s)))) (hist (base s))
     (mp_pcs (base s) i) (frames s i) (phase s i)"
  using bk_invD(2) [OF assms] by (simp add: threads_ok_def)

lemma wakers_okD:
  assumes "bk_inv n s"
  shows "waker_ok (frames s) (side rd s)"
    and "i \<in> set (waiters (guard (side rd s))) \<longleftrightarrow> listed_at (phase s i) = Some rd"
  using bk_invD(3) [OF assms] by (auto simp: wakers_ok_def)

lemma sel_pc_later: "sel_pc cl hs c pc \<Longrightarrow> (cl \<Longrightarrow> cl') \<Longrightarrow> hs \<subseteq> hs' \<Longrightarrow> sel_pc cl' hs' c pc"
  by (cases c) (auto split: mp_pc.splits sum.splits try_send_error.splits)

lemma answer_ok_later: "answer_ok cl hs a \<Longrightarrow> (cl \<Longrightarrow> cl') \<Longrightarrow> hs \<subseteq> hs' \<Longrightarrow> answer_ok cl' hs' a"
  by (cases a) (auto split: sum.splits)

lemma thread_ok_later:
  "thread_ok cl k hs pc fr ph \<Longrightarrow> (cl \<Longrightarrow> cl') \<Longrightarrow> hs \<subseteq> hs' \<Longrightarrow> thread_ok cl' k hs' pc fr ph"
  by (cases ph)
    (auto simp: thread_ok_def intro: sel_pc_later answer_ok_later split: option.splits)

lemma thread_ok_rouse: "thread_ok cl k hs pc fr ph \<Longrightarrow> thread_ok cl k hs pc fr (rouse ph)"
  by (cases ph) (auto simp: thread_ok_def)

lemma listed_rouse [simp]: "listed_at (rouse ph) = listed_at ph"
  by (cases ph) simp_all

lemma dozing_rouse: "dozing (rouse ph) = Some rd \<Longrightarrow> dozing ph = Some rd"
  by (cases ph) simp_all

lemma rouse_closer [simp]: "rouse ph = B_Plain \<longleftrightarrow> ph = B_Plain" "rouse ph = B_Close_Readers \<longleftrightarrow> ph = B_Close_Readers"
  by (cases ph; simp)+

lemma sel_not_closing [simp]: "\<not> sel_pc cl hs c K_Wake" "\<not> sel_pc cl hs c (K_Cas meta)"
  by (cases c; simp)+

lemma bk_inv_wake: "bk_inv n s \<Longrightarrow> bk_inv n (bk_wake r s)"
  unfolding bk_inv_def threads_ok_def wakers_ok_def doze_ok_def closer_at_def
  by (auto intro: thread_ok_rouse dest: dozing_rouse)

text \<open>One thread moves; the list of a waker changes only by this thread.\<close>

lemma bk_inv_move:
  assumes I: "bk_inv n s" and R: "mp_reach n (base s')"
    and P: "phase s' = (phase s)(i := ph)" and F: "\<And>j. j \<noteq> i \<Longrightarrow> frames s' j = frames s j"
    and pcs: "\<And>j. j \<noteq> i \<Longrightarrow> mp_pcs (base s') j = mp_pcs (base s) j"
    and cl: "bk_closed s \<Longrightarrow> bk_closed s'" and hs: "hist (base s) \<subseteq> hist (base s')"
    and T: "thread_ok (bk_closed s') (length (buffer (core (base s)))) (hist (base s'))
      (mp_pcs (base s') i) (frames s' i) ph"
    and W: "\<And>rd. waker_ok (frames s') (side rd s')"
    and L: "\<And>rd j. j \<in> set (waiters (guard (side rd s'))) \<longleftrightarrow> (if j = i then listed_at ph = Some rd else j \<in> set (waiters (guard (side rd s))))"
    and D: "\<And>rd j. bk_closed s' \<Longrightarrow> dozing (phase s' j) = Some rd \<Longrightarrow> \<exists>k. closer_at rd k s'"
  shows "bk_inv n s'"
proof -
  have len: "length (buffer (core (base s'))) = length (buffer (core (base s)))"
    using cells_okD(3) [OF mp_invD(1) [OF mp_inv_reach [OF R]]]
      cells_okD(3) [OF mp_invD(1) [OF mp_inv_reach [OF bk_invD(1) [OF I]]]] by simp
  have "thread_ok (bk_closed s') (length (buffer (core (base s')))) (hist (base s'))
      (mp_pcs (base s') j) (frames s' j) (phase s' j)" for j
  proof (cases "j = i")
    case False
    with thread_ok_later [OF thread_okD [OF I, of j] cl hs] show ?thesis
      by (simp add: P F pcs len)
  qed (use T P len in simp)
  moreover have "wakers_ok s'"
    using W L wakers_okD(2) [OF I] by (auto simp: wakers_ok_def P)
  ultimately show ?thesis using R D by (simp add: bk_inv_def threads_ok_def doze_ok_def)
qed


text \<open>The steps of \<^verbatim>\<open>Mpmc_Steps\<close>.\<close>

lemma mp_next_moves:
  assumes "mp_reach n b" and "mp_next i sp (mp_pcs b i) b = Some b'"
  shows "mp_reach n b'" and "j \<noteq> i \<Longrightarrow> mp_pcs b' j = mp_pcs b j" and "hist b \<subseteq> hist b'"
    and "mp_closed b \<Longrightarrow> mp_closed b'"
proof -
  note W = wake_nobody [OF mp_invD(2) [OF mp_inv_reach [OF assms(1)]]]
  have A: "mp_act i (Step sp) b = Some b'" using assms(2) by simp
  show "mp_reach n b'" by (rule mp_reach.step [OF assms(1) A])
  show "mp_pcs b' j = mp_pcs b j" if "j \<noteq> i"
    using assms(2) that W by (cases "mp_pcs b i") (auto simp: mp_goto_def on_core_def split: if_splits option.splits)
  have "set (reads b) \<subseteq> set (reads b')" "set (sent b) \<subseteq> set (sent b')"
    using assms(2) W by (cases "mp_pcs b i"; auto simp: mp_goto_def on_core_def split: if_splits option.splits)+
  then show "hist b \<subseteq> hist b'" unfolding hist_def by (intro Un_mono image_mono Range_mono)
  show "mp_closed b \<Longrightarrow> mp_closed b'" by (rule closed_act(1) [OF mp_inv_reach [OF assms(1)] A])
qed

lemma mp_next_closes:
  assumes "mp_reach n b" and "mp_next i sp (mp_pcs b i) b = Some b'" and "mp_closed b'" and "\<not> mp_closed b"
  shows "mp_pcs b' i = K_Wake \<and> (\<exists>meta. mp_pcs b i = K_Cas meta)"
proof (cases "mp_pcs b i")
  case (S_Cas meta l m)
  note I = mp_inv_reach [OF assms(1)]
  note C = core_okD [OF mp_invD(2) [OF I]]
  have M: "mp_write_meta (core b) = write_cursor (cap_of n) (length (sent b))"
    using C(3) assms(4) bit_or_mask by (metis mp_closed_bit)
  have "\<not> mp_closed b'"
  proof (cases "mp_write_meta (core b) = meta \<and> \<not> sp")
    case True
    then have B: "in_budget (unat (capacity (core b))) (Suc (length (sent b)))"
      and b': "mp_write_meta (core b') = next_meta (capacity (core b)) meta"
      using assms(2) S_Cas by (auto simp: mp_goto_def on_core_def split: if_splits)
    have c: "unat (capacity (core b)) = cap_of n"
      using C(1) cap_okD [OF cells_okD(1) [OF mp_invD(1) [OF I]]] by (simp add: unat_of_nat)
    have "mp_write_meta (core b') = write_cursor (cap_of n) (Suc (length (sent b)))"
      using b' True M C(1) next_meta_cursor(1) [OF cells_okD(1) [OF mp_invD(1) [OF I]]] by metis
    then show ?thesis using write_cursor_in_budget B c mp_closed_bit by metis
  next
    case False
    then show ?thesis using assms(2,4) S_Cas by (auto simp: mp_closed_def)
  qed
  then show ?thesis using assms(3) by simp
qed (use assms wake_nobody [OF mp_invD(2) [OF mp_inv_reach [OF assms(1)]]] in
  \<open>auto simp: mp_closed_bit mp_goto_def on_core_def split: if_splits option.splits\<close>)


lemma mp_reads_sel [simp]: "reads (mp_goto i pc b) = reads b" "reads (on_core f b) = reads b" "sent (on_core f b) = sent b"
  by (simp_all add: mp_goto_def on_core_def)

lemma sel_next:
  assumes "mp_reach n b" and A: "mp_next i sp (mp_pcs b i) b = Some b'"
    and S: "sel_pc (mp_closed b) (hist b) c (mp_pcs b i)" and N: "bk_result (mp_pcs b i) = None"
  shows "sel_pc (mp_closed b') (hist b') c (mp_pcs b' i) \<or>
    (\<exists>meta l m. mp_pcs b i = S_Again meta l m \<and> mp_pcs b' i = S_End (Err (Full m))) \<or>
    (\<exists>meta l. mp_pcs b i = R_Again meta l \<and> mp_pcs b' i = R_End (Err TryRecvError))"
proof -
  note I = mp_inv_reach [OF assms(1)] and F = mp_next_moves [OF assms(1) A]
  note W = wake_nobody [OF mp_invD(2) [OF I]]
  have nd: "mp_pcs b' i \<noteq> Dead" using mp_invD(4) [OF mp_inv_reach [OF F(1)], of i] by auto
  have top: "mp_closed b" if "mp_pcs b i = S_Top meta m" "bit meta 63" for meta m
    using seen_reach [OF assms(1)] that by (auto simp: seen_ok_def)
  have cl: "mp_closed b'" if "mp_closed b" by (rule F(4) [OF that])
  show ?thesis
  proof (cases c)
    case (Sending m)
    show ?thesis
    proof (cases "mp_pcs b i")
      case (S_Top meta x)
      show ?thesis using A S Sending S_Top nd cl top [OF S_Top]
        by (auto simp: outcome_pc_def closed_bit split: outcome.splits ordering.splits if_splits)
    qed (use A S N Sending W nd in \<open>auto simp: outcome_pc_def split: outcome.splits if_splits sum.splits try_send_error.splits\<close>)
  next
    case (Receiving st)
    show ?thesis using A S N Receiving W nd cl
      by (cases "mp_pcs b i")
        (auto simp: outcome_pc_def split: outcome.splits ordering.splits option.splits if_splits sum.splits)
  qed
qed


section \<open>The invariant is kept\<close>

text \<open>One thread moves, the wakers stay.\<close>

lemma bk_inv_quiet:
  assumes I: "bk_inv n s" and R: "mp_reach n (base s')"
    and P: "phase s' = (phase s)(i := ph)" and F: "\<And>j. j \<noteq> i \<Longrightarrow> frames s' j = frames s j"
    and pcs: "\<And>j. j \<noteq> i \<Longrightarrow> mp_pcs (base s') j = mp_pcs (base s) j"
    and cl: "bk_closed s \<Longrightarrow> bk_closed s'" and hs: "hist (base s) \<subseteq> hist (base s')"
    and T: "thread_ok (bk_closed s') (length (buffer (core (base s)))) (hist (base s'))
      (mp_pcs (base s') i) (frames s' i) ph"
    and S: "\<And>rd. side rd s' = side rd s" and L: "listed_at ph = listed_at (phase s i)"
    and A: "listed_at ph \<noteq> None \<Longrightarrow> frames s' i \<noteq> None"
    and Z: "\<And>rd. dozing ph = Some rd \<Longrightarrow> dozing (phase s i) = Some rd \<or> \<not> bk_closed s'"
    and N: "\<And>rd. bk_closed s' \<Longrightarrow> \<not> bk_closed s \<Longrightarrow> closer_at rd i s'"
    and K: "\<And>rd. closer_at rd i s \<Longrightarrow> closer_at rd i s'"
  shows "bk_inv n s'"
proof (rule bk_inv_move [OF I R P F pcs cl hs T])
  show "waker_ok (frames s') (side rd s')" for rd
  proof (rule waker_ok_later)
    show "waker_ok (frames s) (side rd s')" using wakers_okD(1) [OF I] S by simp
    have "j \<in> dom (frames s')" if "j \<in> set (waiters (guard (side rd s)))" for j
      using that A L wakers_okD(2) [OF I, of j rd] wakers_okD(1) [OF I, of rd]
      by (cases "j = i") (auto simp: F domIff waker_ok_def md_ok_def)
    then show "set (waiters (guard (side rd s'))) \<subseteq> dom (frames s')" using S by auto
  qed
  show "j \<in> set (waiters (guard (side rd s'))) \<longleftrightarrow>
      (if j = i then listed_at ph = Some rd else j \<in> set (waiters (guard (side rd s))))" for rd j
    using wakers_okD(2) [OF I, of j rd] S L by simp
  show "\<exists>k. closer_at rd k s'" if C: "bk_closed s'" and D: "dozing (phase s' j) = Some rd" for rd j
  proof (cases "bk_closed s")
    case True
    have "dozing (phase s j) = Some rd" using D Z C by (auto simp: P split: if_splits)
    then obtain k where "closer_at rd k s" using bk_invD(4) [OF I] True by (auto simp: doze_ok_def)
    then have "closer_at rd k s'" using K P pcs [of k] by (cases "k = i") (auto simp: closer_at_def)
    then show ?thesis ..
  qed (use N C in blast)
qed (use assms in auto)

lemma not_closer: "phase s i \<noteq> B_Plain \<Longrightarrow> phase s i \<noteq> B_Close_Readers \<Longrightarrow> \<not> closer_at rd i s"
  by (simp add: closer_at_def)

text \<open>A thread that waits goes on.\<close>

lemma bk_inv_waits:
  assumes I: "bk_inv n s" and W: "waits (phase s i) = Some c" and W': "waits ph = Some c'"
    and C: "c' = Receiving Closed \<Longrightarrow> bk_closed s" and U: "told_closed ph \<Longrightarrow> bk_closed s"
    and L: "listed_at ph = listed_at (phase s i)"
    and Z: "\<And>rd. dozing ph = Some rd \<Longrightarrow> dozing (phase s i) = Some rd \<or> \<not> bk_closed s"
    and w: "frames s i = Some w" and Q: "in_futex ph \<Longrightarrow> v = PARKED"
  shows "bk_inv n (bk_goto i ph (bk_parked i v s))"
    and "(in_futex ph \<Longrightarrow> parked w = PARKED) \<Longrightarrow> bk_inv n (bk_goto i ph s)"
proof -
  have T: "mp_pcs (base s) i = Out \<and> (\<exists>w. frames s i = Some w \<and> atom w < length (buffer (core (base s))))"
    using thread_okD [OF I, of i] W by (auto simp: thread_ok_def)
  have nc: "\<not> closer_at rd i s" for rd using W by (auto simp: closer_at_def)
  show "bk_inv n (bk_goto i ph (bk_parked i v s))"
    by (rule bk_inv_quiet [OF I, where i = i and ph = ph])
      (use bk_invD(1) [OF I] T W' C U L Z Q nc w in \<open>auto simp: thread_ok_def\<close>)
  show "bk_inv n (bk_goto i ph s)" if "in_futex ph \<Longrightarrow> parked w = PARKED"
    by (rule bk_inv_quiet [OF I, where i = i and ph = ph])
      (use bk_invD(1) [OF I] T W' C U L Z that nc w in \<open>auto simp: thread_ok_def\<close>)
qed


lemma mp_goto_same [simp]: "mp_pcs b i = pc \<Longrightarrow> mp_goto i pc b = b"
  by (simp add: mp_goto_def fun_upd_idem)

lemma mp_goto_other [simp]: "j \<noteq> i \<Longrightarrow> mp_pcs (mp_goto i pc b) j = mp_pcs b j"
  by (simp add: mp_goto_def)

lemma mp_reach_start: "mp_reach n b \<Longrightarrow> mp_pcs b i = Out \<Longrightarrow> mp_reach n (mp_goto i (start_pc c) b)"
  by (cases c)
    (auto intro: mp_reach.step [where i = i and a = "Call_Send _"] mp_reach.step [where i = i and a = Call_Recv])

lemma sel_start: "(c = Receiving Closed \<Longrightarrow> cl) \<Longrightarrow> sel_pc cl hs c (start_pc c)"
  by (cases c) auto

text \<open>A thread leaves a wait: back to the top of the loop, or out of the call.\<close>

definition bk_left :: "nat \<Rightarrow> 'a bk_sys \<Rightarrow> 'a bk_sys \<Rightarrow> bool" where
  "bk_left i s s' \<longleftrightarrow> (\<exists>c. s' = bk_select i c s \<and> (c = Receiving Closed \<longrightarrow> bk_closed s)) \<or>
     (\<exists>a. s' = bk_return i a s \<and> answer_ok (bk_closed s) (hist (base s)) a)"

lemma bk_leftD:
  assumes "bk_left i s s'" and "mp_reach n (base s)" and "mp_pcs (base s) i = Out"
  obtains ph where "mp_reach n (base s')" and "phase s' = (phase s)(i := ph)" and "frames s' = (frames s)(i := None)"
    and "\<And>j. j \<noteq> i \<Longrightarrow> mp_pcs (base s') j = mp_pcs (base s) j" and "bk_closed s' = bk_closed s"
    and "hist (base s') = hist (base s)" and "\<And>rd. side rd s' = side rd s" and "listed_at ph = None" and "dozing ph = None"
    and "thread_ok (bk_closed s) k (hist (base s)) (mp_pcs (base s') i) None ph"
  using assms(1) unfolding bk_left_def
proof (elim disjE exE conjE)
  fix c assume s': "s' = bk_select i c s" and c: "c = Receiving Closed \<longrightarrow> bk_closed s"
  show ?thesis
    by (rule that [of "B_Select c"]; simp add: s' assms(2,3) mp_reach_start)
      (use c in \<open>auto simp: thread_ok_def intro!: sel_start\<close>)
next
  fix a assume s': "s' = bk_return i a s" and a: "answer_ok (bk_closed s) (hist (base s)) a"
  show ?thesis
    by (rule that [of "B_Done a"]) (use a assms(2,3) in \<open>simp_all add: s' thread_ok_def\<close>)
qed

lemma bk_left_continue: "(st = Closed \<Longrightarrow> bk_closed s) \<Longrightarrow> (c = Receiving Closed \<Longrightarrow> bk_closed s) \<Longrightarrow> bk_left i s (bk_continue i c st s)"
  by (cases c; cases st) (auto simp: bk_left_def)

lemma waiting_out:
  assumes "bk_inv n s" and "waits (phase s i) = Some c"
  obtains w where "mp_pcs (base s) i = Out" and "c = Receiving Closed \<longrightarrow> bk_closed s" and "frames s i = Some w"
    and "told_closed (phase s i) \<longrightarrow> bk_closed s" and "atom w < length (buffer (core (base s)))"
    and "in_futex (phase s i) \<longrightarrow> parked w = PARKED" and "\<forall>rd. \<not> closer_at rd i s"
  using thread_okD [OF assms(1), of i] assms(2) by (auto simp: thread_ok_def closer_at_def)

lemma bk_inv_left:
  assumes I: "bk_inv n s" and W: "waits (phase s i) = Some c" and L: "listed_at (phase s i) = None" and l: "bk_left i s s'"
  shows "bk_inv n s'"
proof -
  obtain w where w: "mp_pcs (base s) i = Out" "\<forall>rd. \<not> closer_at rd i s" by (rule waiting_out [OF I W])
  show ?thesis
  proof (rule bk_leftD [OF l bk_invD(1) [OF I] w(1), where k = "length (buffer (core (base s)))"])
    fix ph
    assume "mp_reach n (base s')" and "phase s' = (phase s)(i := ph)" and "frames s' = (frames s)(i := None)"
      and "\<And>j. j \<noteq> i \<Longrightarrow> mp_pcs (base s') j = mp_pcs (base s) j" and "bk_closed s' = bk_closed s"
      and "hist (base s') = hist (base s)" and "\<And>rd. side rd s' = side rd s" and "listed_at ph = None" and "dozing ph = None"
      and "thread_ok (bk_closed s) (length (buffer (core (base s)))) (hist (base s)) (mp_pcs (base s') i) None ph"
    then show ?thesis by (intro bk_inv_quiet [OF I, where i = i and ph = ph]) (use L w(2) in auto)
  qed
qed

lemma bk_inv_unregister:
  assumes I: "bk_inv n s" and ph: "phase s i = B_Unregister c st"
  shows "bk_inv n (bk_unregister i c st s)" (is "bk_inv n ?s")
proof -
  have W: "waits (phase s i) = Some c" by (simp add: ph)
  obtain w where w: "mp_pcs (base s) i = Out" "c = Receiving Closed \<longrightarrow> bk_closed s" "told_closed (phase s i) \<longrightarrow> bk_closed s"
    "\<forall>rd. \<not> closer_at rd i s" by (rule waiting_out [OF I W])
  let ?u = "upd_side (reads_side c) (waker_unregister i) s"
  have "bk_left i ?u ?s"
    unfolding bk_unregister_def by (rule bk_left_continue) (use w(2,3) ph in auto)
  then show ?thesis
  proof (rule bk_leftD [where n = n and k = "length (buffer (core (base s)))"])
    fix ph'
    assume *: "mp_reach n (base ?s)" "phase ?s = (phase ?u)(i := ph')" "frames ?s = (frames ?u)(i := None)"
      "\<And>j. j \<noteq> i \<Longrightarrow> mp_pcs (base ?s) j = mp_pcs (base ?u) j" "bk_closed ?s = bk_closed ?u"
      "hist (base ?s) = hist (base ?u)" "\<And>rd. side rd ?s = side rd ?u" "listed_at ph' = None" "dozing ph' = None"
      "thread_ok (bk_closed ?u) (length (buffer (core (base s)))) (hist (base ?u)) (mp_pcs (base ?s) i) None ph'"
    show ?thesis
    proof (rule bk_inv_move [OF I, where i = i and ph = ph'])
      show "waker_ok (frames ?s) (side rd ?s)" for rd
      proof (cases "rd = reads_side c")
        case True
        then show ?thesis using waker_ok_unregister [OF wakers_okD(1) [OF I, of rd], of i] by (simp add: *(3,7))
      next
        case False
        then have "i \<notin> set (waiters (guard (side rd s)))" using wakers_okD(2) [OF I, of i rd] ph by simp
        then show ?thesis using False wakers_okD(1) [OF I, of rd] by (simp add: *(3,7) waker_ok_upd)
      qed
      show "j \<in> set (waiters (guard (side rd ?s))) \<longleftrightarrow>
          (if j = i then listed_at ph' = Some rd else j \<in> set (waiters (guard (side rd s))))" for rd j
        using wakers_okD(2) [OF I, of i rd] wakers_okD(1) [OF I, of rd] ph *(8)
        by (auto simp: *(7) waker_unregister_def Let_def waker_ok_def md_ok_def)
      show "\<exists>k. closer_at rd k ?s" if C: "bk_closed ?s" and D: "dozing (phase ?s j) = Some rd" for rd j
      proof -
        have "dozing (phase s j) = Some rd" "bk_closed s" using C D *(5,9) by (auto simp: *(2) split: if_splits)
        then obtain k where k: "closer_at rd k s" using bk_invD(4) [OF I] by (auto simp: doze_ok_def)
        then have "k \<noteq> i" using w(4) by auto
        then have "closer_at rd k ?s" using k *(2,4) by (simp add: closer_at_def)
        then show ?thesis ..
      qed
    qed (use * in auto)
  qed (use w(1) bk_invD(1) [OF I] in simp_all)
qed


lemma upd_side_same [simp]: "upd_side rd (\<lambda>_. side rd s) s = s"
  by (simp add: upd_side_def side_def)

lemma bk_inv_register:
  assumes I: "bk_inv n s" and ph: "phase s i = B_Register c"
  shows "bk_inv n (bk_register i c s)"
proof -
  have W: "waits (phase s i) = Some c" by (simp add: ph)
  obtain w where w: "mp_pcs (base s) i = Out" "c = Receiving Closed \<longrightarrow> bk_closed s" "frames s i = Some w"
    "atom w < length (buffer (core (base s)))" "\<forall>rd. \<not> closer_at rd i s" by (rule waiting_out [OF I W])
  let ?rd = "reads_side c"
  let ?r = "waker_register (atom_load (core (base s)) (atom w)) i w (side ?rd s)"
  have new: "i \<notin> set (waiters (guard (side rd s)))" for rd using wakers_okD(2) [OF I, of i rd] ph by simp
  show ?thesis
  proof (cases "snd ?r")
    case False
    have "bk_register i c s = bk_select i c s"
      using False waiters_no_register [OF False] by (simp add: bk_register_def Let_def w(3))
    then show ?thesis using w(2) by (intro bk_inv_left [OF I W]) (auto simp: ph bk_left_def)
  next
    case True
    have s': "bk_register i c s = bk_goto i (B_Check c) (upd_side ?rd (\<lambda>_. fst ?r) s)" (is "_ = ?s")
      using True by (simp add: bk_register_def Let_def w(3))
    have "bk_inv n ?s"
    proof (rule bk_inv_move [OF I, where i = i and ph = "B_Check c"])
      show "waker_ok (frames ?s) (side rd ?s)" for rd
        using wakers_okD(1) [OF I, of rd] waker_ok_register [OF wakers_okD(1) [OF I] new, of "atom_load (core (base s)) (atom w)" w ?rd]
        by (cases "rd = ?rd") (auto simp: w(3) domIff intro: prod.collapse [symmetric])
      show "j \<in> set (waiters (guard (side rd ?s))) \<longleftrightarrow>
          (if j = i then listed_at (B_Check c) = Some rd else j \<in> set (waiters (guard (side rd s))))" for rd j
        using new [of rd] waiters_register [OF True] by auto
      show "\<exists>k. closer_at rd k ?s" if C: "bk_closed ?s" and D: "dozing (phase ?s j) = Some rd" for rd j
      proof -
        have "dozing (phase s j) = Some rd" "bk_closed s" using C D by (auto split: if_splits)
        then obtain k where k: "closer_at rd k s" using bk_invD(4) [OF I] by (auto simp: doze_ok_def)
        then have "k \<noteq> i" using w(5) by auto
        then have "closer_at rd k ?s" using k by (simp add: closer_at_def)
        then show ?thesis ..
      qed
    qed (use bk_invD(1) [OF I] w in \<open>auto simp: thread_ok_def\<close>)
    then show ?thesis by (simp only: s')
  qed
qed

lemma bk_inv_waiting:
  assumes I: "bk_inv n s" and A: "bk_waiting i b (phase s i) s = Some s'"
  shows "bk_inv n s'"
proof -
  have "\<exists>c. waits (phase s i) = Some c" using A by (cases "phase s i") (auto simp: bk_waiting_def)
  then obtain c where W: "waits (phase s i) = Some c" by blast
  obtain w where w: "mp_pcs (base s) i = Out" "c = Receiving Closed \<longrightarrow> bk_closed s" "frames s i = Some w"
    "told_closed (phase s i) \<longrightarrow> bk_closed s" "in_futex (phase s i) \<longrightarrow> parked w = PARKED" by (rule waiting_out [OF I W])
  have failed: "with_state Failed c \<noteq> Receiving Closed" for c :: "'a blocking" by (cases c) simp_all
  have side: "reads_side (with_state st c) = reads_side c" for st and c :: "'a blocking" by (cases c) simp_all
  have continue: "bk_inv n (bk_continue i c st s)" if "listed_at (phase s i) = None" "st = Closed \<Longrightarrow> bk_closed s" for st
    by (rule bk_inv_left [OF I W that(1)]) (rule bk_left_continue, use that w(2) in auto)
  note M = bk_inv_waits [OF I W, where c' = c and w = w] and M0 = bk_inv_waits [OF I W, where c' = "with_state Failed c" and w = w]
  show ?thesis
  proof (cases "phase s i")
    case (B_Retry c' k)
    show ?thesis
    proof (cases k)
      case 0
      then show ?thesis using A B_Retry w(3) W failed by (auto simp: bk_waiting_def intro!: M0(2))
    next
      case (Suc k')
      then show ?thesis using A B_Retry w(2,3) W continue
        by (auto simp: bk_waiting_def intro!: M(2) simp del: bk_continue.simps split: if_splits)
    qed
  next
    case (B_Retry_Lap c' k)
    then show ?thesis using A w(2,3) W continue
      by (auto simp: bk_waiting_def intro!: M(2) simp del: bk_continue.simps split: if_splits)
  next
    case (B_Snooze c' k)
    then show ?thesis using A w(2,3) W by (auto simp: bk_waiting_def intro!: M(2))
  next
    case (B_Register c')
    then show ?thesis using A B_Register bk_inv_register [OF I B_Register] by (simp add: bk_waiting_def)
  next
    case (B_Check c')
    then show ?thesis using A w(2,3) W by (auto simp: bk_waiting_def intro!: M(2) split: if_splits)
  next
    case (B_Load c')
    then show ?thesis using A w(2,3) W by (auto simp: bk_waiting_def intro!: M(2) split: if_splits)
  next
    case (B_Unpark c' st)
    then show ?thesis using A w(2,3,4) W by (auto simp: bk_waiting_def intro!: M(1))
  next
    case (B_Park c')
    then show ?thesis using A w(2,3) W by (auto simp: bk_waiting_def intro!: M(1))
  next
    case (B_Futex c')
    then show ?thesis using A w(2,3,5) W by (auto simp: bk_waiting_def intro!: M(2) split: if_splits)
  next
    case (B_Unregister c' st)
    then show ?thesis using A B_Unregister bk_inv_unregister [OF I B_Unregister] by (simp add: bk_waiting_def)
  qed (use A in \<open>simp_all add: bk_waiting_def\<close>)
qed


text \<open>A step of \<^verbatim>\<open>Mpmc_Steps\<close>, and what becomes of its refusals and answers.\<close>

lemma wakes_iff: "wakes pc = Some rd \<longleftrightarrow> (if rd then pc = S_Wake else \<exists>m. pc = R_Wake m)"
  by (cases pc) auto

lemma bk_inv_base:
  assumes I: "bk_inv n s" and A: "mp_next i sp (mp_pcs (base s) i) (base s) = Some b"
    and W: "waits (phase s i) = None" and W': "listed_at ph = None" "dozing ph = None"
    and R: "mp_reach n (base s')" and cl: "bk_closed s' = mp_closed b" and hs: "hist (base s') = hist b"
    and pcs: "\<And>j. j \<noteq> i \<Longrightarrow> mp_pcs (base s') j = mp_pcs b j"
    and P: "phase s' = (phase s)(i := ph)" and F: "\<And>j. j \<noteq> i \<Longrightarrow> frames s' j = frames s j"
    and S: "\<And>rd. side rd s' = side rd s" and K: "mp_pcs (base s) i \<noteq> K_Wake"
    and N: "mp_pcs b i = K_Wake \<Longrightarrow> mp_pcs (base s') i = K_Wake \<and> ph = B_Plain"
    and T: "thread_ok (mp_closed b) (length (buffer (core (base s)))) (hist b) (mp_pcs (base s') i) (frames s' i) ph"
  shows "bk_inv n s'"
proof -
  note X = mp_next_moves [OF bk_invD(1) [OF I] A]
  have L: "listed_at (phase s i) = None" using W by (cases "phase s i") simp_all
  show ?thesis
  proof (rule bk_inv_quiet [OF I R P F])
    show "closer_at rd i s'" if "bk_closed s'" "\<not> bk_closed s" for rd
      using mp_next_closes [OF bk_invD(1) [OF I] A, folded cl bk_closed_base, OF that] N
      by (auto simp: closer_at_def P)
    show "closer_at rd i s'" if "closer_at rd i s" for rd using that K by (simp add: closer_at_def)
    show "mp_pcs (base s') j = mp_pcs (base s) j" if "j \<noteq> i" for j using X(2) pcs that by simp
  qed (use X T W' L in \<open>auto simp: cl hs S bk_closed_base [of s]\<close>)
qed

lemma bk_inv_mp:
  assumes I: "bk_inv n s" and A: "bk_mp i sp s = Some s'" and W: "waits (phase s i) = None" and K: "mp_pcs (base s) i \<noteq> K_Wake"
    and N: "mp_pcs (base s') i = K_Wake \<Longrightarrow> phase s i = B_Plain"
    and T: "awake_ok (bk_closed s') (hist (base s')) (mp_pcs (base s') i) (phase s i)"
  shows "bk_inv n s'"
proof -
  obtain b where b: "mp_next i sp (mp_pcs (base s) i) (base s) = Some b" "s' = s\<lparr>base := b\<rparr>"
    using A by (auto simp: bk_mp_def)
  have L: "listed_at (phase s i) = None" "dozing (phase s i) = None" using W by (cases "phase s i"; simp)+
  have fr: "frames s i = None" using thread_okD [OF I, of i] W by (simp add: thread_ok_def)
  show ?thesis
    by (rule bk_inv_base [OF I b(1) W L])
      (use mp_next_moves(1) [OF bk_invD(1) [OF I] b(1)] T W fr N K in \<open>auto simp: b(2) bk_closed_base thread_ok_def\<close>)
qed

lemma bk_mp_sel:
  assumes "bk_mp i sp s = Some s'"
  shows "phase s' = phase s" and "frames s' = frames s" and "side rd s' = side rd s"
    and "mp_next i sp (mp_pcs (base s) i) (base s) = Some (base s')"
  using assms by (auto simp: bk_mp_def)

lemma mp_end_out: "mp_reach n b \<Longrightarrow> mp_pcs b i \<in> {S_End r, R_End r'} \<Longrightarrow> mp_reach n (mp_goto i Out b)"
  by (rule mp_reach.step [where i = i and a = "Step False"]) auto

lemma bk_inv_again:
  assumes I: "bk_inv n s" and A: "bk_mp i sp s = Some s1" and ph: "phase s i = B_Select c"
    and pc: "(\<exists>l m. mp_pcs (base s) i = S_Again meta l m) \<or> (\<exists>l. mp_pcs (base s) i = R_Again meta l)"
  shows "bk_inv n (bk_refused i c (unat (meta_idx meta)) l' s1)"
proof -
  note B = bk_mp_sel [OF A] and R = bk_invD(1) [OF I]
  note X = mp_next_moves [OF R B(4)]
  have T: "frames s i = None" "sel_pc (bk_closed s) (hist (base s)) c (mp_pcs (base s) i)"
    using thread_okD [OF I, of i] ph by (simp_all add: thread_ok_def)
  have N: "bk_result (mp_pcs (base s) i) = None" and K: "mp_pcs (base s) i \<noteq> K_Wake" using pc by auto
  have idx: "unat (meta_idx meta) < length (buffer (core (base s)))"
    using pc mp_invD(4) [OF mp_inv_reach [OF R], of i] cells_okD(1-3) [OF mp_invD(1) [OF mp_inv_reach [OF R]]] by auto
  have cl: "bk_closed s1 = mp_closed (base s1)" by (rule bk_closed_base)
  have wait: "bk_inv n (bk_wait i c (unat (meta_idx meta)) l' s1)"
    if "mp_pcs (base s1) i \<in> {S_End r, R_End r'}" "c = Receiving Closed \<Longrightarrow> bk_closed s1" for r r'
    by (rule bk_inv_base [OF I B(4), where ph = "B_Retry c RETRIES"])
      (use that ph K idx mp_end_out [OF X(1) that(1)] in \<open>auto simp: B cl thread_ok_def\<close>)
  consider "sel_pc (mp_closed (base s1)) (hist (base s1)) c (mp_pcs (base s1) i)"
    | m where "mp_pcs (base s1) i = S_End (Err (Full m))" | "mp_pcs (base s1) i = R_End (Err TryRecvError)"
    using sel_next [OF R B(4) T(2) [unfolded bk_closed_base] N] by blast
  then show ?thesis
  proof cases
    case 1
    then have "bk_refused i c (unat (meta_idx meta)) l' s1 = s1"
      by (cases c) (auto simp: bk_refused_def split: mp_pc.splits sum.splits try_send_error.splits)
    moreover have "bk_inv n s1"
      by (rule bk_inv_mp [OF I A]) (use 1 ph K cl in \<open>auto split: mp_pc.splits simp: T\<close>)
    ultimately show ?thesis by simp
  next
    case 2
    have "\<not> (\<exists>st. c = Receiving st)" using answer_full [OF B(4) 2] T(2) by auto
    then show ?thesis using wait 2 by (auto simp: bk_refused_def)
  next
    case 3
    then have C: "c = Receiving Closed \<Longrightarrow> bk_closed s1" using answer_empty [OF B(4) 3] T(2) X(4) by (auto simp: bk_closed_base)
    show ?thesis
    proof (cases "c = Receiving Closed")
      case True
      have "bk_inv n (bk_return i (Recv_Answer (Err RecvError)) s1)"
        by (rule bk_inv_base [OF I B(4), where ph = "B_Done (Recv_Answer (Err RecvError))"])
          (use C True ph K 3 mp_end_out [OF X(1)] in \<open>auto simp: B cl thread_ok_def\<close>)
      then show ?thesis using 3 True by (simp add: bk_refused_def)
    qed (use wait 3 in \<open>auto simp: bk_refused_def\<close>)
  qed
qed


text \<open>A critical section that keeps the list of waiters.\<close>

lemma bk_inv_side:
  assumes "bk_inv n s" and "waker_ok (frames s) (f (side rd s))" and "waiters (guard (f (side rd s))) = waiters (guard (side rd s))"
  shows "bk_inv n (upd_side rd f s)"
  using assms unfolding bk_inv_def threads_ok_def wakers_ok_def doze_ok_def closer_at_def by simp

lemma waits_None: "waits ph = None \<Longrightarrow> listed_at ph = None" "waits ph = None \<Longrightarrow> dozing ph = None"
  by (cases ph; simp)+

lemma bk_inv_goto:
  assumes I: "bk_inv n s" and W: "waits (phase s i) = None" "waits ph = None" and K: "mp_pcs (base s) i \<noteq> K_Wake"
    and T: "awake_ok (bk_closed s) (hist (base s)) (mp_pcs (base s) i) ph"
  shows "bk_inv n (bk_goto i ph s)"
proof -
  have L: "listed_at (phase s i) = None" "listed_at ph = None" "dozing ph = None"
    using W waits_None by blast+
  show ?thesis
    by (rule bk_inv_quiet [OF I, where i = i and ph = ph])
      (use bk_invD(1) [OF I] thread_okD [OF I, of i] W T L K in \<open>auto simp: thread_ok_def closer_at_def\<close>)
qed

text \<open>The end of \<^verbatim>\<open>wake_one\<close>.\<close>

lemma bk_inv_woke:
  assumes I: "bk_inv n s" and A: "bk_mp i sp s = Some s'" and P: "mp_pcs (base s) i = S_Wake \<or> (\<exists>m. mp_pcs (base s) i = R_Wake m)"
    and ph: "phase s i = B_Plain \<or> (\<exists>c. phase s i = B_Select c)"
  shows "bk_inv n s'"
proof (rule bk_inv_mp [OF I A])
  note B = bk_mp_sel [OF A] and R = bk_invD(1) [OF I]
  show "waits (phase s i) = None" "mp_pcs (base s) i \<noteq> K_Wake" using ph P by auto
  show "mp_pcs (base s') i = K_Wake \<Longrightarrow> phase s i = B_Plain"
    using B(4) P wake_nobody [OF mp_invD(2) [OF mp_inv_reach [OF R]]]
    by (auto dest!: arg_cong [where f = "\<lambda>b. mp_pcs b i"])
  show "awake_ok (bk_closed s') (hist (base s')) (mp_pcs (base s') i) (phase s i)"
    using ph
  proof (elim disjE exE)
    fix c assume c: "phase s i = B_Select c"
    then have "sel_pc (bk_closed s) (hist (base s)) c (mp_pcs (base s) i)"
      using thread_okD [OF I, of i] by (simp add: thread_ok_def)
    from sel_next [OF R B(4) this [unfolded bk_closed_base]] P show ?thesis by (auto simp: c bk_closed_base)
  qed simp
qed

lemma bk_inv_flag:
  assumes I: "bk_inv n s" and A: "bk_flag i rd k s = Some s'" and P: "wakes (mp_pcs (base s) i) = Some rd"
    and ph: "phase s i = (case k of None \<Rightarrow> B_Plain | Some c \<Rightarrow> B_Select c)"
  shows "bk_inv n s'"
proof (cases "empty_flag (side rd s)")
  case True
  then show ?thesis
    using A P ph by (intro bk_inv_woke [OF I, of i False]) (auto simp: bk_flag_def wakes_iff split: if_splits option.splits)
next
  case False
  have "bk_inv n (bk_goto i (B_Lock k) s)"
    by (rule bk_inv_goto [OF I])
      (use thread_okD [OF I, of i] P ph in \<open>auto simp: thread_ok_def wakes_iff split: option.splits if_splits\<close>)
  then show ?thesis using A False by (simp add: bk_flag_def)
qed

lemma bk_inv_lock:
  assumes I: "bk_inv n s" and A: "bk_lock i k s = Some s'" and ph: "phase s i = B_Lock k"
  shows "bk_inv n s'"
proof -
  let ?ph = "case k of None \<Rightarrow> B_Plain | Some c \<Rightarrow> B_Select c"
  have T: "wakes (mp_pcs (base s) i) \<noteq> None" "awake_ok (bk_closed s) (hist (base s)) (mp_pcs (base s) i) ?ph"
    using thread_okD [OF I, of i] ph by (auto simp: thread_ok_def split: option.splits)
  then obtain rd where rd: "wakes (mp_pcs (base s) i) = Some rd" by blast
  have ok: "md_ok (frames s) (guard (side rd s))" using wakers_okD(1) [OF I] by (simp add: waker_ok_def)
  obtain g r where g: "md_notify (frames s) (guard (side rd s)) = Ret (g, r)" "waiters g = waiters (guard (side rd s))"
    by (simp add: md_notify_Ret [OF ok])
  let ?u = "bk_wake r (upd_side rd (\<lambda>wk. wk\<lparr>guard := g\<rparr>) s)"
  have u: "bk_inv n ?u"
    by (rule bk_inv_wake, rule bk_inv_side [OF I])
      (use wakers_okD(1) [OF I, of rd] md_ok_notify [OF ok g(1)] g(2) in \<open>simp_all add: waker_ok_def\<close>)
  have "bk_inv n (bk_goto i ?ph ?u)"
    by (rule bk_inv_goto [OF u]) (use T rd in \<open>auto simp: ph wakes_iff split: option.splits if_splits\<close>)
  moreover have "bk_mp i False (bk_goto i ?ph ?u) = Some s'" using A rd g(1) by (simp add: bk_lock_def)
  ultimately show ?thesis
    by (rule bk_inv_woke) (use rd in \<open>auto simp: wakes_iff split: option.splits if_splits\<close>)
qed

text \<open>The rounds of \<^verbatim>\<open>close\<close>.\<close>

lemma bk_inv_close_round:
  assumes I: "bk_inv n s"
  shows "bk_inv n (bk_close_round i rd s)"
proof -
  have ok: "md_ok (frames s) (guard (side rd s))" using wakers_okD(1) [OF I] by (simp add: waker_ok_def)
  show ?thesis
    unfolding bk_close_round_def md_close_Ret [OF ok]
    by (simp, rule bk_inv_wake, rule bk_inv_side [OF I])
      (use wakers_okD(1) [OF I, of rd] in \<open>simp_all add: waker_ok_def md_ok_def\<close>)
qed

lemma dozing_listed: "dozing ph = Some rd \<Longrightarrow> listed_at ph = Some rd"
  by (cases ph) simp_all

lemma bk_inv_close_end:
  assumes I: "bk_inv n s" and K: "mp_pcs (base s) i = K_Wake" "phase s i = B_Plain \<or> phase s i = B_Close_Readers" and "mp_reach n (base s')"
    and P: "phase s' = (phase s)(i := ph)" and "frames s' = frames s" and pcs: "\<And>j. j \<noteq> i \<Longrightarrow> mp_pcs (base s') j = mp_pcs (base s) j"
    and cl: "bk_closed s' = bk_closed s" and "hist (base s') = hist (base s)" and S: "\<And>rd. side rd s' = side rd s"
    and ph: "ph = B_Plain \<or> ph = B_Close_Readers \<and> mp_pcs (base s') i = K_Wake"
    and G: "\<And>rd. closer_at rd i s \<Longrightarrow> closer_at rd i s' \<or> idle (side rd s)"
  shows "bk_inv n s'"
proof (rule bk_inv_move [OF I, where i = i and ph = ph])
  show "\<exists>k. closer_at rd k s'" if C: "bk_closed s'" and D: "dozing (phase s' j) = Some rd" for rd j
  proof -
    have d: "dozing (phase s j) = Some rd" using D ph by (auto simp: P split: if_splits)
    then obtain k where k: "closer_at rd k s" using C cl bk_invD(4) [OF I] by (auto simp: doze_ok_def)
    have "\<not> idle (side rd s)" using wakers_okD(2) [OF I, of j rd] dozing_listed [OF d] by auto
    then have "closer_at rd k s'" using k G P pcs [of k] by (cases "k = i") (auto simp: closer_at_def)
    then show ?thesis ..
  qed
  show "j \<in> set (waiters (guard (side rd s'))) \<longleftrightarrow>
      (if j = i then listed_at ph = Some rd else j \<in> set (waiters (guard (side rd s))))" for rd j
    using wakers_okD(2) [OF I, of j rd] K(2) ph by (auto simp: S)
qed (use assms wakers_okD(1) [OF I] thread_okD [OF I, of i] in \<open>auto simp: thread_ok_def\<close>)

lemma bk_inv_plain:
  assumes I: "bk_inv n s" and A: "bk_plain i sp s = Some s'" and ph: "phase s i = B_Plain"
  shows "bk_inv n s'"
proof (cases "wakes (mp_pcs (base s) i)")
  case (Some rd)
  then show ?thesis using A ph by (intro bk_inv_flag [OF I]) (auto simp: bk_plain_def)
next
  case None
  show ?thesis
  proof (cases "mp_pcs (base s) i = K_Wake")
    case K: True
    show ?thesis
    proof (cases "md_is_empty (guard (side False s))")
      case True
      let ?u = "upd_side False (\<lambda>wk. wk\<lparr>empty_flag := True\<rparr>) s"
      have u: "bk_inv n ?u"
        by (rule bk_inv_side [OF I]) (use wakers_okD(1) [OF I, of False] True in \<open>simp_all add: waker_ok_def md_is_empty_def\<close>)
      have "bk_inv n (bk_goto i B_Close_Readers ?u)"
        by (rule bk_inv_close_end [OF u, where i = i and ph = B_Close_Readers])
          (use K ph bk_invD(1) [OF I] True in \<open>auto simp: closer_at_def md_is_empty_def\<close>)
      then show ?thesis using A K True by (simp add: bk_plain_def)
    next
      case False
      then show ?thesis using A K bk_inv_close_round [OF I, of i False] by (auto simp: bk_plain_def)
    qed
  next
    case False
    then have "bk_mp i sp s = Some s'" using A None by (auto simp: bk_plain_def split: mp_pc.splits)
    then show ?thesis by (rule bk_inv_mp [OF I]) (use False ph in auto)
  qed
qed

lemma bk_inv_close_readers:
  assumes I: "bk_inv n s" and A: "bk_close_readers i s = Some s'" and ph: "phase s i = B_Close_Readers"
  shows "bk_inv n s'"
proof (cases "md_is_empty (guard (side True s))")
  case True
  let ?u = "upd_side True (\<lambda>wk. wk\<lparr>empty_flag := True\<rparr>) s"
  have u: "bk_inv n ?u"
    by (rule bk_inv_side [OF I]) (use wakers_okD(1) [OF I, of True] True in \<open>simp_all add: waker_ok_def md_is_empty_def\<close>)
  have K: "mp_pcs (base s) i = K_Wake" using thread_okD [OF I, of i] ph by (simp add: thread_ok_def)
  obtain b where b: "mp_next i False K_Wake (base s) = Some b" and s': "s' = (bk_goto i B_Plain ?u)\<lparr>base := b\<rparr>"
    using A True K by (auto simp: bk_close_readers_def bk_mp_def)
  have X: "mp_reach n b" by (rule mp_next_moves(1) [OF bk_invD(1) [OF I] b [folded K]])
  show ?thesis
    by (rule bk_inv_close_end [OF u, where i = i and ph = B_Plain])
      (use K ph b X True in \<open>auto simp: s' closer_at_def md_is_empty_def bk_closed_base mp_closed_def on_core_def split: if_splits\<close>)
next
  case False
  then show ?thesis using A bk_inv_close_round [OF I, of i True] by (auto simp: bk_close_readers_def)
qed


text \<open>A call begins, in no blocking call or as one.\<close>

lemma bk_inv_begin:
  assumes I: "bk_inv n s" and A: "bk_begin i (case c of Sending m \<Rightarrow> Call_Send m | Receiving st \<Rightarrow> Call_Recv) (B_Select c) s = Some s'"
    and "c \<noteq> Receiving Closed"
  shows "bk_inv n s'"
proof -
  have b: "phase s i = B_Plain" "mp_pcs (base s) i = Out" "s' = bk_goto i (B_Select c) (s\<lparr>base := mp_goto i (start_pc c) (base s)\<rparr>)"
    using A by (auto simp: bk_begin_def split: if_splits blocking.splits)
  show ?thesis
    by (rule bk_inv_quiet [OF I, where i = i and ph = "B_Select c"])
      (use mp_reach_start [OF bk_invD(1) [OF I] b(2)] b thread_okD [OF I, of i] assms(3) in
        \<open>auto simp: bk_closed_base closer_at_def thread_ok_def intro: sel_start\<close>)
qed

lemma bk_inv_begin_plain:
  assumes I: "bk_inv n s" and A: "bk_begin i a B_Plain s = Some s'" and a: "\<And>sp. a \<noteq> Step sp"
  shows "bk_inv n s'"
proof -
  obtain b where b: "phase s i = B_Plain" "mp_act i a (base s) = Some b" "s' = bk_goto i B_Plain (s\<lparr>base := b\<rparr>)"
    using A by (auto simp: bk_begin_def split: if_splits)
  have R: "mp_reach n b" by (rule mp_reach.step [OF bk_invD(1) [OF I] b(2)])
  obtain pc where pc: "mp_pcs (base s) i = Out" "b = mp_goto i pc (base s)"
    using b(2) a by (cases a) (auto split: if_splits)
  show ?thesis
    by (rule bk_inv_quiet [OF I, where i = i and ph = B_Plain])
      (use R b pc thread_okD [OF I, of i] in \<open>auto simp: bk_closed_base closer_at_def thread_ok_def\<close>)
qed

lemma bk_inv_next:
  assumes I: "bk_inv n s" and A: "bk_next i b s = Some s'"
  shows "bk_inv n s'"
proof (cases "phase s i")
  case B_Plain
  then show ?thesis using A by (intro bk_inv_plain [OF I]) (auto simp: bk_next_def)
next
  case (B_Select c)
  have A': "bk_selecting i b c s = Some s'" using A B_Select by (simp add: bk_next_def)
  have T: "frames s i = None" "sel_pc (bk_closed s) (hist (base s)) c (mp_pcs (base s) i)"
    using thread_okD [OF I, of i] B_Select by (simp_all add: thread_ok_def)
  show ?thesis
  proof (cases "bk_result (mp_pcs (base s) i)")
    case (Some a)
    have e: "mp_pcs (base s) i \<in> {S_End r, R_End r'} \<longrightarrow> mp_reach n (mp_goto i Out (base s))" for r r'
      using mp_end_out [OF bk_invD(1) [OF I]] by blast
    have R: "mp_reach n (mp_goto i Out (base s))"
      using Some e by (cases "mp_pcs (base s) i") auto
    have a: "answer_ok (bk_closed s) (hist (base s)) a"
      using Some T(2) by (cases c; cases "mp_pcs (base s) i" rule: bk_result.cases) auto
    have "bk_inv n (bk_return i a s)"
      by (rule bk_inv_quiet [OF I, where i = i and ph = "B_Done a"])
        (use R a B_Select in \<open>auto simp: thread_ok_def closer_at_def\<close>)
    then show ?thesis using A' Some by (simp add: bk_selecting_def)
  next
    case N: None
    show ?thesis
    proof (cases "wakes (mp_pcs (base s) i)")
      case (Some rd)
      then show ?thesis using A' N B_Select by (intro bk_inv_flag [OF I]) (auto simp: bk_selecting_def)
    next
      case W: None
      show ?thesis
      proof (cases "\<exists>meta l m. mp_pcs (base s) i = S_Again meta l m \<or> mp_pcs (base s) i = R_Again meta l")
        case True
        then obtain meta l m where pc: "mp_pcs (base s) i = S_Again meta l m \<or> mp_pcs (base s) i = R_Again meta l" by blast
        then obtain s1 where "bk_mp i b s = Some s1" "s' = bk_refused i c (unat (meta_idx meta)) l s1"
          using A' by (auto simp: bk_selecting_def)
        then show ?thesis using bk_inv_again [OF I _ B_Select] pc by blast
      next
        case False
        then have M: "bk_mp i b s = Some s'" using A' N W by (auto simp: bk_selecting_def split: mp_pc.splits)
        note B = bk_mp_sel [OF M]
        have S: "sel_pc (mp_closed (base s')) (hist (base s')) c (mp_pcs (base s') i)"
          using sel_next [OF bk_invD(1) [OF I] B(4) T(2) [unfolded bk_closed_base] N] False by blast
        show ?thesis
          by (rule bk_inv_mp [OF I M]) (use S T B_Select in \<open>auto simp: bk_closed_base\<close>)
      qed
    qed
  qed
next
  case (B_Lock k)
  then show ?thesis using A by (intro bk_inv_lock [OF I]) (auto simp: bk_next_def)
next
  case B_Close_Readers
  then show ?thesis using A by (intro bk_inv_close_readers [OF I]) (auto simp: bk_next_def)
next
  case (B_Done a)
  have "mp_pcs (base s) i = Out" using thread_okD [OF I, of i] B_Done by (simp add: thread_ok_def)
  then have "bk_inv n (bk_goto i B_Plain s)" using B_Done by (intro bk_inv_goto [OF I]) auto
  then show ?thesis using A B_Done by (simp add: bk_next_def)
next
  case B_Broken
  then show ?thesis using A by (simp add: bk_next_def bk_waiting_def)
qed (use A bk_inv_waiting [OF I, of i b s'] in \<open>simp_all add: bk_next_def\<close>)

lemma bk_inv_act:
  assumes I: "bk_inv n s" and A: "bk_act i a s = Some s'"
  shows "bk_inv n s'"
proof (cases a)
  case (B_Send m)
  then show ?thesis using A bk_inv_begin [OF I, of i "Sending m"] by simp
next
  case B_Recv
  then show ?thesis using A bk_inv_begin [OF I, of i "Receiving Success"] by simp
next
  case (B_Step b)
  then show ?thesis using A bk_inv_next [OF I] by simp
next
  case B_Spurious
  then obtain c where c: "phase s i = B_Asleep c" "s' = bk_goto i (B_Check c) s"
    using A by (auto split: bk_phase.splits)
  then have W: "waits (phase s i) = Some c" by simp
  obtain w where w: "c = Receiving Closed \<longrightarrow> bk_closed s" "frames s i = Some w" by (rule waiting_out [OF I W])
  have "bk_inv n (bk_goto i (B_Check c) s)"
    by (rule bk_inv_waits(2) [OF I W, where c' = c and w = w]) (use w c in auto)
  then show ?thesis by (simp add: c)
qed (use A bk_inv_begin_plain [OF I] in auto)

lemma bk_inv_new:
  assumes "mpmc_bounded_new n = Ret q"
  shows "bk_inv n (bk_sys_new q)"
  using mp_reach.start [OF assms] core_okD [OF mp_invD(2) [OF mp_inv_new [OF assms]]] assms
  by (auto simp: bk_inv_def bk_sys_new_def threads_ok_def thread_ok_def wakers_ok_def doze_ok_def side_def
      mpmc_bounded_new_def split: if_splits)

lemma bk_reach_inv: "bk_reach n s \<Longrightarrow> bk_inv n s"
  by (induction rule: bk_reach.induct) (auto intro: bk_inv_new bk_inv_act)

lemma bk_reach_run: "bk_run as s = Some s' \<Longrightarrow> bk_reach n s \<Longrightarrow> bk_reach n s'"
proof (induction as arbitrary: s)
  case (Cons a as)
  then show ?case by (cases a) (auto split: option.splits intro: bk_reach.step)
qed simp

end
