(* ===== verification/Blocking_Steps_Properties.thy ===== *)
theory Blocking_Steps_Properties
  imports Blocking_Invariant Steps_Properties
begin

text \<open>
  What holds of all calls of \<^verbatim>\<open>MpmcBounded\<close>, the blocking ones included, when any number of
  threads interleave their atomic accesses.
\<close>

section \<open>Lemmas\<close>

text \<open>The blocking call a thread is in.\<close>

fun bk_call :: "'a bk_phase \<Rightarrow> 'a blocking option" where
  "bk_call (B_Select c) = Some c"
| "bk_call (B_Lock k) = k"
| "bk_call ph = waits ph"

lemma bk_call_waits: "waits ph = Some c \<Longrightarrow> bk_call ph = Some c"
  by (cases ph) simp_all

text \<open>How a blocking call comes to its answer.\<close>

lemma rouse_done [simp]: "rouse ph = B_Done a \<longleftrightarrow> ph = B_Done a"
  by (cases ph) simp_all

lemma bk_continue_done:
  "phase (bk_continue i c st s) i = B_Done a \<Longrightarrow> st = Closed \<and> (\<exists>m. c = Sending m \<and> a = Send_Answer (Err (SendError m)))"
  by (cases c; cases st) auto

lemma bk_refused_done:
  "phase (bk_refused i c idx l s) i = B_Done a \<Longrightarrow> phase s i \<noteq> B_Done a \<Longrightarrow>
     c = Receiving Closed \<and> mp_pcs (base s) i = R_End (Err TryRecvError) \<and> a = Recv_Answer (Err RecvError)"
  by (auto simp: bk_refused_def split: mp_pc.splits sum.splits try_send_error.splits try_recv_error.splits if_splits)

lemma bk_flag_done: "bk_flag i rd k s = Some s' \<Longrightarrow> phase s' i = B_Done a \<Longrightarrow> phase s i = B_Done a"
  by (auto simp: bk_flag_def dest: bk_mp_sel split: if_splits)

lemma bk_close_round_done: "phase (bk_close_round i rd s) i = B_Done a \<Longrightarrow> phase s i = B_Done a"
  by (auto simp: bk_close_round_def split: outcome.splits if_splits)

lemma bk_waiting_done:
  assumes I: "bk_inv n s" and A: "bk_waiting i b (phase s i) s = Some s'" and D: "phase s' i = B_Done a"
  shows "\<exists>m. waits (phase s i) = Some (Sending m) \<and> bk_closed s \<and> a = Send_Answer (Err (SendError m))"
proof (cases "phase s i")
  case (B_Retry c k)
  then show ?thesis using A D
    by (cases k) (auto simp: bk_waiting_def dest: bk_continue_done simp del: bk_continue.simps split: if_splits)
next
  case (B_Register c)
  then show ?thesis using A D by (auto simp: bk_waiting_def bk_register_def Let_def split: if_splits)
next
  case (B_Unregister c st)
  have "st = Closed \<longrightarrow> bk_closed s" using thread_okD [OF I, of i] B_Unregister by (simp add: thread_ok_def)
  then show ?thesis using A D B_Unregister by (auto simp: bk_waiting_def bk_unregister_def dest: bk_continue_done)
qed (use A D in \<open>auto simp: bk_waiting_def dest: bk_continue_done simp del: bk_continue.simps split: if_splits\<close>)

lemma bk_done_cases:
  assumes I: "bk_inv n s" and A: "bk_next i b s = Some s'" and D: "phase s' i = B_Done a"
  obtains c where "phase s i = B_Select c" and "bk_result (mp_pcs (base s) i) = Some a"
  | meta l s1 where "phase s i = B_Select (Receiving Closed)" and "mp_pcs (base s) i = R_Again meta l"
      and "mp_next i b (R_Again meta l) (base s) = Some s1" and "mp_pcs s1 i = R_End (Err TryRecvError)" and "a = Recv_Answer (Err RecvError)"
  | m where "waits (phase s i) = Some (Sending m)" and "bk_closed s" and "a = Send_Answer (Err (SendError m))"
proof (cases "phase s i")
  case B_Plain
  have "phase s' i \<noteq> B_Done a"
    using A B_Plain bk_close_round_done [of i False s a]
    by (auto simp: bk_next_def bk_plain_def dest: bk_flag_done bk_mp_sel(1) split: option.splits mp_pc.splits if_splits)
  then show ?thesis using D by simp
next
  case (B_Select c)
  note Q = that
  have A': "bk_selecting i b c s = Some s'" using A B_Select by (simp add: bk_next_def)
  show ?thesis
  proof (cases "bk_result (mp_pcs (base s) i)")
    case (Some a')
    then show ?thesis using that(1) [OF B_Select] A' D by (auto simp: bk_selecting_def)
  next
    case N: None
    have again: thesis if R: "(\<exists>m. mp_pcs (base s) i = S_Again meta l m) \<or> mp_pcs (base s) i = R_Again meta l"
      and S: "bk_mp i b s = Some s1" "s' = bk_refused i c (unat (meta_idx meta)) l s1" for meta l s1
    proof -
      note B = bk_mp_sel [OF S(1)]
      have "phase s1 i \<noteq> B_Done a" using B(1) B_Select by simp
      note E = bk_refused_done [OF D [unfolded S(2)] this]
      have "mp_pcs (base s) i = R_Again meta l" using R answer_empty [OF B(4)] E by auto
      then show ?thesis using Q(2) [of meta l "base s1"] B_Select B(4) E by simp
    qed
    have "phase s' i \<noteq> B_Done a" if "\<nexists>meta l m. mp_pcs (base s) i = S_Again meta l m \<or> mp_pcs (base s) i = R_Again meta l"
      using A' N that B_Select
      by (auto simp: bk_selecting_def dest: bk_flag_done bk_mp_sel(1) split: option.splits mp_pc.splits)
    then obtain meta l m where R: "mp_pcs (base s) i = S_Again meta l m \<or> mp_pcs (base s) i = R_Again meta l" using D by blast
    then obtain s1 where "bk_mp i b s = Some s1" "s' = bk_refused i c (unat (meta_idx meta)) l s1"
      using A' by (auto simp: bk_selecting_def)
    then show ?thesis using again R by blast
  qed
next
  case (B_Lock k)
  have "phase s' i \<noteq> B_Done a"
    using A B_Lock by (auto simp: bk_next_def bk_lock_def dest: bk_mp_sel(1) split: option.splits outcome.splits)
  then show ?thesis using D by simp
next
  case B_Close_Readers
  have "phase s' i \<noteq> B_Done a"
    using A B_Close_Readers bk_close_round_done [of i True s a]
    by (auto simp: bk_next_def bk_close_readers_def dest: bk_mp_sel(1) split: if_splits)
  then show ?thesis using D by simp
next
  case (B_Done a')
  then show ?thesis using A D by (auto simp: bk_next_def)
next
  case B_Broken
  then show ?thesis using A by (simp add: bk_next_def bk_waiting_def)
qed (use A D bk_waiting_done [OF I, of i b s' a] that(3) in \<open>auto simp: bk_next_def\<close>)

text \<open>Only a thread in the futex, or in no call, cannot step.\<close>

lemma mp_next_enabled:
  assumes "mp_reach n b" and "mp_pcs b i \<noteq> Out" and "in_budget (cap_of n) (Suc (length (sent b)))"
  shows "\<exists>b'. mp_next i sp (mp_pcs b i) b = Some b'"
proof -
  note I = mp_inv_reach [OF assms(1)]
  note C = core_okD [OF mp_invD(2) [OF I]] and P = mp_invD(4) [OF I, of i]
  have c: "unat (capacity (core b)) = cap_of n"
    using C(1) cap_okD [OF cells_okD(1) [OF mp_invD(1) [OF I]]] by (simp add: unat_of_nat)
  show ?thesis
    using assms(2,3) P C wake_nobody [OF mp_invD(2) [OF I]]
    by (cases "mp_pcs b i") (auto simp: c [simplified] md_is_empty_def split: option.splits)
qed

lemma bk_next_enabled:
  assumes I: "bk_inv n s" and B: "in_budget (cap_of n) (Suc (length (sent (base s))))"
    and P: "phase s i = B_Plain \<Longrightarrow> mp_pcs (base s) i \<noteq> Out" and S: "\<And>c. phase s i \<noteq> B_Asleep c"
  shows "\<exists>s'. bk_next i b s = Some s'"
proof -
  have mp: "\<exists>u'. bk_mp i sp u = Some u'" if "base u = base s" "mp_pcs (base s) i \<noteq> Out" for sp u
    using mp_next_enabled [OF bk_invD(1) [OF I] that(2) B, of sp] that(1) by (auto simp: bk_mp_def)
  have flag: "\<exists>u'. bk_flag i rd k s = Some u'" if "wakes (mp_pcs (base s) i) = Some rd" for rd k
    using mp [of s] that by (cases "mp_pcs (base s) i = Out") (auto simp: bk_flag_def)
  note T = thread_okD [OF I, of i]
  show ?thesis
  proof (cases "phase s i")
    case B_Plain
    then show ?thesis using mp [of s b] flag P by (auto simp: bk_next_def bk_plain_def split: option.split mp_pc.split)
  next
    case (B_Select c)
    then have "mp_pcs (base s) i \<noteq> Out" using T by (cases c) (auto simp: thread_ok_def)
    then show ?thesis using mp [of s b] flag B_Select
      by (auto simp: bk_next_def bk_selecting_def split: option.split mp_pc.split)
  next
    case (B_Lock k)
    then obtain rd where rd: "wakes (mp_pcs (base s) i) = Some rd" using T by (auto simp: thread_ok_def)
    have "md_ok (frames s) (guard (side rd s))" using wakers_okD(1) [OF I] by (simp add: waker_ok_def)
    then show ?thesis using mp rd B_Lock by (auto simp: bk_next_def bk_lock_def md_notify_Ret wakes_iff split: if_splits)
  next
    case B_Close_Readers
    then show ?thesis using mp T by (auto simp: bk_next_def bk_close_readers_def thread_ok_def)
  next
    case (B_Retry c k)
    then show ?thesis by (cases k) (simp_all add: bk_next_def bk_waiting_def)
  qed (use S T in \<open>auto simp: bk_next_def bk_waiting_def thread_ok_def\<close>)
qed



section \<open>Schedules\<close>

text \<open>A queue of capacity one.\<close>

definition bk_one :: "nat bk_sys" where
  "bk_one = bk_sys_new \<lparr>stack = Map.empty, woken = [], buffer = [elem_default], capacity = 1, read_waker = waker_default,
     write_waker = waker_default, mp_read_meta = push_bit 32 1, mp_write_meta = 0\<rparr>"

lemma bk_one_reach: "bk_reach 1 bk_one"
  unfolding bk_one_def by (rule bk_reach.start) (simp add: mpmc_bounded_new_def)

lemmas bk_eval = demo_eval bk_sys_new_def bk_next_def bk_plain_def bk_selecting_def bk_flag_def bk_refused_def bk_lock_def
  bk_close_readers_def bk_close_round_def bk_waiting_def bk_register_def bk_unregister_def bk_begin_def bk_goto_def bk_mp_def
  bk_select_def bk_return_def bk_wait_def bk_closed_def mpmc_is_close_def lap_changed_def atom_load_def bk_parked_def bk_wake_def
  side_def upd_side_def RETRIES_def waiter_new_def waker_register_def md_register_def md_is_empty_def waker_unregister_def
  md_notify_def md_close_def Let_def

abbreviation own :: "nat \<Rightarrow> nat \<times> 'a bk_action" where "own i \<equiv> (i, B_Step False)"

text \<open>A receiver gives up its rounds of \<^verbatim>\<open>retry\<close>, registers and goes to sleep.\<close>

definition falls_asleep :: "nat \<Rightarrow> (nat \<times> 'a bk_action) list" where
  "falls_asleep i = [own i, own i, (i, B_Step True), own i, own i, (i, B_Step True), own i, own i, own i, own i, own i, own i]"

definition sleeps_closed :: "(nat \<times> nat bk_action) list" where
  "sleeps_closed = [(2, B_Recv), own 2, own 2, own 2] @ falls_asleep 2 @ [(1, B_Close), own 1, own 1]"

lemma sleeps_closed_run:
  "\<exists>s. bk_run sleeps_closed bk_one = Some s \<and> phase s 2 = B_Asleep (Receiving Failed) \<and> bk_closed s \<and>
     waiters (guard (writers s)) = [] \<and> waiters (guard (side True s)) = [2] \<and> bk_act 2 (B_Step False) s = None \<and> sent (base s) = []"
  unfolding sleeps_closed_def falls_asleep_def bk_one_def by (simp add: bk_eval)

definition misses :: "(nat \<times> nat bk_action) list" where
  "misses = [(0, B_Send 7), own 0, own 0, own 0, (1, B_Close), own 1, own 1, own 1, own 1,
     (2, B_Recv), own 2, own 2, own 2, own 2, own 2, own 2]"

lemma misses_run:
  "\<exists>s s'. bk_run misses bk_one = Some s \<and> bk_act 2 (B_Step False) s = Some s' \<and>
     phase s' 2 = B_Done (Recv_Answer (Err RecvError)) \<and> taken (base s) = 0 \<and> sent (base s) = [7] \<and>
     (\<exists>u. bk_run [own 0, own 0, own 0, own 0] s' = Some u \<and> phase u 0 = B_Done (Send_Answer (Ok ())))"
  unfolding misses_def bk_one_def by (simp add: bk_eval)

section \<open>Safety\<close>

text \<open>
  C10: In every interleaving of all calls, \<^verbatim>\<open>send\<close> and \<^verbatim>\<open>recv\<close> included, the cursors and
  buckets move as in an interleaving of \<^verbatim>\<open>try_send\<close>, \<^verbatim>\<open>try_recv\<close> and \<^verbatim>\<open>close\<close>; no access
  is undefined and no waker panics or follows a dangling waiter: every listed waiter is on the stack
  of its thread and points to a bucket of the queue, once; the flag of a waker tells whether its list
  is empty; and a call that is over has left neither a waiter nor an entry behind.
\<close>

theorem blocking_steps_safe:
  assumes "bk_reach n s"
  shows "mp_reach n (base s) \<and> (\<forall>i. phase s i \<noteq> B_Broken \<and> mp_pcs (base s) i \<noteq> Dead) \<and>
    (\<forall>rd p. p \<in> set (waiters (guard (side rd s))) \<longrightarrow>
      (\<exists>w. frames s p = Some w \<and> atom w < unat (if n > 0 then n else 1))) \<and>
    (\<forall>rd. distinct (waiters (guard (side rd s))) \<and> (empty_flag (side rd s) \<longleftrightarrow> waiters (guard (side rd s)) = [])) \<and>
    (\<forall>i. phase s i = B_Plain \<or> (\<exists>a. phase s i = B_Done a) \<longrightarrow> frames s i = None \<and> (\<forall>rd. i \<notin> set (waiters (guard (side rd s)))))"
proof -
  note I = bk_reach_inv [OF assms]
  note M = mp_inv_reach [OF bk_invD(1) [OF I]]
  have len: "length (buffer (core (base s))) = cap_of n" by (rule cells_okD(3) [OF mp_invD(1) [OF M]])
  have "phase s i \<noteq> B_Broken" "mp_pcs (base s) i \<noteq> Dead" for i
    using thread_okD [OF I, of i] mp_invD(4) [OF M, of i] by (auto simp: thread_ok_def)
  moreover have "\<exists>w. frames s p = Some w \<and> atom w < cap_of n" if "p \<in> set (waiters (guard (side rd s)))" for rd p
  proof -
    have "listed_at (phase s p) = Some rd" using that wakers_okD(2) [OF I] by blast
    then obtain c where "waits (phase s p) = Some c" by (cases "phase s p") auto
    then show ?thesis using thread_okD [OF I, of p] len by (auto simp: thread_ok_def)
  qed
  moreover have "distinct (waiters (guard (side rd s))) \<and> (empty_flag (side rd s) \<longleftrightarrow> waiters (guard (side rd s)) = [])" for rd
    using wakers_okD(1) [OF I, of rd] by (simp add: waker_ok_def md_ok_def)
  moreover have "frames s i = None \<and> (\<forall>rd. i \<notin> set (waiters (guard (side rd s))))"
    if "phase s i = B_Plain \<or> (\<exists>a. phase s i = B_Done a)" for i
    using that thread_okD [OF I, of i] wakers_okD(2) [OF I, of i] by (auto simp: thread_ok_def)
  ultimately show ?thesis using bk_invD(1) [OF I] by blast
qed

lemma blocking_steps_safe_witness:
  "\<exists>s. bk_run sleeps_closed bk_one = Some s \<and> (\<exists>w. frames s 2 = Some w \<and> atom w = 0) \<and> \<not> empty_flag (side True s)"
proof -
  obtain s where s: "bk_run sleeps_closed bk_one = Some s" "waiters (guard (side True s)) = [2]" using sleeps_closed_run by blast
  note R = blocking_steps_safe [OF bk_reach_run [OF s(1) bk_one_reach]]
  have "\<exists>w. frames s 2 = Some w \<and> atom w < unat (if (1 :: u32) > 0 then 1 else 1 :: u32)"
    using R s(2) by (metis list.set_intros(1))
  moreover have "\<not> empty_flag (side True s)" using R s(2) by (metis list.distinct(1))
  ultimately show ?thesis using s(1) by auto
qed

section \<open>Answers\<close>

text \<open>
  C11: What the answers of the blocking calls mean at the moment they are given. \<^verbatim>\<open>send\<close> answers
  \<^verbatim>\<open>Ok\<close> after its message has taken its place in the queue, and \<^verbatim>\<open>SendError\<close> with the message
  of the call only when the queue is closed; \<^verbatim>\<open>recv\<close> answers a message that was read from the
  queue, and \<^verbatim>\<open>RecvError\<close> only when the queue is closed and no message is in it or the sender of
  the next one has not finished.
\<close>

theorem blocking_answers:
  assumes R: "bk_reach n s" and A: "bk_act i (B_Step b) s = Some s'" and D: "phase s' i = B_Done a"
  shows "case a of
      Send_Answer (Ok u) \<Rightarrow> \<exists>m. bk_call (phase s i) = Some (Sending m) \<and> m \<in> set (sent (base s))
    | Send_Answer (Err (SendError m)) \<Rightarrow> bk_call (phase s i) = Some (Sending m) \<and> bk_closed s
    | Recv_Answer (Ok m) \<Rightarrow> \<exists>k. (k, m) \<in> set (reads (base s))
    | Recv_Answer (Err e) \<Rightarrow> bk_closed s \<and> (taken (base s) = length (sent (base s)) \<or>
        (\<exists>k. writes_ticket (core (base s)) (mp_pcs (base s) k) = Some (taken (base s))))"
proof -
  note I = bk_reach_inv [OF R]
  note B = bk_invD(1) [OF I]
  have A': "bk_next i b s = Some s'" using A by simp
  show ?thesis
  proof (rule bk_done_cases [OF I A' D])
    fix c assume c: "phase s i = B_Select c" and a: "bk_result (mp_pcs (base s) i) = Some a"
    have "sel_pc (bk_closed s) (hist (base s)) c (mp_pcs (base s) i)"
      using thread_okD [OF I, of i] c by (simp add: thread_ok_def)
    then show ?thesis using a c
      by (cases c; cases "mp_pcs (base s) i" rule: bk_result.cases) auto
  next
    fix meta l s1
    assume *: "phase s i = B_Select (Receiving Closed)" "mp_pcs (base s) i = R_Again meta l"
      "mp_next i b (R_Again meta l) (base s) = Some s1" "mp_pcs s1 i = R_End (Err TryRecvError)" "a = Recv_Answer (Err RecvError)"
    have "bk_closed s" using thread_okD [OF I, of i] *(1) by (simp add: thread_ok_def)
    then show ?thesis
      using empty_precise(2) [OF mp_inv_reach [OF B] claims_reach [OF B] *(2,3,4)] *(5) by simp
  next
    fix m assume "waits (phase s i) = Some (Sending m)" "bk_closed s" "a = Send_Answer (Err (SendError m))"
    then show ?thesis by (simp add: bk_call_waits)
  qed
qed

lemma blocking_answers_witness:
  "\<exists>s s'. bk_run misses bk_one = Some s \<and> bk_act 2 (B_Step False) s = Some s' \<and>
     phase s' 2 = B_Done (Recv_Answer (Err RecvError)) \<and> bk_closed s \<and>
     (\<exists>k. writes_ticket (core (base s)) (mp_pcs (base s) k) = Some 0)"
proof -
  obtain s s' where s: "bk_run misses bk_one = Some s" "bk_act 2 (B_Step False) s = Some s'"
    "phase s' 2 = B_Done (Recv_Answer (Err RecvError))" "taken (base s) = 0" "sent (base s) = [7]" using misses_run by blast
  from blocking_answers [OF bk_reach_run [OF s(1) bk_one_reach] s(2,3)] s show ?thesis by auto
qed


section \<open>Progress\<close>



text \<open>
  Nothing but the futex blocks a thread: whoever is in a call and not in the futex can make a
  step in every state, whatever the other threads do.
\<close>

theorem blocking_only_in_futex:
  assumes "bk_reach n s" and "Suc (length (sent (base s))) < 2 ^ 30 * unat (if n > 0 then n else 1)"
    and "bk_act i (B_Step b) s = None"
  shows "(phase s i = B_Plain \<and> mp_pcs (base s) i = Out) \<or> (\<exists>c. phase s i = B_Asleep c)"
proof (rule ccontr)
  note I = bk_reach_inv [OF assms(1)]
  have B: "in_budget (cap_of n) (Suc (length (sent (base s))))"
    using assms(2) in_budget_iff [OF cells_okD(2) [OF mp_invD(1) [OF mp_inv_reach [OF bk_invD(1) [OF I]]]]] by blast
  assume "\<not> ((phase s i = B_Plain \<and> mp_pcs (base s) i = Out) \<or> (\<exists>c. phase s i = B_Asleep c))"
  then have "\<exists>s'. bk_next i b s = Some s'" by (intro bk_next_enabled [OF I B]) auto
  then show False using assms(3) by simp
qed

lemma blocking_only_in_futex_witness:
  "\<exists>s c. bk_run sleeps_closed bk_one = Some s \<and> bk_act 2 (B_Step False) s = None \<and> phase s 2 = B_Asleep c"
proof -
  obtain s where s: "bk_run sleeps_closed bk_one = Some s" "phase s 2 = B_Asleep (Receiving Failed)"
    "bk_act 2 (B_Step False) s = None" "sent (base s) = []" using sleeps_closed_run by blast
  have "Suc (length (sent (base s))) < 2 ^ 30 * unat (if (1 :: u32) > 0 then 1 else 1 :: u32)" by (simp add: s(4))
  from blocking_only_in_futex [OF bk_reach_run [OF s(1) bk_one_reach] this s(3)] s show ?thesis by auto
qed

end
