(* ===== verification/Blocking_Calls.thy ===== *)
theory Blocking_Calls
  imports Blocking_Steps_Properties
begin

text \<open>
  What one step of \<^verbatim>\<open>Blocking_Steps\<close> does: to the call of the thread, to the other threads,
  to the history of the queue.
\<close>

section \<open>The call of the thread\<close>

fun answers :: "'a blocking \<Rightarrow> 'a bk_answer \<Rightarrow> bool" where
  "answers (Sending m) (Send_Answer r) = True"
| "answers (Receiving st) (Recv_Answer r) = True"
| "answers c a = False"

definition goes_on :: "'a blocking \<Rightarrow> 'a bk_phase \<Rightarrow> bool" where
  "goes_on c ph \<longleftrightarrow> (case ph of B_Done a \<Rightarrow> answers c a | _ \<Rightarrow> \<exists>st. bk_call ph = Some c \<or> bk_call ph = Some (with_state st c))"

lemma goes_on_call: "(\<And>a. ph \<noteq> B_Done a) \<Longrightarrow> bk_call ph = Some c \<Longrightarrow> goes_on c ph"
  by (cases ph) (auto simp: goes_on_def)

lemma goes_on_done: "goes_on c (B_Done a) = answers c a"
  by (simp add: goes_on_def)

lemma bk_call_rouse [simp]: "bk_call (rouse ph) = bk_call ph"
  by (cases ph) simp_all

lemma goes_on_continue: "goes_on c (phase (bk_continue i c st s) i)"
  by (cases c; cases st) (auto simp: goes_on_def intro: exI [of _ Success] exI [of _ Failed] exI [of _ Closed])

lemma goes_on_waiting:
  assumes A: "bk_waiting i b ph s = Some s'" and W: "waits ph = Some c" and P: "phase s i = ph"
  shows "goes_on c (phase s' i)"
proof -
  have F: "goes_on c (B_Register (with_state Failed c))" unfolding goes_on_def by (auto intro: exI [of _ Failed])
  show ?thesis
  proof (cases ph)
    case (B_Retry c' k)
    then show ?thesis using A W F goes_on_continue
      by (cases k) (auto simp: bk_waiting_def intro: goes_on_call simp del: bk_continue.simps split: if_splits)
  next
    case (B_Register c')
    then show ?thesis using A W
      by (auto simp: bk_waiting_def bk_register_def Let_def intro: goes_on_call split: if_splits)
  next
    case (B_Unregister c' st)
    then show ?thesis using A W goes_on_continue by (auto simp: bk_waiting_def bk_unregister_def)
  qed (use A W goes_on_continue in \<open>auto simp: bk_waiting_def intro: goes_on_call simp del: bk_continue.simps split: if_splits\<close>)
qed

lemma bk_next_goes_on:
  assumes I: "bk_inv n s" and A: "bk_next i b s = Some s'" and C: "bk_call (phase s i) = Some c"
  shows "goes_on c (phase s' i)"
proof (cases "phase s i")
  case (B_Select c')
  then have c: "c' = c" using C by simp
  have T: "sel_pc (bk_closed s) (hist (base s)) c (mp_pcs (base s) i)"
    using thread_okD [OF I, of i] B_Select c by (simp add: thread_ok_def)
  have A': "bk_selecting i b c s = Some s'" using A B_Select c by (simp add: bk_next_def)
  have G: "goes_on c (B_Select c)" "goes_on c (B_Lock (Some c))" "goes_on c (B_Retry c RETRIES)"
    by (auto intro: goes_on_call)
  show ?thesis
  proof (cases "bk_result (mp_pcs (base s) i)")
    case (Some a)
    then have "answers c a" using T by (cases c; cases "mp_pcs (base s) i" rule: bk_result.cases) auto
    then show ?thesis using Some A' by (auto simp: bk_selecting_def goes_on_done)
  next
    case N: None
    have same: "goes_on c (phase s1 i)" if "bk_mp i sp s = Some s1" for s1 sp
      using bk_mp_sel(1) [OF that] B_Select c G(1) by simp
    have ref: "goes_on c (phase (bk_refused i c idx l s1) i)" if "bk_mp i sp s = Some s1" for s1 sp idx l
      using same [OF that] G(3) by (auto simp: bk_refused_def goes_on_done
          split: mp_pc.splits sum.splits try_send_error.splits try_recv_error.splits)
    have "goes_on c (phase s' i)" if "bk_flag i rd (Some c) s = Some s'" for rd
      using that same G(2) by (auto simp: bk_flag_def split: if_splits)
    then show ?thesis using A' N same ref by (auto simp: bk_selecting_def split: option.splits mp_pc.splits)
  qed
next
  case (B_Lock k)
  have "md_ok (frames s) (guard (side rd s))" for rd using wakers_okD(1) [OF I] by (simp add: waker_ok_def)
  then have "phase s' i = B_Select c"
    using A C B_Lock by (auto simp: bk_next_def bk_lock_def md_notify_Ret dest: bk_mp_sel(1) split: option.splits)
  then show ?thesis by (auto intro: goes_on_call)
qed (use A C goes_on_waiting [of i b _ s s' c] in \<open>auto simp: bk_next_def\<close>)


text \<open>A step of a thread moves the other threads only out of the futex.\<close>

lemma bk_continue_frame:
  assumes "j \<noteq> i"
  shows "mp_pcs (base (bk_continue i c st s)) j = mp_pcs (base s) j \<and> phase (bk_continue i c st s) j = phase s j"
  using assms by (cases c; cases st) auto

lemma bk_next_others:
  fixes s :: "'a bk_sys"
  assumes I: "bk_inv n s" and A: "bk_next i b s = Some s'" and j: "j \<noteq> i"
  shows "mp_pcs (base s') j = mp_pcs (base s) j \<and> phase s' j \<in> {phase s j, rouse (phase s j)}"
proof -
  let ?G = "\<lambda>u u'. mp_pcs (base u') j = mp_pcs (base u) j \<and> phase u' j \<in> {phase u j, rouse (phase u j)}"
  have mp: "mp_pcs (base u') j = mp_pcs (base u) j \<and> phase u' j = phase u j" if "bk_mp i sp u = Some u'" "base u = base s" for u u' sp
    using bk_mp_sel(1,4) [OF that(1)] mp_next_moves(2) [OF bk_invD(1) [OF I] _ j] that(2) by auto
  have flag: "mp_pcs (base u') j = mp_pcs (base s) j \<and> phase u' j = phase s j" if "bk_flag i rd k s = Some u'" for u' rd k
    using that j mp by (auto simp: bk_flag_def split: if_splits)
  have ref: "mp_pcs (base (bk_refused i c idx l u)) j = mp_pcs (base u) j \<and> phase (bk_refused i c idx l u) j = phase u j"
    for c idx l and u :: "'a bk_sys" using j
    by (auto simp: bk_refused_def split: mp_pc.splits sum.splits try_send_error.splits try_recv_error.splits)
  have close: "?G s (bk_close_round i rd s)" for rd
    using j by (auto simp: bk_close_round_def split: outcome.splits)
  show ?thesis
  proof (cases "phase s i")
    case B_Plain
    then show ?thesis using A mp flag close [of False] j by (auto simp: bk_next_def bk_plain_def split: option.splits mp_pc.splits if_splits)
  next
    case (B_Select c)
    then have "(\<exists>u idx l. bk_mp i b s = Some u \<and> (s' = u \<or> s' = bk_refused i c idx l u)) \<or>
        (\<exists>rd k. bk_flag i rd k s = Some s') \<or> (\<exists>a. s' = bk_return i a s)"
      using A by (fastforce simp: bk_next_def bk_selecting_def split: option.splits mp_pc.splits)
    then show ?thesis
    proof (elim disjE exE conjE)
      fix u idx l assume "bk_mp i b s = Some u" "s' = bk_refused i c idx l u"
      then show ?thesis using mp [of b s u] ref by simp
    qed (use mp [of b s s'] flag j in auto)
  next
    case (B_Lock k)
    then show ?thesis using A j mp by (fastforce simp: bk_next_def bk_lock_def split: option.splits outcome.splits)
  next
    case B_Close_Readers
    then show ?thesis using A j mp close [of True] by (fastforce simp: bk_next_def bk_close_readers_def split: if_splits)
  next
    case (B_Retry c k)
    then show ?thesis using A j bk_continue_frame [OF j, where s = s]
      by (cases k) (auto simp: bk_next_def bk_waiting_def simp del: bk_continue.simps)
  next
    case (B_Unregister c st)
    then show ?thesis using A j bk_continue_frame [OF j, where s = "upd_side (reads_side c) (waker_unregister i) s"]
      by (auto simp: bk_next_def bk_waiting_def bk_unregister_def simp del: bk_continue.simps)
  qed (use A j bk_continue_frame [OF j, where s = s] in
    \<open>auto simp: bk_next_def bk_waiting_def bk_register_def bk_unregister_def Let_def simp del: bk_continue.simps\<close>)
qed


section \<open>Closing threads\<close>

fun closing :: "'a mp_pc \<Rightarrow> bool" where
  "closing K_Load = True" | "closing (K_Cas meta) = True" | "closing K_Wake = True" | "closing K_End = True" | "closing pc = False"

lemma closing_next: "mp_next i sp pc b = Some b' \<Longrightarrow> closing pc \<Longrightarrow> pc \<noteq> K_End \<Longrightarrow> closing (mp_pcs b' i)"
  by (cases pc) (auto split: if_splits)

lemma bk_close_round_base:
  assumes "bk_inv n s"
  shows "base (bk_close_round i rd s) = base s" and "phase (bk_close_round i rd s) j \<in> {phase s j, rouse (phase s j)}"
proof -
  have "md_ok (frames s) (guard (side rd s))" using wakers_okD(1) [OF assms] by (simp add: waker_ok_def)
  then show "base (bk_close_round i rd s) = base s" "phase (bk_close_round i rd s) j \<in> {phase s j, rouse (phase s j)}"
    by (simp_all add: bk_close_round_def md_close_Ret)
qed

lemma closed_when_done: "mp_reach n b \<Longrightarrow> mp_pcs b i \<in> {K_Wake, K_End} \<Longrightarrow> mp_closed b"
proof (induction arbitrary: i rule: mp_reach.induct)
  case (start q)
  then show ?case by (simp add: mp_sys_new_def)
next
  case (step b j a b')
  note I = mp_inv_reach [OF step.hyps(1)]
  show ?case
  proof (cases "mp_closed b")
    case True
    then show ?thesis by (rule closed_act(1) [OF I step.hyps(2)])
  next
    case False
    then have nk: "mp_pcs b k \<notin> {K_Wake, K_End}" for k using step.IH by blast
    show ?thesis
    proof (cases a)
      case (Step sp)
      then have A: "mp_next j sp (mp_pcs b j) b = Some b'" using step.hyps(2) by simp
      have "i = j" using mp_next_moves(2) [OF step.hyps(1) A, of i] step.prems nk [of i] by (cases "i = j") auto
      then show ?thesis
        using A step.prems nk [of j] wake_nobody [OF mp_invD(2) [OF I]]
        by (cases "\<exists>meta. mp_pcs b j = K_Cas meta"; cases "mp_pcs b j")
          (auto simp: mp_closed_bit and_mask_64_iff outcome_pc_def mp_goto_def on_core_def
            split: if_splits option.splits outcome.splits ordering.splits)
    qed (use step.hyps(2) step.prems nk [of i] in \<open>auto simp: mp_goto_def split: if_splits\<close>)
  qed
qed


section \<open>What a step does to the queue below\<close>

text \<open>At most one access of \<^verbatim>\<open>Mpmc_Steps\<close>, and a jump of the thread.\<close>

definition moved :: "nat \<Rightarrow> 'a mp_sys \<Rightarrow> 'a mp_sys \<Rightarrow> bool" where
  "moved i b b' \<longleftrightarrow> (\<exists>u. (u = b \<or> (\<exists>sp. mp_next i sp (mp_pcs b i) b = Some u)) \<and> (b' = u \<or> (\<exists>pc. b' = mp_goto i pc u)))"

lemma moved_simps [intro]: "moved i b b" "moved i b (mp_goto i pc b)"
  "mp_next i sp (mp_pcs b i) b = Some u \<Longrightarrow> moved i b u" "mp_next i sp (mp_pcs b i) b = Some u \<Longrightarrow> moved i b (mp_goto i pc u)"
  by (auto simp: moved_def)

lemma moved_continue: "moved i (base s) (base (bk_continue i c st s))"
  by (cases c; cases st) auto

lemma bk_next_moved:
  fixes s :: "'a bk_sys"
  assumes I: "bk_inv n s" and A: "bk_next i b s = Some s'"
  shows "moved i (base s) (base s')"
proof -
  have mp: "moved i (base s) (base u')" if "bk_mp i sp u = Some u'" "base u = base s" for u u' :: "'a bk_sys" and sp
    using bk_mp_sel(4) [OF that(1)] that(2) by auto
  have flag: "moved i (base s) (base u')" if "bk_flag i rd k s = Some u'" for u' rd k
    using that mp by (auto simp: bk_flag_def split: if_splits)
  have ref: "moved i (base s) (base (bk_refused i c idx l u))" if "bk_mp i sp s = Some u" for c idx l sp and u :: "'a bk_sys"
    using bk_mp_sel(4) [OF that]
    by (auto simp: bk_refused_def split: mp_pc.splits sum.splits try_send_error.splits try_recv_error.splits)
  show ?thesis
  proof (cases "phase s i")
    case B_Plain
    then show ?thesis using A mp [of b s s'] flag bk_close_round_base(1) [OF I]
      by (auto simp: bk_next_def bk_plain_def split: option.splits mp_pc.splits if_splits)
  next
    case (B_Select c)
    then have "(\<exists>u idx l. bk_mp i b s = Some u \<and> (s' = u \<or> s' = bk_refused i c idx l u)) \<or>
        (\<exists>rd k. bk_flag i rd k s = Some s') \<or> (\<exists>a. s' = bk_return i a s)"
      using A by (fastforce simp: bk_next_def bk_selecting_def split: option.splits mp_pc.splits)
    then show ?thesis using mp [of b s] ref [of b] flag by auto
  next
    case (B_Lock k)
    then show ?thesis using A mp by (auto simp: bk_next_def bk_lock_def split: option.splits outcome.splits)
  next
    case B_Close_Readers
    then show ?thesis using A mp bk_close_round_base(1) [OF I]
      by (auto simp: bk_next_def bk_close_readers_def split: if_splits)
  next
    case (B_Retry c k)
    then show ?thesis using A moved_continue [where s = s]
      by (cases k) (auto simp: bk_next_def bk_waiting_def simp del: bk_continue.simps)
  next
    case (B_Unregister c st)
    then show ?thesis using A moved_continue [of i "upd_side (reads_side c) (waker_unregister i) s" c st]
      by (auto simp: bk_next_def bk_waiting_def bk_unregister_def simp del: bk_continue.simps)
  qed (use A moved_continue [where s = s] in
    \<open>auto simp: bk_next_def bk_waiting_def bk_register_def Let_def simp del: bk_continue.simps\<close>)
qed

lemma mp_next_history:
  assumes R: "mp_reach n b" and A: "mp_next i sp (mp_pcs b i) b = Some u"
  shows "sent u = sent b \<and> reads u = reads b \<or>
    (\<exists>meta l m. mp_pcs b i = S_Cas meta l m \<and> mp_pcs u i = S_Write (unat (meta_idx meta)) l m \<and> sent u = sent b @ [m] \<and> reads u = reads b) \<or>
    (\<exists>idx l m. mp_pcs b i = R_Read idx l \<and> mp_pcs u i = R_Store idx l m \<and> sent u = sent b \<and>
       reads u = reads b @ [(ticket (core b) idx l, m)])"
proof -
  have nd: "mp_pcs u i \<noteq> Dead" using mp_invD(4) [OF mp_inv_reach [OF mp_next_moves(1) [OF R A]], of i] by auto
  show ?thesis
    using A nd wake_nobody [OF mp_invD(2) [OF mp_inv_reach [OF R]]]
    by (cases "mp_pcs b i") (auto simp: mp_goto_def on_core_def split: if_splits option.splits)
qed

lemma moved_history:
  assumes "moved i b b'" and "mp_reach n b"
  shows "sent b' = sent b \<and> reads b' = reads b \<or>
    (\<exists>meta l m. mp_pcs b i = S_Cas meta l m \<and> sent b' = sent b @ [m] \<and> reads b' = reads b) \<or>
    (\<exists>idx l m. mp_pcs b i = R_Read idx l \<and> sent b' = sent b \<and> reads b' = reads b @ [(ticket (core b) idx l, m)])"
proof -
  obtain u where u: "u = b \<or> (\<exists>sp. mp_next i sp (mp_pcs b i) b = Some u)" "b' = u \<or> (\<exists>pc. b' = mp_goto i pc u)"
    using assms(1) unfolding moved_def by blast
  have same: "sent b' = sent u" "reads b' = reads u" using u(2) by auto
  show ?thesis using u(1)
  proof (elim disjE exE)
    fix sp assume "mp_next i sp (mp_pcs b i) b = Some u"
    from mp_next_history [OF assms(2) this] show ?thesis unfolding same by blast
  qed (simp add: same)
qed

lemma moved_closes:
  assumes "moved i b b'" and "mp_reach n b" and "mp_closed b'" and "\<not> mp_closed b"
  shows "\<exists>meta. mp_pcs b i = K_Cas meta"
  using assms mp_next_closes [OF assms(2), of i] unfolding moved_def by auto


section \<open>The history of a call\<close>

text \<open>
  How far a thread is with its message: it has taken its place in the queue; it has claimed one to
  read; it has read it.
\<close>

fun progress_pc :: "'a mp_pc \<Rightarrow> bool \<times> bool \<times> 'a option" where
  "progress_pc (S_Write idx l m) = (True, False, None)" | "progress_pc (S_Store idx l m) = (True, False, None)"
| "progress_pc S_Wake = (True, False, None)" | "progress_pc (S_End r) = (r = Ok (), False, None)"
| "progress_pc (R_Read idx l) = (False, True, None)"
| "progress_pc (R_Store idx l m) = (False, False, Some m)" | "progress_pc (R_Wake m) = (False, False, Some m)"
| "progress_pc (R_End r) = (False, False, case r of Ok m \<Rightarrow> Some m | Err e \<Rightarrow> None)"
| "progress_pc pc = (False, False, None)"

definition progress :: "nat \<Rightarrow> 'a bk_sys \<Rightarrow> bool \<times> bool \<times> 'a option" where
  "progress i s = (case phase s i of
     B_Done (Send_Answer r) \<Rightarrow> (r = Ok (), False, None)
   | B_Done (Recv_Answer r) \<Rightarrow> (False, False, case r of Ok m \<Rightarrow> Some m | Err e \<Rightarrow> None)
   | _ \<Rightarrow> progress_pc (mp_pcs (base s) i))"

definition history :: "'a mp_sys \<Rightarrow> 'a list \<times> nat \<times> (nat \<times> 'a) list" where
  "history b = (sent b, taken b, reads b)"

text \<open>A step of thread \<^term>\<open>i\<close> with progress \<^term>\<open>p\<close> before and \<^term>\<open>p'\<close> after.\<close>

definition effect :: "'a mp_sys \<Rightarrow> 'a mp_sys \<Rightarrow> 'a blocking option \<Rightarrow> bool \<times> bool \<times> 'a option \<Rightarrow> bool \<times> bool \<times> 'a option \<Rightarrow> bool" where
  "effect b b' c p p' \<longleftrightarrow>
     history b' = history b \<and> p' = p \<or>
     (\<exists>m. history b' = (sent b @ [m], taken b, reads b) \<and> p = (False, False, None) \<and> p' = (True, False, None) \<and> c = Some (Sending m)) \<or>
     history b' = (sent b, Suc (taken b), reads b) \<and> p = (False, False, None) \<and> p' = (False, True, None) \<and> (\<exists>st. c = Some (Receiving st)) \<or>
     (\<exists>t m. history b' = (sent b, taken b, reads b @ [(t, m)]) \<and> p = (False, True, None) \<and> p' = (False, False, Some m) \<and>
        (\<exists>st. c = Some (Receiving st)))"

lemma history_sel [simp]: "history (mp_goto i pc b) = history b" "history (on_core f b) = history b" "history (b\<lparr>core := q\<rparr>) = history b"
  "history (b\<lparr>sent := ms\<rparr>) = (ms, taken b, reads b)" "history (b\<lparr>taken := h\<rparr>) = (sent b, h, reads b)"
  "history (b\<lparr>reads := rs\<rparr>) = (sent b, taken b, rs)"
  by (simp_all add: history_def mp_goto_def on_core_def)

lemma progress_upd [simp]: "progress i (upd_side rd f s) = progress i s" "progress i (bk_wake r s) = progress i s"
  by (cases "phase s i"; simp add: progress_def)+

lemma mp_next_effect:
  assumes R: "mp_reach n b" and A: "mp_next i sp (mp_pcs b i) b = Some u" and S: "sel_pc cl hs c (mp_pcs b i)"
    and N: "bk_result (mp_pcs b i) = None"
  shows "effect b u (Some c) (progress_pc (mp_pcs b i)) (progress_pc (mp_pcs u i))"
proof -
  have nd: "mp_pcs u i \<noteq> Dead" using mp_invD(4) [OF mp_inv_reach [OF mp_next_moves(1) [OF R A]], of i] by auto
  note W = wake_nobody [OF mp_invD(2) [OF mp_inv_reach [OF R]]]
  show ?thesis
  proof (cases c)
    case (Sending m)
    show ?thesis using A nd S N W
      by (cases "mp_pcs b i")
        (auto simp: effect_def Sending outcome_pc_def split: if_splits outcome.splits ordering.splits sum.splits try_send_error.splits)
  next
    case (Receiving st)
    show ?thesis using A nd S N W
      by (cases "mp_pcs b i")
        (auto simp: effect_def Receiving outcome_pc_def split: if_splits option.splits outcome.splits ordering.splits sum.splits)
  qed
qed


lemma effect_same: "history b' = history b \<Longrightarrow> effect b b' c p p"
  by (simp add: effect_def)

lemma progress_waits: "waits ph = Some c \<Longrightarrow> phase s i = ph \<Longrightarrow> progress i s = progress_pc (mp_pcs (base s) i)"
  by (cases ph) (simp_all add: progress_def)

lemma progress_continue: "mp_pcs (base s) i = Out \<Longrightarrow> progress i (bk_continue i c st s) = (False, False, None)"
  by (cases c; cases st) (auto simp: progress_def)

lemma history_continue: "history (base (bk_continue i c st s)) = history (base s)"
  by (cases c; cases st) auto

lemma bk_waiting_effect:
  assumes I: "bk_inv n s" and A: "bk_waiting i b (phase s i) s = Some s'" and W: "waits (phase s i) = Some c"
  shows "history (base s') = history (base s) \<and> progress i s' = progress i s"
proof -
  obtain w where w: "mp_pcs (base s) i = Out" by (rule waiting_out [OF I W])
  have p: "progress i s = (False, False, None)" using progress_waits [OF W refl] w by simp
  have g: "progress i (bk_goto i ph u) = (False, False, None)" if "waits ph = Some c'" "base u = base s" for ph c' and u :: "'a bk_sys"
    using that w by (cases ph) (auto simp: progress_def)
  show ?thesis
  proof (cases "phase s i")
    case (B_Retry c' k)
    then show ?thesis using A w p g history_continue [where s = s] progress_continue [OF w]
      by (cases k) (auto simp: bk_waiting_def simp del: bk_continue.simps)
  next
    case (B_Register c')
    then show ?thesis using A w p g by (cases c') (auto simp: bk_waiting_def bk_register_def Let_def progress_def)
  next
    case (B_Unregister c' st)
    let ?u = "upd_side (reads_side c') (waker_unregister i) s"
    show ?thesis using A p B_Unregister history_continue [of i c' st ?u] progress_continue [of ?u i c' st] w
      by (auto simp: bk_waiting_def bk_unregister_def simp del: bk_continue.simps)
  qed (use A W w p g history_continue [where s = s] progress_continue [OF w] in
    \<open>auto simp: bk_waiting_def simp del: bk_continue.simps\<close>)
qed

lemma bk_call_effect:
  assumes I: "bk_inv n s" and A: "bk_next i b s = Some s'" and C: "bk_call (phase s i) = Some c"
  shows "effect (base s) (base s') (Some c) (progress i s) (progress i s')"
proof -
  note R = bk_invD(1) [OF I] and T = thread_okD [OF I, of i]
  have mp: "effect (base s) (base u) (Some c) (progress_pc (mp_pcs (base s) i)) (progress_pc (mp_pcs (base u) i))"
    if "bk_mp i sp v = Some u" "base v = base s" "bk_result (mp_pcs (base s) i) = None"
      "sel_pc (bk_closed s) (hist (base s)) c (mp_pcs (base s) i)" for u v sp
    using mp_next_effect [OF R _ that(4,3)] bk_mp_sel(4) [OF that(1)] that(2) by simp
  have wt: "effect (base s) (base s') (Some c) (progress i s) (progress i s')"
    if "bk_waiting i b (phase s i) s = Some s'" "waits (phase s i) = Some c"
    using bk_waiting_effect [OF I that] by (auto intro: effect_same)
  show ?thesis
  proof (cases "phase s i")
    case (B_Select c')
    then have ph: "phase s i = B_Select c" using C by simp
    then have S: "sel_pc (bk_closed s) (hist (base s)) c (mp_pcs (base s) i)" using T by (simp add: thread_ok_def)
    have p: "progress i s = progress_pc (mp_pcs (base s) i)" by (simp add: progress_def ph)
    have A': "bk_selecting i b c s = Some s'" using A ph by (simp add: bk_next_def)
    show ?thesis
    proof (cases "bk_result (mp_pcs (base s) i)")
      case (Some a)
      then have "progress i (bk_return i a s) = progress i s" unfolding p
        by (cases "mp_pcs (base s) i" rule: bk_result.cases) (auto simp: progress_def)
      then show ?thesis using A' Some by (auto simp: bk_selecting_def intro: effect_same)
    next
      case N: None
      have same: "effect (base s) (base u) (Some c) (progress i s) (progress i u)" if "bk_mp i sp s = Some u" for u sp
        using mp [OF that refl N S] bk_mp_sel(1) [OF that] by (simp add: progress_def ph)
      have flag: "effect (base s) (base s') (Some c) (progress i s) (progress i s')" if "bk_flag i rd (Some c) s = Some s'" for rd
        using that same by (auto simp: bk_flag_def effect_def progress_def ph split: if_splits)
      have ref: "effect (base s) (base (bk_refused i c idx l u)) (Some c) (progress i s) (progress i (bk_refused i c idx l u))"
        if "bk_mp i sp s = Some u" for u sp idx l
      proof -
        have "history (base (bk_refused i c idx l u)) = history (base u) \<and>
            progress i (bk_refused i c idx l u) = progress i u"
          using bk_mp_sel(1) [OF that] ph
          by (auto simp: bk_refused_def progress_def split: mp_pc.splits sum.splits try_send_error.splits try_recv_error.splits)
        moreover have "sent (base (bk_refused i c idx l u)) = sent (base u)" "taken (base (bk_refused i c idx l u)) = taken (base u)"
          "reads (base (bk_refused i c idx l u)) = reads (base u)" using calculation by (simp_all add: history_def)
        ultimately show ?thesis using same [OF that] by (simp add: effect_def)
      qed
      show ?thesis using A' N same flag ref by (auto simp: bk_selecting_def split: option.splits mp_pc.splits)
    qed
  next
    case (B_Lock k)
    then have k: "k = Some c" using C by simp
    then have S: "sel_pc (bk_closed s) (hist (base s)) c (mp_pcs (base s) i)" and W: "wakes (mp_pcs (base s) i) \<noteq> None"
      using T B_Lock by (simp_all add: thread_ok_def)
    have N: "bk_result (mp_pcs (base s) i) = None" using W by (cases "mp_pcs (base s) i") auto
    have p: "progress i s = progress_pc (mp_pcs (base s) i)" by (simp add: progress_def B_Lock)
    have "md_ok (frames s) (guard (side rd s))" for rd using wakers_okD(1) [OF I] by (simp add: waker_ok_def)
    then obtain v where v: "bk_mp i False v = Some s'" "base v = base s" "phase v i = B_Select c"
      using A W B_Lock k by (auto simp: bk_next_def bk_lock_def md_notify_Ret split: option.splits)
    show ?thesis using mp [OF v(1,2) N S] bk_mp_sel(1) [OF v(1)] v(3) by (simp add: p progress_def B_Lock)
  qed (use A C wt in \<open>auto simp: bk_next_def\<close>)
qed

lemma closing_history: "mp_next i sp pc b = Some u \<Longrightarrow> closing pc \<Longrightarrow> history u = history b \<and> (closing (mp_pcs u i) \<or> mp_pcs u i = Out)"
  by (cases pc) (auto split: if_splits)

lemma bk_close_effect:
  assumes I: "bk_inv n s" and A: "bk_next i b s = Some s'" and P: "phase s i = B_Plain \<or> phase s i = B_Close_Readers"
    and K: "closing (mp_pcs (base s) i)"
  shows "history (base s') = history (base s) \<and> progress i s' = progress i s"
proof -
  have cp: "progress_pc pc = (False, False, None)" if "closing pc \<or> pc = Out" for pc :: "'a mp_pc" using that by (cases pc) auto
  have mp: ?thesis if "bk_mp i sp v = Some s'" "base v = base s" "phase v i = B_Plain" for v sp
    using closing_history [OF bk_mp_sel(4) [OF that(1)]] bk_mp_sel(1) [OF that(1)] that(2,3) K P cp
    by (auto simp: progress_def)
  have round: "history (base (bk_close_round i rd s)) = history (base s) \<and> progress i (bk_close_round i rd s) = progress i s" for rd
    using bk_close_round_base(1) [OF I, of i rd] bk_close_round_base(2) [OF I, of i rd i] P by (auto simp: progress_def)
  have "wakes (mp_pcs (base s) i) = None" using K by (cases "mp_pcs (base s) i") auto
  then show ?thesis
    using P
  proof (elim disjE)
    assume ph: "phase s i = B_Plain"
    have "bk_mp i b s = Some s' \<or> s' = bk_close_round i False s \<or>
        s' = bk_goto i B_Close_Readers (upd_side False (\<lambda>wk. wk\<lparr>empty_flag := True\<rparr>) s)"
      using A \<open>wakes _ = None\<close> ph by (auto simp: bk_next_def bk_plain_def split: mp_pc.splits if_splits)
    then show ?thesis using mp [of b s] round [of False] ph by (auto simp: progress_def)
  next
    assume ph: "phase s i = B_Close_Readers"
    then have "(\<exists>v. bk_mp i False v = Some s' \<and> base v = base s \<and> phase v i = B_Plain) \<or> s' = bk_close_round i True s"
      using A by (fastforce simp: bk_next_def bk_close_readers_def split: if_splits)
    then show ?thesis using mp [of False] round [of True] by auto
  qed
qed

end
