(* ===== verification/Thread_Tests.thy ===== *)
theory Thread_Tests
  imports Blocking_Calls
begin

text \<open>
  The unit tests of \<^verbatim>\<open>src/src/queue/mpmc.rs\<close> in which threads call \<^verbatim>\<open>send\<close>, \<^verbatim>\<open>recv\<close>
  and \<^verbatim>\<open>close\<close> of one bounded queue: each thread runs its program, over the steps of
  \<^verbatim>\<open>Blocking_Steps\<close>, in every schedule.
\<close>

section \<open>Programs\<close>

text \<open>
  A statement: \<^verbatim>\<open>tx.send(m).unwrap()\<close> or \<^verbatim>\<open>assert_eq!(tx.send(m), Ok(()))\<close>;
  \<^verbatim>\<open>assert_eq!(rx.recv(), Ok(m))\<close>; \<^verbatim>\<open>assert!(rx.recv().is_err())\<close>; \<^verbatim>\<open>tx.close()\<close>;
  the \<^verbatim>\<open>join\<close> of a thread.
\<close>

datatype statement = Do_Send i32 | Do_Recv i32 | Do_Recv_Err | Do_Close | Do_Join nat

record tests =
  queue :: "i32 bk_sys"
  todo :: "nat \<Rightarrow> statement list"
  panicked :: bool

fun statement_call :: "statement \<Rightarrow> i32 bk_action option" where
  "statement_call (Do_Send m) = Some (B_Send m)"
| "statement_call (Do_Recv m) = Some B_Recv"
| "statement_call Do_Recv_Err = Some B_Recv"
| "statement_call Do_Close = Some B_Close"
| "statement_call (Do_Join j) = None"

fun holds_for :: "statement \<Rightarrow> i32 bk_answer \<Rightarrow> bool" where
  "holds_for (Do_Send m) (Send_Answer r) = (r = Ok ())"
| "holds_for (Do_Recv m) (Recv_Answer r) = (r = Ok m)"
| "holds_for Do_Recv_Err (Recv_Answer r) = (\<forall>m. r \<noteq> Ok m)"
| "holds_for st a = False"

definition at_rest :: "nat \<Rightarrow> 'a bk_sys \<Rightarrow> bool" where
  "at_rest i q \<longleftrightarrow> phase q i = B_Plain \<and> mp_pcs (base q) i = Out"

text \<open>
  A step of a thread: the next statement begins; the running call makes a step; the call is over
  and its assertion is checked. A thread whose assertion fails ends, and so does the test.
\<close>

definition test_begin :: "nat \<Rightarrow> tests \<Rightarrow> tests option" where
  "test_begin i s =
     (case todo s i of [] \<Rightarrow> None
      | st # rest \<Rightarrow> (case statement_call st of
            Some a \<Rightarrow> map_option (\<lambda>q. s\<lparr>queue := q\<rparr>) (bk_act i a (queue s))
          | None \<Rightarrow> (case st of
                Do_Join j \<Rightarrow> if todo s j = [] \<and> at_rest j (queue s) then Some (s\<lparr>todo := (todo s)(i := rest)\<rparr>) else None
              | _ \<Rightarrow> None)))"

definition test_return :: "nat \<Rightarrow> i32 bk_answer \<Rightarrow> tests \<Rightarrow> tests" where
  "test_return i a s =
     (if holds_for (hd (todo s i)) a
      then s\<lparr>queue := bk_goto i B_Plain (queue s), todo := (todo s)(i := tl (todo s i))\<rparr>
      else s\<lparr>queue := bk_goto i B_Plain (queue s), todo := (todo s)(i := []), panicked := True\<rparr>)"

definition test_step :: "nat \<times> i32 bk_action \<Rightarrow> tests \<Rightarrow> tests option" where
  "test_step ia s =
     (case ia of
        (i, B_Step b) \<Rightarrow>
          if at_rest i (queue s) then test_begin i s
          else (case phase (queue s) i of
              B_Done a \<Rightarrow> Some (test_return i a s)
            | _ \<Rightarrow> if mp_pcs (base (queue s)) i = K_End
                then map_option (\<lambda>q. s\<lparr>queue := q, todo := (todo s)(i := tl (todo s i))\<rparr>) (bk_act i (B_Step b) (queue s))
                else map_option (\<lambda>q. s\<lparr>queue := q\<rparr>) (bk_act i (B_Step b) (queue s)))
      | (i, B_Spurious) \<Rightarrow> map_option (\<lambda>q. s\<lparr>queue := q\<rparr>) (bk_act i B_Spurious (queue s))
      | _ \<Rightarrow> None)"

definition test_start :: "u32 \<Rightarrow> (nat \<Rightarrow> statement list) \<Rightarrow> tests outcome" where
  "test_start n ps = obind (mpmc_bounded_new n) (\<lambda>q. Ret \<lparr>queue = bk_sys_new q, todo = ps, panicked = False\<rparr>)"

inductive test_reach :: "u32 \<Rightarrow> (nat \<Rightarrow> statement list) \<Rightarrow> tests \<Rightarrow> bool" for n ps where
  start: "test_start n ps = Ret s \<Longrightarrow> test_reach n ps s"
| step: "test_reach n ps s \<Longrightarrow> test_step ia s = Some s' \<Longrightarrow> test_reach n ps s'"

text \<open>The tests; thread \<open>0\<close> is \<^verbatim>\<open>main\<close>, which has spawned the others.\<close>

definition send_recv_threads :: "nat \<Rightarrow> statement list" where
  "send_recv_threads = (\<lambda>_. [])(0 := [Do_Recv 1, Do_Join 1], 1 := [Do_Send 1])"

definition send_recv_threads_no_capacity :: "nat \<Rightarrow> statement list" where
  "send_recv_threads_no_capacity = (\<lambda>_. [])(0 := [Do_Recv 1, Do_Recv 2, Do_Join 1], 1 := [Do_Send 1, Do_Send 2])"

definition send_close_gets_none :: "nat \<Rightarrow> statement list" where
  "send_close_gets_none = (\<lambda>_. [])(0 := [Do_Close, Do_Join 1], 1 := [Do_Recv_Err])"

definition mpsc_no_capacity :: "nat \<Rightarrow> statement list" where
  "mpsc_no_capacity = (\<lambda>i. if i = 0 then replicate (30000 * 7) (Do_Recv 1)
     else if i \<le> 7 then replicate 30000 (Do_Send 1) else [])"

definition mpmc_no_capacity :: "nat \<Rightarrow> statement list" where
  "mpmc_no_capacity = (\<lambda>i. if i = 0 then map Do_Join [1..<15]
     else if i \<le> 7 then replicate 50000 (Do_Send 1)
     else if i \<le> 14 then replicate 50000 (Do_Recv 1) else [])"

section \<open>The calls of a program\<close>

text \<open>A thread is in the call of its first statement, or between two of them.\<close>

fun runs :: "statement list \<Rightarrow> i32 mp_pc \<Rightarrow> i32 bk_phase \<Rightarrow> bool" where
  "runs p pc B_Plain = (pc = Out \<or> closing pc \<and> (\<exists>r. p = Do_Close # r))"
| "runs p pc B_Close_Readers = (\<exists>r. p = Do_Close # r)"
| "runs p pc (B_Done a) = (case a of Send_Answer _ \<Rightarrow> \<exists>m r. p = Do_Send m # r
     | Recv_Answer _ \<Rightarrow> \<exists>r. p = Do_Recv_Err # r \<or> (\<exists>m. p = Do_Recv m # r))"
| "runs p pc ph = (case bk_call ph of Some (Sending m) \<Rightarrow> \<exists>r. p = Do_Send m # r
     | Some (Receiving st) \<Rightarrow> \<exists>r. p = Do_Recv_Err # r \<or> (\<exists>m. p = Do_Recv m # r) | None \<Rightarrow> False)"


section \<open>The invariant of a test\<close>

definition test_inv :: "u32 \<Rightarrow> tests \<Rightarrow> bool" where
  "test_inv n s \<longleftrightarrow> bk_inv n (queue s) \<and> (\<forall>i. runs (todo s i) (mp_pcs (base (queue s)) i) (phase (queue s) i))"

lemma test_invD:
  assumes "test_inv n s"
  shows "bk_inv n (queue s)" and "runs (todo s i) (mp_pcs (base (queue s)) i) (phase (queue s) i)"
  using assms by (simp_all add: test_inv_def)

lemma runs_rouse: "runs p pc ph \<Longrightarrow> runs p pc (rouse ph)"
  by (cases ph) auto

lemma runs_call: "bk_call ph = Some c \<Longrightarrow> runs p pc ph \<longleftrightarrow> (case c of Sending m \<Rightarrow> \<exists>r. p = Do_Send m # r
     | Receiving st \<Rightarrow> \<exists>r. p = Do_Recv_Err # r \<or> (\<exists>m. p = Do_Recv m # r))"
  by (cases ph) (auto split: option.splits)

lemma runs_goes_on:
  assumes "runs p pc ph" and "bk_call ph = Some c" and "goes_on c ph'" 
  shows "runs p pc' ph'"
proof (cases "\<exists>a. ph' = B_Done a")
  case True
  then obtain a where "ph' = B_Done a" by blast
  then show ?thesis using assms by (cases c; cases a) (auto simp: goes_on_done runs_call)
next
  case False
  then obtain st where "bk_call ph' = Some c \<or> bk_call ph' = Some (with_state st c)"
    using assms(3) by (auto simp: goes_on_def split: bk_phase.splits)
  then show ?thesis using assms(1,2) by (cases c) (auto simp: runs_call)
qed

lemma runs_next:
  assumes I: "bk_inv n q" and A: "bk_next i b q = Some q'" and R: "runs p (mp_pcs (base q) i) (phase q i)"
    and D: "\<And>a. phase q i \<noteq> B_Done a" and K: "mp_pcs (base q) i \<noteq> K_End"
  shows "runs p (mp_pcs (base q') i) (phase q' i)"
proof (cases "bk_call (phase q i)")
  case (Some c)
  show ?thesis by (rule runs_goes_on [OF R Some bk_next_goes_on [OF I A Some]])
next
  case None
  note T = thread_okD [OF I, of i]
  from None R D consider "phase q i = B_Plain" | "phase q i = B_Close_Readers"
    by (cases "phase q i") (auto split: option.splits)
  then show ?thesis
  proof cases
    case 1
    have P: "bk_plain i b q = Some q'" using A 1 by (simp add: bk_next_def)
    have pc: "mp_pcs (base q) i = Out \<or> closing (mp_pcs (base q) i) \<and> (\<exists>r. p = Do_Close # r)" using R 1 by simp
    have mp: "closing (mp_pcs (base q') i) \<and> phase q' i = B_Plain" if "bk_mp i b q = Some q'" "mp_pcs (base q) i \<noteq> K_Wake"
      using bk_mp_sel(1,4) [OF that(1)] closing_next [OF bk_mp_sel(4) [OF that(1)]] that(2) pc K 1 by auto
    show ?thesis
    proof (cases "mp_pcs (base q) i = K_Wake")
      case True
      then have "q' = bk_goto i B_Close_Readers (upd_side False (\<lambda>wk. wk\<lparr>empty_flag := True\<rparr>) q) \<or> q' = bk_close_round i False q"
        using P by (auto simp: bk_plain_def split: if_splits)
      then show ?thesis using pc True 1 bk_close_round_base(1) [OF I, of i False] bk_close_round_base(2) [OF I, of i False i] by auto
    next
      case False
      have "wakes (mp_pcs (base q) i) = None" using pc by (cases "mp_pcs (base q) i") auto
      then have "bk_mp i b q = Some q'" using P False by (auto simp: bk_plain_def split: mp_pc.splits)
      moreover have "mp_pcs (base q) i \<noteq> Out" using bk_mp_sel(4) [OF calculation] by auto
      ultimately show ?thesis using mp False pc by auto
    qed
  next
    case 2
    have K': "mp_pcs (base q) i = K_Wake" using T 2 by (simp add: thread_ok_def)
    have P: "bk_close_readers i q = Some q'" using A 2 by (simp add: bk_next_def)
    show ?thesis
    proof (cases "md_is_empty (guard (side True q))")
      case True
      let ?u = "bk_goto i B_Plain (upd_side True (\<lambda>wk. wk\<lparr>empty_flag := True\<rparr>) q)"
      have M: "bk_mp i False ?u = Some q'" using P True by (simp add: bk_close_readers_def)
      have "closing (mp_pcs (base q') i)" using closing_next [OF bk_mp_sel(4) [OF M]] K' by simp
      then show ?thesis using bk_mp_sel(1) [OF M] R 2 by simp
    next
      case False
      then show ?thesis using P R 2 bk_close_round_base(1) [OF I, of i True] bk_close_round_base(2) [OF I, of i True i] by (auto simp: bk_close_readers_def)
    qed
  qed
qed

text \<open>The step of a test, by its kinds.\<close>

lemma test_step_cases:
  assumes "test_step ia s = Some s'"
  obtains i a q st rest where "at_rest i (queue s)" and "todo s i = st # rest" and "statement_call st = Some a"
      and "bk_act i a (queue s) = Some q" and "s' = s\<lparr>queue := q\<rparr>"
  | i j rest where "at_rest i (queue s)" and "todo s i = Do_Join j # rest" and "s' = s\<lparr>todo := (todo s)(i := rest)\<rparr>"
  | i a where "phase (queue s) i = B_Done a" and "s' = test_return i a s"
  | i b q where "\<not> at_rest i (queue s)" and "mp_pcs (base (queue s)) i = K_End" and "bk_act i (B_Step b) (queue s) = Some q"
      and "s' = s\<lparr>queue := q, todo := (todo s)(i := tl (todo s i))\<rparr>" and "\<And>a. phase (queue s) i \<noteq> B_Done a"
  | i b q where "\<not> at_rest i (queue s)" and "mp_pcs (base (queue s)) i \<noteq> K_End" and "bk_next i b (queue s) = Some q"
      and "s' = s\<lparr>queue := q\<rparr>" and "\<And>a. phase (queue s) i \<noteq> B_Done a"
  | i c where "phase (queue s) i = B_Asleep c" and "s' = s\<lparr>queue := bk_goto i (B_Check c) (queue s)\<rparr>"
proof (cases "snd ia")
  case (B_Step b)
  then obtain i where ia: "ia = (i, B_Step b)" by (cases ia) auto
  show ?thesis
  proof (cases "at_rest i (queue s)")
    case True
    then obtain st rest where st: "todo s i = st # rest" using assms
      by (auto simp: ia test_step_def test_begin_def split: list.splits)
    then show ?thesis using assms True that(1,2)
      by (auto simp: ia test_step_def test_begin_def split: option.splits statement.splits if_splits)
  next
    case F: False
    show ?thesis
    proof (cases "\<exists>a. phase (queue s) i = B_Done a")
      case True
      then show ?thesis using assms F that(3) by (auto simp: ia test_step_def)
    next
      case False
      then have "(if mp_pcs (base (queue s)) i = K_End
          then map_option (\<lambda>q. s\<lparr>queue := q, todo := (todo s)(i := tl (todo s i))\<rparr>) (bk_act i (B_Step b) (queue s))
          else map_option (\<lambda>q. s\<lparr>queue := q\<rparr>) (bk_act i (B_Step b) (queue s))) = Some s'"
        using assms F by (auto simp: ia test_step_def split: bk_phase.splits)
      then show ?thesis using F False that(4,5) by (auto split: if_splits)
    qed
  qed
next
  case B_Spurious
  then show ?thesis using assms that(6) by (cases ia) (auto simp: test_step_def split: bk_phase.splits)
qed (use assms in \<open>cases ia; simp add: test_step_def\<close>)+


lemma runs_at_end:
  assumes I: "test_inv n s" and K: "mp_pcs (base (queue s)) i = K_End"
  shows "phase (queue s) i = B_Plain"
proof -
  note T = thread_okD [OF test_invD(1) [OF I], of i]
  have "\<not> sel_pc cl hs c K_End" for cl hs and c :: "i32 blocking" by (cases c) auto
  then show ?thesis using T K test_invD(2) [OF I, of i] by (cases "phase (queue s) i") (auto simp: thread_ok_def)
qed

lemma bk_begin_sel:
  assumes "bk_begin i a ph q = Some q'" and "a \<in> {Call_Send m, Call_Recv, Call_Close}"
  shows "phase q i = B_Plain" and "mp_pcs (base q) i = Out" and "phase q' = (phase q)(i := ph)"
    and "base q' = mp_goto i (case a of Call_Send m \<Rightarrow> S_Load m | Call_Recv \<Rightarrow> R_Load | _ \<Rightarrow> K_Load) (base q)"
  using assms by (auto simp: bk_begin_def split: if_splits)

lemma statement_begins:
  assumes "statement_call st = Some a" and "bk_act i a q = Some q'"
  obtains ph pc where "phase q' = (phase q)(i := ph)" and "base q' = mp_goto i pc (base q)" and "\<And>r. runs (st # r) pc ph"
    and "mp_pcs (base q) i = Out" and "ph = B_Plain \<longrightarrow> pc = K_Load" and "pc \<in> {K_Load, R_Load} \<or> (\<exists>m. pc = S_Load m)"
    and "\<And>a. ph \<noteq> B_Done a"
proof -
  consider m where "st = Do_Send m" "bk_begin i (Call_Send m) (B_Select (Sending m)) q = Some q'"
    | "st = Do_Recv_Err \<or> (\<exists>m. st = Do_Recv m)" "bk_begin i Call_Recv (B_Select (Receiving Success)) q = Some q'"
    | "st = Do_Close" "bk_begin i Call_Close B_Plain q = Some q'"
    using assms by (cases st) auto
  then show ?thesis
  proof cases
    case 1
    then show ?thesis using bk_begin_sel [OF 1(2)] by (intro that [of "B_Select (Sending m)" "S_Load m"]) auto
  next
    case 2
    then show ?thesis using bk_begin_sel [OF 2(2)] by (intro that [of "B_Select (Receiving Success)" R_Load]) auto
  next
    case 3
    then show ?thesis using bk_begin_sel [OF 3(2)] by (intro that [of B_Plain K_Load]) auto
  qed
qed

lemma test_inv_step:
  assumes I: "test_inv n s" and A: "test_step ia s = Some s'"
  shows "test_inv n s'"
proof (rule test_step_cases [OF A])
  note Q = test_invD(1) [OF I] and R = test_invD(2) [OF I]
  {
    fix i a q st rest
    assume *: "at_rest i (queue s)" "todo s i = st # rest" "statement_call st = Some a" "bk_act i a (queue s) = Some q" "s' = s\<lparr>queue := q\<rparr>"
    obtain ph pc where "phase q = (phase (queue s))(i := ph)" "base q = mp_goto i pc (base (queue s))" "runs (todo s i) pc ph"
      using statement_begins [OF *(3,4)] *(2) by metis
    then have "runs (todo s j) (mp_pcs (base q) j) (phase q j)" for j using R [of j] by (cases "j = i") auto
    then show ?thesis using bk_inv_act [OF Q *(4)] *(5) by (simp add: test_inv_def)
  next
    fix i j rest
    assume *: "at_rest i (queue s)" "todo s i = Do_Join j # rest" "s' = s\<lparr>todo := (todo s)(i := rest)\<rparr>"
    then show ?thesis using I by (auto simp: test_inv_def at_rest_def)
  next
    fix i a
    assume *: "phase (queue s) i = B_Done a" "s' = test_return i a s"
    have "mp_pcs (base (queue s)) i = Out" using thread_okD [OF Q, of i] *(1) by (simp add: thread_ok_def)
    moreover have "bk_next i False (queue s) = Some (bk_goto i B_Plain (queue s))" using *(1) by (simp add: bk_next_def)
    ultimately show ?thesis using bk_inv_next [OF Q] R *(2) by (auto simp: test_inv_def test_return_def)
  next
    fix i b q
    assume *: "\<not> at_rest i (queue s)" "mp_pcs (base (queue s)) i = K_End" "bk_act i (B_Step b) (queue s) = Some q"
      "s' = s\<lparr>queue := q, todo := (todo s)(i := tl (todo s i))\<rparr>"
    have "bk_mp i b (queue s) = Some q" using *(2,3) runs_at_end [OF I *(2)] by (simp add: bk_next_def bk_plain_def)
    then have q: "q = (queue s)\<lparr>base := mp_goto i Out (base (queue s))\<rparr>" using *(2) by (simp add: bk_mp_def)
    have "runs (todo s' j) (mp_pcs (base q) j) (phase q j)" for j
      using R [of j] runs_at_end [OF I *(2)] by (cases "j = i") (auto simp: q *(4))
    then show ?thesis using bk_inv_act [OF Q *(3)] *(4) by (simp add: test_inv_def)
  next
    fix i b q
    assume *: "\<not> at_rest i (queue s)" "mp_pcs (base (queue s)) i \<noteq> K_End" "bk_next i b (queue s) = Some q" "s' = s\<lparr>queue := q\<rparr>"
      "\<And>a. phase (queue s) i \<noteq> B_Done a"
    have "runs (todo s j) (mp_pcs (base q) j) (phase q j)" for j
      using runs_next [OF Q *(3) R *(5,2)] bk_next_others [OF Q *(3), of j] R [of j] runs_rouse by (cases "j = i") auto
    then show ?thesis using bk_inv_next [OF Q *(3)] *(4) by (simp add: test_inv_def)
  next
    fix i c
    assume *: "phase (queue s) i = B_Asleep c" "s' = s\<lparr>queue := bk_goto i (B_Check c) (queue s)\<rparr>"
    have "bk_act i B_Spurious (queue s) = Some (bk_goto i (B_Check c) (queue s))" using *(1) by simp
    from bk_inv_act [OF Q this] show ?thesis using R [of i] R *(1,2) by (auto simp: test_inv_def)
  }
qed

lemma test_inv_start:
  assumes "test_start n ps = Ret s"
  shows "test_inv n s" and "todo s = ps" and "\<not> panicked s" and "\<not> bk_closed (queue s)" and "sent (base (queue s)) = []"
    and "reads (base (queue s)) = []"
proof -
  obtain q where q: "mpmc_bounded_new n = Ret q" "s = \<lparr>queue = bk_sys_new q, todo = ps, panicked = False\<rparr>"
    using assms by (cases "mpmc_bounded_new n :: i32 mpmc_bounded outcome") (auto simp: test_start_def)
  show "test_inv n s" using bk_inv_new [OF q(1)] by (simp add: test_inv_def q(2) bk_sys_new_def mp_sys_new_def)
  show "todo s = ps" "\<not> panicked s" "sent (base (queue s)) = []" "reads (base (queue s)) = []"
    by (simp_all add: q(2) bk_sys_new_def mp_sys_new_def)
  show "\<not> bk_closed (queue s)"
    using q(1) by (auto simp: q(2) bk_sys_new_def mp_sys_new_def bk_closed_def mpmc_is_close_def mpmc_bounded_new_def split: if_splits)
qed

lemma test_inv_reach: "test_reach n ps s \<Longrightarrow> test_inv n s"
  by (induction rule: test_reach.induct) (auto intro: test_inv_start test_inv_step)


section \<open>What a step does to a test\<close>

lemma test_moved:
  assumes I: "test_inv n s" and A: "test_step ia s = Some s'"
  shows "\<exists>i. moved i (base (queue s)) (base (queue s'))"
proof (rule test_step_cases [OF A])
  fix i a q st rest
  assume "statement_call st = Some a" "bk_act i a (queue s) = Some q" "s' = s\<lparr>queue := q\<rparr>"
  then show ?thesis using statement_begins [of st a i "queue s" q] by (metis moved_simps(2) tests.select_convs(1) tests.surjective tests.update_convs(1))
next
  fix i b q
  assume "bk_act i (B_Step b) (queue s) = Some q" "s' = s\<lparr>queue := q, todo := (todo s)(i := tl (todo s i))\<rparr>"
  then show ?thesis using bk_next_moved [OF test_invD(1) [OF I], of i b q] by auto
next
  fix i b q
  assume "bk_next i b (queue s) = Some q" "s' = s\<lparr>queue := q\<rparr>"
  then show ?thesis using bk_next_moved [OF test_invD(1) [OF I], of i b q] by auto
qed (auto simp: test_return_def)

lemma in_tl: "x \<in> set (tl xs) \<Longrightarrow> x \<in> set xs"
  by (cases xs) auto

lemma test_todo:
  assumes "test_step ia s = Some s'"
  shows "set (todo s' i) \<subseteq> set (todo s i)"
  by (rule test_step_cases [OF assms]) (auto simp: test_return_def dest: in_tl)

lemma test_panics:
  assumes "test_step ia s = Some s'" and "\<not> panicked s"
    and "\<And>i a. phase (queue s) i = B_Done a \<Longrightarrow> holds_for (hd (todo s i)) a"
  shows "\<not> panicked s'"
  by (rule test_step_cases [OF assms(1)]) (use assms(2,3) in \<open>auto simp: test_return_def\<close>)

lemma closing_statement:
  assumes I: "test_inv n s" and K: "closing (mp_pcs (base (queue s)) i)"
  shows "\<exists>r. todo s i = Do_Close # r"
proof -
  have S: "\<not> sel_pc cl hs c pc" if "closing pc" for cl hs pc and c :: "i32 blocking" using that by (cases c; cases pc) auto
  have W: "wakes pc = None" "pc \<noteq> Out" if "closing pc" for pc :: "i32 mp_pc" using that by (cases pc; simp)+
  show ?thesis
    using thread_okD [OF test_invD(1) [OF I], of i] test_invD(2) [OF I, of i] S [OF K] W [OF K]
    by (cases "phase (queue s) i") (auto simp: thread_ok_def)
qed

lemma sending_statement:
  assumes I: "test_inv n s" and K: "mp_pcs (base (queue s)) i = S_Cas meta l m"
  shows "\<exists>r. todo s i = Do_Send m # r"
proof -
  have S: "sel_pc cl hs c (S_Cas meta l m) \<longleftrightarrow> c = Sending m" for cl hs c by (cases c) auto
  show ?thesis
    using thread_okD [OF test_invD(1) [OF I], of i] test_invD(2) [OF I, of i] K S
    by (cases "phase (queue s) i") (auto simp: thread_ok_def)
qed

lemma test_closes:
  assumes "test_inv n s" and "test_step ia s = Some s'" and "bk_closed (queue s')" and "\<not> bk_closed (queue s)"
  shows "\<exists>i r. todo s i = Do_Close # r"
proof -
  obtain i where "moved i (base (queue s)) (base (queue s'))" using test_moved [OF assms(1,2)] by blast
  from moved_closes [OF this bk_invD(1) [OF test_invD(1) [OF assms(1)]]] assms(3,4) obtain meta where
    "mp_pcs (base (queue s)) i = K_Cas meta" by (auto simp: bk_closed_base)
  then show ?thesis using closing_statement [OF assms(1), of i] by auto
qed

lemma test_sends:
  assumes "test_inv n s" and "test_step ia s = Some s'" and "m \<in> set (sent (base (queue s')))"
  shows "m \<in> set (sent (base (queue s))) \<or> (\<exists>i r. todo s i = Do_Send m # r)"
proof -
  obtain i where "moved i (base (queue s)) (base (queue s'))" using test_moved [OF assms(1,2)] by blast
  from moved_history [OF this bk_invD(1) [OF test_invD(1) [OF assms(1)]]] show ?thesis
    using assms(3) sending_statement [OF assms(1), of i] by auto
qed

lemma read_was_sent:
  assumes "bk_inv n q" and "(k, m) \<in> set (reads (base q))"
  shows "m \<in> set (sent (base q))"
proof -
  note M = mp_invD [OF mp_inv_reach [OF bk_invD(1) [OF assms(1)]]]
  have "k < taken (base q)" "m = sent (base q) ! k" using M(3) assms(2) by (auto simp: log_ok_def)
  then show ?thesis using cells_okD(4) [OF M(1)] by simp
qed

text \<open>The answers of a test in which nobody closes, and of one in which nobody sends.\<close>

definition one_value :: "i32 \<Rightarrow> statement list \<Rightarrow> bool" where
  "one_value v p \<longleftrightarrow> list_all (\<lambda>st. case st of Do_Send m \<Rightarrow> m = v | Do_Recv m \<Rightarrow> m = v | Do_Join j \<Rightarrow> True | _ \<Rightarrow> False) p"

lemma one_value_test:
  assumes "test_reach n ps s" and "\<And>i. one_value v (ps i)"
  shows "\<not> panicked s \<and> \<not> bk_closed (queue s) \<and> set (sent (base (queue s))) \<subseteq> {v} \<and> (\<forall>i. one_value v (todo s i))"
  using assms(1)
proof (induction rule: test_reach.induct)
  case (start s)
  then show ?case using test_inv_start [OF start] assms(2) by simp
next
  case (step s ia s')
  note I = test_inv_reach [OF step.hyps(1)]
  note Q = test_invD(1) [OF I]
  have V: "one_value v (todo s i)" for i using step.IH by blast
  have H: "\<not> bk_closed (queue s)" "set (sent (base (queue s))) \<subseteq> {v}" using step.IH by simp_all
  have nc: "\<not> bk_closed (queue s')"
  proof
    assume "bk_closed (queue s')"
    then obtain i r where "todo s i = Do_Close # r" using test_closes [OF I step.hyps(2)] step.IH by blast
    then show False using V [of i] by (simp add: one_value_def)
  qed
  have sv: "set (sent (base (queue s'))) \<subseteq> {v}"
  proof
    fix m assume "m \<in> set (sent (base (queue s')))"
    then consider "m \<in> set (sent (base (queue s)))" | i r where "todo s i = Do_Send m # r"
      using test_sends [OF I step.hyps(2)] by blast
    then show "m \<in> {v}"
    proof cases
      case (2 i r)
      then show ?thesis using V [of i] by (simp add: one_value_def)
    qed (use step.IH in auto)
  qed
  have "holds_for (hd (todo s i)) a" if "phase (queue s) i = B_Done a" for i a
  proof -
    have "answer_ok (bk_closed (queue s)) (hist (base (queue s))) a"
      using thread_okD [OF Q, of i] that by (simp add: thread_ok_def)
    then show ?thesis
      using test_invD(2) [OF I, of i] that V [of i] H
      by (cases a) (auto simp: one_value_def dest!: read_was_sent [OF Q] split: sum.splits)
  qed
  then have "\<not> panicked s'" using test_panics [OF step.hyps(2)] step.IH by blast
  moreover have "one_value v (todo s' i)" for i using test_todo [OF step.hyps(2), of i] V [of i] by (auto simp: one_value_def list_all_iff)
  ultimately show ?case using nc sv by blast
qed

definition no_sends :: "statement list \<Rightarrow> bool" where
  "no_sends p \<longleftrightarrow> list_all (\<lambda>st. case st of Do_Send m \<Rightarrow> False | Do_Recv m \<Rightarrow> False | _ \<Rightarrow> True) p"

lemma no_sends_test:
  assumes "test_reach n ps s" and "\<And>i. no_sends (ps i)"
  shows "\<not> panicked s \<and> sent (base (queue s)) = [] \<and> (\<forall>i. no_sends (todo s i))"
  using assms(1)
proof (induction rule: test_reach.induct)
  case (start s)
  then show ?case using test_inv_start [OF start] assms(2) by simp
next
  case (step s ia s')
  note I = test_inv_reach [OF step.hyps(1)]
  note Q = test_invD(1) [OF I]
  have V: "no_sends (todo s i)" for i using step.IH by blast
  have H: "sent (base (queue s)) = []" using step.IH by simp
  have sv: "sent (base (queue s')) = []"
  proof (rule ccontr)
    assume "sent (base (queue s')) \<noteq> []"
    then obtain m where "m \<in> set (sent (base (queue s')))" by (cases "sent (base (queue s'))") auto
    then obtain i r where "todo s i = Do_Send m # r" using test_sends [OF I step.hyps(2), of m] step.IH by auto
    then show False using V [of i] by (auto simp: no_sends_def)
  qed
  have "holds_for (hd (todo s i)) a" if "phase (queue s) i = B_Done a" for i a
  proof -
    have "answer_ok (bk_closed (queue s)) (hist (base (queue s))) a"
      using thread_okD [OF Q, of i] that by (simp add: thread_ok_def)
    then show ?thesis
      using test_invD(2) [OF I, of i] that V [of i] H
      by (cases a) (auto simp: no_sends_def dest!: read_was_sent [OF Q] split: sum.splits)
  qed
  then have "\<not> panicked s'" using test_panics [OF step.hyps(2)] step.IH by blast
  moreover have "no_sends (todo s' i)" for i using test_todo [OF step.hyps(2), of i] V [of i] by (auto simp: no_sends_def list_all_iff)
  ultimately show ?case using sv by blast
qed


section \<open>Nobody is stuck when the queue is closed\<close>

lemma test_suffix: "test_reach n ps s \<Longrightarrow> \<exists>k. todo s i = drop k (ps i)"
proof (induction rule: test_reach.induct)
  case (start s)
  then show ?case using test_inv_start(2) [OF start] by (intro exI [of _ 0]) simp
next
  case (step s ia s')
  then obtain k where k: "todo s i = drop k (ps i)" by blast
  then have d: "\<exists>j. tl (todo s i) = drop j (ps i)" "\<exists>j. [] = drop j (ps i)" "\<And>x xs. todo s i = x # xs \<Longrightarrow> \<exists>j. xs = drop j (ps i)"
    by (auto simp: drop_Suc [symmetric] tl_drop intro: exI [of _ "length (ps i)"]) (metis drop_Suc list.sel(3) tl_drop)
  show ?case
    by (rule test_step_cases [OF step.hyps(2)]) (use k d in \<open>auto simp: test_return_def\<close>)
qed

text \<open>A thread that is past \<^verbatim>\<open>close\<close> has closed the queue.\<close>

lemma past_close:
  assumes "test_reach n ps s" and "ps i = Do_Close # r" and "todo s i \<noteq> Do_Close # r"
  shows "bk_closed (queue s)"
  using assms(1,3)
proof (induction rule: test_reach.induct)
  case (start s)
  then show ?case using test_inv_start(2) [OF start(1)] assms(2) by simp
next
  case (step s ia s')
  note I = test_inv_reach [OF step.hyps(1)]
  have M: "bk_closed (queue s) \<Longrightarrow> bk_closed (queue s')" 
  proof -
    obtain j where "moved j (base (queue s)) (base (queue s'))" using test_moved [OF I step.hyps(2)] by blast
    then show "bk_closed (queue s) \<Longrightarrow> bk_closed (queue s')"
      using mp_next_moves(4) [OF bk_invD(1) [OF test_invD(1) [OF I]]] by (auto simp: moved_def bk_closed_base)
  qed
  show ?case
  proof (cases "todo s i = Do_Close # r")
    case T: True
    have E: "bk_closed (queue s)" if "mp_pcs (base (queue s)) i = K_End"
      using closed_when_done [OF bk_invD(1) [OF test_invD(1) [OF I]], of i] that by (simp add: bk_closed_base)
    have nd: "phase (queue s) i \<noteq> B_Done a" for a
      using test_invD(2) [OF I, of i] T by (cases a) auto
    have "todo s' i = todo s i \<or> mp_pcs (base (queue s)) i = K_End"
    proof (rule test_step_cases [OF step.hyps(2)])
      fix j j' rest
      assume "todo s j = Do_Join j' # rest" "s' = s\<lparr>todo := (todo s)(j := rest)\<rparr>"
      then show ?thesis using T by (cases "i = j") auto
    next
      fix j a
      assume "phase (queue s) j = B_Done a" "s' = test_return j a s"
      then show ?thesis using nd [of a] by (cases "i = j") (auto simp: test_return_def)
    qed auto
    then show ?thesis using T step.prems E M by auto
  qed (use step.IH M in blast)
qed

text \<open>A thread that cannot step sleeps, has ended, or waits for another thread.\<close>

lemma test_stuck:
  assumes I: "test_inv n s" and B: "in_budget (cap_of n) (Suc (length (sent (base (queue s)))))"
    and A: "test_step (i, B_Step b) s = None"
  obtains c where "phase (queue s) i = B_Asleep c"
  | "at_rest i (queue s)" and "todo s i = []"
  | j r where "at_rest i (queue s)" and "todo s i = Do_Join j # r" and "todo s j \<noteq> [] \<or> \<not> at_rest j (queue s)"
proof (cases "at_rest i (queue s)")
  case True
  show ?thesis
  proof (cases "todo s i")
    case (Cons st r)
    show ?thesis
    proof (cases "statement_call st")
      case None
      then obtain j where "st = Do_Join j" by (cases st) auto
      then show ?thesis using A True Cons that(3) by (auto simp: test_step_def test_begin_def split: if_splits)
    next
      case (Some a)
      then have "\<exists>q. bk_act i a (queue s) = Some q"
        using True by (cases st) (auto simp: at_rest_def bk_begin_def)
      then show ?thesis using A True Cons Some by (auto simp: test_step_def test_begin_def)
    qed
  qed (use True that(2) in simp)
next
  case False
  show ?thesis
  proof (rule ccontr)
    assume n: "\<not> thesis"
    have "\<exists>q. bk_next i b (queue s) = Some q"
      by (rule bk_next_enabled [OF test_invD(1) [OF I] B]) (use False n that(1) in \<open>auto simp: at_rest_def\<close>)
    then show False using A False by (auto simp: test_step_def split: bk_phase.splits if_splits)
  qed
qed

lemma drop_two: "drop k [x, y] = xs \<Longrightarrow> xs = [x, y] \<or> xs = [y] \<or> xs = []"
  by (cases k; cases "k - 1") auto

lemma drop_one: "drop k [x] = xs \<Longrightarrow> xs = [x] \<or> xs = []"
  by (cases k) auto

lemma send_close_goes_on:
  assumes R: "test_reach 1 send_close_gets_none s" and A: "\<And>i. test_step (i, B_Step b) s = None"
  shows "at_rest i (queue s) \<and> todo s i = []"
proof -
  note I = test_inv_reach [OF R]
  note Q = test_invD(1) [OF I]
  have N: "sent (base (queue s)) = []"
    using no_sends_test [OF R] by (simp add: send_close_gets_none_def no_sends_def)
  have B: "in_budget (cap_of 1) (Suc (length (sent (base (queue s)))))" by (simp add: N in_budget_def)
  note stuck = test_stuck [OF I B A]
  have t0: "todo s 0 = [Do_Close, Do_Join 1] \<or> todo s 0 = [Do_Join 1] \<or> todo s 0 = []"
    using test_suffix [OF R, of 0] drop_two by (fastforce simp: send_close_gets_none_def)
  have t1: "todo s 1 = [Do_Recv_Err] \<or> todo s 1 = []"
    using test_suffix [OF R, of 1] drop_one by (fastforce simp: send_close_gets_none_def)
  have tj: "todo s j = []" if "j \<noteq> 0" "j \<noteq> 1" for j
    using test_suffix [OF R, of j] that by (simp add: send_close_gets_none_def)
  have awake: "phase (queue s) j \<noteq> B_Asleep c" if "j \<noteq> 1" for j c
    using test_invD(2) [OF I, of j] t0 tj [of j] that by (cases "j = 0") (auto split: blocking.splits)
  have rest0: "at_rest 0 (queue s)" and todo0: "todo s 0 = [] \<or> todo s 0 = [Do_Join 1] \<and> (todo s 1 \<noteq> [] \<or> \<not> at_rest 1 (queue s))"
    by (rule stuck [of 0]; use awake [of 0] t0 in auto)+
  have closed: "bk_closed (queue s)"
    by (rule past_close [OF R, of 0 "[Do_Join 1]"]) (use todo0 in \<open>auto simp: send_close_gets_none_def\<close>)
  have awake1: "phase (queue s) 1 \<noteq> B_Asleep c" for c
  proof
    assume "phase (queue s) 1 = B_Asleep c"
    then have "dozing (phase (queue s) 1) = Some (reads_side c)" by simp
    then obtain k where k: "closer_at (reads_side c) k (queue s)" using bk_invD(4) [OF Q] closed unfolding doze_ok_def by blast
    then have "closing (mp_pcs (base (queue s)) k)" by (simp add: closer_at_def)
    then obtain r where "todo s k = Do_Close # r" using closing_statement [OF I] by blast
    then show False using todo0 t1 tj [of k] by (cases "k = 0"; cases "k = 1") auto
  qed
  have one: "at_rest 1 (queue s) \<and> todo s 1 = []"
    by (rule stuck [of 1]) (use awake1 t1 in auto)
  have "at_rest j (queue s) \<and> todo s j = []" if "j \<noteq> 0" "j \<noteq> 1" for j
    by (rule stuck [of j]) (use awake [of j] tj [of j] that in auto)
  then show ?thesis using one rest0 todo0 by metis
qed


section \<open>One sender and one receiver\<close>

fun sends_of :: "statement list \<Rightarrow> i32 list" where
  "sends_of [] = []" | "sends_of (Do_Send m # p) = m # sends_of p" | "sends_of (_ # p) = sends_of p"

fun recvs_of :: "statement list \<Rightarrow> i32 list" where
  "recvs_of [] = []" | "recvs_of (Do_Recv m # p) = m # recvs_of p" | "recvs_of (_ # p) = recvs_of p"

definition pair_test :: "nat \<Rightarrow> nat \<Rightarrow> (nat \<Rightarrow> statement list) \<Rightarrow> bool" where
  "pair_test w r ps \<longleftrightarrow> w \<noteq> r \<and> sends_of (ps w) = recvs_of (ps r) \<and>
     (\<forall>i. \<forall>st \<in> set (ps i). case st of Do_Send m \<Rightarrow> i = w | Do_Recv m \<Rightarrow> i = r | Do_Join j \<Rightarrow> True | _ \<Rightarrow> False)"

lemma never_closed:
  assumes "test_reach n ps s" and "\<And>i. Do_Close \<notin> set (ps i)"
  shows "\<not> bk_closed (queue s)"
  using assms(1)
proof (induction rule: test_reach.induct)
  case (start s)
  then show ?case by (rule test_inv_start(4))
next
  case (step s ia s')
  show ?case
  proof
    assume "bk_closed (queue s')"
    then obtain i r where "todo s i = Do_Close # r"
      using test_closes [OF test_inv_reach [OF step.hyps(1)] step.hyps(2)] step.IH by blast
    moreover obtain k where "todo s i = drop k (ps i)" using test_suffix [OF step.hyps(1)] by blast
    ultimately have "Do_Close \<in> set (ps i)" by (metis in_set_dropD list.set_intros(1))
    then show False using assms(2) by blast
  qed
qed

lemma pair_statement:
  assumes "pair_test w r ps" and "test_reach n ps s" and "todo s i = st # p"
  shows "case st of Do_Send m \<Rightarrow> i = w | Do_Recv m \<Rightarrow> i = r | Do_Join j \<Rightarrow> True | _ \<Rightarrow> False"
proof -
  obtain k where "todo s i = drop k (ps i)" using test_suffix [OF assms(2)] by blast
  then have "st \<in> set (ps i)" using assms(3) by (metis in_set_dropD list.set_intros(1))
  then show ?thesis using assms(1) by (auto simp: pair_test_def)
qed

lemma recvs_of_append: "recvs_of (p @ q) = recvs_of p @ recvs_of q"
  by (induction p rule: recvs_of.induct) auto

lemma recvs_drop: "\<exists>pre. recvs_of p = pre @ recvs_of (drop k p)"
  using recvs_of_append [of "take k p" "drop k p"] by auto

text \<open>What was sent and read, and what is left to do; \<^term>\<open>p\<close> and \<^term>\<open>p'\<close> say how far the two are.\<close>

definition fifo_ok :: "statement list \<Rightarrow> statement list \<Rightarrow> i32 list \<Rightarrow> nat \<Rightarrow> (nat \<times> i32) list \<Rightarrow>
    bool \<times> bool \<times> i32 option \<Rightarrow> statement list \<Rightarrow> bool \<times> bool \<times> i32 option \<Rightarrow> statement list \<Rightarrow> bool" where
  "fifo_ok pw pr ms h rs p tw p' tr \<longleftrightarrow>
     ms @ sends_of (if fst p then tl tw else tw) = sends_of pw \<and>
     map fst rs = [0..<length rs] \<and> h = length rs + (if fst (snd p') then 1 else 0) \<and>
     (\<forall>m. snd (snd p') = Some m \<longrightarrow> rs \<noteq> [] \<and> snd (last rs) = m) \<and>
     length rs + length (recvs_of (if snd (snd p') \<noteq> None then tl tr else tr)) = length (recvs_of pr)"

definition fifo_inv :: "nat \<Rightarrow> nat \<Rightarrow> (nat \<Rightarrow> statement list) \<Rightarrow> tests \<Rightarrow> bool" where
  "fifo_inv w r ps s \<longleftrightarrow> fifo_ok (ps w) (ps r) (sent (base (queue s))) (taken (base (queue s))) (reads (base (queue s)))
     (progress w (queue s)) (todo s w) (progress r (queue s)) (todo s r)"

lemma fifo_answer:
  assumes P: "pair_test w r ps" and R: "test_reach n ps s" and F: "fifo_inv w r ps s" and D: "phase (queue s) i = B_Done a"
  shows "holds_for (hd (todo s i)) a"
proof -
  note I = test_inv_reach [OF R]
  note Q = test_invD(1) [OF I]
  have nc: "\<not> bk_closed (queue s)" 
    by (rule never_closed [OF R]) (use P in \<open>force simp: pair_test_def\<close>)
  have A: "answer_ok (bk_closed (queue s)) (hist (base (queue s))) a"
    using thread_okD [OF Q, of i] D by (simp add: thread_ok_def)
  show ?thesis
  proof (cases a)
    case (Send_Answer x)
    then show ?thesis using A nc test_invD(2) [OF I, of i] D by (auto split: sum.splits)
  next
    case (Recv_Answer x)
    then obtain m where m: "x = Ok m" using A nc by (auto split: sum.splits)
    obtain p where "todo s i = Do_Recv_Err # p \<or> (\<exists>e. todo s i = Do_Recv e # p)"
      using test_invD(2) [OF I, of i] D Recv_Answer by auto
    then obtain e where e: "todo s i = Do_Recv e # p" "i = r"
      using pair_statement [OF P R, of i] by (elim disjE exE) force+
    let ?rs = "reads (base (queue s))" and ?ms = "sent (base (queue s))"
    have p: "progress r (queue s) = (False, False, Some m)" using D Recv_Answer m e(2) by (simp add: progress_def)
    have O: "?ms @ sends_of (if fst (progress w (queue s)) then tl (todo s w) else todo s w) = sends_of (ps w)"
      "map fst ?rs = [0..<length ?rs]" "?rs \<noteq> []" "snd (last ?rs) = m" "length ?rs + length (recvs_of p) = length (recvs_of (ps r))"
      using F p e by (auto simp: fifo_inv_def fifo_ok_def)
    let ?k = "length ?rs - 1"
    have "fst (last ?rs) = last (map fst ?rs)" using O(3) by (simp add: last_map)
    also have "\<dots> = last [0..<length ?rs]" by (simp only: O(2))
    also have "\<dots> = ?k" using O(3) by (simp add: last_upt)
    finally have "last ?rs = (?k, m)" using O(4) by (cases "last ?rs") simp
    then have "(?k, m) \<in> set ?rs" using last_in_set [OF O(3)] by simp
    note M = mp_invD [OF mp_inv_reach [OF bk_invD(1) [OF Q]]]
    have "m = ?ms ! ?k" "?k < length ?ms"
      using M(3) \<open>(?k, m) \<in> set ?rs\<close> cells_okD(4) [OF M(1)] by (auto simp: log_ok_def)
    then have 1: "sends_of (ps w) ! ?k = m" using O(1) by (metis nth_append)
    obtain k where k: "todo s r = drop k (ps r)" using test_suffix [OF R] by blast
    obtain pre where "recvs_of (ps r) = pre @ recvs_of (todo s r)" using recvs_drop [of "ps r" k] k by auto
    then have "recvs_of (ps r) = pre @ e # recvs_of p" using e by simp
    then have "recvs_of (ps r) ! ?k = e" using O(3,5) by (auto simp: nth_append)
    then have "m = e" using 1 P by (simp add: pair_test_def)
    then show ?thesis using Recv_Answer m e by simp
  qed
qed


lemma progress_frame:
  "mp_pcs (base q') j = mp_pcs (base q) j \<Longrightarrow> phase q' j \<in> {phase q j, rouse (phase q j)} \<Longrightarrow> progress j q' = progress j q"
  by (cases "phase q j") (auto simp: progress_def)

lemma progress_rest: "at_rest i q \<Longrightarrow> progress i q = (False, False, None)"
  by (simp add: at_rest_def progress_def)

lemma fifo_ok_cong:
  "history b' = history b \<Longrightarrow> fifo_ok pw pr (sent b') (taken b') (reads b') = fifo_ok pw pr (sent b) (taken b) (reads b)"
  by (simp add: history_def)

lemma fifo_step:
  assumes P: "pair_test w r ps" and R: "test_reach n ps s" and F: "fifo_inv w r ps s" and A: "test_step ia s = Some s'"
  shows "fifo_inv w r ps s'"
proof (rule test_step_cases [OF A])
  note I = test_inv_reach [OF R]
  note Q = test_invD(1) [OF I] and st = pair_statement [OF P R]
  note H = F [unfolded fifo_inv_def]
  have wr: "w \<noteq> r" using P by (simp add: pair_test_def)
  have same: "fifo_inv w r ps s'" if "history (base (queue s')) = history (base (queue s))"
    "\<And>j. progress j (queue s') = progress j (queue s)" "todo s' = todo s"
    using H that fifo_ok_cong [OF that(1)] by (simp add: fifo_inv_def)
  {
    fix i a q st rest
    assume *: "at_rest i (queue s)" "todo s i = st # rest" "statement_call st = Some a" "bk_act i a (queue s) = Some q" "s' = s\<lparr>queue := q\<rparr>"
    obtain ph pc where q: "phase q = (phase (queue s))(i := ph)" "base q = mp_goto i pc (base (queue s))"
      "pc \<in> {K_Load, R_Load} \<or> (\<exists>m. pc = S_Load m)" "\<And>a. ph \<noteq> B_Done a"
      by (rule statement_begins [OF *(3,4)]) blast
    have "progress i q = (False, False, None)" using q by (cases ph) (auto simp: progress_def)
    then have "progress j q = progress j (queue s)" for j
      using progress_rest [OF *(1)] progress_frame [of q j "queue s"] q(1,2) by (cases "j = i") auto
    then show ?thesis using q(2) *(5) by (intro same) auto
  next
    fix i j rest
    assume *: "at_rest i (queue s)" "todo s i = Do_Join j # rest" "s' = s\<lparr>todo := (todo s)(i := rest)\<rparr>"
    then show ?thesis using H progress_rest [OF *(1)] wr
      by (cases "i = w"; cases "i = r") (auto simp: fifo_inv_def fifo_ok_def)
  next
    fix i a
    assume *: "phase (queue s) i = B_Done a" "s' = test_return i a s"
    have h: "holds_for (hd (todo s i)) a" by (rule fifo_answer [OF P R F *(1)])
    then have s': "s' = s\<lparr>queue := bk_goto i B_Plain (queue s), todo := (todo s)(i := tl (todo s i))\<rparr>"
      using *(2) by (simp add: test_return_def)
    have "mp_pcs (base (queue s)) i = Out" using thread_okD [OF Q, of i] *(1) by (simp add: thread_ok_def)
    then have p: "progress i (queue s') = (False, False, None)" by (simp add: s' progress_def)
    have o: "progress j (queue s') = progress j (queue s)" if "j \<noteq> i" for j
      using that by (intro progress_frame) (simp_all add: s')
    show ?thesis
    proof (cases a)
      case (Send_Answer x)
      then obtain m t where t: "todo s i = Do_Send m # t" using test_invD(2) [OF I, of i] *(1) by auto
      then have "i = w" "x = Ok ()" using st [of i] h Send_Answer by auto
      then have "progress i (queue s) = (True, False, None)" using *(1) Send_Answer by (simp add: progress_def)
      then show ?thesis using H p o [of r] wr \<open>i = w\<close> by (simp add: fifo_inv_def fifo_ok_def s')
    next
      case (Recv_Answer x)
      then obtain m where m: "x = Ok m" "i = r" using test_invD(2) [OF I, of i] *(1) h st [of i] by (auto split: sum.splits)
      then have "progress i (queue s) = (False, False, Some m)" using *(1) Recv_Answer by (simp add: progress_def)
      then show ?thesis using H p o [of w] wr m(2) by (simp add: fifo_inv_def fifo_ok_def s')
    qed
  next
    fix i b q
    assume "mp_pcs (base (queue s)) i = K_End"
    then obtain t where "todo s i = Do_Close # t" using closing_statement [OF I, of i] by auto
    then show ?thesis using st [of i] by simp
  next
    fix i b q
    assume *: "\<not> at_rest i (queue s)" "bk_next i b (queue s) = Some q" "s' = s\<lparr>queue := q\<rparr>" "\<And>a. phase (queue s) i \<noteq> B_Done a"
    have o: "progress j q = progress j (queue s)" if "j \<noteq> i" for j
      using bk_next_others [OF Q *(2) that] by (intro progress_frame) auto
    have nc: "\<not> closing (mp_pcs (base (queue s)) i)" using closing_statement [OF I, of i] st [of i] by fastforce
    have "bk_call (phase (queue s) i) \<noteq> None"
      using test_invD(2) [OF I, of i] nc *(1,4) thread_okD [OF Q, of i]
      by (cases "phase (queue s) i") (auto simp: at_rest_def thread_ok_def split: option.splits)
    then obtain c where c: "bk_call (phase (queue s) i) = Some c" by blast
    have t: "case c of Sending m \<Rightarrow> i = w \<and> (\<exists>t. todo s i = Do_Send m # t) | Receiving _ \<Rightarrow> i = r \<and> (\<exists>m t. todo s i = Do_Recv m # t)"
      using test_invD(2) [OF I, of i] c st [of i] by (cases c) (auto simp: runs_call)
    from bk_call_effect [OF Q *(2) c] show ?thesis
      unfolding effect_def
    proof (elim disjE exE conjE)
      assume "history (base q) = history (base (queue s))" "progress i q = progress i (queue s)"
      then show ?thesis using o *(3) by (intro same) (auto, metis)
    next
      fix m
      assume e: "history (base q) = (sent (base (queue s)) @ [m], taken (base (queue s)), reads (base (queue s)))"
        "progress i (queue s) = (False, False, None)" "progress i q = (True, False, None)" "Some c = Some (Sending m)"
      then obtain x where "i = w" "todo s w = Do_Send m # x" using t by auto
      then show ?thesis using e H o [of r] wr *(3) by (auto simp: fifo_inv_def fifo_ok_def history_def)
    next
      fix y
      assume e: "history (base q) = (sent (base (queue s)), Suc (taken (base (queue s))), reads (base (queue s)))"
        "progress i (queue s) = (False, False, None)" "progress i q = (False, True, None)" "Some c = Some (Receiving y)"
      then have "i = r" using t by auto
      then show ?thesis using e H o [of w] wr *(3) by (auto simp: fifo_inv_def fifo_ok_def history_def)
    next
      fix x m y
      assume e: "history (base q) = (sent (base (queue s)), taken (base (queue s)), reads (base (queue s)) @ [(x, m)])"
        "progress i (queue s) = (False, True, None)" "progress i q = (False, False, Some m)" "Some c = Some (Receiving y)"
      then obtain v t' where i: "i = r" "todo s r = Do_Recv v # t'" using t by auto
      note L = mp_invD(3) [OF mp_inv_reach [OF bk_invD(1) [OF bk_inv_next [OF Q *(2)]]]]
      have "x \<notin> fst ` set (reads (base (queue s)))" "x < taken (base (queue s))"
        using L e(1) by (auto simp: log_ok_def history_def)
      moreover have f: "map fst (reads (base (queue s))) = [0..<length (reads (base (queue s)))]"
        "taken (base (queue s)) = Suc (length (reads (base (queue s))))"
        using H e(2) i(1) by (auto simp: fifo_ok_def)
      moreover have "fst ` set (reads (base (queue s))) = {0..<length (reads (base (queue s)))}"
        using f(1) by (metis list.set_map set_upt)
      ultimately have "x = length (reads (base (queue s)))" by auto
      then show ?thesis using e H o [of w] wr *(3) i f by (auto simp: fifo_inv_def fifo_ok_def history_def)
    qed
  next
    fix i c
    assume *: "phase (queue s) i = B_Asleep c" "s' = s\<lparr>queue := bk_goto i (B_Check c) (queue s)\<rparr>"
    have "progress j (queue s') = progress j (queue s)" for j
      using * by (intro progress_frame) auto
    then show ?thesis using *(2) by (intro same) auto
  }
qed

lemma fifo_test:
  assumes P: "pair_test w r ps" and R: "test_reach n ps s"
  shows "fifo_inv w r ps s \<and> \<not> panicked s"
  using R
proof (induction rule: test_reach.induct)
  case (start s)
  obtain q where q: "mpmc_bounded_new n = Ret q" "s = \<lparr>queue = bk_sys_new q, todo = ps, panicked = False\<rparr>"
    using start by (cases "mpmc_bounded_new n :: i32 mpmc_bounded outcome") (auto simp: test_start_def)
  then show ?case by (simp add: fifo_inv_def fifo_ok_def bk_sys_new_def mp_sys_new_def progress_def)
next
  case (step s ia s')
  then show ?case
    using fifo_step [OF P step.hyps(1)] test_panics [OF step.hyps(2)] fifo_answer [OF P step.hyps(1)] by blast
qed


section \<open>The tests\<close>

lemma test_reach_run: "run_steps test_step as s = Some s' \<Longrightarrow> test_reach n ps s \<Longrightarrow> test_reach n ps s'"
proof (induction as arbitrary: s)
  case (Cons a as)
  then show ?case by (auto split: option.splits intro: test_reach.step)
qed simp

text \<open>\<^verbatim>\<open>recv\<close> is about to sleep when the message and its wake-up come.\<close>

definition hang :: "(nat \<times> i32 bk_action) list" where
  "hang = [own 0, own 0, own 0, own 0] @ take 10 (falls_asleep 0) @ [own 1, own 1, own 1, own 1, own 1, own 1, own 1, own 1, own 1, own 1] @ [own 0, own 0]"

lemma four_buckets: "replicate 4 e = [e, e, e, e]"
  by (simp add: eval_nat_numeral)

lemma test_start_four:
  "test_start 4 ps = Ret \<lparr>queue = bk_sys_new \<lparr>stack = Map.empty, woken = [], buffer = [elem_default, elem_default, elem_default, elem_default],
     capacity = 4, read_waker = waker_default, write_waker = waker_default, mp_read_meta = push_bit 32 1, mp_write_meta = 0\<rparr>,
     todo = ps, panicked = False\<rparr>"
  by (simp add: test_start_def mpmc_bounded_new_def four_buckets)

lemma test_hang_run:
  "\<exists>s s'. test_start 4 send_recv_threads = Ret s \<and> run_steps test_step hang s = Some s' \<and>
     phase (queue s') 0 = B_Asleep (Receiving Failed) \<and> (\<forall>i. i \<noteq> 0 \<longrightarrow> at_rest i (queue s') \<and> todo s' i = []) \<and>
     todo s' 0 = [Do_Recv 1, Do_Join 1] \<and> sent (base (queue s')) = [1] \<and> taken (base (queue s')) = 0 \<and>
     lap (buffer (core (base (queue s'))) ! 0) = 1"
  unfolding test_start_four
  by (simp add: hang_def falls_asleep_def send_recv_threads_def test_step_def test_begin_def test_return_def at_rest_def bk_eval)


lemma test_hang_reach:
  "\<exists>s. test_reach 4 send_recv_threads s \<and> phase (queue s) 0 = B_Asleep (Receiving Failed) \<and>
     (\<forall>i. i \<noteq> 0 \<longrightarrow> at_rest i (queue s) \<and> todo s i = []) \<and> todo s 0 = [Do_Recv 1, Do_Join 1] \<and> sent (base (queue s)) = [1]"
  using test_hang_run test_reach_run test_reach.start by metis

lemma sends_of_replicate [simp]: "sends_of (replicate k (Do_Send m)) = replicate k m" "recvs_of (replicate k (Do_Send m)) = []"
  by (induction k) simp_all

lemma pair_tests: "pair_test 1 0 send_recv_threads" "pair_test 1 0 send_recv_threads_no_capacity"
  by (auto simp: pair_test_def send_recv_threads_def send_recv_threads_no_capacity_def)

lemma one_value_tests: "one_value 1 (mpsc_no_capacity i)" "one_value 1 (mpmc_no_capacity i)"
  by (auto simp: one_value_def mpsc_no_capacity_def mpmc_no_capacity_def list_all_iff)

lemma read_values:
  assumes I: "test_inv n s" and F: "map fst (reads (base (queue s))) = [0..<length (reads (base (queue s)))]"
  shows "map snd (reads (base (queue s))) = take (length (reads (base (queue s)))) (sent (base (queue s)))"
proof -
  let ?rs = "reads (base (queue s))" and ?ms = "sent (base (queue s))"
  note M = mp_invD [OF mp_inv_reach [OF bk_invD(1) [OF test_invD(1) [OF I]]]]
  have each: "k < length ?ms \<and> snd (?rs ! k) = ?ms ! k" if k: "k < length ?rs" for k
  proof -
    have "fst (?rs ! k) = [0..<length ?rs] ! k" using F k by (metis nth_map)
    then have "(k, snd (?rs ! k)) \<in> set ?rs" using k nth_mem [OF k] by (metis add_0 nth_upt prod.collapse)
    then show ?thesis using M(3) cells_okD(4) [OF M(1)] by (auto simp: log_ok_def)
  qed
  have "length ?rs \<le> length ?ms" using each [of "length ?rs - 1"] by (cases "length ?rs") auto
  then show ?thesis using each by (intro nth_equalityI) auto
qed

text \<open>
  C13: One thread that sends and one that receives through a bounded MPMC queue, of any capacity and
  in every schedule: what was read is a prefix of what the program sends, in order, and no assertion
  fails, that is, every \<^verbatim>\<open>send\<close> answers \<^verbatim>\<open>Ok\<close> and the \<open>k\<close>-th \<^verbatim>\<open>recv\<close> answers the
  \<open>k\<close>-th message.
\<close>

theorem blocking_fifo:
  assumes "pair_test w r ps" and "test_reach n ps s"
  shows "\<not> panicked s \<and> (\<exists>rest. map snd (reads (base (queue s))) @ rest = sends_of (ps w))"
proof -
  note F = fifo_test [OF assms, unfolded fifo_inv_def fifo_ok_def]
  have "map snd (reads (base (queue s))) = take (length (reads (base (queue s)))) (sent (base (queue s)))"
    by (rule read_values [OF test_inv_reach [OF assms(2)]]) (use F in blast)
  moreover have "\<exists>more_ms. sent (base (queue s)) @ more_ms = sends_of (ps w)" using F by blast
  ultimately have "\<exists>rest. map snd (reads (base (queue s))) @ rest = sends_of (ps w)"
    by (metis append.assoc append_take_drop_id)
  then show ?thesis using F by blast
qed

lemma blocking_fifo_witness:
  "\<exists>s. test_reach 4 send_recv_threads s \<and> sent (base (queue s)) = [1] \<and> \<not> panicked s \<and>
     (\<exists>rest. map snd (reads (base (queue s))) @ rest = [1])"
proof -
  obtain s where s: "test_reach 4 send_recv_threads s" "sent (base (queue s)) = [1]" using test_hang_reach by blast
  from blocking_fifo [OF pair_tests(1) s(1)] s show ?thesis by (auto simp: send_recv_threads_def)
qed

text \<open>
  C14: The unit tests with threads that share a bounded MPMC queue: in every schedule no assertion
  fails, in \<^verbatim>\<open>send_recv_threads\<close> and \<^verbatim>\<open>send_recv_threads_no_capacity\<close>, in
  \<^verbatim>\<open>mpsc_no_capacity\<close> with its seven times 30000 messages and in \<^verbatim>\<open>mpmc_no_capacity\<close> with
  seven times 50000, and in \<^verbatim>\<open>send_close_gets_none\<close>, where moreover some thread can always make
  a step until all have ended.
\<close>

theorem thread_tests_pass:
  "(test_reach 4 send_recv_threads s \<longrightarrow> \<not> panicked s) \<and>
   (test_reach 0 send_recv_threads_no_capacity s \<longrightarrow> \<not> panicked s) \<and>
   (test_reach 0 mpsc_no_capacity s \<longrightarrow> \<not> panicked s) \<and>
   (test_reach 0 mpmc_no_capacity s \<longrightarrow> \<not> panicked s) \<and>
   (test_reach 1 send_close_gets_none s \<longrightarrow> \<not> panicked s \<and>
      ((\<forall>i. test_step (i, B_Step False) s = None) \<longrightarrow> (\<forall>i. at_rest i (queue s) \<and> todo s i = [])))"
proof (intro conjI impI)
  show "test_reach 4 send_recv_threads s \<Longrightarrow> \<not> panicked s" using fifo_test [OF pair_tests(1)] by blast
  show "test_reach 0 send_recv_threads_no_capacity s \<Longrightarrow> \<not> panicked s" using fifo_test [OF pair_tests(2)] by blast
  show "test_reach 0 mpsc_no_capacity s \<Longrightarrow> \<not> panicked s" using one_value_test [of 0 mpsc_no_capacity s 1] one_value_tests(1) by blast
  show "test_reach 0 mpmc_no_capacity s \<Longrightarrow> \<not> panicked s" using one_value_test [of 0 mpmc_no_capacity s 1] one_value_tests(2) by blast
  show "test_reach 1 send_close_gets_none s \<Longrightarrow> \<not> panicked s"
    using no_sends_test [of 1 send_close_gets_none s] by (simp add: send_close_gets_none_def no_sends_def)
  show "\<forall>i. at_rest i (queue s) \<and> todo s i = []"
    if "test_reach 1 send_close_gets_none s" "\<forall>i. test_step (i, B_Step False) s = None"
    using send_close_goes_on [OF that(1)] that(2) by blast
qed

lemma thread_tests_pass_witness:
  "(\<exists>s. test_reach 4 send_recv_threads s \<and> sent (base (queue s)) = [1] \<and> \<not> panicked s) \<and>
   (\<exists>s. test_reach 1 send_close_gets_none s \<and> todo s 1 = [Do_Recv_Err] \<and> \<not> panicked s)"
proof
  obtain s where s: "test_reach 4 send_recv_threads s" "sent (base (queue s)) = [1]" using test_hang_reach by blast
  then show "\<exists>s. test_reach 4 send_recv_threads s \<and> sent (base (queue s)) = [1] \<and> \<not> panicked s"
    using thread_tests_pass [of s] by blast
  obtain s where s: "test_start 1 send_close_gets_none = Ret s" by (simp add: test_start_def mpmc_bounded_new_def)
  then show "\<exists>s. test_reach 1 send_close_gets_none s \<and> todo s 1 = [Do_Recv_Err] \<and> \<not> panicked s"
    using thread_tests_pass [of s] test_reach.start [OF s] test_inv_start(2) [OF s] by (auto simp: send_close_gets_none_def)
qed

text \<open>
  C15: The test \<^verbatim>\<open>send_recv_threads\<close> can hang: there is a schedule of ordinary steps after which
  \<^verbatim>\<open>main\<close> sleeps in \<^verbatim>\<open>recv\<close> although the message is in its bucket, the other thread has
  ended, and no thread can make a step: only a spurious wake-up is left.
\<close>

theorem send_recv_test_can_hang:
  "\<exists>s0 as s. test_start 4 send_recv_threads = Ret s0 \<and> list_all (\<lambda>(i, a). \<exists>b. a = B_Step b) as \<and>
     run_steps test_step as s0 = Some s \<and> phase (queue s) 0 = B_Asleep (Receiving Failed) \<and>
     sent (base (queue s)) = [1] \<and> taken (base (queue s)) = 0 \<and> lap (buffer (core (base (queue s))) ! 0) = 1 \<and>
     todo s 1 = [] \<and> (\<forall>i b. test_step (i, B_Step b) s = None)"
proof -
  obtain s0 s where s: "test_start 4 send_recv_threads = Ret s0" "run_steps test_step hang s0 = Some s"
    "phase (queue s) 0 = B_Asleep (Receiving Failed)" "\<forall>i. i \<noteq> 0 \<longrightarrow> at_rest i (queue s) \<and> todo s i = []"
    "todo s 0 = [Do_Recv 1, Do_Join 1]" "sent (base (queue s)) = [1]" "taken (base (queue s)) = 0"
    "lap (buffer (core (base (queue s))) ! 0) = 1" using test_hang_run by blast
  have I: "test_inv 4 s" by (rule test_inv_reach [OF test_reach_run [OF s(2) test_reach.start [OF s(1)]]])
  have W: "waits (phase (queue s) 0) = Some (Receiving Failed)" by (simp add: s(3))
  obtain w where w: "mp_pcs (base (queue s)) 0 = Out" by (rule waiting_out [OF test_invD(1) [OF I] W])
  have "test_step (i, B_Step b) s = None" for i b
    using s(3,4) w by (cases "i = 0") (auto simp: test_step_def test_begin_def at_rest_def bk_next_def bk_waiting_def)
  moreover have "list_all (\<lambda>(i, a). \<exists>b. a = B_Step b) hang" by (auto simp: hang_def falls_asleep_def)
  moreover have "todo s 1 = []" using s(4) by simp
  ultimately show ?thesis using s by blast
qed

end
