(* ===== verification/Spec2Isabelle.thy ===== *)
theory Spec2Isabelle
  imports Handle_Properties Linear_Properties Equivalence_Properties Unbounded_Steps_Properties Sync_Properties Single_Properties
    Channel_Tests Group_Tests Thread_Tests
begin

text \<open>
  A verification development of the Rust crate \<^verbatim>\<open>omango\<close>: bounded and unbounded queues used as
  channels, a wait group, and two groups that run user functions.

  \<^bold>\<open>The program and the theories.\<close> The crate has four layers; each is imported by the next.

    \<^item> \<^verbatim>\<open>src/src/error.rs\<close> and \<^verbatim>\<open>src/src/queue/state.rs\<close>: the error types and the states that
      the select functions answer. Theory \<^verbatim>\<open>Errors\<close>.
    \<^item> \<^verbatim>\<open>src/src/queue/elem.rs\<close> and \<^verbatim>\<open>src/src/queue/waker.rs\<close>: a bucket with its lap and its
      message cell (theory \<^verbatim>\<open>Elem\<close>); waiters, which live on the stack of a blocked thread, and
      wakers, which list them (theory \<^verbatim>\<open>Waker\<close>; the order in which the blocking calls use a waker
      is the relation of \<^verbatim>\<open>Waker_Protocol\<close>).
    \<^item> \<^verbatim>\<open>src/src/queue/bounded.rs\<close>: the trait \<^verbatim>\<open>Bounded\<close> with its default methods
      \<^verbatim>\<open>try_send\<close>, \<^verbatim>\<open>try_recv\<close>, \<^verbatim>\<open>send\<close> and \<^verbatim>\<open>recv\<close> over a record of the
      implementor's methods (theory \<^verbatim>\<open>Bounded\<close>), and the implementors \<^verbatim>\<open>SpscBounded\<close> and
      \<^verbatim>\<open>MpmcBounded\<close> (theories \<^verbatim>\<open>Spsc_Bounded\<close> and \<^verbatim>\<open>Mpmc_Bounded\<close>).
      \<^verbatim>\<open>src/src/queue/unbounded.rs\<close>: linked nodes that hold a bounded queue each, over a heap of
      nodes (\<^verbatim>\<open>Nodes\<close>, \<^verbatim>\<open>Spsc_Unbounded\<close>, \<^verbatim>\<open>Mpmc_Unbounded\<close>).
      \<^verbatim>\<open>src/src/queue/spsc.rs\<close> and \<^verbatim>\<open>src/src/queue/mpmc.rs\<close>: the public senders and
      receivers: their methods (\<^verbatim>\<open>Channel\<close>), and how they are made, cloned and dropped
      (\<^verbatim>\<open>Handles\<close>).
    \<^item> \<^verbatim>\<open>src/src/wg.rs\<close> (\<^verbatim>\<open>Wait_Group\<close>), and the two groups that wait on it:
      \<^verbatim>\<open>src/src/single/source.rs\<close> (\<^verbatim>\<open>Source\<close>) and \<^verbatim>\<open>src/src/single/flight.rs\<close>
      (\<^verbatim>\<open>Flight\<close>).

  \<^bold>\<open>How code is modelled.\<close> A struct is a record, an enum a datatype, \<^verbatim>\<open>u32\<close> and
  \<^verbatim>\<open>u64\<close> are words that wrap around. A method is a function from the state to a
  \<^typ>\<open>'a outcome option\<close>: \<^term>\<open>Ret\<close> a value, \<^term>\<open>Panic\<close>, or \<^term>\<open>Undef\<close> for undefined
  behaviour (an unchecked index out of range, an uninitialised message cell, a dangling pointer);
  \<^term>\<open>None\<close> is a call that does not return. Loops without a bound are \<^verbatim>\<open>partial_function\<close>s, so
  that returning is a theorem. Two views of concurrency are used.

    \<^item> In the sequential view a call runs against a record \<^typ>\<open>'q runtime\<close> (theory \<^verbatim>\<open>Prelude\<close>):
      each pause of a spinning or sleeping thread gives the other threads a turn, which may change
      the state in any way; the back-off and spurious failures of \<^verbatim>\<open>compare_exchange_weak\<close> are
      answers of the runtime. The whole of the queue code is modelled this way.
    \<^item> In the interleaved view a call is cut at its atomic accesses, and a step relation interleaves
      any number of threads: \<^verbatim>\<open>Mpmc_Steps\<close>, \<^verbatim>\<open>Mpmc_Progress\<close> and \<^verbatim>\<open>Spsc_Steps\<close> for the
      non-blocking calls of the bounded queues, over the invariant of the buckets in \<^verbatim>\<open>Cells\<close>;
      \<^verbatim>\<open>Blocking_Steps\<close> for all calls of the MPMC queue, \<^verbatim>\<open>send\<close> and \<^verbatim>\<open>recv\<close> included,
      which adds the waiters, the wakers and the futex to \<^verbatim>\<open>Mpmc_Steps\<close> (its invariant is in
      \<^verbatim>\<open>Blocking_Invariant\<close>, what a step does to its call and to the history in
      \<^verbatim>\<open>Blocking_Calls\<close>);
      \<^verbatim>\<open>Spsc_Unbounded_Steps\<close> and \<^verbatim>\<open>Mpmc_Unbounded_Steps\<close> for the pointers of the linked
      nodes, where a call on the queue of a node is one step (\<^verbatim>\<open>Schedules\<close> holds the rules about
      runs); \<^verbatim>\<open>Parking\<close> for a thread that blocks and the threads that wake it; \<^verbatim>\<open>Waker_Protocol\<close>, and
      the step relations in \<^verbatim>\<open>Wait_Group\<close>, \<^verbatim>\<open>Source\<close> and \<^verbatim>\<open>Flight\<close>.

  \<^bold>\<open>What is proved.\<close>

    \<^item> \<^verbatim>\<open>Tickets\<close> numbers the messages of a ring: message \<open>k\<close> goes through bucket \<open>k mod c\<close> on lap
      \<open>2 * (k div c)\<close>. \<^verbatim>\<open>Contract\<close> is the locale of what an implementor owes to the trait;
      \<^verbatim>\<open>Blocking\<close> and \<^verbatim>\<open>Fifo\<close> prove inside it that blocking calls return once they are helped
      and that every sequence of calls is answered as the FIFO list \<^verbatim>\<open>fifo_step\<close> answers it. Both
      implementors interpret it. \<^verbatim>\<open>Chain\<close> and \<^verbatim>\<open>Closing\<close> do the same for chains of nodes and
      lists without a bound.
    \<^item> \<^verbatim>\<open>Bounded_Properties\<close> and \<^verbatim>\<open>Unbounded_Properties\<close> state the results over the public
      functions: refinement of the list, conservation of messages, wake-ups, closing, the values of
      \<^verbatim>\<open>length\<close>, overflow of laps, dropping.
    \<^item> \<^verbatim>\<open>Handle_Properties\<close>: clones share one core, which lives as long as one of them.
    \<^item> \<^verbatim>\<open>Steps_Properties\<close>: in every interleaving no bucket is shared, no message is lost or
      duplicated, the answers mean what they say, and a call that runs alone ends within eight steps;
      for the SPSC queue with one sender and one receiver, and what two senders do to it.
    \<^item> \<^verbatim>\<open>Blocking_Steps_Properties\<close>: the blocking calls of the MPMC queue, in every interleaving,
      move the queue as the non-blocking ones do and leave no waiter behind; what their answers mean;
      \<^verbatim>\<open>close\<close> wakes every sleeper; only the futex blocks a thread.
    \<^item> \<^verbatim>\<open>Linear\<close> says what it means that concurrent calls behave like calls made one at a time,
      with a locale for step relations whose calls take effect at known moments; \<^verbatim>\<open>Spsc_Linear\<close>
      and \<^verbatim>\<open>Mpmc_Linear\<close> interpret it, and \<^verbatim>\<open>Linear_Properties\<close> states the results: the SPSC
      queue is linearizable, the MPMC queue is up to refusals without a reason, and not otherwise.
    \<^item> \<^verbatim>\<open>Equivalence_Properties\<close>: the four queues agree while they have room.
    \<^item> \<^verbatim>\<open>Unbounded_Steps_Properties\<close>: in every interleaving of a sender and a receiver the nodes of
      an unbounded SPSC queue are used only while they are allocated; the same for any number of
      threads of an unbounded MPMC queue within its first node; and the schedules that touch freed
      nodes beyond that.
    \<^item> \<^verbatim>\<open>Sync_Properties\<close> and \<^verbatim>\<open>Parking\<close>: the invariant of the waker, the wait group, where a
      wake-up can be lost and why not elsewhere.
    \<^item> \<^verbatim>\<open>Single_Properties\<close>: the two groups of \<^verbatim>\<open>src/src/single\<close>.
    \<^item> \<^verbatim>\<open>Channel_Tests\<close> and \<^verbatim>\<open>Group_Tests\<close>: the crate's unit tests as programs over the models.
      The tests \<^verbatim>\<open>send_recv\<close> and \<^verbatim>\<open>send_shared_recv\<close> of both queue modules keep their
      assertions and end in undefined behaviour when the handles go; the tests of \<^verbatim>\<open>wg.rs\<close>
      and of the two groups are taken in every schedule of their two threads: one can hang and
      one can fail.
    \<^item> \<^verbatim>\<open>Thread_Tests\<close>: the tests of \<^verbatim>\<open>mpmc.rs\<close> whose threads share a bounded queue, as
      programs of these threads over \<^verbatim>\<open>Blocking_Steps\<close>: no assertion fails in any schedule, the
      messages of one sender reach one receiver in order, and one test can hang by a lost wake-up.

  \<^bold>\<open>Bounds.\<close> A cursor packs a 32-bit lap and a 32-bit index, the lap grows by two per round, and its
  top bit is the closed mark of the MPMC queue: the results hold for the first \<open>2 ^ 30 * c\<close> messages
  of a queue of capacity \<open>c\<close> (\<^verbatim>\<open>in_budget\<close>), and what happens beyond is a theorem of its own.
  Node addresses of the unbounded queues are natural numbers and never run out; the FIFO results for
  them hold for \<open>2 ^ 40\<close> sends, \<open>2 ^ 30\<close> rounds of 1024 buckets.

  \<^bold>\<open>Not modelled.\<close> Memory orderings (all atomic accesses are sequentially consistent); the crates
  \<^verbatim>\<open>omango_util\<close> and \<^verbatim>\<open>omango_futex\<close>, whose back-off, cache padding, branch hints and futex
  are not in the repository and appear only as the runtime and as the lists of woken waiters; the
  mutex of a waker and the lock of a map, which are other crates' and make a critical section one
  step; marker implementations of \<^verbatim>\<open>Send\<close>, \<^verbatim>\<open>Sync\<close> and \<^verbatim>\<open>Error\<close>, and the unit tests that
  only check them; the blocking calls of the SPSC queue and of the unbounded queues cut at their
  accesses, and so the unit tests with threads of \<^verbatim>\<open>spsc.rs\<close> and the unbounded halves of those
  of \<^verbatim>\<open>mpmc.rs\<close> (their calls are the subject of the sequential view, and the nodes of the
  interleaved one); the benchmarks and the module declarations.
\<close>

end
